(* ===== verification/Prelude.thy ===== *)
theory Prelude
  imports Main "HOL-Library.Word"
begin

text \<open>
  Shared vocabulary of the development.

  \<^item> Machine types: bytes, and the unsigned integers \<open>u16\<close>, \<open>u32\<close>, \<open>u64\<close>, \<open>u128\<close> of the
    source as words of their width.
  \<^item> \<open>res\<close>: the outcome of a Rust function. \<open>Ok\<close> and \<open>Err\<close> are the two constructors of
    \<open>Result\<close>; \<open>Panic\<close> is an index out of range, a slice length mismatch or a failed
    \<open>expect\<close>. \<open>rbind\<close> is the \<open>?\<close> operator.
  \<^item> Slices: \<open>slice\<close> is \<open>\&bytes[a..b]\<close>, \<open>put\<close> is \<open>bytes[a..b].copy_from_slice(src)\<close>,
    \<open>fill\<close> is \<open>bytes[a..b].fill(v)\<close>, each with the panic of the standard library. \<open>sub\<close> and
    \<open>patch\<close> are their total counterparts, on which the algebra is stated.
  \<^item> Little-endian integers (\<open>le_split\<close>, \<open>le_join\<close>: \<open>to_le_bytes\<close>, \<open>from_le_bytes\<close>) and the
    interface \<open>byte_field\<close> of a fixed-width field.
  \<^item> \<open>chunks\<close> and \<open>windows2\<close>, the slice iterators the source uses.
\<close>

unbundle bit_operations_syntax

section \<open>Machine types\<close>

type_synonym byte = "8 word"
type_synonym u16 = "16 word"
type_synonym u32 = "32 word"
type_synonym u64 = "64 word"
type_synonym u128 = "128 word"

named_theorems slice_simps \<open>reading back what slice writes stored\<close>
named_theorems res_simps \<open>evaluation of outcomes\<close>

section \<open>Outcomes\<close>

datatype ('e, 'a) res = Ok 'a | Err 'e | Panic

fun rbind :: "('e, 'a) res \<Rightarrow> ('a \<Rightarrow> ('e, 'b) res) \<Rightarrow> ('e, 'b) res" where
  "rbind (Ok a) f = f a"
| "rbind (Err e) f = Err e"
| "rbind Panic f = Panic"

fun map_err :: "('e \<Rightarrow> 'f) \<Rightarrow> ('e, 'a) res \<Rightarrow> ('f, 'a) res" where
  "map_err g (Ok a) = Ok a"
| "map_err g (Err e) = Err (g e)"
| "map_err g Panic = Panic"

fun of_option :: "'e \<Rightarrow> 'a option \<Rightarrow> ('e, 'a) res" where
  "of_option e None = Err e"
| "of_option e (Some a) = Ok a"

fun expect :: "'a option \<Rightarrow> ('e, 'a) res" where
  "expect None = Panic"
| "expect (Some a) = Ok a"

fun is_ok :: "('e, 'a) res \<Rightarrow> bool" where
  "is_ok (Ok _) = True"
| "is_ok (Err _) = False"
| "is_ok Panic = False"

fun unwrap :: "('e, 'a) res \<Rightarrow> ('f, 'a) res" where
  "unwrap (Ok a) = Ok a"
| "unwrap (Err _) = Panic"
| "unwrap Panic = Panic"

lemma rbind_cong [fundef_cong]:
  "x = y \<Longrightarrow> (\<And>a. y = Ok a \<Longrightarrow> f a = g a) \<Longrightarrow> rbind x f = rbind y g"
  by (cases y) auto

lemma rbind_Ok_iff [res_simps]: "rbind x f = Ok b \<longleftrightarrow> (\<exists>a. x = Ok a \<and> f a = Ok b)"
  by (cases x) auto

lemma rbind_Err_iff [res_simps]:
  "rbind x f = Err e \<longleftrightarrow> x = Err e \<or> (\<exists>a. x = Ok a \<and> f a = Err e)"
  by (cases x) auto

lemma rbind_Panic_iff [res_simps]:
  "rbind x f = Panic \<longleftrightarrow> x = Panic \<or> (\<exists>a. x = Ok a \<and> f a = Panic)"
  by (cases x) auto

lemma rbind_assoc: "rbind (rbind x f) g = rbind x (\<lambda>a. rbind (f a) g)"
  by (cases x) auto

lemma rbind_no_panic:
  "x \<noteq> Panic \<Longrightarrow> (\<And>a. x = Ok a \<Longrightarrow> f a \<noteq> Panic) \<Longrightarrow> rbind x f \<noteq> Panic"
  by (cases x) auto

lemma map_err_Ok_iff [simp]: "map_err g x = Ok a \<longleftrightarrow> x = Ok a"
  by (cases x) auto

lemma map_err_Panic_iff [simp]: "map_err g x = Panic \<longleftrightarrow> x = Panic"
  by (cases x) auto

lemma map_err_Err_iff [simp]: "map_err g x = Err e \<longleftrightarrow> (\<exists>e'. x = Err e' \<and> e = g e')"
  by (cases x) auto

lemma of_option_Ok_iff [simp]: "of_option e x = Ok a \<longleftrightarrow> x = Some a"
  by (cases x) auto

lemma of_option_no_panic [simp]: "of_option e x \<noteq> Panic"
  by (cases x) auto

lemma expect_Ok_iff [simp]: "expect x = Ok a \<longleftrightarrow> x = Some a"
  by (cases x) auto

lemma expect_Panic_iff [simp]: "expect x = Panic \<longleftrightarrow> x = None"
  by (cases x) auto

lemma expect_no_err [simp]: "expect x \<noteq> Err e"
  by (cases x) auto

lemma is_ok_iff: "is_ok x \<longleftrightarrow> (\<exists>a. x = Ok a)"
  by (cases x) auto

fun traverse :: "('a \<Rightarrow> ('e, 'b) res) \<Rightarrow> 'a list \<Rightarrow> ('e, 'b list) res" where
  "traverse f [] = Ok []"
| "traverse f (x # xs) = rbind (f x) (\<lambda>y. rbind (traverse f xs) (\<lambda>ys. Ok (y # ys)))"

lemma traverse_Ok_iff: "traverse f xs = Ok ys \<longleftrightarrow> map f xs = map Ok ys"
proof (induction xs arbitrary: ys)
  case Nil
  then show ?case by auto
next
  case (Cons x xs)
  then show ?case by (cases ys) (auto simp: rbind_Ok_iff)
qed

lemma traverse_map: "(\<And>x. x \<in> set xs \<Longrightarrow> f x = Ok (g x)) \<Longrightarrow> traverse f xs = Ok (map g xs)"
  by (simp add: traverse_Ok_iff)

section \<open>Slices\<close>

definition sub :: "'a list \<Rightarrow> nat \<Rightarrow> nat \<Rightarrow> 'a list" where
  "sub xs a n = take n (drop a xs)"

definition patch :: "'a list \<Rightarrow> nat \<Rightarrow> 'a list \<Rightarrow> 'a list" where
  "patch xs a ys = take a xs @ ys @ drop (a + length ys) xs"

definition slice :: "'a list \<Rightarrow> nat \<Rightarrow> nat \<Rightarrow> ('e, 'a list) res" where
  "slice xs a b = (if a \<le> b \<and> b \<le> length xs then Ok (sub xs a (b - a)) else Panic)"

definition get_to :: "'a list \<Rightarrow> nat \<Rightarrow> 'a list option" where
  "get_to xs n = (if n \<le> length xs then Some (take n xs) else None)"

definition index :: "'a list \<Rightarrow> nat \<Rightarrow> ('e, 'a) res" where
  "index xs i = (if i < length xs then Ok (xs ! i) else Panic)"

definition put :: "'a list \<Rightarrow> nat \<Rightarrow> nat \<Rightarrow> 'a list \<Rightarrow> ('e, 'a list) res" where
  "put xs a b ys =
     (if a \<le> b \<and> b \<le> length xs \<and> length ys = b - a then Ok (patch xs a ys) else Panic)"

definition index_put :: "'a list \<Rightarrow> nat \<Rightarrow> 'a \<Rightarrow> ('e, 'a list) res" where
  "index_put xs i v = (if i < length xs then Ok (xs[i := v]) else Panic)"

definition fill :: "'a list \<Rightarrow> nat \<Rightarrow> nat \<Rightarrow> 'a \<Rightarrow> ('e, 'a list) res" where
  "fill xs a b v =
     (if a \<le> b \<and> b \<le> length xs then Ok (patch xs a (replicate (b - a) v)) else Panic)"

definition all_zero :: "byte list \<Rightarrow> bool" where
  "all_zero bs \<longleftrightarrow> list_all (\<lambda>b. b = 0) bs"

lemma length_sub [simp]: "length (sub xs a n) = min n (length xs - a)"
  by (simp add: sub_def)

lemma length_patch [simp]: "a + length ys \<le> length xs \<Longrightarrow> length (patch xs a ys) = length xs"
  by (simp add: patch_def)

lemma slice_Ok [simp]: "a \<le> b \<Longrightarrow> b \<le> length xs \<Longrightarrow> slice xs a b = Ok (sub xs a (b - a))"
  by (simp add: slice_def)

lemma slice_Ok_iff [res_simps]:
  "slice xs a b = Ok ys \<longleftrightarrow> a \<le> b \<and> b \<le> length xs \<and> ys = sub xs a (b - a)"
  by (auto simp: slice_def)

lemma slice_no_err [simp]: "slice xs a b \<noteq> Err e"
  by (simp add: slice_def)

lemma slice_Panic_iff [res_simps]: "slice xs a b = Panic \<longleftrightarrow> \<not> (a \<le> b \<and> b \<le> length xs)"
  by (simp add: slice_def)

lemma index_Ok [simp]: "i < length xs \<Longrightarrow> index xs i = Ok (xs ! i)"
  by (simp add: index_def)

lemma index_Ok_iff [res_simps]: "index xs i = Ok y \<longleftrightarrow> i < length xs \<and> y = xs ! i"
  by (auto simp: index_def)

lemma index_Panic_iff [res_simps]: "index xs i = Panic \<longleftrightarrow> length xs \<le> i"
  by (simp add: index_def)

lemma index_no_err [simp]: "index xs i \<noteq> Err e"
  by (simp add: index_def)

lemma put_Ok [simp]:
  "a \<le> b \<Longrightarrow> b \<le> length xs \<Longrightarrow> length ys = b - a \<Longrightarrow> put xs a b ys = Ok (patch xs a ys)"
  by (simp add: put_def)

lemma index_put_Ok [simp]: "i < length xs \<Longrightarrow> index_put xs i v = Ok (patch xs i [v])"
  by (simp add: index_put_def patch_def upd_conv_take_nth_drop)

lemma fill_Ok [simp]:
  "a \<le> b \<Longrightarrow> b \<le> length xs \<Longrightarrow> fill xs a b v = Ok (patch xs a (replicate (b - a) v))"
  by (simp add: fill_def)

lemma get_to_Some [simp]: "n \<le> length xs \<Longrightarrow> get_to xs n = Some (take n xs)"
  by (simp add: get_to_def)

lemma get_to_Some_iff: "get_to xs n = Some ys \<longleftrightarrow> n \<le> length xs \<and> ys = take n xs"
  by (auto simp: get_to_def)

lemma get_to_None_iff: "get_to xs n = None \<longleftrightarrow> length xs < n"
  by (simp add: get_to_def)

subsection \<open>The algebra of reads and writes\<close>

lemma nth_sub: "i < n \<Longrightarrow> a + i < length xs \<Longrightarrow> sub xs a n ! i = xs ! (a + i)"
  by (simp add: sub_def)

lemma nth_patch:
  "a + length ys \<le> length xs \<Longrightarrow> i < length xs \<Longrightarrow>
   patch xs a ys ! i = (if a \<le> i \<and> i < a + length ys then ys ! (i - a) else xs ! i)"
  by (auto simp: patch_def nth_append)

lemma sub_eqI:
  assumes "length xs = length ys"
    and "\<And>i. a \<le> i \<Longrightarrow> i < a + n \<Longrightarrow> i < length xs \<Longrightarrow> xs ! i = ys ! i"
  shows "sub xs a n = sub ys a n"
  using assms by (intro nth_equalityI) (auto simp: nth_sub)

lemma sub_patch_same [slice_simps]:
  "a + length ys \<le> length xs \<Longrightarrow> n = length ys \<Longrightarrow> sub (patch xs a ys) a n = ys"
  by (intro nth_equalityI) (auto simp: nth_sub nth_patch)

lemma sub_patch_before [slice_simps]:
  "b + n \<le> a \<Longrightarrow> a + length ys \<le> length xs \<Longrightarrow> sub (patch xs a ys) b n = sub xs b n"
  by (rule sub_eqI) (auto simp: nth_patch)

lemma sub_patch_after [slice_simps]:
  "a + length ys \<le> b \<Longrightarrow> a + length ys \<le> length xs \<Longrightarrow> sub (patch xs a ys) b n = sub xs b n"
  by (rule sub_eqI) (auto simp: nth_patch)

lemma sub_patch_inside [slice_simps]:
  "a \<le> b \<Longrightarrow> b + n \<le> a + length ys \<Longrightarrow> a + length ys \<le> length xs \<Longrightarrow>
   sub (patch xs a ys) b n = sub ys (b - a) n"
  by (intro nth_equalityI) (auto simp: nth_sub nth_patch)

lemma sub_sub: "i + m \<le> n \<Longrightarrow> sub (sub xs a n) i m = sub xs (a + i) m"
  by (simp add: sub_def drop_take add.commute min_absorb1)

lemma sub_take: "a + n \<le> m \<Longrightarrow> sub (take m xs) a n = sub xs a n"
  by (simp add: sub_def drop_take min_absorb1)

lemma sub_drop: "sub (drop m xs) a n = sub xs (m + a) n"
  by (simp add: sub_def add.commute)

lemma sub_zero [simp]: "sub xs 0 n = take n xs"
  by (simp add: sub_def)

lemma sub_empty [simp]: "sub xs a 0 = []"
  by (simp add: sub_def)

lemma sub_all: "n = length xs - a \<Longrightarrow> sub xs a n = drop a xs"
  by (simp add: sub_def)

lemma sub_append_sub: "sub xs a m @ sub xs (a + m) n = sub xs a (m + n)"
  by (simp add: sub_def take_add add.commute)

lemma sub_join: "b = a + m \<Longrightarrow> sub xs a m @ sub xs b n = sub xs a (m + n)"
  by (simp add: sub_append_sub)

lemma take_join: "take a xs @ sub xs a n = take (a + n) xs"
  by (simp add: sub_def take_add)

lemma sub_drop_join: "sub xs a n @ drop (a + n) xs = drop a xs"
  using append_take_drop_id [of n "drop a xs"] by (simp add: sub_def add.commute)

lemma drop_take_sub: "a \<le> b \<Longrightarrow> drop a (take b xs) = sub xs a (b - a)"
  by (simp add: sub_def drop_take)

lemma sub_append_left: "a + n \<le> length xs \<Longrightarrow> sub (xs @ ys) a n = sub xs a n"
  by (simp add: sub_def)

lemma sub_append_right: "length xs \<le> a \<Longrightarrow> sub (xs @ ys) a n = sub ys (a - length xs) n"
  by (simp add: sub_def)

lemma sub_replicate [simp]: "sub (replicate m v) a n = replicate (min n (m - a)) v"
  by (simp add: sub_def)

lemma patch_Nil [simp]: "a \<le> length xs \<Longrightarrow> patch xs a [] = xs"
  by (simp add: patch_def)

lemma take_patch_after [slice_simps]:
  "n \<le> a \<Longrightarrow> a + length ys \<le> length xs \<Longrightarrow> take n (patch xs a ys) = take n xs"
  by (simp add: patch_def min_absorb1)

lemma take_patch_zero [slice_simps]: "n = length ys \<Longrightarrow> take n (patch xs 0 ys) = ys"
  by (simp add: patch_def)

lemma drop_patch [slice_simps]:
  "a + length ys \<le> n \<Longrightarrow> a + length ys \<le> length xs \<Longrightarrow> drop n (patch xs a ys) = drop n xs"
  by (simp add: patch_def)

lemma patch_whole: "length ys = length xs \<Longrightarrow> patch xs 0 ys = ys"
  by (simp add: patch_def)

lemma all_zero_replicate [simp]: "all_zero (replicate n 0)"
  by (simp add: all_zero_def list_all_length)

lemma all_zero_Nil [simp]: "all_zero []"
  by (simp add: all_zero_def)

lemma all_zero_append [simp]: "all_zero (xs @ ys) \<longleftrightarrow> all_zero xs \<and> all_zero ys"
  by (simp add: all_zero_def)

lemma all_zero_eq: "length xs = n \<Longrightarrow> all_zero xs \<longleftrightarrow> xs = replicate n 0"
  by (induction xs arbitrary: n) (auto simp: all_zero_def)

lemma all_zero_iff_replicate: "all_zero xs \<longleftrightarrow> xs = replicate (length xs) 0"
  by (induction xs) (auto simp: all_zero_def)

section \<open>Words\<close>

lemma xor_cancel: "(r XOR t = s XOR t) \<longleftrightarrow> r = (s :: 'a::len word)"
  by (auto simp: bit_eq_iff bit_xor_iff)

lemma xor_cancel_left: "(t XOR r = t XOR s) \<longleftrightarrow> r = (s :: 'a::len word)"
  by (auto simp: bit_eq_iff bit_xor_iff)

lemma u32_less: "unat (w :: u32) < 2 ^ 32"
  using unsigned_less [of w, where 'a = nat] by simp

lemma u64_less: "unat (w :: u64) < 2 ^ 64"
  using unsigned_less [of w, where 'a = nat] by simp

lemma unat_u32: "n < 2 ^ 32 \<Longrightarrow> unat (of_nat n :: u32) = n"
  by (simp add: unat_of_nat)

lemma unat_u64: "n < 2 ^ 64 \<Longrightarrow> unat (of_nat n :: u64) = n"
  by (simp add: unat_of_nat)

lemma unat_add_u32: "unat a + unat b < 2 ^ 32 \<Longrightarrow> unat (a + b) = unat a + unat (b :: u32)"
  by (simp add: unat_word_ariths)

section \<open>Little-endian integers\<close>

fun le_split :: "nat \<Rightarrow> 'a::len word \<Rightarrow> byte list" where
  "le_split 0 w = []"
| "le_split (Suc n) w = ucast w # le_split n (drop_bit 8 w)"

fun le_join :: "byte list \<Rightarrow> 'a::len word" where
  "le_join [] = 0"
| "le_join (b # bs) = ucast b OR push_bit 8 (le_join bs)"

lemma length_le_split [simp]: "length (le_split n w) = n"
  by (induction n arbitrary: w) auto

lemma le_split_numeral: "le_split (numeral n) w = ucast w # le_split (pred_numeral n) (drop_bit 8 w)"
  by (simp add: numeral_eq_Suc)

lemma le_join_le_split_take: "le_join (le_split n w) = take_bit (8 * n) w"
proof (induction n arbitrary: w)
  case 0
  then show ?case by simp
next
  case (Suc n)
  show ?case
    by (rule bit_word_eqI) (auto simp: Suc bit_simps not_less)
qed

lemma le_join_le_split [simp]:
  fixes w :: "'a::len word"
  assumes "LENGTH('a) \<le> 8 * n"
  shows "le_join (le_split n w) = w"
  using assms by (simp add: le_join_le_split_take take_bit_word_eq_self)

lemma take_bit_le_join: "8 * length bs \<le> n \<Longrightarrow> take_bit n (le_join bs) = le_join bs"
proof (induction bs arbitrary: n)
  case Nil
  then show ?case by simp
next
  case (Cons b bs)
  have bound: "take_bit (8 * length bs) (le_join bs) = (le_join bs :: 'a word)"
    by (rule Cons.IH) simp
  have small: "\<not> bit (le_join bs :: 'a word) (k - 8)" if "n \<le> k" for k
    using Cons.prems that by (subst bound [symmetric]) (auto simp: bit_simps)
  show ?case
    using Cons.prems small by (intro bit_word_eqI)
      (auto simp: bit_simps not_less dest: bit_imp_le_length)
qed

lemma le_split_le_join:
  assumes "8 * length bs \<le> LENGTH('a::len)"
  shows "le_split (length bs) (le_join bs :: 'a word) = bs"
  using assms
proof (induction bs)
  case Nil
  then show ?case by simp
next
  case (Cons b bs)
  have hd: "ucast (ucast b OR push_bit 8 (le_join bs) :: 'a word) = b"
    using Cons.prems by (intro bit_word_eqI) (auto simp: bit_simps)
  have "drop_bit 8 (ucast b OR push_bit 8 (le_join bs) :: 'a word)
      = take_bit (LENGTH('a) - 8) (le_join bs)"
    by (rule bit_word_eqI) (auto simp: bit_simps dest: bit_imp_le_length)
  also have "\<dots> = le_join bs"
    using Cons.prems by (intro take_bit_le_join) auto
  finally show ?case using Cons hd by simp
qed

lemma le_join_inject:
  assumes "length bs = length cs" and "8 * length bs \<le> LENGTH('a::len)"
  shows "(le_join bs :: 'a word) = le_join cs \<longleftrightarrow> bs = cs"
  using assms by (metis le_split_le_join)

subsection \<open>Fixed-width fields\<close>

text \<open>
  What a record codec relies on of one field: its encoding has a fixed width and decoding
  inverts it. The lemmas read a field back from a buffer in which it, or a disjoint range, was
  written last.
\<close>

locale byte_field =
  fixes enc :: "'a \<Rightarrow> byte list"
    and dec :: "byte list \<Rightarrow> 'a"
    and width :: nat
  assumes enc_width: "length (enc x) = width"
    and dec_enc: "dec (enc x) = x"
begin

lemma read_back: "a + width \<le> length bs \<Longrightarrow> dec (sub (patch bs a (enc x)) a width) = x"
  by (simp add: sub_patch_same enc_width dec_enc)

lemma read_other:
  "a + width \<le> length bs \<Longrightarrow> b + n \<le> a \<or> a + width \<le> b \<Longrightarrow>
   sub (patch bs a (enc x)) b n = sub bs b n"
  by (auto simp: enc_width sub_patch_before sub_patch_after)

lemma enc_inject: "enc x = enc y \<longleftrightarrow> x = y"
  using dec_enc [of x] dec_enc [of y] by metis

end

interpretation u16_field: byte_field "le_split 2 :: u16 \<Rightarrow> byte list" le_join 2
  by unfold_locales simp_all

interpretation u32_field: byte_field "le_split 4 :: u32 \<Rightarrow> byte list" le_join 4
  by unfold_locales simp_all

interpretation u64_field: byte_field "le_split 8 :: u64 \<Rightarrow> byte list" le_join 8
  by unfold_locales simp_all

interpretation u128_field: byte_field "le_split 16 :: u128 \<Rightarrow> byte list" le_join 16
  by unfold_locales simp_all

lemmas field_simps_le = u16_field.read_back u16_field.read_other u32_field.read_back
  u32_field.read_other u64_field.read_back u64_field.read_other

section \<open>Slice iterators\<close>

text \<open>\<open>slice::chunks(n)\<close>; the size is a nonzero constant wherever the source calls it.\<close>

function chunks :: "nat \<Rightarrow> 'a list \<Rightarrow> 'a list list" where
  "chunks n xs = (if xs = [] \<or> n = 0 then [] else take n xs # chunks n (drop n xs))"
  by pat_completeness auto
termination
  by (relation "measure (\<lambda>(n, xs). length xs)") auto

declare chunks.simps [simp del]

lemma chunks_Nil [simp]: "chunks n [] = []"
  by (simp add: chunks.simps)

lemma chunks_step: "xs \<noteq> [] \<Longrightarrow> 0 < n \<Longrightarrow> chunks n xs = take n xs # chunks n (drop n xs)"
  by (simp add: chunks.simps [of n xs])

lemma concat_chunks: "0 < n \<Longrightarrow> concat (chunks n xs) = xs"
proof (induction n xs rule: chunks.induct)
  case (1 n xs)
  then show ?case by (cases "xs = []") (auto simp: chunks_step)
qed

lemma ceil_div_one: "0 < l \<Longrightarrow> l \<le> n \<Longrightarrow> (l + n - 1) div n = (1::nat)"
  by (intro div_nat_eqI) auto

lemma length_chunks: "0 < n \<Longrightarrow> length (chunks n xs) = (length xs + n - 1) div n"
proof (induction n xs rule: chunks.induct)
  case (1 n xs)
  show ?case
  proof (cases "xs = []")
    case True
    with 1 show ?thesis by simp
  next
    case False
    with 1 have IH: "length (chunks n (drop n xs)) = (length xs - n + n - 1) div n" by simp
    have len: "0 < length xs" using False by simp
    show ?thesis
    proof (cases "length xs \<le> n")
      case True
      have "(length xs + n - 1) div n = 1"
        using len True by (rule ceil_div_one)
      with True False "1.prems" show ?thesis by (simp add: chunks_step)
    next
      case big: False
      have shift: "length xs + n - 1 = (length xs - 1) + n" using big by simp
      have "(length xs + n - 1) div n = (length xs - 1) div n + 1"
        unfolding shift using "1.prems" by (intro div_add_self2) simp
      with big False "1.prems" IH show ?thesis by (simp add: chunks_step)
    qed
  qed
qed

text \<open>\<open>slice::windows(2)\<close> as the list of adjacent pairs.\<close>

fun windows2 :: "'a list \<Rightarrow> ('a \<times> 'a) list" where
  "windows2 (x # y # zs) = (x, y) # windows2 (y # zs)"
| "windows2 _ = []"

section \<open>Powers of two\<close>

text \<open>\<open>usize::ilog2\<close> of a positive number.\<close>

fun ilog2 :: "nat \<Rightarrow> nat" where
  "ilog2 n = (if n \<le> 1 then 0 else Suc (ilog2 (n div 2)))"

declare ilog2.simps [simp del]

definition is_power_of_two :: "nat \<Rightarrow> bool" where
  "is_power_of_two n \<longleftrightarrow> n \<noteq> 0 \<and> n = 2 ^ ilog2 n"

lemma ilog2_bounds: "0 < n \<Longrightarrow> 2 ^ ilog2 n \<le> n \<and> n < 2 ^ Suc (ilog2 n)"
proof (induction n rule: ilog2.induct)
  case (1 n)
  show ?case
  proof (cases "n \<le> 1")
    case True
    then show ?thesis using 1 by (simp add: ilog2.simps [of n])
  next
    case False
    then have "2 ^ ilog2 (n div 2) \<le> n div 2" "n div 2 < 2 ^ Suc (ilog2 (n div 2))" using 1 by auto
    then have "2 * 2 ^ ilog2 (n div 2) \<le> n" "n < 2 * (2 * 2 ^ ilog2 (n div 2))" unfolding power_Suc by linarith+
    then show ?thesis using False by (simp add: ilog2.simps [of n])
  qed
qed

lemma ilog2_ge:
  assumes "2 ^ j \<le> n"
  shows "j \<le> ilog2 n"
proof -
  have "0 < (2 :: nat) ^ j" by simp
  then have "n < 2 ^ Suc (ilog2 n)" using assms ilog2_bounds [of n] by linarith
  then have "(2 :: nat) ^ j < 2 ^ Suc (ilog2 n)" using assms by linarith
  then show ?thesis using power_less_imp_less_exp [of "2 :: nat" j "Suc (ilog2 n)"] by simp
qed

lemma ilog2_power [simp]: "ilog2 (2 ^ n) = n"
proof -
  have "(2 :: nat) ^ ilog2 (2 ^ n) \<le> 2 ^ n" using ilog2_bounds [of "2 ^ n"] by simp
  then have "ilog2 (2 ^ n) \<le> n" by (simp only: power_increasing_iff)
  then show ?thesis using ilog2_ge [of n "2 ^ n"] by simp
qed

lemma is_power_of_two_iff: "is_power_of_two n \<longleftrightarrow> (\<exists>k. n = 2 ^ k)"
  by (auto simp: is_power_of_two_def)

end
