(* ===== verification/Align.thy ===== *)
theory Align
  imports Prelude
begin

text \<open>
  Page alignment (\<^verbatim>\<open>moat-common/src/align.rs\<close>).

  \<open>align_up64\<close>, \<open>align_down64\<close> and \<open>is_aligned64\<close> are the source's mask expressions on
  \<open>u64\<close>, with wrap-around. The rest of the development computes geometry on \<open>nat\<close> with
  \<open>align_up\<close>, \<open>align_down\<close> and \<open>is_aligned\<close>; \<open>align64_refines\<close> shows that the mask expressions
  compute these wherever the sum fits in 64 bits, for every power-of-two alignment.
\<close>

unbundle bit_operations_syntax

named_theorems align_intros \<open>consequences of alignment\<close>

definition PAGE_SIZE :: nat where
  "PAGE_SIZE = 4096"

definition align_up64 :: "u64 \<Rightarrow> u64 \<Rightarrow> u64" where
  "align_up64 value align = (value + align - 1) AND NOT (align - 1)"

definition align_down64 :: "u64 \<Rightarrow> u64 \<Rightarrow> u64" where
  "align_down64 value align = value AND NOT (align - 1)"

definition is_aligned64 :: "u64 \<Rightarrow> u64 \<Rightarrow> bool" where
  "is_aligned64 value align \<longleftrightarrow> value AND (align - 1) = 0"

definition align_up :: "nat \<Rightarrow> nat \<Rightarrow> nat" where
  "align_up value align = (value + align - 1) div align * align"

definition align_down :: "nat \<Rightarrow> nat \<Rightarrow> nat" where
  "align_down value align = value div align * align"

definition is_aligned :: "nat \<Rightarrow> nat \<Rightarrow> bool" where
  "is_aligned value align \<longleftrightarrow> value mod align = 0"

section \<open>The mask expressions compute rounding\<close>

lemma and_not_mask: "(w :: 'a::len word) AND NOT (mask k) = push_bit k (drop_bit k w)"
  by (rule bit_word_eqI) (auto simp: bit_simps)

lemma unat_and_not_mask: "unat ((w :: 'a::len word) AND NOT (mask k)) = unat w div 2 ^ k * 2 ^ k"
proof -
  have le: "unat w div 2 ^ k * 2 ^ k \<le> unat w"
    by simp
  also have "unat w < 2 ^ LENGTH('a)"
    by simp
  finally have "unat w div 2 ^ k * 2 ^ k < 2 ^ LENGTH('a)" .
  moreover have "unat (push_bit k (drop_bit k w)) = take_bit LENGTH('a) (push_bit k (drop_bit k (unat w)))"
    by (simp only: unsigned_push_bit_eq unat_drop_bit_eq)
  ultimately show ?thesis
    by (simp only: and_not_mask push_bit_nat_def drop_bit_nat_def take_bit_nat_eq_self)
qed

lemma unat_mask_word: "unat (mask k :: 'a::len word) = mask (min LENGTH('a) k)"
  by (metis nat_mask_eq nat_uint_eq uint_mask_eq)

lemma align_down64_nat: "unat (align_down64 v (2 ^ k)) = align_down (unat v) (2 ^ k)"
  using unat_and_not_mask [of v k] by (simp add: align_down64_def align_down_def mask_eq_decr_exp)

lemma align_up64_nat:
  assumes "k < 64" and "unat v + 2 ^ k - 1 < 2 ^ 64"
  shows "unat (align_up64 v (2 ^ k)) = align_up (unat v) (2 ^ k)"
proof -
  have pos: "(1::nat) \<le> 2 ^ k" by simp
  have mask: "unat (2 ^ k - 1 :: u64) = 2 ^ k - 1"
    using assms unat_mask_word [of k, where 'a = 64]
    by (simp add: mask_eq_decr_exp min_def) (simp add: mask_eq_exp_minus_1)
  have "unat (v + (2 ^ k - 1)) = unat v + unat (2 ^ k - 1 :: u64)"
    using assms mask by (simp add: unat_word_ariths)
  then have "unat (v + (2 ^ k - 1)) = unat v + (2 ^ k - 1)"
    using mask by simp
  then show ?thesis
    using unat_and_not_mask [of "v + (2 ^ k - 1)" k] pos
    by (simp add: align_up64_def align_up_def mask_eq_decr_exp add_diff_eq)
qed

lemma is_aligned64_nat: "is_aligned64 v (2 ^ k) \<longleftrightarrow> is_aligned (unat v) (2 ^ k)"
  using and_mask_dvd_nat [of k v]
  by (simp add: is_aligned64_def is_aligned_def mask_eq_decr_exp mod_eq_0_iff_dvd)

section \<open>Rounding on natural numbers\<close>

lemma is_aligned_align_up [simp]: "is_aligned (align_up v a) a"
  by (simp add: is_aligned_def align_up_def)

lemma is_aligned_align_down [simp]: "is_aligned (align_down v a) a"
  by (simp add: is_aligned_def align_down_def)

lemma is_aligned_0 [simp]: "is_aligned 0 a"
  by (simp add: is_aligned_def)

lemma align_up_0 [simp]: "0 < a \<Longrightarrow> align_up 0 a = 0"
  by (simp add: align_up_def)

lemma align_up_ge: "0 < a \<Longrightarrow> v \<le> align_up v a"
  using div_mult_mod_eq [of "v + a - 1" a] mod_less_divisor [of a "v + a - 1"]
  unfolding align_up_def by linarith

lemma align_up_less: "0 < a \<Longrightarrow> align_up v a < v + a"
  using div_mult_mod_eq [of "v + a - 1" a] unfolding align_up_def by linarith

lemma align_down_le: "align_down v a \<le> v"
  by (simp add: align_down_def)

lemma align_down_greater: "0 < a \<Longrightarrow> v < align_down v a + a"
  using div_mult_mod_eq [of v a] mod_less_divisor [of a v] unfolding align_down_def by linarith

lemma align_up_least:
  assumes "0 < a" and "v \<le> w" and "is_aligned w a"
  shows "align_up v a \<le> w"
proof -
  from assms(3) obtain q where w: "w = q * a"
    by (auto simp: is_aligned_def mod_eq_0_iff_dvd dvd_def mult.commute)
  obtain p where p: "align_up v a = p * a"
    unfolding align_up_def by blast
  have "p * a < Suc q * a"
    using align_up_less [OF assms(1), of v] assms(2) p w by simp
  then have "p \<le> q" by (simp only: mult_less_cancel2 less_Suc_eq_le)
  then show ?thesis using p w by simp
qed

lemma align_up_mono: "0 < a \<Longrightarrow> v \<le> w \<Longrightarrow> align_up v a \<le> align_up w a"
  by (meson align_up_ge align_up_least is_aligned_align_up order_trans)

lemma align_up_ident: "0 < a \<Longrightarrow> is_aligned v a \<Longrightarrow> align_up v a = v"
  by (simp add: align_up_ge align_up_least le_antisym)

lemma is_aligned_add: "is_aligned v a \<Longrightarrow> is_aligned w a \<Longrightarrow> is_aligned (v + w) a"
  by (auto simp: is_aligned_def mod_eq_0_iff_dvd)

lemma is_aligned_diff: "is_aligned v a \<Longrightarrow> is_aligned w a \<Longrightarrow> is_aligned (v - w) a"
  by (auto simp: is_aligned_def mod_eq_0_iff_dvd)

lemma align_up_add: "0 < a \<Longrightarrow> is_aligned k a \<Longrightarrow> align_up (k + v) a = k + align_up v a"
  by (auto simp: is_aligned_def align_up_def mod_eq_0_iff_dvd distrib_right add.assoc elim!: dvdE
      simp flip: Nat.add_diff_assoc)

lemma is_aligned_8_4096: "is_aligned v 4096 \<Longrightarrow> is_aligned v 8"
  by (auto simp: is_aligned_def mod_eq_0_iff_dvd intro: dvd_trans [rotated])

lemma PAGE_SIZE_pos [simp]: "0 < PAGE_SIZE"
  by (simp add: PAGE_SIZE_def)

text \<open>
  C32: the three mask expressions of \<open>align.rs\<close> are rounding. For a power-of-two alignment
  \<open>2 ^ k\<close> and a value whose sum with the alignment does not wrap, \<open>align_up64\<close> is the least
  multiple of the alignment at or above the value, \<open>align_down64\<close> the greatest at or below it,
  and \<open>is_aligned64\<close> decides divisibility.
\<close>

theorem align64_refines:
  assumes "k < 64" and "unat v + 2 ^ k - 1 < 2 ^ 64"
  shows "unat (align_up64 v (2 ^ k)) = (LEAST m. unat v \<le> m \<and> 2 ^ k dvd m)
    \<and> unat (align_down64 v (2 ^ k)) = (GREATEST m. m \<le> unat v \<and> 2 ^ k dvd m)
    \<and> (is_aligned64 v (2 ^ k) \<longleftrightarrow> 2 ^ k dvd unat v)"
proof -
  have dvd: "is_aligned m (2 ^ k) \<longleftrightarrow> 2 ^ k dvd m" for m
    by (simp add: is_aligned_def mod_eq_0_iff_dvd)
  have up: "align_up (unat v) (2 ^ k) = (LEAST m. unat v \<le> m \<and> 2 ^ k dvd m)"
    by (rule Least_equality [symmetric]) (auto simp: align_up_ge align_up_least simp flip: dvd)
  have "m \<le> align_down (unat v) (2 ^ k)" if "m \<le> unat v" "2 ^ k dvd m" for m
    using that div_le_mono [of m "unat v" "2 ^ k"] by (auto simp: align_down_def elim!: dvdE)
  then have "align_down (unat v) (2 ^ k) = (GREATEST m. m \<le> unat v \<and> 2 ^ k dvd m)"
    by (intro Greatest_equality [symmetric]) (auto simp: align_down_le simp flip: dvd)
  then show ?thesis
    using assms up by (simp add: align_up64_nat align_down64_nat is_aligned64_nat dvd)
qed

theorem align64_refines_witness:
  "align_up64 4097 4096 = 8192 \<and> align_down64 4097 4096 = 4096
   \<and> unat (align_up64 4097 (2 ^ 12)) = (LEAST m. unat (4097 :: u64) \<le> m \<and> 2 ^ 12 dvd m)"
proof -
  have "unat (4097 :: u64) + 2 ^ 12 - 1 < 2 ^ 64" by simp
  then have "unat (align_up64 4097 (2 ^ 12)) = (LEAST m. unat (4097 :: u64) \<le> m \<and> 2 ^ 12 dvd m)"
    using align64_refines [of 12 4097] by simp
  then show ?thesis
    by (simp add: align_up64_def align_down64_def)
qed

end
