(* ===== verification/Checksum.thy ===== *)
theory Checksum
  imports Align
begin

text \<open>
  CRC32C checksums per 64 KiB block (\<^verbatim>\<open>moat-common/src/checksum.rs\<close>).

  The CRC itself is the third-party crate \<open>crc_fast\<close>: it is the parameter \<open>L\<close> of type
  \<open>crc_lib\<close>, with its one-shot function and its incremental \<open>Digest\<close>. What the source relies
  on is the locale \<open>crc_library\<close>: feeding slices one after another and finalizing gives the
  one-shot checksum of their concatenation. The locale is interpreted on \<open>rfc3720\<close>, the bitwise
  CRC32C of RFC 3720 that the documentation names; it reproduces the source's test vectors.
\<close>

unbundle bit_operations_syntax

section \<open>The checksum library\<close>

record 'd crc_lib =
  lib_checksum :: "byte list \<Rightarrow> u64"
  lib_new :: 'd
  lib_update :: "'d \<Rightarrow> byte list \<Rightarrow> 'd"
  lib_finalize :: "'d \<Rightarrow> u64"

definition CHECKSUM_BLOCK_SIZE :: nat where
  "CHECKSUM_BLOCK_SIZE = 64 * 1024"

definition crc32c :: "'d crc_lib \<Rightarrow> byte list \<Rightarrow> u32" where
  "crc32c L data = ucast (lib_checksum L data)"

definition crc_new :: "'d crc_lib \<Rightarrow> 'd" where
  "crc_new L = lib_new L"

definition crc_update :: "'d crc_lib \<Rightarrow> 'd \<Rightarrow> byte list \<Rightarrow> 'd" where
  "crc_update L d data = lib_update L d data"

definition crc_finalize :: "'d crc_lib \<Rightarrow> 'd \<Rightarrow> u32" where
  "crc_finalize L d = ucast (lib_finalize L d)"

definition block_count :: "nat \<Rightarrow> u32" where
  "block_count len = of_nat ((len + CHECKSUM_BLOCK_SIZE - 1) div CHECKSUM_BLOCK_SIZE)"

definition block_checksums :: "'d crc_lib \<Rightarrow> byte list \<Rightarrow> u32 list" where
  "block_checksums L data = map (crc32c L) (chunks CHECKSUM_BLOCK_SIZE data)"

fun verify_chunks ::
  "'d crc_lib \<Rightarrow> nat \<Rightarrow> byte list list \<Rightarrow> u32 \<Rightarrow> (u32 \<Rightarrow> ('e, u32 option) res) \<Rightarrow> ('e, (u32, unit) res) res"
where
  "verify_chunks L i [] first_block expected = Ok (Ok ())"
| "verify_chunks L i (block # blocks) first_block expected =
     (let index = first_block + of_nat i in
      rbind (expected index) (\<lambda>want.
        if want = Some (crc32c L block)
        then verify_chunks L (Suc i) blocks first_block expected
        else Ok (Err index)))"

definition verify_blocks_with ::
  "'d crc_lib \<Rightarrow> byte list \<Rightarrow> u32 \<Rightarrow> (u32 \<Rightarrow> ('e, u32 option) res) \<Rightarrow> ('e, (u32, unit) res) res"
where
  "verify_blocks_with L data first_block expected =
     verify_chunks L 0 (chunks CHECKSUM_BLOCK_SIZE data) first_block expected"

definition checksums_get :: "u32 list \<Rightarrow> u32 \<Rightarrow> u32 option" where
  "checksums_get sums i = (if unat i < length sums then Some (sums ! unat i) else None)"

definition verify_blocks :: "'d crc_lib \<Rightarrow> byte list \<Rightarrow> u32 \<Rightarrow> u32 list \<Rightarrow> ('e, (u32, unit) res) res" where
  "verify_blocks L data first_block sums =
     verify_blocks_with L data first_block (\<lambda>i. Ok (checksums_get sums i))"

section \<open>What the source relies on\<close>

text \<open>The digest \<open>d\<close> was fed slices whose concatenation is \<open>message\<close>.\<close>

definition digest_of :: "'d crc_lib \<Rightarrow> 'd \<Rightarrow> byte list \<Rightarrow> bool" where
  "digest_of L d message \<longleftrightarrow>
     (\<exists>parts. d = fold (\<lambda>part d. crc_update L d part) parts (crc_new L) \<and> concat parts = message)"

lemma digest_of_new [simp]: "digest_of L (crc_new L) []"
  unfolding digest_of_def by (rule exI [of _ "[]"]) simp

lemma digest_of_update: "digest_of L d message \<Longrightarrow> digest_of L (crc_update L d part) (message @ part)"
  unfolding digest_of_def by (erule exE, rule_tac x = "parts @ [part]" in exI) simp

locale crc_library =
  fixes L :: "'d crc_lib"
  assumes digest_concat:
    "lib_finalize L (fold (\<lambda>part d. lib_update L d part) parts (lib_new L)) = lib_checksum L (concat parts)"
begin

lemma finalize_parts:
  "crc_finalize L (fold (\<lambda>part d. crc_update L d part) parts (crc_new L)) = crc32c L (concat parts)"
  by (simp add: crc_finalize_def crc_new_def crc_update_def crc32c_def digest_concat)

lemma digest_finalize: "digest_of L d message \<Longrightarrow> crc_finalize L d = crc32c L message"
  by (auto simp: digest_of_def finalize_parts)

lemma finalize_three:
  "crc_finalize L (crc_update L (crc_update L (crc_update L (crc_new L) a) b) c) = crc32c L (a @ b @ c)"
  using finalize_parts [of "[a, b, c]"] by simp

lemma finalize_four:
  "crc_finalize L (crc_update L (crc_update L (crc_update L (crc_update L (crc_new L) a) b) c) d)
   = crc32c L (a @ b @ c @ d)"
  using finalize_parts [of "[a, b, c, d]"] by simp

end

section \<open>RFC 3720 CRC32C\<close>

text \<open>The reflected polynomial 0x82F63B78, initial and final value all ones.\<close>

definition crc_bit :: "u32 \<Rightarrow> u32" where
  "crc_bit r = (if bit r 0 then drop_bit 1 r XOR 0x82F63B78 else drop_bit 1 r)"

definition crc_byte :: "byte \<Rightarrow> u32 \<Rightarrow> u32" where
  "crc_byte b r = crc_bit (crc_bit (crc_bit (crc_bit (crc_bit (crc_bit (crc_bit (crc_bit (r XOR ucast b))))))))"

definition rfc3720 :: "u32 crc_lib" where
  "rfc3720 = \<lparr> lib_checksum = (\<lambda>data. ucast (NOT (fold crc_byte data 0xFFFFFFFF))),
     lib_new = 0xFFFFFFFF,
     lib_update = (\<lambda>r part. fold crc_byte part r),
     lib_finalize = (\<lambda>r. ucast (NOT r)) \<rparr>"

lemma fold_parts: "fold (\<lambda>part r. fold f part r) parts r = fold f (concat parts) r"
  by (induction parts arbitrary: r) auto

interpretation rfc: crc_library rfc3720
  by unfold_locales (simp add: rfc3720_def fold_parts)

lemma rfc_crc32c: "crc32c rfc3720 data = NOT (fold crc_byte data 0xFFFFFFFF)"
  by (simp add: crc32c_def rfc3720_def) (rule bit_word_eqI, simp add: bit_simps)

text \<open>The vectors of the test \<open>known_vectors\<close>.\<close>

lemma rfc_vector_digits:
  "crc32c rfc3720 [0x31, 0x32, 0x33, 0x34, 0x35, 0x36, 0x37, 0x38, 0x39] = 0xE3069283"
  by (simp add: rfc_crc32c crc_byte_def crc_bit_def)

lemma rfc_vector_empty: "crc32c rfc3720 [] = 0"
  by (simp add: rfc_crc32c)

subsection \<open>Single-byte corruption\<close>

text \<open>
  The register step is injective, because the polynomial sets the top bit that the shift
  clears. Two messages that differ in one byte therefore never share a checksum.
\<close>

locale crc_detects_byte = crc_library L for L :: "'d crc_lib" +
  assumes byte_detected: "crc32c L (p @ b # q) = crc32c L (p @ c # q) \<Longrightarrow> b = c"
begin

lemma update_detected:
  assumes "i < length bs" and "bs ! i \<noteq> c"
  shows "crc32c L (bs[i := c]) \<noteq> crc32c L bs"
proof
  assume "crc32c L (bs[i := c]) = crc32c L bs"
  moreover have "bs = take i bs @ bs ! i # drop (Suc i) bs"
    using assms(1) by (rule id_take_nth_drop)
  ultimately have "c = bs ! i"
    using assms(1) byte_detected [of "take i bs" c "drop (Suc i) bs" "bs ! i"]
    by (simp add: upd_conv_take_nth_drop)
  with assms(2) show False by simp
qed

end

lemma bit_crc_bit_top: "bit (crc_bit r) 31 \<longleftrightarrow> bit r 0"
  by (auto simp: crc_bit_def bit_simps dest: bit_imp_le_length)

lemma ucast_ucast_byte: "ucast (ucast b :: u32) = (b :: byte)"
  by (rule bit_word_eqI) (simp add: bit_simps)

lemma ucast_byte_inject: "(ucast b :: u32) = ucast (c :: byte) \<longleftrightarrow> b = c"
  by (metis ucast_ucast_byte)

lemma crc_bit_inject: "crc_bit r = crc_bit s \<longleftrightarrow> r = s"
proof
  assume eq: "crc_bit r = crc_bit s"
  then have low: "bit r 0 = bit s 0"
    using bit_crc_bit_top [of r] bit_crc_bit_top [of s] by simp
  with eq have "drop_bit 1 r = drop_bit 1 s"
    by (simp add: crc_bit_def xor_cancel split: if_splits)
  then have high: "bit r (Suc n) = bit s (Suc n)" for n
    by (metis bit_drop_bit_eq comp_apply plus_1_eq_Suc)
  show "r = s"
  proof (rule bit_word_eqI)
    fix n
    show "bit r n = bit s n"
      using low high by (cases n) simp_all
  qed
qed simp

lemma crc_byte_inject_register: "crc_byte b r = crc_byte b s \<longleftrightarrow> r = s"
  by (simp add: crc_byte_def crc_bit_inject xor_cancel)

lemma crc_byte_inject_byte: "crc_byte b r = crc_byte c r \<longleftrightarrow> b = c"
  by (simp add: crc_byte_def crc_bit_inject xor_cancel_left ucast_byte_inject)

lemma fold_crc_byte_inject: "fold crc_byte q r = fold crc_byte q s \<longleftrightarrow> r = s"
  by (induction q arbitrary: r s) (auto simp: crc_byte_inject_register)

interpretation rfc_byte: crc_detects_byte rfc3720
  by unfold_locales (simp add: rfc_crc32c fold_crc_byte_inject crc_byte_inject_byte)

section \<open>Block checksums\<close>

lemma CHECKSUM_BLOCK_SIZE_pos [simp]: "0 < CHECKSUM_BLOCK_SIZE"
  by (simp add: CHECKSUM_BLOCK_SIZE_def)

lemma length_block_checksums:
  "length (block_checksums L data) = (length data + CHECKSUM_BLOCK_SIZE - 1) div CHECKSUM_BLOCK_SIZE"
  by (simp add: block_checksums_def length_chunks)

lemma unat_block_count:
  assumes "len < 2 ^ 40"
  shows "unat (block_count len) = (len + CHECKSUM_BLOCK_SIZE - 1) div CHECKSUM_BLOCK_SIZE"
proof -
  have "(len + CHECKSUM_BLOCK_SIZE - 1) div CHECKSUM_BLOCK_SIZE < 2 ^ 32"
    using assms by (simp add: CHECKSUM_BLOCK_SIZE_def div_less_iff_less_mult)
  then show ?thesis
    by (simp add: block_count_def unat_of_nat take_bit_nat_eq_self)
qed

lemma verify_chunks_Ok_iff:
  "verify_chunks L i bs first (\<lambda>k. Ok (f k)) = Ok (Ok ()) \<longleftrightarrow>
   (\<forall>j < length bs. f (first + of_nat (i + j)) = Some (crc32c L (bs ! j)))"
proof (induction bs arbitrary: i)
  case Nil
  then show ?case by simp
next
  case (Cons b bs)
  show ?case
    by (auto simp: Let_def Cons All_less_Suc2 add.left_commute split: if_splits)
qed

lemma verify_chunks_Err_iff:
  "verify_chunks L i bs first (\<lambda>k. Ok (f k)) = Ok (Err e) \<longleftrightarrow>
   (\<exists>j < length bs. e = first + of_nat (i + j) \<and> f e \<noteq> Some (crc32c L (bs ! j))
      \<and> (\<forall>k < j. f (first + of_nat (i + k)) = Some (crc32c L (bs ! k))))"
proof (induction bs arbitrary: i)
  case Nil
  then show ?case by simp
next
  case (Cons b bs)
  show ?case
    by (auto simp: Let_def Cons Ex_less_Suc2 All_less_Suc2 add.left_commute split: if_splits)
qed

lemma verify_chunks_no_panic:
  "verify_chunks L i bs first (\<lambda>k. Ok (f k)) \<noteq> Panic \<and> verify_chunks L i bs first (\<lambda>k. Ok (f k)) \<noteq> Err e
   \<and> verify_chunks L i bs first (\<lambda>k. Ok (f k)) \<noteq> Ok Panic"
  by (induction bs arbitrary: i) (auto simp: Let_def)

lemma block_of_chunks:
  "j < length (chunks n data) \<Longrightarrow> 0 < n \<Longrightarrow> chunks n data ! j = sub data (j * n) n"
proof (induction n data arbitrary: j rule: chunks.induct)
  case (1 n xs)
  show ?case
  proof (cases "xs = []")
    case True
    with "1.prems" show ?thesis by simp
  next
    case False
    with "1.prems" have step: "chunks n xs = take n xs # chunks n (drop n xs)"
      by (simp add: chunks_step)
    show ?thesis
    proof (cases j)
      case 0
      then show ?thesis by (simp add: step)
    next
      case (Suc k)
      with "1.prems" step have "k < length (chunks n (drop n xs))" by simp
      with "1.IH" False "1.prems" have "chunks n (drop n xs) ! k = sub (drop n xs) (k * n) n"
        by simp
      then show ?thesis by (simp add: Suc step sub_drop add.commute)
    qed
  qed
qed



end
