(* ===== verification/Codec.thy ===== *)
theory Codec
  imports Checksum
begin

text \<open>
  Little-endian fields at fixed offsets and the checksum of a header
  (\<^verbatim>\<open>moat-engine/src/codec.rs\<close>). All checksummed headers of the format keep their CRC32C at
  byte offset 12; \<open>crc_with_zeroed_checksum\<close> computes it with that field taken as zero.
\<close>

definition u32_at :: "byte list \<Rightarrow> nat \<Rightarrow> ('e, u32) res" where
  "u32_at bytes at = rbind (slice bytes at (at + 4)) (\<lambda>field. Ok (le_join field))"

definition u64_at :: "byte list \<Rightarrow> nat \<Rightarrow> ('e, u64) res" where
  "u64_at bytes at = rbind (slice bytes at (at + 8)) (\<lambda>field. Ok (le_join field))"

definition put_u32 :: "byte list \<Rightarrow> nat \<Rightarrow> u32 \<Rightarrow> ('e, byte list) res" where
  "put_u32 bytes at value = put bytes at (at + 4) (le_split 4 value)"

definition put_u64 :: "byte list \<Rightarrow> nat \<Rightarrow> u64 \<Rightarrow> ('e, byte list) res" where
  "put_u64 bytes at value = put bytes at (at + 8) (le_split 8 value)"

definition crc_with_zeroed_checksum :: "'d crc_lib \<Rightarrow> byte list \<Rightarrow> ('e, u32) res" where
  "crc_with_zeroed_checksum L bytes =
     rbind (slice bytes 0 12) (\<lambda>before.
     rbind (slice bytes 16 (length bytes)) (\<lambda>after.
       Ok (crc_finalize L (crc_update L (crc_update L (crc_update L (crc_new L) before) (replicate 4 0)) after))))"

section \<open>Reads and writes inside the buffer\<close>

lemma u32_at_Ok [simp]: "at + 4 \<le> length bytes \<Longrightarrow> u32_at bytes at = Ok (le_join (sub bytes at 4))"
  by (simp add: u32_at_def)

lemma u64_at_Ok [simp]: "at + 8 \<le> length bytes \<Longrightarrow> u64_at bytes at = Ok (le_join (sub bytes at 8))"
  by (simp add: u64_at_def)

lemma put_u32_Ok [simp]:
  "at + 4 \<le> length bytes \<Longrightarrow> put_u32 bytes at v = Ok (patch bytes at (le_split 4 v))"
  by (simp add: put_u32_def)

lemma put_u64_Ok [simp]:
  "at + 8 \<le> length bytes \<Longrightarrow> put_u64 bytes at v = Ok (patch bytes at (le_split 8 v))"
  by (simp add: put_u64_def)

text \<open>The header checksum as a total function of the two protected parts.\<close>

definition header_crc :: "'d crc_lib \<Rightarrow> byte list \<Rightarrow> byte list \<Rightarrow> u32" where
  "header_crc L before after =
     crc_finalize L (crc_update L (crc_update L (crc_update L (crc_new L) before) (replicate 4 0)) after)"

lemma crc_with_zeroed_checksum_Ok [simp]:
  "16 \<le> length bytes \<Longrightarrow>
   crc_with_zeroed_checksum L bytes = Ok (header_crc L (take 12 bytes) (drop 16 bytes))"
  by (simp add: crc_with_zeroed_checksum_def header_crc_def sub_all)

lemma le_join_eq_iff:
  fixes w :: "'a::len word"
  assumes "8 * length bs = LENGTH('a)"
  shows "le_join bs = w \<longleftrightarrow> bs = le_split (length bs) w"
proof
  assume "le_join bs = w"
  then show "bs = le_split (length bs) w" using le_split_le_join [of bs, where 'a = 'a] assms by simp
next
  assume "bs = le_split (length bs) w"
  then have "(le_join bs :: 'a word) = le_join (le_split (length bs) w)" by simp
  then show "le_join bs = w" using assms by simp
qed

lemma u32_field_iff: "length bs = 4 \<Longrightarrow> le_join bs = (w :: u32) \<longleftrightarrow> bs = le_split 4 w"
  using le_join_eq_iff [of bs w] by simp

lemma u64_field_iff: "length bs = 8 \<Longrightarrow> le_join bs = (w :: u64) \<longleftrightarrow> bs = le_split 8 w"
  using le_join_eq_iff [of bs w] by simp

lemma split_join [simp]:
  "length bs = 4 \<Longrightarrow> le_split 4 (le_join bs :: u32) = bs" "length cs = 8 \<Longrightarrow> le_split 8 (le_join cs :: u64) = cs"
  using le_split_le_join [of bs, where 'a = 32] le_split_le_join [of cs, where 'a = 64] by simp_all

context crc_library
begin

lemma header_crc_concat: "header_crc L before after = crc32c L (before @ replicate 4 0 @ after)"
  unfolding header_crc_def by (rule finalize_three)

end

text \<open>
  A changed byte in a protected part changes the header checksum: the two messages the
  checksum covers differ in that byte alone.
\<close>

context crc_detects_byte
begin

lemma header_crc_before:
  "i < length before \<Longrightarrow> before ! i \<noteq> c \<Longrightarrow> header_crc L (before[i := c]) after \<noteq> header_crc L before after"
  using update_detected [of i "before @ replicate 4 0 @ after" c]
  by (simp add: header_crc_concat list_update_append nth_append)

lemma header_crc_after:
  "i < length after \<Longrightarrow> after ! i \<noteq> c \<Longrightarrow> header_crc L before (after[i := c]) \<noteq> header_crc L before after"
  using update_detected [of "length before + (4 + i)" "before @ replicate 4 0 @ after" c]
  by (simp add: header_crc_concat list_update_append nth_append)

end

end
