(* ===== verification/Frame_Header.thy ===== *)
theory Frame_Header
  imports Codec
begin

text \<open>
  Frame limits, frame positions and the 64-byte frame header
  (\<^verbatim>\<open>moat-engine/src/frame/header.rs\<close>, the constants of \<^verbatim>\<open>frame/mod.rs\<close> and the errors of
  \<^verbatim>\<open>frame/error.rs\<close>).

  \<open>frame_header_decode\<close> and \<open>frame_header_encode\<close> are the source's functions with every slice
  access and its panic. \<open>frame_header_image\<close> is the byte layout as a specification; the main
  theorem says that decoding accepts exactly the images of valid headers.
\<close>

section \<open>Constants and errors\<close>

definition HEADER_LEN :: nat where
  "HEADER_LEN = 64"

definition DESCRIPTOR_LEN :: nat where
  "DESCRIPTOR_LEN = 64"

definition FORMAT_VERSION :: u32 where
  "FORMAT_VERSION = 1"

text \<open>The bytes of \<^verbatim>\<open>MOATFRM1\<close>.\<close>

definition MAGIC :: "byte list" where
  "MAGIC = [0x4D, 0x4F, 0x41, 0x54, 0x46, 0x52, 0x4D, 0x31]"

definition VALUE_ALIGN :: nat where
  "VALUE_ALIGN = 8"

datatype frame_error =
    FE_InvalidArgument string
  | FE_ValueTooLarge nat u32
  | FE_FrameFull nat u32
  | FE_SegmentFull nat u32
  | FE_BufferTooSmall nat nat
  | FE_Truncated nat nat
  | FE_UnsupportedVersion u32
  | FE_Corrupt string
  | FE_PayloadChecksum u32 u32

section \<open>Limits and positions\<close>

record frame_limits =
  fl_max_frame_len :: u32
  fl_max_value_len :: u32

definition frame_limits_new :: "u32 \<Rightarrow> u32 \<Rightarrow> (frame_error, frame_limits) res" where
  "frame_limits_new max_frame_len max_value_len =
     (if max_frame_len = 0 \<or> \<not> is_aligned (unat max_frame_len) PAGE_SIZE
      then Err (FE_InvalidArgument ''frame limit must be a nonzero page multiple'')
      else if max_frame_len < max_value_len
      then Err (FE_InvalidArgument ''value limit exceeds frame limit'')
      else Ok \<lparr> fl_max_frame_len = max_frame_len, fl_max_value_len = max_value_len \<rparr>)"

record frame_position =
  fp_segment_seq :: u64
  fp_offset :: u32
  fp_available :: u32

definition frame_position_new :: "u64 \<Rightarrow> u32 \<Rightarrow> u32 \<Rightarrow> (frame_error, frame_position) res" where
  "frame_position_new segment_seq offset segment_len =
     (if \<not> is_aligned (unat segment_len) PAGE_SIZE \<or> \<not> is_aligned (unat offset) PAGE_SIZE
         \<or> offset < of_nat PAGE_SIZE \<or> segment_len \<le> offset
      then Err (FE_InvalidArgument ''invalid segment length or frame offset'')
      else Ok \<lparr> fp_segment_seq = segment_seq, fp_offset = offset, fp_available = segment_len - offset \<rparr>)"

definition check_len :: "frame_position \<Rightarrow> nat \<Rightarrow> (frame_error, unit) res" where
  "check_len position len =
     (if unat (fp_available position) < len then Err (FE_SegmentFull len (fp_available position)) else Ok ())"

section \<open>The header\<close>

record frame_header =
  fh_position :: frame_position
  fh_frame_len :: u32
  fh_record_count :: u32
  fh_checksum_len :: u32
  fh_metadata_crc :: u32

definition frame_header_decode ::
  "'d crc_lib \<Rightarrow> byte list \<Rightarrow> frame_limits \<Rightarrow> frame_position \<Rightarrow> (frame_error, frame_header) res" where
  "frame_header_decode L input limits position =
     rbind (of_option (FE_Truncated HEADER_LEN (length input)) (get_to input HEADER_LEN)) (\<lambda>bytes.
     rbind (slice bytes 0 8) (\<lambda>magic.
     if magic \<noteq> MAGIC then Err (FE_Corrupt ''frame magic'') else
     rbind (u32_at bytes 12) (\<lambda>stored.
     rbind (rbind (slice bytes 0 HEADER_LEN) (crc_with_zeroed_checksum L)) (\<lambda>crc.
     if stored \<noteq> crc then Err (FE_Corrupt ''header checksum'') else
     rbind (u32_at bytes 8) (\<lambda>version.
     if version \<noteq> FORMAT_VERSION then Err (FE_UnsupportedVersion version) else
     rbind (slice bytes 48 (length bytes)) (\<lambda>reserved.
     if \<not> all_zero reserved then Err (FE_Corrupt ''reserved header bytes'') else
     rbind (u64_at bytes 16) (\<lambda>segment_seq.
     rbind (u32_at bytes 24) (\<lambda>offset.
     if segment_seq \<noteq> fp_segment_seq position \<or> offset \<noteq> fp_offset position
     then Err (FE_Corrupt ''frame position or segment incarnation'') else
     rbind (u32_at bytes 28) (\<lambda>frame_len.
     rbind (u32_at bytes 32) (\<lambda>record_count.
     rbind (u32_at bytes 36) (\<lambda>directory_len.
     rbind (u32_at bytes 40) (\<lambda>checksum_len.
     if frame_len = 0 \<or> \<not> is_aligned (unat frame_len) PAGE_SIZE
        \<or> fl_max_frame_len limits < frame_len \<or> fp_available position < frame_len
     then Err (FE_Corrupt ''frame length'') else
     if record_count = 0 \<or> unat record_count * DESCRIPTOR_LEN \<noteq> unat directory_len
     then Err (FE_Corrupt ''directory length or record count'') else
     if unat checksum_len mod 4 \<noteq> 0
        \<or> unat frame_len < HEADER_LEN + unat directory_len + unat checksum_len
     then Err (FE_Corrupt ''metadata length'') else
     rbind (u32_at bytes 44) (\<lambda>metadata_crc.
       Ok \<lparr> fh_position = position, fh_frame_len = frame_len, fh_record_count = record_count,
            fh_checksum_len = checksum_len, fh_metadata_crc = metadata_crc \<rparr>)))))))))))))"

definition frame_len :: "frame_header \<Rightarrow> nat" where
  "frame_len h = unat (fh_frame_len h)"

definition frame_metadata_len :: "frame_header \<Rightarrow> nat" where
  "frame_metadata_len h = HEADER_LEN + unat (fh_record_count h) * DESCRIPTOR_LEN + unat (fh_checksum_len h)"

definition frame_header_encode :: "'d crc_lib \<Rightarrow> frame_header \<Rightarrow> byte list \<Rightarrow> (frame_error, byte list) res" where
  "frame_header_encode L h bytes0 =
     rbind (fill bytes0 0 HEADER_LEN 0) (\<lambda>bytes.
     rbind (put bytes 0 8 MAGIC) (\<lambda>bytes.
     rbind (put_u32 bytes 8 FORMAT_VERSION) (\<lambda>bytes.
     rbind (put_u64 bytes 16 (fp_segment_seq (fh_position h))) (\<lambda>bytes.
     rbind (put_u32 bytes 24 (fp_offset (fh_position h))) (\<lambda>bytes.
     rbind (put_u32 bytes 28 (fh_frame_len h)) (\<lambda>bytes.
     rbind (put_u32 bytes 32 (fh_record_count h)) (\<lambda>bytes.
     rbind (put_u32 bytes 36 (fh_record_count h * of_nat DESCRIPTOR_LEN)) (\<lambda>bytes.
     rbind (put_u32 bytes 40 (fh_checksum_len h)) (\<lambda>bytes.
     rbind (put_u32 bytes 44 (fh_metadata_crc h)) (\<lambda>bytes.
     rbind (rbind (slice bytes 0 HEADER_LEN) (crc_with_zeroed_checksum L)) (\<lambda>crc.
       put_u32 bytes 12 crc)))))))))))"

section \<open>Specification\<close>

text \<open>The two checksummed parts of a header, and its 64 bytes.\<close>

definition frame_header_front :: "byte list" where
  "frame_header_front = MAGIC @ le_split 4 FORMAT_VERSION"

definition frame_header_fields :: "frame_header \<Rightarrow> byte list" where
  "frame_header_fields h =
     le_split 8 (fp_segment_seq (fh_position h)) @ le_split 4 (fp_offset (fh_position h))
     @ le_split 4 (fh_frame_len h) @ le_split 4 (fh_record_count h)
     @ le_split 4 (fh_record_count h * of_nat DESCRIPTOR_LEN)
     @ le_split 4 (fh_checksum_len h) @ le_split 4 (fh_metadata_crc h) @ replicate 16 0"

definition frame_header_image :: "'d crc_lib \<Rightarrow> frame_header \<Rightarrow> byte list" where
  "frame_header_image L h =
     frame_header_front @ le_split 4 (header_crc L frame_header_front (frame_header_fields h))
     @ frame_header_fields h"

text \<open>What the decoder promises of an accepted header.\<close>

definition frame_header_ok :: "frame_limits \<Rightarrow> frame_header \<Rightarrow> bool" where
  "frame_header_ok limits h \<longleftrightarrow>
     fh_frame_len h \<noteq> 0 \<and> is_aligned (frame_len h) PAGE_SIZE
     \<and> fh_frame_len h \<le> fl_max_frame_len limits \<and> fh_frame_len h \<le> fp_available (fh_position h)
     \<and> fh_record_count h \<noteq> 0 \<and> unat (fh_checksum_len h) mod 4 = 0 \<and> frame_metadata_len h \<le> frame_len h"

section \<open>Decoding accepts exactly the images of valid headers\<close>

lemma length_MAGIC [simp]: "length MAGIC = 8"
  by (simp add: MAGIC_def)

lemma length_frame_header_front [simp]: "length frame_header_front = 12"
  by (simp add: frame_header_front_def)

lemma length_frame_header_fields [simp]: "length (frame_header_fields h) = 48"
  by (simp add: frame_header_fields_def)

lemma length_frame_header_image [simp]: "length (frame_header_image L h) = HEADER_LEN"
  by (simp add: frame_header_image_def HEADER_LEN_def)

lemma header_split: "take 64 bs = take 12 bs @ sub bs 12 4 @ sub bs 16 48"
  by (simp add: sub_join take_join)

lemma header_front_split: "take 12 bs = take 8 bs @ sub bs 8 4"
  by (simp add: take_join)

lemma header_fields_split:
  "sub bs 16 48 = sub bs 16 8 @ sub bs 24 4 @ sub bs 28 4 @ sub bs 32 4 @ sub bs 36 4 @ sub bs 40 4
     @ sub bs 44 4 @ sub bs 48 16"
  by (simp add: sub_join)

lemma frame_header_encode_image:
  assumes "HEADER_LEN \<le> length buf"
  shows "frame_header_encode L h buf = Ok (frame_header_image L h @ drop HEADER_LEN buf)"
proof -
  define b where "b = patch (patch (patch (patch (patch (patch (patch (patch (patch (patch buf 0 (replicate 64 0)) 0 MAGIC)
     8 (le_split 4 FORMAT_VERSION)) 16 (le_split 8 (fp_segment_seq (fh_position h))))
     24 (le_split 4 (fp_offset (fh_position h)))) 28 (le_split 4 (fh_frame_len h)))
     32 (le_split 4 (fh_record_count h))) 36 (le_split 4 (fh_record_count h * of_nat DESCRIPTOR_LEN)))
     40 (le_split 4 (fh_checksum_len h))) 44 (le_split 4 (fh_metadata_crc h))"
  have len: "length b = length buf" using assms by (simp add: b_def HEADER_LEN_def)
  have front: "take 12 b = frame_header_front"
    using assms unfolding header_front_split frame_header_front_def
    by (simp add: b_def HEADER_LEN_def slice_simps)
  have fields: "sub b 16 48 = frame_header_fields h"
    using assms unfolding header_fields_split frame_header_fields_def
    by (simp add: b_def HEADER_LEN_def slice_simps)
  have rest: "drop 64 b = drop 64 buf"
    using assms by (simp add: b_def HEADER_LEN_def slice_simps)
  let ?crc = "header_crc L frame_header_front (frame_header_fields h)"
  have "frame_header_encode L h buf = put_u32 b 12 ?crc"
    using assms len front fields
    by (simp add: frame_header_encode_def b_def [symmetric] HEADER_LEN_def drop_take_sub)
  moreover have "take 64 (patch b 12 (le_split 4 ?crc)) = frame_header_image L h"
    using assms len front fields unfolding header_split frame_header_image_def
    by (simp add: HEADER_LEN_def slice_simps)
  moreover have "drop 64 (patch b 12 (le_split 4 ?crc)) = drop 64 buf"
    using assms len rest by (simp add: HEADER_LEN_def slice_simps)
  ultimately show ?thesis
    using assms len by (simp add: HEADER_LEN_def) (metis append_take_drop_id)
qed

lemma frame_header_image_iff:
  assumes "length b = 64"
  shows "b = frame_header_image L h \<longleftrightarrow>
    take 8 b = MAGIC \<and> sub b 8 4 = le_split 4 FORMAT_VERSION
    \<and> sub b 12 4 = le_split 4 (header_crc L (take 12 b) (sub b 16 48))
    \<and> sub b 16 8 = le_split 8 (fp_segment_seq (fh_position h)) \<and> sub b 24 4 = le_split 4 (fp_offset (fh_position h))
    \<and> sub b 28 4 = le_split 4 (fh_frame_len h) \<and> sub b 32 4 = le_split 4 (fh_record_count h)
    \<and> sub b 36 4 = le_split 4 (fh_record_count h * of_nat DESCRIPTOR_LEN)
    \<and> sub b 40 4 = le_split 4 (fh_checksum_len h) \<and> sub b 44 4 = le_split 4 (fh_metadata_crc h)
    \<and> sub b 48 16 = replicate 16 0"
proof -
  have front: "take 12 b = frame_header_front \<longleftrightarrow> take 8 b = MAGIC \<and> sub b 8 4 = le_split 4 FORMAT_VERSION"
    using assms unfolding header_front_split frame_header_front_def by simp
  have fields: "sub b 16 48 = frame_header_fields h \<longleftrightarrow>
      sub b 16 8 = le_split 8 (fp_segment_seq (fh_position h)) \<and> sub b 24 4 = le_split 4 (fp_offset (fh_position h))
    \<and> sub b 28 4 = le_split 4 (fh_frame_len h) \<and> sub b 32 4 = le_split 4 (fh_record_count h)
    \<and> sub b 36 4 = le_split 4 (fh_record_count h * of_nat DESCRIPTOR_LEN)
    \<and> sub b 40 4 = le_split 4 (fh_checksum_len h) \<and> sub b 44 4 = le_split 4 (fh_metadata_crc h)
    \<and> sub b 48 16 = replicate 16 0"
    using assms unfolding header_fields_split frame_header_fields_def by simp
  have "b = take 12 b @ sub b 12 4 @ sub b 16 48"
    using header_split [of b] assms by simp
  then have "b = frame_header_image L h \<longleftrightarrow>
      take 12 b @ sub b 12 4 @ sub b 16 48 = frame_header_image L h"
    by (rule arg_cong [where f = "\<lambda>x. x = frame_header_image L h"])
  also have "\<dots> \<longleftrightarrow> take 12 b = frame_header_front
      \<and> sub b 12 4 = le_split 4 (header_crc L frame_header_front (frame_header_fields h))
      \<and> sub b 16 48 = frame_header_fields h"
    using assms by (simp add: frame_header_image_def)
  also have "\<dots> \<longleftrightarrow> take 12 b = frame_header_front
      \<and> sub b 12 4 = le_split 4 (header_crc L (take 12 b) (sub b 16 48))
      \<and> sub b 16 48 = frame_header_fields h"
    by auto
  finally show ?thesis unfolding front fields by blast
qed

lemma directory_len_iff:
  fixes count dir :: u32
  assumes "unat count * DESCRIPTOR_LEN < 2 ^ 32"
  shows "unat count * DESCRIPTOR_LEN = unat dir \<longleftrightarrow> dir = count * of_nat DESCRIPTOR_LEN"
proof -
  have "unat (count * of_nat DESCRIPTOR_LEN) = unat count * DESCRIPTOR_LEN"
    using assms by (simp add: unat_word_ariths DESCRIPTOR_LEN_def)
  then show ?thesis by (metis word_unat_eq_iff)
qed

lemma frame_header_decode_short:
  "length bytes < HEADER_LEN \<Longrightarrow>
   frame_header_decode L bytes limits position = Err (FE_Truncated HEADER_LEN (length bytes))"
  by (simp add: frame_header_decode_def get_to_def)

lemma frame_header_okD:
  assumes "frame_header_ok limits h"
  shows "unat (fh_record_count h) * DESCRIPTOR_LEN < 2 ^ 32" "frame_metadata_len h \<le> frame_len h"
    "HEADER_LEN \<le> frame_metadata_len h" "frame_len h \<le> unat (fl_max_frame_len limits)"
    "is_aligned (frame_len h) PAGE_SIZE" "frame_len h < 2 ^ 32" "0 < unat (fh_record_count h)"
proof -
  have "frame_len h < 2 ^ 32" unfolding frame_len_def using unsigned_less [of "fh_frame_len h"] by simp
  with assms show "unat (fh_record_count h) * DESCRIPTOR_LEN < 2 ^ 32" "frame_metadata_len h \<le> frame_len h"
    "HEADER_LEN \<le> frame_metadata_len h" "frame_len h \<le> unat (fl_max_frame_len limits)"
    "is_aligned (frame_len h) PAGE_SIZE" "frame_len h < 2 ^ 32" "0 < unat (fh_record_count h)"
    by (auto simp: frame_header_ok_def frame_metadata_len_def frame_len_def word_le_nat_alt unat_gt_0)
qed

lemma frame_header_decode_exact:
  assumes "HEADER_LEN \<le> length bytes"
  shows "frame_header_decode L bytes limits position = Ok h \<longleftrightarrow>
    take HEADER_LEN bytes = frame_header_image L h \<and> fh_position h = position \<and> frame_header_ok limits h"
proof -
  define b where "b = take 64 bytes"
  have len: "length b = 64" using assms by (simp add: b_def HEADER_LEN_def)
  have zero: "all_zero (sub b 48 16) \<longleftrightarrow> sub b 48 16 = replicate 16 0"
    using len by (intro all_zero_eq) simp
  note fields = u32_field_iff [of "sub b _ 4"] u64_field_iff [of "sub b _ 8"]
  have "frame_header_decode L bytes limits position = Ok h \<longleftrightarrow>
    take 8 b = MAGIC \<and> le_join (sub b 12 4) = header_crc L (take 12 b) (sub b 16 48)
    \<and> le_join (sub b 8 4) = FORMAT_VERSION \<and> sub b 48 16 = replicate 16 0
    \<and> le_join (sub b 16 8) = fp_segment_seq position \<and> le_join (sub b 24 4) = fp_offset position
    \<and> fh_position h = position \<and> le_join (sub b 28 4) = fh_frame_len h
    \<and> le_join (sub b 32 4) = fh_record_count h \<and> le_join (sub b 40 4) = fh_checksum_len h
    \<and> le_join (sub b 44 4) = fh_metadata_crc h
    \<and> unat (fh_record_count h) * DESCRIPTOR_LEN = unat (le_join (sub b 36 4) :: u32)
    \<and> frame_header_ok limits h"
    using assms len zero
    by (cases h) (auto simp: frame_header_decode_def HEADER_LEN_def b_def [symmetric] drop_take_sub sub_all
        frame_header_ok_def frame_len_def frame_metadata_len_def not_less)
  moreover have "unat (fh_record_count h) * DESCRIPTOR_LEN = unat (le_join (sub b 36 4) :: u32) \<longleftrightarrow>
      sub b 36 4 = le_split 4 (fh_record_count h * of_nat DESCRIPTOR_LEN)" if "frame_header_ok limits h"
    using len frame_header_okD(1) [OF that] by (simp add: directory_len_iff fields)
  ultimately show ?thesis
    using len by (auto simp: b_def [symmetric] HEADER_LEN_def frame_header_image_iff fields)
qed

text \<open>
  C28: Exactness of the frame header. \<open>frame_header_decode\<close> accepts a byte string at a position
  exactly when its first 64 bytes are the image of a header that is valid for the limits and
  bound to that position, and it returns that header; \<open>frame_header_encode\<close> writes the image
  and leaves the rest of the buffer alone; no input makes the decoder panic.
\<close>

theorem frame_header_exact:
  "(frame_header_decode L bytes limits position = Ok h \<longleftrightarrow>
     HEADER_LEN \<le> length bytes \<and> take HEADER_LEN bytes = frame_header_image L h
     \<and> fh_position h = position \<and> frame_header_ok limits h)
   \<and> (HEADER_LEN \<le> length bytes \<longrightarrow>
       frame_header_encode L h bytes = Ok (frame_header_image L h @ drop HEADER_LEN bytes))
   \<and> frame_header_decode L bytes limits position \<noteq> Panic"
proof (cases "HEADER_LEN \<le> length bytes")
  case True
  then have "frame_header_decode L bytes limits position \<noteq> Panic"
    by (simp add: frame_header_decode_def HEADER_LEN_def)
  with True show ?thesis
    by (simp add: frame_header_decode_exact frame_header_encode_image)
next
  case False
  then show ?thesis by (simp add: frame_header_decode_short)
qed

text \<open>A header of one empty record at the first frame position of a two-page segment.\<close>

definition sample_limits :: frame_limits where
  "sample_limits = \<lparr> fl_max_frame_len = 8192, fl_max_value_len = 4096 \<rparr>"

definition sample_position :: frame_position where
  "sample_position = \<lparr> fp_segment_seq = 7, fp_offset = 4096, fp_available = 8192 \<rparr>"

definition sample_header :: frame_header where
  "sample_header = \<lparr> fh_position = sample_position, fh_frame_len = 4096, fh_record_count = 1,
     fh_checksum_len = 0, fh_metadata_crc = 0 \<rparr>"

lemma sample_header_ok: "frame_header_ok sample_limits sample_header"
  by (simp add: frame_header_ok_def sample_header_def sample_limits_def sample_position_def frame_len_def
      frame_metadata_len_def HEADER_LEN_def DESCRIPTOR_LEN_def PAGE_SIZE_def is_aligned_def)

theorem frame_header_exact_witness:
  "frame_header_decode rfc3720 (frame_header_image rfc3720 sample_header) sample_limits sample_position = Ok sample_header
   \<and> frame_header_encode rfc3720 sample_header (replicate 64 0) = Ok (frame_header_image rfc3720 sample_header)"
  using frame_header_exact [of rfc3720 "frame_header_image rfc3720 sample_header" sample_limits sample_position sample_header]
    frame_header_exact [of rfc3720 "replicate 64 0" _ _ sample_header] sample_header_ok
  by (simp add: HEADER_LEN_def sample_header_def)

lemma image_byte_changed:
  assumes L: "crc_detects_byte L"
    and len: "i < HEADER_LEN" and diff: "frame_header_image L h ! i \<noteq> c"
  shows "(frame_header_image L h)[i := c] \<noteq> frame_header_image L h'"
proof
  let ?b = "frame_header_image L h"
  assume eq: "?b[i := c] = frame_header_image L h'"
  have len': "length (?b[i := c]) = 64" by (simp add: HEADER_LEN_def)
  have crc: "sub ?b 12 4 = le_split 4 (header_crc L (take 12 ?b) (sub ?b 16 48))"
    using frame_header_image_iff [of ?b L h] by (simp add: HEADER_LEN_def)
  have crc': "sub (?b[i := c]) 12 4 = le_split 4 (header_crc L (take 12 (?b[i := c])) (sub (?b[i := c]) 16 48))"
    using frame_header_image_iff [OF len', of L h'] eq by simp
  consider "i < 12" | "12 \<le> i" "i < 16" | "16 \<le> i" by linarith
  then show False
  proof cases
    case 1
    then have "sub (?b[i := c]) 12 4 = sub ?b 12 4" "sub (?b[i := c]) 16 48 = sub ?b 16 48"
      "take 12 (?b[i := c]) = (take 12 ?b)[i := c]"
      by (simp_all add: sub_def drop_update_cancel take_update_swap)
    with crc crc' crc_detects_byte.header_crc_before [OF L, of i "take 12 ?b" c "sub ?b 16 48"] 1 diff
    show False by (simp add: u32_field.enc_inject HEADER_LEN_def)
  next
    case 2
    then have "sub (?b[i := c]) 16 48 = sub ?b 16 48" "take 12 (?b[i := c]) = take 12 ?b"
      by (simp_all add: sub_def drop_update_cancel)
    with crc crc' have "sub (?b[i := c]) 12 4 = sub ?b 12 4" by simp
    then have "sub (?b[i := c]) 12 4 ! (i - 12) = sub ?b 12 4 ! (i - 12)" by simp
    with 2 diff len show False by (simp add: nth_sub HEADER_LEN_def)
  next
    case 3
    then have "sub (?b[i := c]) 12 4 = sub ?b 12 4" "take 12 (?b[i := c]) = take 12 ?b"
      by (simp_all add: sub_def drop_update_swap take_update_cancel)
    moreover from 3 have "sub (?b[i := c]) 16 48 = (sub ?b 16 48)[i - 16 := c]"
      by (simp add: sub_def drop_update_swap take_update_swap)
    moreover from len 3 have "i - 16 < 48" by (simp add: HEADER_LEN_def)
    ultimately show False using crc crc' crc_detects_byte.header_crc_after [OF L, of "i - 16" "sub ?b 16 48" c "take 12 ?b"] 3 diff len
      by (simp add: u32_field.enc_inject HEADER_LEN_def nth_sub)
  qed
qed

lemma frame_header_change_rejected:
  assumes "crc_detects_byte L"
    and "frame_header_decode L bytes limits position = Ok h"
    and "i < HEADER_LEN" and "bytes ! i \<noteq> c"
  shows "frame_header_decode L (bytes[i := c]) limits' position' \<noteq> Ok h'"
proof -
  from assms(2) have ok: "HEADER_LEN \<le> length bytes" "take HEADER_LEN bytes = frame_header_image L h"
    using frame_header_decode_short [of bytes L limits position] frame_header_decode_exact [of bytes L limits position h]
    by (cases "HEADER_LEN \<le> length bytes"; simp)+
  then have "take HEADER_LEN (bytes[i := c]) = (frame_header_image L h)[i := c]"
    by (simp add: take_update_swap)
  moreover have "frame_header_image L h ! i \<noteq> c"
    using ok assms(3,4) by (metis nth_take)
  ultimately show ?thesis
    using ok assms(1,3) image_byte_changed [of L i h c h'] by (auto simp: frame_header_decode_exact)
qed

lemma frame_header_decode_total: "frame_header_decode L input limits position \<noteq> Panic"
proof (cases "HEADER_LEN \<le> length input")
  case True
  then show ?thesis by (simp add: frame_header_decode_def HEADER_LEN_def)
qed (simp add: frame_header_decode_short)

end
