(* ===== verification/Chunk_Id.thy ===== *)
theory Chunk_Id
  imports Prelude "HOL-Library.List_Lexorder"
begin

text \<open>
  The chunk identifier (\<^verbatim>\<open>moat-common/src/chunk_id.rs\<close>).

  \<open>chunk_id\<close> is the array \<open>[u8; 16]\<close> as a type of its own: the byte lists of length sixteen.
  Text is a list of bytes, as \<open>from_str\<close> reads it. \<open>mix\<close> is the hash that index sharding and
  disk placement use; \<open>chunk_hasher\<close> is the state of \<open>ChunkIdHasher\<close>.
\<close>

unbundle bit_operations_syntax

section \<open>The type\<close>

definition CHUNK_ID_LEN :: nat where
  "CHUNK_ID_LEN = 16"

typedef chunk_id = "{bs :: byte list. length bs = 16}"
  morphisms as_bytes ChunkId
proof
  show "replicate 16 0 \<in> {bs :: byte list. length bs = 16}" by simp
qed

lemma length_as_bytes [simp]: "length (as_bytes k) = 16"
  using as_bytes [of k] by simp

lemma as_bytes_ChunkId [simp]: "length bs = 16 \<Longrightarrow> as_bytes (ChunkId bs) = bs"
  by (rule ChunkId_inverse) simp

lemma ChunkId_as_bytes [simp]: "ChunkId (as_bytes k) = k"
  by (rule as_bytes_inverse)

instantiation chunk_id :: equal
begin

definition equal_chunk_id :: "chunk_id \<Rightarrow> chunk_id \<Rightarrow> bool" where
  "equal_chunk_id a b \<longleftrightarrow> as_bytes a = as_bytes b"

instance
  by standard (simp add: equal_chunk_id_def as_bytes_inject)

end

text \<open>The derived \<open>Ord\<close>: arrays compare lexicographically.\<close>

instantiation chunk_id :: linorder
begin

definition less_eq_chunk_id :: "chunk_id \<Rightarrow> chunk_id \<Rightarrow> bool" where
  "less_eq_chunk_id a b \<longleftrightarrow> as_bytes a \<le> as_bytes b"

definition less_chunk_id :: "chunk_id \<Rightarrow> chunk_id \<Rightarrow> bool" where
  "less_chunk_id a b \<longleftrightarrow> as_bytes a < as_bytes b"

instance
  by standard (auto simp: less_eq_chunk_id_def less_chunk_id_def as_bytes_inject order_less_le)

end

section \<open>Conversions\<close>

definition from_bytes :: "byte list \<Rightarrow> chunk_id" where
  "from_bytes bs = ChunkId bs"

definition from_u128 :: "u128 \<Rightarrow> chunk_id" where
  "from_u128 value = ChunkId (rev (le_split 16 value))"

definition to_u128 :: "chunk_id \<Rightarrow> u128" where
  "to_u128 k = le_join (rev (as_bytes k))"

definition splitmix64 :: "u64 \<Rightarrow> u64" where
  "splitmix64 z0 =
     (let z1 = z0 + 0x9E3779B97F4A7C15;
          z2 = (z1 XOR drop_bit 30 z1) * 0xBF58476D1CE4E5B9;
          z3 = (z2 XOR drop_bit 27 z2) * 0x94D049BB133111EB
      in z3 XOR drop_bit 31 z3)"

definition mix :: "chunk_id \<Rightarrow> u64" where
  "mix k =
     (let lo = le_join (take 8 (as_bytes k));
          hi = le_join (drop 8 (as_bytes k))
      in splitmix64 (lo XOR splitmix64 (hi XOR 0x9E3779B97F4A7C15)))"

section \<open>Text\<close>

definition hex_digit :: "byte \<Rightarrow> byte" where
  "hex_digit n = (if n < 10 then 0x30 + n else 0x61 + (n - 10))"

definition display :: "chunk_id \<Rightarrow> byte list" where
  "display k = concat (map (\<lambda>b. [hex_digit (drop_bit 4 b), hex_digit (b AND 0x0F)]) (as_bytes k))"

datatype parse_chunk_id_error = ParseChunkIdError

definition hex_nibble :: "byte \<Rightarrow> byte option" where
  "hex_nibble c =
     (if 0x30 \<le> c \<and> c \<le> 0x39 then Some (c - 0x30)
      else if 0x61 \<le> c \<and> c \<le> 0x66 then Some (c - 0x61 + 10)
      else if 0x41 \<le> c \<and> c \<le> 0x46 then Some (c - 0x41 + 10)
      else None)"

text \<open>The loop over \<open>digits.as_chunks::<2>()\<close>: an odd last digit is dropped.\<close>

fun parse_pairs :: "nat \<Rightarrow> byte list \<Rightarrow> byte list \<Rightarrow> (parse_chunk_id_error, byte list) res" where
  "parse_pairs i out (h # l # rest) =
     rbind (of_option ParseChunkIdError (hex_nibble h)) (\<lambda>hi.
     rbind (of_option ParseChunkIdError (hex_nibble l)) (\<lambda>lo.
       if i < length out then parse_pairs (Suc i) (out[i := push_bit 4 hi OR lo]) rest else Panic))"
| "parse_pairs i out _ = Ok out"

declare parse_pairs.simps [simp del]

definition from_str :: "byte list \<Rightarrow> (parse_chunk_id_error, chunk_id) res" where
  "from_str s =
     rbind (if length s = 32 then Ok s
            else if length s = 36 then
              (if list_ex (\<lambda>i. s ! i \<noteq> 0x2D) [8, 13, 18, 23] then Err ParseChunkIdError
               else Ok (filter (\<lambda>c. c \<noteq> 0x2D) s))
            else Err ParseChunkIdError) (\<lambda>digits.
     rbind (parse_pairs 0 (replicate 16 0) digits) (\<lambda>out. Ok (ChunkId out)))"

section \<open>The pass-through hasher\<close>

type_synonym chunk_hasher = u64

definition hasher_finish :: "chunk_hasher \<Rightarrow> u64" where
  "hasher_finish h = h"

definition hasher_write :: "chunk_hasher \<Rightarrow> byte list \<Rightarrow> chunk_hasher" where
  "hasher_write h bytes =
     fold (\<lambda>chunk h. splitmix64 (h XOR le_join (patch (replicate 8 0) 0 chunk))) (chunks 8 bytes) h"

definition hasher_write_u64 :: "chunk_hasher \<Rightarrow> u64 \<Rightarrow> chunk_hasher" where
  "hasher_write_u64 h value = value"

definition chunk_id_hash :: "chunk_id \<Rightarrow> chunk_hasher \<Rightarrow> chunk_hasher" where
  "chunk_id_hash k state = hasher_write_u64 state (mix k)"

section \<open>Round trips\<close>

lemma to_u128_from_u128: "to_u128 (from_u128 v) = v"
  by (simp add: to_u128_def from_u128_def)

lemma from_u128_to_u128: "from_u128 (to_u128 k) = k"
  using le_split_le_join [of "rev (as_bytes k)", where 'a = 128]
  by (simp add: to_u128_def from_u128_def)

lemma byte_below_16:
  assumes "n < (16 :: byte)"
  shows "n \<in> {0, 1, 2, 3, 4, 5, 6, 7, 8, 9, 10, 11, 12, 13, 14, 15}"
proof -
  have "unat n < 16" using assms by (simp add: word_less_nat_alt)
  then have "unat n \<in> {0, 1, 2, 3, 4, 5, 6, 7, 8, 9, 10, 11, 12, 13, 14, 15}" by simp arith
  then have "(of_nat (unat n) :: byte) \<in> of_nat ` {0, 1, 2, 3, 4, 5, 6, 7, 8, 9, 10, 11, 12, 13, 14, 15}"
    by (rule imageI)
  then show ?thesis by simp
qed

lemma hex_nibble_digit:
  assumes "n < 16"
  shows "hex_nibble (hex_digit n) = Some n"
  using byte_below_16 [OF assms] unfolding insert_iff empty_iff
  by (elim disjE) (simp_all add: hex_nibble_def hex_digit_def)

lemma hex_digit_not_hyphen: "n < 16 \<Longrightarrow> hex_digit n \<noteq> 0x2D"
  using hex_nibble_digit [of n] by (auto simp: hex_nibble_def)

lemma high_nibble_less: "drop_bit 4 (b :: byte) < 16"
proof -
  have "unat b < 256" using unsigned_less [of b] by simp
  then show ?thesis by (simp add: word_less_nat_alt unat_drop_bit_eq drop_bit_nat_def)
qed

lemma low_nibble_less: "b AND 0x0F < (16 :: byte)"
  using word_and_le1 [of b 15] by (simp add: word_le_nat_alt word_less_nat_alt)

lemma nibbles_join: "push_bit 4 (drop_bit 4 b) OR (b AND 0x0F) = (b :: byte)"
proof -
  have "b AND 0x0F = take_bit 4 b" by (simp add: take_bit_eq_mask mask_eq_decr_exp)
  then show ?thesis
    by (intro bit_word_eqI) (auto simp: bit_simps)
qed

lemma parse_pairs_hex:
  "i + length bs \<le> length out \<Longrightarrow>
   parse_pairs i out (concat (map (\<lambda>b. [hex_digit (drop_bit 4 b), hex_digit (b AND 0x0F)]) bs))
   = Ok (patch out i bs)"
proof (induction bs arbitrary: i out)
  case Nil
  then show ?case by (simp add: parse_pairs.simps)
next
  case (Cons b bs)
  then have "patch (out[i := b]) (Suc i) bs = patch out i (b # bs)"
    by (simp add: patch_def take_Suc_conv_app_nth drop_update_cancel)
  with Cons show ?case
    by (simp add: parse_pairs.simps hex_nibble_digit high_nibble_less low_nibble_less nibbles_join)
qed

lemma length_display [simp]: "length (display k) = 32"
  by (simp add: display_def length_concat comp_def sum_list_triv)

lemma display_no_hyphen: "c \<in> set (display k) \<Longrightarrow> c \<noteq> 0x2D"
  by (auto simp: display_def hex_digit_not_hyphen high_nibble_less low_nibble_less)

lemma parse_pairs_display: "parse_pairs 0 (replicate 16 0) (display k) = Ok (as_bytes k)"
  using parse_pairs_hex [of 0 "as_bytes k" "replicate 16 0"] by (simp add: display_def patch_whole)

text \<open>The hyphenated \<open>8-4-4-4-12\<close> form of 32 digits.\<close>

definition uuid_form :: "byte list \<Rightarrow> byte list" where
  "uuid_form s = take 8 s @ [0x2D] @ sub s 8 4 @ [0x2D] @ sub s 12 4 @ [0x2D] @ sub s 16 4 @ [0x2D] @ drop 20 s"

lemma filter_uuid_form:
  assumes "\<And>c. c \<in> set s \<Longrightarrow> c \<noteq> 0x2D"
  shows "filter (\<lambda>c. c \<noteq> 0x2D) (uuid_form s) = s"
proof -
  have keep: "filter (\<lambda>c. c \<noteq> 0x2D) t = t" if "set t \<subseteq> set s" for t
    using that assms by (auto simp: filter_id_conv)
  have "set (sub s a n) \<subseteq> set s" for a n
    by (simp add: sub_def) (meson order_trans set_drop_subset set_take_subset)
  then have "filter (\<lambda>c. c \<noteq> 0x2D) (uuid_form s) = take 8 s @ sub s 8 4 @ sub s 12 4 @ sub s 16 4 @ drop 20 s"
    by (simp add: uuid_form_def keep set_take_subset set_drop_subset)
  moreover have "take 20 s = ((take 8 s @ sub s 8 4) @ sub s 12 4) @ sub s 16 4"
    using sub_append_sub [of s 0 8 4] sub_append_sub [of s 0 12 4] sub_append_sub [of s 0 16 4]
    by (simp del: append_assoc)
  ultimately show ?thesis
    by (metis append.assoc append_take_drop_id)
qed

lemma from_str_display: "from_str (display k) = Ok k"
  by (simp add: from_str_def parse_pairs_display)

lemma from_str_uuid_form: "from_str (uuid_form (display k)) = Ok k"
proof -
  have "length (uuid_form (display k)) = 36" by (simp add: uuid_form_def)
  moreover have "uuid_form (display k) ! 8 = 0x2D" "uuid_form (display k) ! 13 = 0x2D"
    "uuid_form (display k) ! 18 = 0x2D" "uuid_form (display k) ! 23 = 0x2D"
    by (simp_all add: uuid_form_def nth_append)
  ultimately show ?thesis
    using display_no_hyphen by (simp add: from_str_def filter_uuid_form parse_pairs_display)
qed

lemma parse_pairs_total:
  "i + length digits div 2 \<le> length out \<Longrightarrow> parse_pairs i out digits \<noteq> Panic"
proof (induction i out digits rule: parse_pairs.induct)
  case (1 i out h l rest)
  then have fits: "Suc i + length rest div 2 \<le> length out" by simp
  then have "i < length out" by simp
  with 1(1) fits show ?case by (auto simp: rbind_Panic_iff parse_pairs.simps)
qed (simp_all add: parse_pairs.simps)

lemma parse_pairs_length: "parse_pairs i out digits = Ok out' \<Longrightarrow> length out' = length out"
proof (induction i out digits rule: parse_pairs.induct)
  case (1 i out h l rest)
  then show ?case by (auto simp: rbind_Ok_iff parse_pairs.simps split: if_splits)
qed (simp_all add: parse_pairs.simps)

lemma length_filter_hyphens:
  assumes "length s = 36" and "\<not> list_ex (\<lambda>i. s ! i \<noteq> c) [8, 13, 18, 23]"
  shows "length (filter (\<lambda>d. d \<noteq> c) s) \<le> 32"
proof -
  have "{i. i < length s \<and> s ! i \<noteq> c} \<subseteq> {..<36} - {8, 13, 18, 23}"
    using assms by auto
  then have "card {i. i < length s \<and> s ! i \<noteq> c} \<le> card ({..<36} - {8, 13, 18, 23 :: nat})"
    by (intro card_mono) auto
  also have "\<dots> = 32" by (subst card_Diff_subset) auto
  finally show ?thesis by (simp add: length_filter_conv_card)
qed

text \<open>
  C33: Text round trip. Parsing the printed form of an identifier gives it back, parsing its
  hyphenated UUID form gives it back too, and no text makes the parser panic.
\<close>

theorem chunk_id_text_roundtrip:
  "from_str (display k) = Ok k \<and> from_str (uuid_form (display k)) = Ok k \<and> from_str s \<noteq> Panic"
proof -
  have "from_str s \<noteq> Panic"
    using length_filter_hyphens [of s "0x2D"]
    by (auto simp: from_str_def rbind_Panic_iff parse_pairs_total)
  then show ?thesis by (simp add: from_str_display from_str_uuid_form)
qed


section \<open>The hash\<close>

lemma xorshift_inject:
  fixes z w :: "'a::len word"
  assumes "0 < k" and "z XOR drop_bit k z = w XOR drop_bit k w"
  shows "z = w"
proof (rule bit_word_eqI)
  fix n
  have step: "bit z n = bit w n" if "bit z (n + k) = bit w (n + k)" for n
  proof -
    have "bit (z XOR drop_bit k z) n = bit (w XOR drop_bit k w) n" using assms(2) by simp
    with that show ?thesis by (simp add: bit_xor_iff bit_drop_bit_eq add.commute) blast
  qed
  have "bit z n = bit w n" for n
  proof (induction "LENGTH('a) - n" arbitrary: n rule: less_induct)
    case less
    show ?case
    proof (cases "n < LENGTH('a)")
      case True
      with assms(1) have "bit z (n + k) = bit w (n + k)" by (intro less) simp
      then show ?thesis by (rule step)
    next
      case False
      then show ?thesis by (metis bit_imp_le_length)
    qed
  qed
  then show "bit z n = bit w n" .
qed

lemma mul_unit_inject:
  fixes z w :: "'a::len word"
  assumes "c * d = 1" and "z * c = w * c"
  shows "z = w"
  using assms by (metis mult.assoc mult.right_neutral)

lemma splitmix64_inject: "splitmix64 z = splitmix64 w \<longleftrightarrow> z = w"
proof
  have c: "(0xBF58476D1CE4E5B9 :: u64) * 0x96DE1B173F119089 = 1" by simp
  have d: "(0x94D049BB133111EB :: u64) * 0x319642B2D24D8EC3 = 1" by simp
  assume "splitmix64 z = splitmix64 w"
  then show "z = w"
    unfolding splitmix64_def Let_def
    by (blast dest: xorshift_inject [rotated] mul_unit_inject [OF c] mul_unit_inject [OF d]
        add_right_imp_eq intro: zero_less_numeral)
qed simp

text \<open>
  Mixing: \<open>splitmix64\<close> is a bijection on 64-bit words. Identifiers that agree in one half
  therefore never collide under \<open>mix\<close>, in particular the sequential identifiers
  \<open>from_u128\<close> gives to consecutive numbers.
\<close>

theorem splitmix64_bijective:
  "bij splitmix64 \<and>
   (take 8 (as_bytes a) = take 8 (as_bytes b) \<or> drop 8 (as_bytes a) = drop 8 (as_bytes b) \<longrightarrow>
    mix a = mix b \<longrightarrow> a = b)"
proof
  have "inj splitmix64" by (rule injI) (simp add: splitmix64_inject)
  then show "bij splitmix64" by (simp add: bij_def finite_UNIV_inj_surj)
  show "take 8 (as_bytes a) = take 8 (as_bytes b) \<or> drop 8 (as_bytes a) = drop 8 (as_bytes b) \<longrightarrow>
    mix a = mix b \<longrightarrow> a = b"
    by (auto simp: mix_def splitmix64_inject xor_cancel xor_cancel_left le_join_inject as_bytes_inject [symmetric])
      (metis append_take_drop_id)+
qed

theorem splitmix64_bijective_witness:
  "bij splitmix64 \<and> mix (from_u128 1) \<noteq> mix (from_u128 2)"
proof -
  have "take 8 (as_bytes (from_u128 1)) = take 8 (as_bytes (from_u128 2))"
    by (simp add: from_u128_def le_split_numeral)
  moreover have "from_u128 1 \<noteq> from_u128 2"
    using to_u128_from_u128 [of 1] to_u128_from_u128 [of 2] by auto
  ultimately show ?thesis
    using splitmix64_bijective [of "from_u128 1" "from_u128 2"] by blast
qed

end
