(* ===== verification/Frame_Record.thy ===== *)
theory Frame_Record
  imports Frame_Header Chunk_Id
begin

text \<open>
  The 64-byte directory entry of a frame (\<^verbatim>\<open>moat-engine/src/frame/record.rs\<close>). As for the
  header, decoding accepts exactly the images of descriptors.
\<close>

datatype record_kind = Data | Tombstone

record record_descriptor =
  rd_key :: chunk_id
  rd_lsn :: u64
  rd_value_offset :: u32
  rd_value_len :: u32
  rd_checksum_offset :: u32
  rd_checksum_count :: u32
  rd_kind :: record_kind

fun kind_byte :: "record_kind \<Rightarrow> byte" where
  "kind_byte Data = 1"
| "kind_byte Tombstone = 2"

definition record_descriptor_decode :: "byte list \<Rightarrow> (frame_error, record_descriptor) res" where
  "record_descriptor_decode bytes =
     rbind (index bytes 40) (\<lambda>tag.
     rbind (if tag = 1 then Ok Data else if tag = 2 then Ok Tombstone
            else Err (FE_Corrupt ''record kind'')) (\<lambda>kind.
     rbind (slice bytes 41 DESCRIPTOR_LEN) (\<lambda>reserved.
     if \<not> all_zero reserved
     then Err (FE_Corrupt ''unsupported record flags or reserved bytes'') else
     rbind (slice bytes 0 16) (\<lambda>key.
     rbind (u64_at bytes 16) (\<lambda>lsn.
     rbind (u32_at bytes 24) (\<lambda>value_offset.
     rbind (u32_at bytes 28) (\<lambda>value_len.
     rbind (u32_at bytes 32) (\<lambda>checksum_offset.
     rbind (u32_at bytes 36) (\<lambda>checksum_count.
       Ok \<lparr> rd_key = from_bytes key, rd_lsn = lsn, rd_value_offset = value_offset, rd_value_len = value_len,
            rd_checksum_offset = checksum_offset, rd_checksum_count = checksum_count, rd_kind = kind \<rparr>)))))))))"

definition record_descriptor_encode :: "record_descriptor \<Rightarrow> byte list \<Rightarrow> (frame_error, byte list) res" where
  "record_descriptor_encode d bytes0 =
     rbind (fill bytes0 0 DESCRIPTOR_LEN 0) (\<lambda>bytes.
     rbind (put bytes 0 16 (as_bytes (rd_key d))) (\<lambda>bytes.
     rbind (put_u64 bytes 16 (rd_lsn d)) (\<lambda>bytes.
     rbind (put_u32 bytes 24 (rd_value_offset d)) (\<lambda>bytes.
     rbind (put_u32 bytes 28 (rd_value_len d)) (\<lambda>bytes.
     rbind (put_u32 bytes 32 (rd_checksum_offset d)) (\<lambda>bytes.
     rbind (put_u32 bytes 36 (rd_checksum_count d)) (\<lambda>bytes.
       index_put bytes 40 (kind_byte (rd_kind d)))))))))"

section \<open>Specification\<close>

definition record_descriptor_image :: "record_descriptor \<Rightarrow> byte list" where
  "record_descriptor_image d =
     as_bytes (rd_key d) @ le_split 8 (rd_lsn d) @ le_split 4 (rd_value_offset d) @ le_split 4 (rd_value_len d)
     @ le_split 4 (rd_checksum_offset d) @ le_split 4 (rd_checksum_count d) @ [kind_byte (rd_kind d)] @ replicate 23 0"

lemma length_record_descriptor_image [simp]: "length (record_descriptor_image d) = DESCRIPTOR_LEN"
  by (simp add: record_descriptor_image_def DESCRIPTOR_LEN_def)

lemma descriptor_split:
  "take 64 bs = take 16 bs @ sub bs 16 8 @ sub bs 24 4 @ sub bs 28 4 @ sub bs 32 4 @ sub bs 36 4
     @ sub bs 40 1 @ sub bs 41 23"
  by (simp add: sub_join take_join)

lemma sub_one: "i < length bs \<Longrightarrow> sub bs i (Suc 0) = [bs ! i]"
  by (simp add: sub_def take_Suc_conv_app_nth flip: Cons_nth_drop_Suc)

lemma record_descriptor_encode_image:
  assumes "DESCRIPTOR_LEN \<le> length buf"
  shows "record_descriptor_encode d buf = Ok (record_descriptor_image d @ drop DESCRIPTOR_LEN buf)"
proof -
  define b where "b = patch (patch (patch (patch (patch (patch (patch (patch buf 0 (replicate 64 0)) 0 (as_bytes (rd_key d)))
     16 (le_split 8 (rd_lsn d))) 24 (le_split 4 (rd_value_offset d))) 28 (le_split 4 (rd_value_len d)))
     32 (le_split 4 (rd_checksum_offset d))) 36 (le_split 4 (rd_checksum_count d))) 40 [kind_byte (rd_kind d)]"
  have "take 64 b = record_descriptor_image d"
    using assms unfolding descriptor_split record_descriptor_image_def
    by (simp add: b_def DESCRIPTOR_LEN_def slice_simps)
  moreover have "drop 64 b = drop 64 buf"
    using assms by (simp add: b_def DESCRIPTOR_LEN_def slice_simps)
  moreover have "record_descriptor_encode d buf = Ok b"
    using assms by (simp add: record_descriptor_encode_def b_def DESCRIPTOR_LEN_def)
  ultimately show ?thesis
    using append_take_drop_id [of 64 b] by (simp add: DESCRIPTOR_LEN_def)
qed

lemma kind_byte_iff:
  "kind_byte Data = tag \<longleftrightarrow> tag = 1" "kind_byte Tombstone = tag \<longleftrightarrow> tag = 2"
  by auto

lemma from_bytes_eq_iff: "length bs = 16 \<Longrightarrow> from_bytes bs = k \<longleftrightarrow> bs = as_bytes k"
  by (auto simp: from_bytes_def)

lemma record_descriptor_decode_exact:
  assumes "length bytes = DESCRIPTOR_LEN"
  shows "record_descriptor_decode bytes = Ok d \<longleftrightarrow> bytes = record_descriptor_image d"
proof -
  have len: "length bytes = 64" using assms by (simp add: DESCRIPTOR_LEN_def)
  have zero: "all_zero (sub bytes 41 23) \<longleftrightarrow> sub bytes 41 23 = replicate 23 0"
    using len by (intro all_zero_eq) simp
  note fields = u32_field_iff [of "sub bytes _ 4"] u64_field_iff [of "sub bytes _ 8"] from_bytes_eq_iff
  have "bytes = record_descriptor_image d \<longleftrightarrow> take 64 bytes = record_descriptor_image d"
    using len by simp
  also have "\<dots> \<longleftrightarrow> take 16 bytes = as_bytes (rd_key d) \<and> sub bytes 16 8 = le_split 8 (rd_lsn d)
      \<and> sub bytes 24 4 = le_split 4 (rd_value_offset d) \<and> sub bytes 28 4 = le_split 4 (rd_value_len d)
      \<and> sub bytes 32 4 = le_split 4 (rd_checksum_offset d) \<and> sub bytes 36 4 = le_split 4 (rd_checksum_count d)
      \<and> bytes ! 40 = kind_byte (rd_kind d) \<and> sub bytes 41 23 = replicate 23 0"
    using len unfolding descriptor_split record_descriptor_image_def by (simp add: sub_one)
  also have "\<dots> \<longleftrightarrow> record_descriptor_decode bytes = Ok d"
    using len zero by (cases d; cases "rd_kind d")
      (auto simp: record_descriptor_decode_def DESCRIPTOR_LEN_def fields split: if_splits)
  finally show ?thesis by blast
qed

lemma record_descriptor_decode_total:
  "length bytes = DESCRIPTOR_LEN \<Longrightarrow> record_descriptor_decode bytes \<noteq> Panic"
  by (simp add: record_descriptor_decode_def DESCRIPTOR_LEN_def)

end
