(* ===== verification/Frame_Builder.thy ===== *)
theory Frame_Builder
  imports Frame_Record
begin

text \<open>
  Frame construction (\<^verbatim>\<open>moat-engine/src/frame/builder.rs\<close>): value placement, admission and
  encoding of a \<open>FrameBuilder\<close>, and the zero-copy \<open>PreparedFrame\<close>.

  Lengths and offsets that the source computes in \<open>u64\<close> or \<open>usize\<close> are natural numbers here;
  \<open>builder_ok\<close> bounds all of them by the 32-bit frame limit, so the source's sums do not wrap.
  Encoders return the new contents of the caller's buffer; an error leaves the buffer as it was.
\<close>

section \<open>Placement\<close>

definition div_ceil :: "nat \<Rightarrow> nat \<Rightarrow> nat" where
  "div_ceil a b = (a + b - 1) div b"

definition place :: "nat \<Rightarrow> nat \<Rightarrow> nat \<times> nat" where
  "place end len =
     (if len = 0 then (0, end)
      else let packed = align_up end VALUE_ALIGN;
               extra_page = div_ceil (packed mod PAGE_SIZE + len) PAGE_SIZE > div_ceil len PAGE_SIZE;
               start = (if len \<ge> CHECKSUM_BLOCK_SIZE \<or> extra_page then align_up end PAGE_SIZE else packed)
           in (start, start + len))"

section \<open>The builder\<close>

record builder_input =
  in_key :: chunk_id
  in_lsn :: u64
  in_kind :: record_kind
  in_value :: "byte list"

record frame_builder =
  fb_limits :: frame_limits
  fb_records :: "builder_input list"
  fb_checksum_len :: nat
  fb_payload_end :: nat

definition frame_builder_new :: "frame_limits \<Rightarrow> frame_builder" where
  "frame_builder_new limits =
     \<lparr> fb_limits = limits, fb_records = [], fb_checksum_len = 0, fb_payload_end = 0 \<rparr>"

definition place_all :: "nat \<Rightarrow> builder_input list \<Rightarrow> nat" where
  "place_all end records = fold (\<lambda>record end. snd (place end (length (in_value record)))) records end"

definition admit :: "frame_builder \<Rightarrow> builder_input \<Rightarrow> (frame_error, frame_builder) res" where
  "admit b input =
     (let len = length (in_value input); limits = fb_limits b in
      if unat (fl_max_value_len limits) < len then Err (FE_ValueTooLarge len (fl_max_value_len limits)) else
      let checksum_len = fb_checksum_len b + 4 * unat (block_count len);
          metadata_len = HEADER_LEN + (length (fb_records b) + 1) * DESCRIPTOR_LEN + checksum_len;
          payload_end = snd (place (fb_payload_end b) len);
          upper = align_up metadata_len PAGE_SIZE + align_up payload_end PAGE_SIZE;
          admitted = b \<lparr> fb_records := fb_records b @ [input], fb_checksum_len := checksum_len,
            fb_payload_end := payload_end \<rparr>
      in if upper > unat (fl_max_frame_len limits) then
           (let required = align_up (place_all metadata_len (fb_records b @ [input])) PAGE_SIZE in
            if required > unat (fl_max_frame_len limits)
            then Err (FE_FrameFull required (fl_max_frame_len limits)) else Ok admitted)
         else Ok admitted)"

definition push :: "frame_builder \<Rightarrow> chunk_id \<Rightarrow> u64 \<Rightarrow> byte list \<Rightarrow> (frame_error, frame_builder) res" where
  "push b key lsn value = admit b \<lparr> in_key = key, in_lsn = lsn, in_kind = Data, in_value = value \<rparr>"

definition push_tombstone :: "frame_builder \<Rightarrow> chunk_id \<Rightarrow> u64 \<Rightarrow> (frame_error, frame_builder) res" where
  "push_tombstone b key lsn = admit b \<lparr> in_key = key, in_lsn = lsn, in_kind = Tombstone, in_value = [] \<rparr>"

definition builder_len :: "frame_builder \<Rightarrow> nat" where
  "builder_len b = length (fb_records b)"

definition builder_is_empty :: "frame_builder \<Rightarrow> bool" where
  "builder_is_empty b \<longleftrightarrow> fb_records b = []"

definition builder_metadata_len :: "frame_builder \<Rightarrow> nat" where
  "builder_metadata_len b = HEADER_LEN + length (fb_records b) * DESCRIPTOR_LEN + fb_checksum_len b"

definition encoded_len :: "frame_builder \<Rightarrow> nat" where
  "encoded_len b =
     (if builder_is_empty b then 0 else align_up (place_all (builder_metadata_len b) (fb_records b)) PAGE_SIZE)"

definition builder_clear :: "frame_builder \<Rightarrow> frame_builder" where
  "builder_clear b = b \<lparr> fb_records := [], fb_checksum_len := 0, fb_payload_end := 0 \<rparr>"

section \<open>Encoding\<close>

fun put_checksums :: "byte list \<Rightarrow> nat \<Rightarrow> u32 list \<Rightarrow> (frame_error, nat \<times> byte list) res" where
  "put_checksums metadata at [] = Ok (at, metadata)"
| "put_checksums metadata at (crc # sums) =
     rbind (put_u32 metadata at crc) (\<lambda>metadata. put_checksums metadata (at + 4) sums)"

definition write_checksums ::
  "'d crc_lib \<Rightarrow> byte list \<Rightarrow> nat \<Rightarrow> nat \<Rightarrow> nat \<Rightarrow> (frame_error, nat \<times> byte list) res" where
  "write_checksums L bytes at value_at value_len =
     (if value_len = 0 then Ok (at, bytes) else
      rbind (slice bytes 0 value_at) (\<lambda>metadata.
      rbind (slice bytes value_at (length bytes)) (\<lambda>payload.
      rbind (slice payload 0 value_len) (\<lambda>value.
      rbind (put_checksums metadata at (block_checksums L value)) (\<lambda>(at, metadata).
        Ok (at, metadata @ payload))))))"

definition descriptor_of :: "builder_input \<Rightarrow> nat \<Rightarrow> nat \<Rightarrow> record_descriptor" where
  "descriptor_of input value_at checksum_at =
     \<lparr> rd_key = in_key input, rd_lsn = in_lsn input, rd_value_offset = of_nat value_at,
       rd_value_len = of_nat (length (in_value input)),
       rd_checksum_offset = (if in_value input = [] then 0 else of_nat checksum_at),
       rd_checksum_count = block_count (length (in_value input)), rd_kind = in_kind input \<rparr>"

definition encode_descriptor_at :: "record_descriptor \<Rightarrow> byte list \<Rightarrow> nat \<Rightarrow> (frame_error, byte list) res" where
  "encode_descriptor_at d bytes at =
     rbind (slice bytes at (at + DESCRIPTOR_LEN)) (\<lambda>slot.
     rbind (record_descriptor_encode d slot) (\<lambda>slot.
       put bytes at (at + DESCRIPTOR_LEN) slot))"

fun encode_records ::
  "'d crc_lib \<Rightarrow> nat \<Rightarrow> nat \<Rightarrow> nat \<Rightarrow> builder_input list \<Rightarrow> byte list \<Rightarrow> (frame_error, nat \<times> byte list) res" where
  "encode_records L ordinal checksum_at end [] bytes = Ok (end, bytes)"
| "encode_records L ordinal checksum_at end (input # records) bytes =
     (let value = in_value input; (value_at, next_end) = place end (length value) in
      rbind (if value \<noteq> []
             then rbind (fill bytes end value_at 0) (\<lambda>bytes. put bytes value_at next_end value)
             else Ok bytes) (\<lambda>bytes.
      rbind (encode_descriptor_at (descriptor_of input value_at checksum_at) bytes
               (HEADER_LEN + ordinal * DESCRIPTOR_LEN)) (\<lambda>bytes.
      rbind (write_checksums L bytes checksum_at value_at (length value)) (\<lambda>(checksum_at, bytes).
        encode_records L (Suc ordinal) checksum_at next_end records bytes))))"

definition encode_into ::
  "'d crc_lib \<Rightarrow> frame_builder \<Rightarrow> frame_position \<Rightarrow> byte list \<Rightarrow> (frame_error, frame_header \<times> byte list) res" where
  "encode_into L b position buffer =
     (if builder_is_empty b then Err (FE_InvalidArgument ''cannot encode an empty frame'') else
      let frame_len = encoded_len b in
      rbind (check_len position frame_len) (\<lambda>_.
      if length buffer < frame_len then Err (FE_BufferTooSmall frame_len (length buffer)) else
      rbind (slice buffer 0 frame_len) (\<lambda>bytes.
      rbind (encode_records L 0 (HEADER_LEN + length (fb_records b) * DESCRIPTOR_LEN)
               (builder_metadata_len b) (fb_records b) bytes) (\<lambda>(end, bytes).
      rbind (fill bytes end (length bytes) 0) (\<lambda>bytes.
      rbind (slice bytes HEADER_LEN (builder_metadata_len b)) (\<lambda>metadata.
      let header = \<lparr> fh_position = position, fh_frame_len = of_nat frame_len,
            fh_record_count = of_nat (length (fb_records b)), fh_checksum_len = of_nat (fb_checksum_len b),
            fh_metadata_crc = crc32c L metadata \<rparr> in
      rbind (frame_header_encode L header bytes) (\<lambda>bytes.
        Ok (header, bytes @ drop frame_len buffer))))))))"

section \<open>Prepared frames\<close>

record prepared_frame =
  pf_bytes :: "byte list"
  pf_value_at :: nat
  pf_value_len :: nat

definition required_len :: "frame_limits \<Rightarrow> u32 \<Rightarrow> (frame_error, nat) res" where
  "required_len limits value_len =
     (if fl_max_value_len limits < value_len then Err (FE_ValueTooLarge (unat value_len) (fl_max_value_len limits)) else
      let metadata_len = HEADER_LEN + DESCRIPTOR_LEN + 4 * unat (block_count (unat value_len));
          len = (if value_len = 0 then PAGE_SIZE
                 else align_up (align_up metadata_len PAGE_SIZE + unat value_len) PAGE_SIZE)
      in if len > unat (fl_max_frame_len limits) then Err (FE_FrameFull len (fl_max_frame_len limits)) else Ok len)"

text \<open>\<open>bytes\<close> is the caller's buffer; the frame borrows its prefix of the required length.\<close>

definition prepared_new :: "frame_limits \<Rightarrow> u32 \<Rightarrow> byte list \<Rightarrow> (frame_error, prepared_frame) res" where
  "prepared_new limits value_len bytes =
     rbind (required_len limits value_len) (\<lambda>len.
     if length bytes < len then Err (FE_BufferTooSmall len (length bytes)) else
     let metadata_len = HEADER_LEN + DESCRIPTOR_LEN + 4 * unat (block_count (unat value_len));
         value_at = (if value_len = 0 then 0 else align_up metadata_len PAGE_SIZE) in
     rbind (slice bytes 0 len) (\<lambda>bytes.
       Ok \<lparr> pf_bytes = bytes, pf_value_at = value_at, pf_value_len = unat value_len \<rparr>))"

definition prepared_metadata_len :: "prepared_frame \<Rightarrow> nat" where
  "prepared_metadata_len p = HEADER_LEN + DESCRIPTOR_LEN + 4 * unat (block_count (pf_value_len p))"

text \<open>The caller fills the region \<open>value_mut\<close> returns.\<close>

definition value_mut_write :: "prepared_frame \<Rightarrow> byte list \<Rightarrow> (frame_error, prepared_frame) res" where
  "value_mut_write p value =
     rbind (put (pf_bytes p) (pf_value_at p) (pf_value_at p + pf_value_len p) value) (\<lambda>bytes.
       Ok (p \<lparr> pf_bytes := bytes \<rparr>))"

definition prepared_finish ::
  "'d crc_lib \<Rightarrow> prepared_frame \<Rightarrow> frame_position \<Rightarrow> chunk_id \<Rightarrow> u64 \<Rightarrow> (frame_error, byte list) res" where
  "prepared_finish L p position key lsn =
     rbind (check_len position (length (pf_bytes p))) (\<lambda>_.
     let count = block_count (pf_value_len p);
         checksum_at = HEADER_LEN + DESCRIPTOR_LEN;
         metadata_len = checksum_at + 4 * unat count;
         descriptor = \<lparr> rd_key = key, rd_lsn = lsn, rd_value_offset = of_nat (pf_value_at p),
           rd_value_len = of_nat (pf_value_len p),
           rd_checksum_offset = (if count = 0 then 0 else of_nat checksum_at),
           rd_checksum_count = count, rd_kind = Data \<rparr> in
     rbind (encode_descriptor_at descriptor (pf_bytes p) HEADER_LEN) (\<lambda>bytes.
     rbind (write_checksums L bytes checksum_at (pf_value_at p) (pf_value_len p)) (\<lambda>(_, bytes).
     rbind (if pf_value_len p = 0 then fill bytes metadata_len (length bytes) 0
            else rbind (fill bytes metadata_len (pf_value_at p) 0) (\<lambda>bytes.
                 fill bytes (pf_value_at p + pf_value_len p) (length bytes) 0)) (\<lambda>bytes.
     rbind (slice bytes HEADER_LEN metadata_len) (\<lambda>metadata.
       frame_header_encode L \<lparr> fh_position = position, fh_frame_len = of_nat (length bytes),
         fh_record_count = 1, fh_checksum_len = count * 4, fh_metadata_crc = crc32c L metadata \<rparr> bytes)))))"

end
