(* ===== verification/Frame_Admission.thy ===== *)
theory Frame_Admission
  imports Frame_Builder
begin

text \<open>
  Placement and admission of the frame builder.

  Placement is monotone and page-periodic (\<open>place_mono\<close>, \<open>place_shift\<close>); these two facts, which
  the comments of \<^verbatim>\<open>frame/builder.rs\<close> appeal to, make the constant-time bound of \<open>admit\<close> sound, so
  admission always gives the verdict of the exact placement walk. \<open>builder_ok\<close> is the invariant
  of a builder.
\<close>

section \<open>Placement\<close>

lemma CHECKSUM_BLOCK_SIZE_aligned: "is_aligned CHECKSUM_BLOCK_SIZE PAGE_SIZE"
  by (simp add: is_aligned_def CHECKSUM_BLOCK_SIZE_def PAGE_SIZE_def)

lemma VALUE_ALIGN_pos [simp]: "0 < VALUE_ALIGN"
  by (simp add: VALUE_ALIGN_def)

lemma page_aligned_value: "is_aligned v PAGE_SIZE \<Longrightarrow> is_aligned v VALUE_ALIGN"
  by (simp add: PAGE_SIZE_def VALUE_ALIGN_def is_aligned_8_4096)

lemma packed_le_page: "align_up e VALUE_ALIGN \<le> align_up e PAGE_SIZE"
  by (intro align_up_least) (simp_all add: align_up_ge page_aligned_value)

lemma page_of_packed: "align_up (align_up e VALUE_ALIGN) PAGE_SIZE = align_up e PAGE_SIZE"
proof (rule antisym)
  show "align_up (align_up e VALUE_ALIGN) PAGE_SIZE \<le> align_up e PAGE_SIZE"
    by (rule align_up_least) (simp_all add: packed_le_page)
  show "align_up e PAGE_SIZE \<le> align_up (align_up e VALUE_ALIGN) PAGE_SIZE"
    by (intro align_up_mono) (simp_all add: align_up_ge)
qed

lemma same_page_offset:
  assumes "x \<le> y" and "y < align_up x PAGE_SIZE"
  shows "x mod PAGE_SIZE \<le> y mod PAGE_SIZE"
proof -
  have "x \<le> x div PAGE_SIZE * PAGE_SIZE + PAGE_SIZE"
    using div_mult_mod_eq [of x PAGE_SIZE] mod_less_divisor [OF PAGE_SIZE_pos, of x] by linarith
  moreover have "is_aligned (x div PAGE_SIZE * PAGE_SIZE + PAGE_SIZE) PAGE_SIZE"
    by (simp add: is_aligned_def)
  ultimately have "y < x div PAGE_SIZE * PAGE_SIZE + PAGE_SIZE"
    using assms(2) align_up_least [of PAGE_SIZE x "x div PAGE_SIZE * PAGE_SIZE + PAGE_SIZE"] by simp
  moreover have "x div PAGE_SIZE * PAGE_SIZE \<le> y"
    using assms(1) div_mult_mod_eq [of x PAGE_SIZE] by linarith
  ultimately have "y div PAGE_SIZE = x div PAGE_SIZE"
    by (intro div_nat_eqI) (simp_all add: mult.commute)
  then have "x div PAGE_SIZE * PAGE_SIZE + x mod PAGE_SIZE \<le> x div PAGE_SIZE * PAGE_SIZE + y mod PAGE_SIZE"
    using assms(1) by (metis div_mult_mod_eq)
  then show ?thesis by (simp only: add_le_cancel_left)
qed

definition extra_page :: "nat \<Rightarrow> nat \<Rightarrow> bool" where
  "extra_page at len \<longleftrightarrow> div_ceil (at mod PAGE_SIZE + len) PAGE_SIZE > div_ceil len PAGE_SIZE"

definition value_start :: "nat \<Rightarrow> nat \<Rightarrow> nat" where
  "value_start end len =
     (if len \<ge> CHECKSUM_BLOCK_SIZE \<or> extra_page (align_up end VALUE_ALIGN) len
      then align_up end PAGE_SIZE else align_up end VALUE_ALIGN)"

lemma place_zero [simp]: "place e 0 = (0, e)"
  by (simp add: place_def)

lemma place_pos: "0 < len \<Longrightarrow> place e len = (value_start e len, value_start e len + len)"
  by (simp add: place_def value_start_def extra_page_def Let_def)

lemma value_start_ge: "e \<le> value_start e len"
  by (simp add: value_start_def align_up_ge)

lemma value_start_aligned: "is_aligned (value_start e len) VALUE_ALIGN"
  by (simp add: value_start_def page_aligned_value)

lemma extra_page_mono: "x mod PAGE_SIZE \<le> y mod PAGE_SIZE \<Longrightarrow> extra_page x len \<Longrightarrow> extra_page y len"
  by (auto simp: extra_page_def div_ceil_def elim!: order.strict_trans2 intro!: div_le_mono)

lemma value_start_mono:
  assumes "e \<le> e'"
  shows "value_start e len \<le> value_start e' len"
proof -
  let ?x = "align_up e VALUE_ALIGN" and ?y = "align_up e' VALUE_ALIGN"
  have packed: "?x \<le> ?y" using assms by (intro align_up_mono) simp_all
  have page: "align_up e PAGE_SIZE \<le> align_up e' PAGE_SIZE" using assms by (intro align_up_mono) simp_all
  have "align_up e PAGE_SIZE \<le> ?y" if "extra_page ?x len" "\<not> extra_page ?y len"
  proof (rule ccontr)
    assume "\<not> align_up e PAGE_SIZE \<le> ?y"
    then have "?x mod PAGE_SIZE \<le> ?y mod PAGE_SIZE"
      by (intro same_page_offset packed) (simp add: page_of_packed)
    with that show False by (blast dest: extra_page_mono)
  qed
  with packed page packed_le_page [of e] show ?thesis
    by (auto simp: value_start_def intro: order_trans)
qed

lemma place_mono: "e \<le> e' \<Longrightarrow> snd (place e len) \<le> snd (place e' len)"
  by (cases "len = 0") (simp_all add: place_pos value_start_mono)

lemma value_start_shift:
  assumes "is_aligned k PAGE_SIZE"
  shows "value_start (k + e) len = k + value_start e len"
proof -
  have "(k + x) mod PAGE_SIZE = x mod PAGE_SIZE" for x
    using assms by (auto simp: is_aligned_def mod_eq_0_iff_dvd)
  then show ?thesis
    using assms page_aligned_value [of k] by (simp add: value_start_def align_up_add extra_page_def)
qed

lemma place_shift: "is_aligned k PAGE_SIZE \<Longrightarrow> snd (place (k + e) len) = k + snd (place e len)"
  by (cases "len = 0") (simp_all add: place_pos value_start_shift)

subsection \<open>Pages touched\<close>

text \<open>The pages a read of the whole value has to fetch.\<close>

definition pages_touched :: "nat \<Rightarrow> nat \<Rightarrow> nat" where
  "pages_touched start len = card ((\<lambda>i. i div PAGE_SIZE) ` {start..<start + len})"

lemma image_div_interval:
  assumes "0 < (p::nat)" and "0 < len"
  shows "(\<lambda>i. i div p) ` {s..<s + len} = {s div p..(s + len - 1) div p}"
proof (intro equalityI subsetI)
  fix q assume "q \<in> (\<lambda>i. i div p) ` {s..<s + len}"
  then show "q \<in> {s div p..(s + len - 1) div p}"
    by (auto intro!: div_le_mono)
next
  fix q assume q: "q \<in> {s div p..(s + len - 1) div p}"
  show "q \<in> (\<lambda>i. i div p) ` {s..<s + len}"
  proof (cases "q = s div p")
    case True
    with assms(2) show ?thesis by auto
  next
    case False
    with q have "s div p < q" by simp
    then have "s < q * p" using assms(1) by (simp add: div_less_iff_less_mult)
    moreover have "q * p \<le> s + len - 1"
      using q assms(1) by (simp add: less_eq_div_iff_mult_less_eq)
    ultimately show ?thesis using assms by (intro image_eqI [of _ _ "q * p"]) auto
  qed
qed

lemma pages_touched_eq:
  assumes "0 < len"
  shows "pages_touched s len = div_ceil (s mod PAGE_SIZE + len) PAGE_SIZE"
proof -
  have "s + len - 1 = s div PAGE_SIZE * PAGE_SIZE + (s mod PAGE_SIZE + len - 1)"
    using assms div_mult_mod_eq [of s PAGE_SIZE] by linarith
  then have "(s + len - 1) div PAGE_SIZE = s div PAGE_SIZE + (s mod PAGE_SIZE + len - 1) div PAGE_SIZE"
    by (metis PAGE_SIZE_pos add.commute div_mult_self1 less_not_refl2)
  moreover have "div_ceil (s mod PAGE_SIZE + len) PAGE_SIZE = Suc ((s mod PAGE_SIZE + len - 1) div PAGE_SIZE)"
  proof -
    have "s mod PAGE_SIZE + len + PAGE_SIZE - 1 = (s mod PAGE_SIZE + len - 1) + PAGE_SIZE" using assms by simp
    then show ?thesis unfolding div_ceil_def by (metis PAGE_SIZE_pos Suc_eq_plus1 div_add_self2 less_not_refl2)
  qed
  ultimately show ?thesis
    using assms by (simp add: pages_touched_def image_div_interval)
qed

lemma pages_touched_min: "0 < len \<Longrightarrow> div_ceil len PAGE_SIZE \<le> pages_touched s len"
  by (simp add: pages_touched_eq div_ceil_def div_le_mono)

lemma pages_touched_value_start:
  "0 < len \<Longrightarrow> pages_touched (value_start e len) len = div_ceil len PAGE_SIZE"
  using pages_touched_min [of len "value_start e len"] is_aligned_align_up [of e PAGE_SIZE]
  by (auto simp: value_start_def pages_touched_eq extra_page_def is_aligned_def not_less intro: antisym)

text \<open>
  C27: Placement is optimal. A nonempty value starts at or after the end of the previous one, at
  an 8-byte boundary, and reading it whole touches as few pages as any placement of its length
  can. A value below one checksum block takes the earliest such start; longer values start at
  the next page boundary.
\<close>

theorem place_optimal:
  assumes "0 < len"
  shows "e \<le> fst (place e len) \<and> snd (place e len) = fst (place e len) + len
    \<and> is_aligned (fst (place e len)) VALUE_ALIGN
    \<and> pages_touched (fst (place e len)) len \<le> pages_touched s len
    \<and> (if len < CHECKSUM_BLOCK_SIZE
       then e \<le> s \<longrightarrow> is_aligned s VALUE_ALIGN \<longrightarrow> s < fst (place e len) \<longrightarrow>
            pages_touched (fst (place e len)) len < pages_touched s len
       else fst (place e len) = align_up e PAGE_SIZE)"
proof -
  have "pages_touched (value_start e len) len < pages_touched s len"
    if "len < CHECKSUM_BLOCK_SIZE" "e \<le> s" "is_aligned s VALUE_ALIGN" "s < value_start e len"
  proof -
    let ?x = "align_up e VALUE_ALIGN"
    have "?x \<le> s" using that by (intro align_up_least) simp_all
    moreover from this that have "extra_page ?x len" "s < align_up ?x PAGE_SIZE"
      by (auto simp: value_start_def page_of_packed split: if_splits)
    ultimately have "extra_page s len"
      by (blast dest: extra_page_mono same_page_offset)
    then show ?thesis
      using assms by (simp add: pages_touched_value_start) (simp add: pages_touched_eq extra_page_def)
  qed
  moreover have "value_start e len = align_up e PAGE_SIZE" if "\<not> len < CHECKSUM_BLOCK_SIZE"
    using that by (simp add: value_start_def)
  ultimately show ?thesis
    using assms pages_touched_min [OF assms, of s]
    by (simp add: place_pos value_start_ge value_start_aligned pages_touched_value_start)
qed

theorem place_optimal_witness:
  "pages_touched (fst (place 200 4000)) 4000 < pages_touched 200 4000"
proof -
  have "fst (place 200 4000) = 4096"
    by (simp add: place_def align_up_def div_ceil_def PAGE_SIZE_def VALUE_ALIGN_def CHECKSUM_BLOCK_SIZE_def)
  moreover have "is_aligned 200 VALUE_ALIGN" by (simp add: is_aligned_def VALUE_ALIGN_def)
  ultimately show ?thesis
    using place_optimal [of 4000 200 200] by (simp add: CHECKSUM_BLOCK_SIZE_def)
qed

section \<open>Admission\<close>

lemma place_all_Nil [simp]: "place_all e [] = e"
  by (simp add: place_all_def)

lemma place_all_Cons [simp]: "place_all e (r # rs) = place_all (snd (place e (length (in_value r)))) rs"
  by (simp add: place_all_def)

lemma place_all_append [simp]: "place_all e (rs @ qs) = place_all (place_all e rs) qs"
  by (simp add: place_all_def)

lemma place_ge: "e \<le> snd (place e len)"
  by (cases "len = 0") (simp_all add: place_pos value_start_ge trans_le_add1)

lemma place_all_ge: "e \<le> place_all e rs"
  by (induction rs arbitrary: e) (auto intro: order_trans place_ge)

lemma place_all_mono: "e \<le> e' \<Longrightarrow> place_all e rs \<le> place_all e' rs"
  by (induction rs arbitrary: e e') (simp_all add: place_mono)

lemma place_all_shift: "is_aligned k PAGE_SIZE \<Longrightarrow> place_all (k + e) rs = k + place_all e rs"
  by (induction rs arbitrary: e) (simp_all add: place_shift)

lemma required_le_upper:
  "align_up (place_all m rs) PAGE_SIZE \<le> align_up m PAGE_SIZE + align_up (place_all 0 rs) PAGE_SIZE"
proof -
  have "place_all m rs \<le> place_all (align_up m PAGE_SIZE + 0) rs"
    by (rule place_all_mono) (simp add: align_up_ge)
  also have "\<dots> = align_up m PAGE_SIZE + place_all 0 rs"
    by (rule place_all_shift) simp
  finally have "align_up (place_all m rs) PAGE_SIZE \<le> align_up (align_up m PAGE_SIZE + place_all 0 rs) PAGE_SIZE"
    by (rule align_up_mono [OF PAGE_SIZE_pos])
  then show ?thesis by (simp add: align_up_add)
qed

definition limits_ok :: "frame_limits \<Rightarrow> bool" where
  "limits_ok limits \<longleftrightarrow> fl_max_frame_len limits \<noteq> 0 \<and> is_aligned (unat (fl_max_frame_len limits)) PAGE_SIZE
     \<and> fl_max_value_len limits \<le> fl_max_frame_len limits"

lemma frame_limits_new_ok: "frame_limits_new f v = Ok limits \<Longrightarrow> limits_ok limits"
  by (auto simp: frame_limits_new_def limits_ok_def split: if_splits)

definition checksums_len :: "builder_input list \<Rightarrow> nat" where
  "checksums_len rs = sum_list (map (\<lambda>r. 4 * unat (block_count (length (in_value r)))) rs)"

definition input_ok :: "frame_limits \<Rightarrow> builder_input \<Rightarrow> bool" where
  "input_ok limits r \<longleftrightarrow> length (in_value r) \<le> unat (fl_max_value_len limits) \<and> (in_kind r = Tombstone \<longrightarrow> in_value r = [])"

definition builder_ok :: "frame_builder \<Rightarrow> bool" where
  "builder_ok b \<longleftrightarrow> limits_ok (fb_limits b) \<and> fb_checksum_len b = checksums_len (fb_records b)
     \<and> fb_payload_end b = place_all 0 (fb_records b) \<and> list_all (input_ok (fb_limits b)) (fb_records b)
     \<and> encoded_len b \<le> unat (fl_max_frame_len (fb_limits b))"

text \<open>The builder extended by one record, without the admission check.\<close>

definition extended :: "frame_builder \<Rightarrow> builder_input \<Rightarrow> frame_builder" where
  "extended b input = b \<lparr> fb_records := fb_records b @ [input],
     fb_checksum_len := fb_checksum_len b + 4 * unat (block_count (length (in_value input))),
     fb_payload_end := snd (place (fb_payload_end b) (length (in_value input))) \<rparr>"

lemma extended_simps [simp]:
  "fb_limits (extended b input) = fb_limits b" "fb_records (extended b input) = fb_records b @ [input]"
  by (simp_all add: extended_def)

lemma admit_verdict:
  assumes "builder_ok b"
  shows "admit b input =
    (if unat (fl_max_value_len (fb_limits b)) < length (in_value input)
     then Err (FE_ValueTooLarge (length (in_value input)) (fl_max_value_len (fb_limits b)))
     else if unat (fl_max_frame_len (fb_limits b)) < encoded_len (extended b input)
     then Err (FE_FrameFull (encoded_len (extended b input)) (fl_max_frame_len (fb_limits b)))
     else Ok (extended b input))"
proof -
  define m where "m = HEADER_LEN + (length (fb_records b) + 1) * DESCRIPTOR_LEN
    + (fb_checksum_len b + 4 * unat (block_count (length (in_value input))))"
  have len: "encoded_len (extended b input) = align_up (place_all m (fb_records b @ [input])) PAGE_SIZE"
    by (simp add: encoded_len_def builder_is_empty_def builder_metadata_len_def extended_def m_def)
  have "fb_payload_end b = place_all 0 (fb_records b)" using assms by (simp add: builder_ok_def)
  then have "encoded_len (extended b input) \<le> align_up m PAGE_SIZE
      + align_up (snd (place (fb_payload_end b) (length (in_value input)))) PAGE_SIZE"
    using required_le_upper [of m "fb_records b @ [input]"] by (simp add: len)
  then show ?thesis
    unfolding admit_def Let_def
    unfolding m_def [symmetric] len [symmetric] extended_def [of b input, symmetric]
    by auto
qed

lemma admit_keeps_ok:
  assumes "builder_ok b" and "admit b input = Ok b'" and "in_kind input = Tombstone \<longrightarrow> in_value input = []"
  shows "builder_ok b' \<and> fb_limits b' = fb_limits b \<and> fb_records b' = fb_records b @ [input]"
  using assms
  by (auto simp: admit_verdict builder_ok_def input_ok_def checksums_len_def extended_def split: if_splits)

inductive builder_reach :: "frame_limits \<Rightarrow> frame_builder \<Rightarrow> bool" for limits where
  start: "builder_reach limits (frame_builder_new limits)"
| data: "builder_reach limits b \<Longrightarrow> push b key lsn value = Ok b' \<Longrightarrow> builder_reach limits b'"
| tombstone: "builder_reach limits b \<Longrightarrow> push_tombstone b key lsn = Ok b' \<Longrightarrow> builder_reach limits b'"
| cleared: "builder_reach limits b \<Longrightarrow> builder_reach limits (builder_clear b)"

lemma builder_reach_ok:
  assumes "builder_reach limits b" and "limits_ok limits"
  shows "builder_ok b \<and> fb_limits b = limits"
  using assms
proof (induction rule: builder_reach.induct)
  case (data b key lsn v b')
  then show ?case using admit_keeps_ok by (auto simp: push_def)
next
  case (tombstone b key lsn b')
  then show ?case using admit_keeps_ok by (auto simp: push_tombstone_def)
qed (auto simp: builder_ok_def frame_builder_new_def builder_clear_def checksums_len_def encoded_len_def
    builder_is_empty_def)

text \<open>
  C24: Admission is exact. For a builder reached by the public operations, \<open>admit\<close> refuses a
  value over the value limit, refuses a record whose frame would exceed the frame limit by the
  exact placement walk, reporting the exact length, and accepts every other record: the
  constant-time bound never changes the verdict. The encoded length of a reachable builder
  never exceeds the limit.
\<close>

theorem admit_exact:
  assumes "frame_limits_new max_frame max_value = Ok limits" and "builder_reach limits b"
  shows "encoded_len b \<le> unat max_frame \<and>
    admit b input =
    (if unat max_value < length (in_value input) then Err (FE_ValueTooLarge (length (in_value input)) max_value)
     else if unat max_frame < encoded_len (extended b input)
     then Err (FE_FrameFull (encoded_len (extended b input)) max_frame)
     else Ok (extended b input))"
proof -
  have limits: "fl_max_frame_len limits = max_frame" "fl_max_value_len limits = max_value"
    using assms(1) by (auto simp: frame_limits_new_def split: if_splits)
  have ok: "builder_ok b" "fb_limits b = limits"
    using builder_reach_ok [OF assms(2)] frame_limits_new_ok [OF assms(1)] by auto
  then show ?thesis using limits by (simp add: admit_verdict builder_ok_def)
qed

theorem admit_exact_witness:
  "admit (frame_builder_new sample_limits) \<lparr> in_key = from_u128 5, in_lsn = 1, in_kind = Data, in_value = [1, 2, 3] \<rparr>
   = Ok (extended (frame_builder_new sample_limits) \<lparr> in_key = from_u128 5, in_lsn = 1, in_kind = Data, in_value = [1, 2, 3] \<rparr>)"
proof -
  have "frame_limits_new 8192 4096 = Ok sample_limits"
    by (simp add: frame_limits_new_def sample_limits_def is_aligned_def PAGE_SIZE_def)
  then show ?thesis
    using admit_exact [of 8192 4096 sample_limits "frame_builder_new sample_limits"] builder_reach.start
    by (simp add: encoded_len_def builder_is_empty_def builder_metadata_len_def extended_def frame_builder_new_def
        place_def align_up_def div_ceil_def block_count_def
        PAGE_SIZE_def VALUE_ALIGN_def CHECKSUM_BLOCK_SIZE_def HEADER_LEN_def DESCRIPTOR_LEN_def)
qed

end
