(* ===== verification/Frame_Encode.thy ===== *)
theory Frame_Encode
  imports Frame_Admission
begin

text \<open>
  What the frame encoder writes. \<open>plan\<close> lists, per record, where its value and checksums go;
  \<open>encode_records_written\<close> is the loop invariant of \<open>encode_into\<close>: every planned entry is in
  the buffer, and bytes outside the directory slots, the checksum area and the payload area of
  the records are unchanged.
\<close>

section \<open>Single writes\<close>

lemma patch_patch_append:
  "at + length xs + length ys \<le> length bs \<Longrightarrow> patch (patch bs at xs) (at + length xs) ys = patch bs at (xs @ ys)"
  by (simp add: patch_def ac_simps)

lemma patch_append: "at + length ys \<le> length xs \<Longrightarrow> patch xs at ys @ zs = patch (xs @ zs) at ys"
  by (simp add: patch_def)

lemma encode_descriptor_at_Ok:
  assumes "at + DESCRIPTOR_LEN \<le> length bytes"
  shows "encode_descriptor_at d bytes at = Ok (patch bytes at (record_descriptor_image d))"
  using assms by (simp add: encode_descriptor_at_def record_descriptor_encode_image)

definition sums_image :: "u32 list \<Rightarrow> byte list" where
  "sums_image sums = concat (map (le_split 4) sums)"

lemma sums_image_simps [simp]:
  "sums_image [] = []" "sums_image (s # sums) = le_split 4 s @ sums_image sums"
  by (simp_all add: sums_image_def)

lemma length_sums_image [simp]: "length (sums_image sums) = 4 * length sums"
  by (induction sums) simp_all

lemma put_checksums_Ok:
  "at + 4 * length sums \<le> length bs \<Longrightarrow>
   put_checksums bs at sums = Ok (at + 4 * length sums, patch bs at (sums_image sums))"
proof (induction sums arbitrary: at bs)
  case (Cons s sums)
  then show ?case
    using patch_patch_append [of at "le_split 4 s" "sums_image sums" bs]
    by simp
qed simp

lemma write_checksums_Ok:
  assumes "value_len \<noteq> 0" and "at + 4 * length (block_checksums L (sub bytes value_at value_len)) \<le> value_at"
    and "value_at + value_len \<le> length bytes"
  shows "write_checksums L bytes at value_at value_len =
    Ok (at + 4 * length (block_checksums L (sub bytes value_at value_len)),
        patch bytes at (sums_image (block_checksums L (sub bytes value_at value_len))))"
proof -
  let ?sums = "block_checksums L (sub bytes value_at value_len)"
  have val: "take value_len (drop value_at bytes) = sub bytes value_at value_len"
    by (simp add: sub_def)
  have "patch (take value_at bytes) at (sums_image ?sums) @ drop value_at bytes = patch bytes at (sums_image ?sums)"
    using assms by (simp add: patch_append)
  then show ?thesis
    using assms by (simp add: write_checksums_def sub_all val put_checksums_Ok)
qed

section \<open>The plan\<close>

fun plan :: "nat \<Rightarrow> nat \<Rightarrow> builder_input list \<Rightarrow> (builder_input \<times> nat \<times> nat) list" where
  "plan ck e [] = []"
| "plan ck e (r # rs) =
     (let (value_at, e') = place e (length (in_value r)) in
      (r, value_at, ck) # plan (ck + 4 * unat (block_count (length (in_value r)))) e' rs)"

definition entry_written :: "'d crc_lib \<Rightarrow> byte list \<Rightarrow> nat \<Rightarrow> builder_input \<times> nat \<times> nat \<Rightarrow> bool" where
  "entry_written L bytes ordinal entry \<longleftrightarrow>
     (case entry of (r, value_at, ck) \<Rightarrow>
        sub bytes (HEADER_LEN + ordinal * DESCRIPTOR_LEN) DESCRIPTOR_LEN = record_descriptor_image (descriptor_of r value_at ck)
        \<and> (in_value r \<noteq> [] \<longrightarrow>
             sub bytes ck (4 * unat (block_count (length (in_value r)))) = sums_image (block_checksums L (in_value r))
             \<and> sub bytes value_at (length (in_value r)) = in_value r))"

text \<open>Agreement outside the three regions that a run of the loop writes.\<close>

definition same_outside ::
  "nat \<Rightarrow> nat \<Rightarrow> nat \<Rightarrow> nat \<Rightarrow> nat \<Rightarrow> nat \<Rightarrow> byte list \<Rightarrow> byte list \<Rightarrow> bool" where
  "same_outside d d' c c' e e' xs ys \<longleftrightarrow> length xs = length ys \<and>
     (\<forall>k < length xs. k < d \<or> d' \<le> k \<and> k < c \<or> c' \<le> k \<and> k < e \<or> e' \<le> k \<longrightarrow> xs ! k = ys ! k)"

lemma same_outside_sub:
  assumes "same_outside d d' c c' e e' xs ys"
    and "a + n \<le> d \<or> d' \<le> a \<and> a + n \<le> c \<or> c' \<le> a \<and> a + n \<le> e \<or> e' \<le> a"
  shows "sub xs a n = sub ys a n"
  using assms by (intro sub_eqI) (auto simp: same_outside_def)

lemma entry_written_same:
  assumes "entry_written L bytes ordinal (r, value_at, ck)"
    and "same_outside d d' c c' e e' bytes' bytes"
    and "HEADER_LEN + ordinal * DESCRIPTOR_LEN + DESCRIPTOR_LEN \<le> d"
    and "d' \<le> ck" and "ck + 4 * unat (block_count (length (in_value r))) \<le> c"
    and "in_value r \<noteq> [] \<longrightarrow> c' \<le> value_at \<and> value_at + length (in_value r) \<le> e"
  shows "entry_written L bytes' ordinal (r, value_at, ck)"
  using assms same_outside_sub [OF assms(2)] by (auto simp: entry_written_def)

lemma value_count:
  assumes "length v < 2 ^ 40"
  shows "length (block_checksums L v) = unat (block_count (length v))"
  using assms by (simp add: length_block_checksums unat_block_count)

text \<open>One iteration of the loop.\<close>

lemma encode_one:
  fixes L :: "'d crc_lib"
  assumes slot: "HEADER_LEN + ordinal * DESCRIPTOR_LEN + DESCRIPTOR_LEN \<le> ck"
    and area: "ck + 4 * unat (block_count (length v)) \<le> e"
    and fits: "snd (place e (length v)) \<le> length bytes"
    and small: "length v < 2 ^ 40" and ne: "v \<noteq> []" and v: "v = in_value r"
  defines "va \<equiv> fst (place e (length v))"
  defines "d \<equiv> descriptor_of r va ck"
  defines "at \<equiv> HEADER_LEN + ordinal * DESCRIPTOR_LEN"
  defines "b1 \<equiv> patch (patch bytes e (replicate (va - e) 0)) va v"
  defines "b2 \<equiv> patch b1 at (record_descriptor_image d)"
  defines "b3 \<equiv> patch b2 ck (sums_image (block_checksums L v))"
  shows "rbind (fill bytes e va 0) (\<lambda>b. put b va (snd (place e (length v))) v) = (Ok b1 :: (frame_error, _) res)"
    and "encode_descriptor_at d b1 at = Ok b2"
    and "write_checksums L b2 ck va (length v) = Ok (ck + 4 * unat (block_count (length v)), b3)"
    and "entry_written L b3 ordinal (r, va, ck)"
    and "same_outside at (at + DESCRIPTOR_LEN) ck (ck + 4 * unat (block_count (length v))) e (snd (place e (length v))) b3 bytes"
proof -
  have len: "0 < length v" using ne by simp
  have place: "snd (place e (length v)) = va + length v" "e \<le> va"
    using len by (simp_all add: va_def place_pos value_start_ge)
  note pos = slot area fits place value_count [OF small, of L]
  have b1: "length b1 = length bytes" using pos by (simp add: b1_def)
  have b2: "length b2 = length bytes" using pos b1 by (simp add: b2_def at_def)
  have val: "sub b2 va (length v) = v"
    using pos b1 by (simp add: b2_def b1_def at_def slice_simps)
  show "rbind (fill bytes e va 0) (\<lambda>b. put b va (snd (place e (length v))) v) = (Ok b1 :: (frame_error, _) res)"
    using pos by (simp add: b1_def)
  show "encode_descriptor_at d b1 at = Ok b2"
    using pos b1 unfolding b2_def by (intro encode_descriptor_at_Ok) (simp add: at_def)
  show "write_checksums L b2 ck va (length v) = Ok (ck + 4 * unat (block_count (length v)), b3)"
    using write_checksums_Ok [of "length v" ck L b2 va] len pos b2 val by (simp add: b3_def)
  show "entry_written L b3 ordinal (r, va, ck)"
    using pos b1 b2 val unfolding entry_written_def
    by (simp add: b3_def slice_simps at_def [symmetric] v [symmetric] d_def [symmetric])
      (simp add: b2_def at_def slice_simps)
  show "same_outside at (at + DESCRIPTOR_LEN) ck (ck + 4 * unat (block_count (length v))) e (snd (place e (length v))) b3 bytes"
    using pos b1 b2 by (auto simp: same_outside_def b3_def b2_def b1_def at_def nth_patch)
qed

lemma block_count_0 [simp]: "block_count 0 = 0"
  by (simp add: block_count_def CHECKSUM_BLOCK_SIZE_def)

lemma encode_none:
  assumes "HEADER_LEN + ordinal * DESCRIPTOR_LEN + DESCRIPTOR_LEN \<le> ck" and "ck \<le> e" and "e \<le> length bytes" and "in_value r = []"
  defines "at \<equiv> HEADER_LEN + ordinal * DESCRIPTOR_LEN"
  defines "b \<equiv> patch bytes at (record_descriptor_image (descriptor_of r 0 ck))"
  shows "encode_descriptor_at (descriptor_of r 0 ck) bytes at = Ok b"
    and "entry_written L b ordinal (r, 0, ck)"
    and "same_outside at (at + DESCRIPTOR_LEN) ck ck e e b bytes"
proof -
  show "encode_descriptor_at (descriptor_of r 0 ck) bytes at = Ok b"
    using assms unfolding b_def by (intro encode_descriptor_at_Ok) simp
  show "entry_written L b ordinal (r, 0, ck)"
    using assms(1-4) by (simp add: entry_written_def b_def at_def slice_simps)
  show "same_outside at (at + DESCRIPTOR_LEN) ck ck e e b bytes"
    using assms(1-4) by (auto simp: same_outside_def b_def at_def nth_patch)
qed

lemma encode_step:
  assumes "HEADER_LEN + ordinal * DESCRIPTOR_LEN + DESCRIPTOR_LEN \<le> ck"
    and "ck + 4 * unat (block_count (length (in_value r))) \<le> e"
    and "snd (place e (length (in_value r))) \<le> length bytes" and "length (in_value r) < 2 ^ 40"
  shows "\<exists>b. encode_records L ordinal ck e (r # rs) bytes =
      encode_records L (Suc ordinal) (ck + 4 * unat (block_count (length (in_value r)))) (snd (place e (length (in_value r)))) rs b
    \<and> entry_written L b ordinal (r, fst (place e (length (in_value r))), ck)
    \<and> same_outside (HEADER_LEN + ordinal * DESCRIPTOR_LEN) (HEADER_LEN + Suc ordinal * DESCRIPTOR_LEN)
        ck (ck + 4 * unat (block_count (length (in_value r)))) e (snd (place e (length (in_value r)))) b bytes"
proof -
  have slot: "HEADER_LEN + Suc ordinal * DESCRIPTOR_LEN = HEADER_LEN + ordinal * DESCRIPTOR_LEN + DESCRIPTOR_LEN"
    by simp
  show ?thesis
  proof (cases "in_value r = []")
    case True
    then have area: "ck \<le> e" "e \<le> length bytes" using assms(2,3) by simp_all
    note none = encode_none [OF assms(1) area True]
    from none(2,3) show ?thesis
      unfolding slot by (intro exI conjI) (auto simp: Let_def True none(1) write_checksums_def)
  next
    case False
    note one = encode_one [OF assms(1-4) False refl]
    from one(4,5) show ?thesis
      unfolding slot by (intro exI conjI) (auto simp: Let_def False one(1-3) case_prod_beta)
  qed
qed

lemma same_outside_trans:
  assumes "same_outside d2 d3 c2 c3 e2 e3 zs ys" and "same_outside d1 d2 c1 c2 e1 e2 ys xs"
    and "d1 \<le> d2" "d2 \<le> d3" "d3 \<le> c1" "c1 \<le> c2" "c2 \<le> c3" "c3 \<le> e1" "e1 \<le> e2" "e2 \<le> e3"
  shows "same_outside d1 d3 c1 c3 e1 e3 zs xs"
  using assms unfolding same_outside_def by auto

lemma encode_records_written:
  assumes "HEADER_LEN + (ordinal + length rs) * DESCRIPTOR_LEN \<le> ck" and "ck + checksums_len rs \<le> e"
    and "place_all e rs \<le> length bytes" and "\<And>r. r \<in> set rs \<Longrightarrow> length (in_value r) < 2 ^ 40"
  shows "\<exists>b. encode_records L ordinal ck e rs bytes = Ok (place_all e rs, b)
    \<and> (\<forall>i < length rs. entry_written L b (ordinal + i) (plan ck e rs ! i))
    \<and> same_outside (HEADER_LEN + ordinal * DESCRIPTOR_LEN) (HEADER_LEN + (ordinal + length rs) * DESCRIPTOR_LEN)
        ck (ck + checksums_len rs) e (place_all e rs) b bytes"
  using assms
proof (induction rs arbitrary: ordinal ck e bytes)
  case Nil
  then show ?case by (simp add: same_outside_def)
next
  case (Cons r rs)
  define len where "len = length (in_value r)"
  define ck' where "ck' = ck + 4 * unat (block_count len)"
  define e' where "e' = snd (place e len)"
  have sums: "checksums_len (r # rs) = 4 * unat (block_count len) + checksums_len rs"
    by (simp add: checksums_len_def len_def)
  have small: "length (in_value r) < 2 ^ 40" using Cons.prems(4) by simp
  have e': "e \<le> e'" "e' \<le> place_all e' rs" "place_all e (r # rs) = place_all e' rs"
    by (simp_all add: e'_def len_def place_ge place_all_ge)
  have slot: "HEADER_LEN + ordinal * DESCRIPTOR_LEN + DESCRIPTOR_LEN \<le> ck"
    using Cons.prems(1) by (simp add: distrib_right)
  obtain b where b: "encode_records L ordinal ck e (r # rs) bytes = encode_records L (Suc ordinal) ck' e' rs b"
    and head: "entry_written L b ordinal (r, fst (place e len), ck)"
    and same: "same_outside (HEADER_LEN + ordinal * DESCRIPTOR_LEN) (HEADER_LEN + Suc ordinal * DESCRIPTOR_LEN) ck ck' e e' b bytes"
    using encode_step [OF slot, where r = r and e = e and bytes = bytes and L = L and rs = rs] Cons.prems e' small sums
    unfolding ck'_def e'_def len_def by auto
  have "length b = length bytes" using same by (simp add: same_outside_def)
  then have tail: "\<exists>b'. encode_records L (Suc ordinal) ck' e' rs b = Ok (place_all e' rs, b')
    \<and> (\<forall>i < length rs. entry_written L b' (Suc ordinal + i) (plan ck' e' rs ! i))
    \<and> same_outside (HEADER_LEN + Suc ordinal * DESCRIPTOR_LEN) (HEADER_LEN + (Suc ordinal + length rs) * DESCRIPTOR_LEN)
        ck' (ck' + checksums_len rs) e' (place_all e' rs) b' b"
    using Cons.prems sums e' by (intro Cons.IH) (auto simp: ck'_def)
  then obtain b' where b': "encode_records L (Suc ordinal) ck' e' rs b = Ok (place_all e' rs, b')"
    and rest: "\<And>i. i < length rs \<Longrightarrow> entry_written L b' (Suc ordinal + i) (plan ck' e' rs ! i)"
    and same': "same_outside (HEADER_LEN + Suc ordinal * DESCRIPTOR_LEN) (HEADER_LEN + (Suc ordinal + length rs) * DESCRIPTOR_LEN)
        ck' (ck' + checksums_len rs) e' (place_all e' rs) b' b" by blast
  have "fst (place e len) + len \<le> e' \<and> e \<le> fst (place e len)" if "in_value r \<noteq> []"
    using that by (simp add: e'_def len_def place_pos value_start_ge)
  then have head': "entry_written L b' ordinal (r, fst (place e len), ck)"
    using Cons.prems(1,2) sums by (intro entry_written_same [OF head same']) (auto simp: ck'_def len_def)
  have entries: "entry_written L b' (ordinal + i) (plan ck e (r # rs) ! i)" if "i < length (r # rs)" for i
    using that head' rest by (cases i) (auto simp: len_def ck'_def e'_def Let_def case_prod_beta)
  have "same_outside (HEADER_LEN + ordinal * DESCRIPTOR_LEN) (HEADER_LEN + (ordinal + length (r # rs)) * DESCRIPTOR_LEN)
        ck (ck + checksums_len (r # rs)) e (place_all e (r # rs)) b' bytes"
    using same_outside_trans [OF same' same] Cons.prems(1,2) sums e' by (simp add: ck'_def add.assoc)
  with entries b b' e'(3) show ?case by auto
qed

end
