(* ===== verification/Frame_Decode.thy ===== *)
theory Frame_Decode
  imports Frame_Record
begin

text \<open>
  Frame validation (\<^verbatim>\<open>moat-engine/src/frame/decode.rs\<close>): the metadata view, its records, range
  verification, and the decoder of a whole frame.

  A borrowed view is a record of the bytes it borrows. Functions that use \<open>expect\<close> or index a
  slice return \<open>Panic\<close> where the source would panic. \<open>sort_unstable_by_key\<close> is \<open>sort_key\<close>; the
  verdict does not depend on how ties are ordered, see \<open>overlap_check_iff\<close>.
\<close>

section \<open>Views\<close>

record frame_metadata =
  fm_bytes :: "byte list"
  fm_header :: frame_header

record frame_record =
  fr_descriptor :: record_descriptor
  fr_ordinal :: u32
  fr_checksums :: "byte list"

record frame =
  f_bytes :: "byte list"
  f_metadata :: frame_metadata

definition decode_descriptor :: "frame_metadata \<Rightarrow> u32 \<Rightarrow> (frame_error, record_descriptor) res" where
  "decode_descriptor m ordinal =
     (let at = HEADER_LEN + unat ordinal * DESCRIPTOR_LEN in
      rbind (slice (fm_bytes m) at (at + DESCRIPTOR_LEN)) record_descriptor_decode)"

definition metadata_record :: "frame_metadata \<Rightarrow> u32 \<Rightarrow> (frame_error, frame_record option) res" where
  "metadata_record m ordinal =
     (if fh_record_count (fm_header m) \<le> ordinal then Ok None else
      rbind (unwrap (decode_descriptor m ordinal)) (\<lambda>descriptor.
      let start = unat (rd_checksum_offset descriptor);
          end = start + unat (rd_checksum_count descriptor) * 4 in
      rbind (slice (fm_bytes m) start end) (\<lambda>checksums.
        Ok (Some \<lparr> fr_descriptor = descriptor, fr_ordinal = ordinal, fr_checksums = checksums \<rparr>))))"

definition ordinals :: "u32 \<Rightarrow> u32 list" where
  "ordinals count = map of_nat [0..<unat count]"

definition metadata_records :: "frame_metadata \<Rightarrow> (frame_error, frame_record list) res" where
  "metadata_records m =
     traverse (\<lambda>ordinal. rbind (metadata_record m ordinal) expect) (ordinals (fh_record_count (fm_header m)))"

section \<open>Metadata validation\<close>

fun check_descriptors ::
  "frame_limits \<Rightarrow> frame_metadata \<Rightarrow> u32 list \<Rightarrow> nat \<Rightarrow> nat \<Rightarrow> bool \<Rightarrow> (frame_error, nat \<times> bool) res" where
  "check_descriptors limits m [] checksum_at previous_end ordered = Ok (checksum_at, ordered)"
| "check_descriptors limits m (ordinal # rest) checksum_at previous_end ordered =
     (let header = fm_header m in
      rbind (decode_descriptor m ordinal) (\<lambda>d.
      if fl_max_value_len limits < rd_value_len d
      then Err (FE_Corrupt ''value length exceeds format limit'') else
      if rd_kind d = Tombstone \<and> rd_value_len d \<noteq> 0
      then Err (FE_Corrupt ''tombstone has a value'') else
      if rd_value_len d = 0 then
        (if rd_value_offset d \<noteq> 0 \<or> rd_checksum_offset d \<noteq> 0 \<or> rd_checksum_count d \<noteq> 0
         then Err (FE_Corrupt ''nonzero empty-value geometry'')
         else check_descriptors limits m rest checksum_at previous_end ordered) else
      if rd_checksum_count d \<noteq> block_count (unat (rd_value_len d)) \<or> unat (rd_checksum_offset d) \<noteq> checksum_at
      then Err (FE_Corrupt ''checksum array geometry'') else
      let checksum_end = checksum_at + 4 * unat (rd_checksum_count d) in
      if frame_metadata_len header < checksum_end
      then Err (FE_Corrupt ''checksum array exceeds metadata'') else
      let start = unat (rd_value_offset d);
          end = start + unat (rd_value_len d) in
      if start < frame_metadata_len header \<or> \<not> is_aligned start VALUE_ALIGN \<or> frame_len header < end
      then Err (FE_Corrupt ''value range or alignment'') else
      check_descriptors limits m rest checksum_end end (ordered \<and> previous_end \<le> start)))"

definition overlapping :: "(u32 \<times> u32) list \<Rightarrow> bool" where
  "overlapping ranges =
     list_ex (\<lambda>(p, q). unat (fst p) + unat (snd p) > unat (fst q)) (windows2 (sort_key fst ranges))"

definition metadata_decode ::
  "'d crc_lib \<Rightarrow> byte list \<Rightarrow> frame_limits \<Rightarrow> frame_position \<Rightarrow> (frame_error, frame_metadata) res" where
  "metadata_decode L input limits position =
     rbind (frame_header_decode L input limits position) (\<lambda>header.
     rbind (of_option (FE_Truncated (frame_metadata_len header) (length input))
              (get_to input (frame_metadata_len header))) (\<lambda>bytes.
     rbind (slice bytes HEADER_LEN (length bytes)) (\<lambda>body.
     if crc32c L body \<noteq> fh_metadata_crc header then Err (FE_Corrupt ''metadata checksum'') else
     let metadata = \<lparr> fm_bytes = bytes, fm_header = header \<rparr> in
     rbind (check_descriptors limits metadata (ordinals (fh_record_count header))
              (HEADER_LEN + unat (fh_record_count header) * DESCRIPTOR_LEN)
              (frame_metadata_len header) True) (\<lambda>(checksum_at, ordered).
     if checksum_at \<noteq> frame_metadata_len header then Err (FE_Corrupt ''unreferenced checksum bytes'') else
     if \<not> ordered then
       rbind (metadata_records metadata) (\<lambda>records.
       let ranges = map (\<lambda>r. (rd_value_offset (fr_descriptor r), rd_value_len (fr_descriptor r)))
                      (filter (\<lambda>r. rd_value_len (fr_descriptor r) \<noteq> 0) records) in
       if overlapping ranges then Err (FE_Corrupt ''overlapping values'') else Ok metadata)
     else Ok metadata))))"

section \<open>Range verification\<close>

definition validate_range :: "u32 \<Rightarrow> u32 \<times> u32 \<Rightarrow> (frame_error, unit) res" where
  "validate_range value_len rng =
     (if snd rng < fst rng \<or> value_len < snd rng
      then Err (FE_InvalidArgument ''read range exceeds value'') else Ok ())"

definition verification_range :: "u32 \<Rightarrow> u32 \<times> u32 \<Rightarrow> (frame_error, u32 \<times> u32) res" where
  "verification_range value_len rng =
     rbind (validate_range value_len rng) (\<lambda>_.
     if snd rng \<le> fst rng then Ok rng else
     let start = align_down (unat (fst rng)) CHECKSUM_BLOCK_SIZE;
         end = align_up (unat (snd rng)) CHECKSUM_BLOCK_SIZE
     in Ok (of_nat start, of_nat (min end (unat value_len))))"

definition record_checksum :: "frame_record \<Rightarrow> u32 \<Rightarrow> (frame_error, u32 option) res" where
  "record_checksum r block =
     (if rd_checksum_count (fr_descriptor r) \<le> block then Ok None else
      rbind (u32_at (fr_checksums r) (unat block * 4)) (\<lambda>crc. Ok (Some crc)))"

definition record_verify ::
  "'d crc_lib \<Rightarrow> frame_record \<Rightarrow> u32 \<times> u32 \<Rightarrow> byte list \<Rightarrow> (frame_error, unit) res" where
  "record_verify L r rng bytes =
     rbind (verification_range (rd_value_len (fr_descriptor r)) rng) (\<lambda>whole.
     if whole \<noteq> rng \<or> length bytes \<noteq> unat (snd rng - fst rng)
     then Err (FE_InvalidArgument ''verification requires complete checksum blocks'') else
     let first_block = fst rng div of_nat CHECKSUM_BLOCK_SIZE in
     rbind (verify_blocks_with L bytes first_block (record_checksum r))
       (map_err (\<lambda>block. FE_PayloadChecksum (fr_ordinal r) block)))"

section \<open>Whole frames\<close>

fun verify_records :: "'d crc_lib \<Rightarrow> frame_metadata \<Rightarrow> byte list \<Rightarrow> u32 list \<Rightarrow> (frame_error, unit) res" where
  "verify_records L m bytes [] = Ok ()"
| "verify_records L m bytes (ordinal # rest) =
     rbind (rbind (metadata_record m ordinal) expect) (\<lambda>r.
     let start = unat (rd_value_offset (fr_descriptor r));
         len = unat (rd_value_len (fr_descriptor r)) in
     rbind (slice bytes start (start + len)) (\<lambda>value.
     rbind (record_verify L r (0, of_nat len) value) (\<lambda>_.
       verify_records L m bytes rest)))"

definition frame_decode ::
  "'d crc_lib \<Rightarrow> byte list \<Rightarrow> frame_limits \<Rightarrow> frame_position \<Rightarrow> (frame_error, frame) res" where
  "frame_decode L input limits position =
     rbind (metadata_decode L input limits position) (\<lambda>m.
     rbind (of_option (FE_Truncated (frame_len (fm_header m)) (length input))
              (get_to input (frame_len (fm_header m)))) (\<lambda>bytes.
     rbind (verify_records L m bytes (ordinals (fh_record_count (fm_header m)))) (\<lambda>_.
       Ok \<lparr> f_bytes = bytes, f_metadata = m \<rparr>)))"

definition frame_value :: "frame \<Rightarrow> u32 \<Rightarrow> (frame_error, byte list option) res" where
  "frame_value f ordinal =
     rbind (metadata_record (f_metadata f) ordinal) (\<lambda>found.
     case found of None \<Rightarrow> Ok None
     | Some r \<Rightarrow>
         (if rd_kind (fr_descriptor r) = Tombstone then Ok None else
          let start = unat (rd_value_offset (fr_descriptor r)) in
          rbind (slice (f_bytes f) start (start + unat (rd_value_len (fr_descriptor r)))) (\<lambda>value.
            Ok (Some value))))"

end
