(* ===== verification/Frame_Geometry.thy ===== *)
theory Frame_Geometry
  imports Frame_Decode
begin

text \<open>
  What metadata validation establishes. \<open>descriptors_ok\<close> states the geometry of a directory:
  every value within the frame and past the metadata, the checksum arrays back to back and
  filling the checksum area. \<open>metadata_decode_iff\<close> says that \<open>metadata_decode\<close> accepts exactly
  the metadata whose directory satisfies it with pairwise disjoint values, in any physical
  order. From it follow that the decoders never panic and that every record of accepted
  metadata can be read.
\<close>

section \<open>Geometry of a directory\<close>

abbreviation value_end :: "record_descriptor \<Rightarrow> nat" where
  "value_end d \<equiv> unat (rd_value_offset d) + unat (rd_value_len d)"

definition value_range :: "record_descriptor \<Rightarrow> nat set" where
  "value_range d = {unat (rd_value_offset d)..<value_end d}"

definition values_disjoint :: "record_descriptor list \<Rightarrow> bool" where
  "values_disjoint ds \<longleftrightarrow> sorted_wrt (\<lambda>d e. value_range d \<inter> value_range e = {}) ds"

definition descriptor_ok :: "frame_limits \<Rightarrow> nat \<Rightarrow> nat \<Rightarrow> nat \<Rightarrow> record_descriptor \<Rightarrow> bool" where
  "descriptor_ok limits mlen flen at d \<longleftrightarrow>
     rd_value_len d \<le> fl_max_value_len limits \<and> (rd_kind d = Tombstone \<longrightarrow> rd_value_len d = 0)
     \<and> (if rd_value_len d = 0
        then rd_value_offset d = 0 \<and> rd_checksum_offset d = 0 \<and> rd_checksum_count d = 0
        else rd_checksum_count d = block_count (unat (rd_value_len d)) \<and> unat (rd_checksum_offset d) = at
          \<and> at + 4 * unat (rd_checksum_count d) \<le> mlen \<and> mlen \<le> unat (rd_value_offset d)
          \<and> is_aligned (unat (rd_value_offset d)) VALUE_ALIGN \<and> value_end d \<le> flen)"

fun descriptors_ok :: "frame_limits \<Rightarrow> nat \<Rightarrow> nat \<Rightarrow> nat \<Rightarrow> record_descriptor list \<Rightarrow> nat \<Rightarrow> bool" where
  "descriptors_ok limits mlen flen at [] at' \<longleftrightarrow> at = at'"
| "descriptors_ok limits mlen flen at (d # ds) at' \<longleftrightarrow>
     descriptor_ok limits mlen flen at d
     \<and> descriptors_ok limits mlen flen (at + 4 * unat (rd_checksum_count d)) ds at'"

fun in_order :: "nat \<Rightarrow> record_descriptor list \<Rightarrow> bool" where
  "in_order prev [] \<longleftrightarrow> True"
| "in_order prev (d # ds) \<longleftrightarrow>
     (if rd_value_len d = 0 then in_order prev ds
      else prev \<le> unat (rd_value_offset d) \<and> in_order (value_end d) ds)"

lemma decode_descriptor_Ok_iff:
  assumes "HEADER_LEN + unat i * DESCRIPTOR_LEN + DESCRIPTOR_LEN \<le> length (fm_bytes m)"
  shows "decode_descriptor m i = Ok d \<longleftrightarrow>
    sub (fm_bytes m) (HEADER_LEN + unat i * DESCRIPTOR_LEN) DESCRIPTOR_LEN = record_descriptor_image d"
  using assms by (simp add: decode_descriptor_def Let_def record_descriptor_decode_exact)

lemma decode_descriptor_total:
  "HEADER_LEN + unat i * DESCRIPTOR_LEN + DESCRIPTOR_LEN \<le> length (fm_bytes m) \<Longrightarrow> decode_descriptor m i \<noteq> Panic"
  by (simp add: decode_descriptor_def Let_def record_descriptor_decode_total)

lemma check_descriptors_step:
  assumes "decode_descriptor m i = Ok d"
  shows "check_descriptors limits m (i # os) at prev ord = Ok r \<longleftrightarrow>
    descriptor_ok limits (frame_metadata_len (fm_header m)) (frame_len (fm_header m)) at d
    \<and> check_descriptors limits m os (at + 4 * unat (rd_checksum_count d))
        (if rd_value_len d = 0 then prev else value_end d)
        (ord \<and> (rd_value_len d = 0 \<or> prev \<le> unat (rd_value_offset d))) = Ok r"
proof (cases "rd_value_len d = 0")
  case True
  with assms show ?thesis by (auto simp: Let_def descriptor_ok_def)
next
  case False
  with assms show ?thesis by (auto simp: Let_def descriptor_ok_def)
qed

lemma check_descriptors_iff:
  "check_descriptors limits m os at prev ord = Ok (at', ord') \<longleftrightarrow>
   (\<exists>ds. map (decode_descriptor m) os = map Ok ds
      \<and> descriptors_ok limits (frame_metadata_len (fm_header m)) (frame_len (fm_header m)) at ds at'
      \<and> ord' = (ord \<and> in_order prev ds))"
proof (induction os arbitrary: at prev ord)
  case Nil
  then show ?case by auto
next
  case (Cons i os)
  show ?case
  proof (cases "decode_descriptor m i")
    case (Ok d)
    have split: "(\<exists>ds. map (decode_descriptor m) (i # os) = map Ok ds \<and> P ds) \<longleftrightarrow>
        (\<exists>ds. map (decode_descriptor m) os = map Ok ds \<and> P (d # ds))" for P
      using Ok by (auto simp: Cons_eq_map_conv)
    show ?thesis
      unfolding check_descriptors_step [OF Ok] split Cons by auto
  qed auto
qed

section \<open>The overlap check\<close>

definition apart :: "u32 \<times> u32 \<Rightarrow> u32 \<times> u32 \<Rightarrow> bool" where
  "apart p q \<longleftrightarrow> unat (fst p) + unat (snd p) \<le> unat (fst q) \<or> unat (fst q) + unat (snd q) \<le> unat (fst p)"

lemma sorted_wrt_insort_key:
  assumes "symp R"
  shows "sorted_wrt R (insort_key f x xs) \<longleftrightarrow> sorted_wrt R (x # xs)"
proof (induction xs)
  case (Cons y ys)
  then show ?case using assms by (auto simp: set_insort_key dest: sympD)
qed simp

lemma sorted_wrt_sort_key:
  assumes "symp R"
  shows "sorted_wrt R (sort_key f xs) \<longleftrightarrow> sorted_wrt R xs"
proof (induction xs)
  case (Cons x xs)
  have "sorted_wrt R (sort_key f (x # xs)) \<longleftrightarrow> sorted_wrt R (x # sort_key f xs)"
    using sorted_wrt_insort_key [OF assms, of f x "sort_key f xs"] by simp
  with Cons show ?case by simp
qed simp

lemma windows_apart_iff:
  assumes "sorted (map fst xs)" and "\<And>p. p \<in> set xs \<Longrightarrow> snd p \<noteq> 0"
  shows "\<not> list_ex (\<lambda>(p, q). unat (fst p) + unat (snd p) > unat (fst q)) (windows2 xs) \<longleftrightarrow> sorted_wrt apart xs"
  using assms
proof (induction xs rule: windows2.induct)
  case (1 x y zs)
  have order: "unat (fst x) \<le> unat (fst z)" if "z \<in> set (y # zs)" for z
    using "1.prems"(1) that by (auto simp: word_le_nat_alt)
  have later: "unat (fst y) \<le> unat (fst z)" if "z \<in> set (y # zs)" for z
    using "1.prems"(1) that by (auto simp: word_le_nat_alt)
  have apart: "apart x z \<longleftrightarrow> unat (fst x) + unat (snd x) \<le> unat (fst z)" if "z \<in> set (y # zs)" for z
  proof -
    have "0 < unat (snd z)" using "1.prems"(2) [of z] that by (simp add: unat_gt_0)
    with order [OF that] show ?thesis by (auto simp: apart_def)
  qed
  have "(\<forall>z \<in> set (y # zs). apart x z) \<longleftrightarrow> (\<forall>z \<in> set (y # zs). unat (fst x) + unat (snd x) \<le> unat (fst z))"
    using apart by blast
  also have "\<dots> \<longleftrightarrow> unat (fst x) + unat (snd x) \<le> unat (fst y)"
    using later by (meson list.set_intros(1) order_trans)
  finally have "(\<forall>z \<in> set (y # zs). apart x z) \<longleftrightarrow> unat (fst x) + unat (snd x) \<le> unat (fst y)" .
  moreover have "\<not> list_ex (\<lambda>(p, q). unat (fst p) + unat (snd p) > unat (fst q)) (windows2 (y # zs)) \<longleftrightarrow>
      sorted_wrt apart (y # zs)"
    using "1.prems" by (intro "1.IH") auto
  ultimately show ?case by (auto simp: not_less)
qed auto

lemma overlap_check_iff:
  assumes "\<And>p. p \<in> set ranges \<Longrightarrow> snd p \<noteq> 0"
  shows "overlapping ranges \<longleftrightarrow> \<not> sorted_wrt apart ranges"
proof -
  have "symp apart" by (auto simp: apart_def intro: sympI)
  then show ?thesis
    using assms windows_apart_iff [of "sort_key fst ranges"]
    by (auto simp: overlapping_def sorted_wrt_sort_key)
qed

abbreviation range_of :: "record_descriptor \<Rightarrow> u32 \<times> u32" where
  "range_of d \<equiv> (rd_value_offset d, rd_value_len d)"

lemma apart_disjoint:
  "rd_value_len d \<noteq> 0 \<Longrightarrow> rd_value_len e \<noteq> 0 \<Longrightarrow>
   apart (range_of d) (range_of e) \<longleftrightarrow> value_range d \<inter> value_range e = {}"
proof -
  assume "rd_value_len d \<noteq> 0" "rd_value_len e \<noteq> 0"
  then have "0 < unat (rd_value_len d)" "0 < unat (rd_value_len e)" by (simp_all add: unat_gt_0)
  then show ?thesis
    by (auto simp: apart_def value_range_def ivl_disj_un disjoint_iff not_less)
qed

lemma value_range_empty [simp]: "rd_value_len d = 0 \<Longrightarrow> value_range d = {}"
  by (simp add: value_range_def)

lemma values_disjoint_nonempty:
  "values_disjoint ds \<longleftrightarrow> sorted_wrt apart (map range_of (filter (\<lambda>d. rd_value_len d \<noteq> 0) ds))"
proof (induction ds)
  case (Cons d ds)
  then show ?case
    by (auto simp: values_disjoint_def apart_disjoint sorted_wrt_map)
qed (simp add: values_disjoint_def)

lemma in_order_above: "in_order prev ds \<Longrightarrow> d \<in> set ds \<Longrightarrow> rd_value_len d \<noteq> 0 \<Longrightarrow> prev \<le> unat (rd_value_offset d)"
proof (induction prev ds rule: in_order.induct)
  case (2 prev e ds)
  show ?case
  proof (cases "rd_value_len e = 0 \<or> d = e")
    case True
    with 2 show ?thesis by (auto split: if_splits)
  next
    case False
    with 2 have "prev \<le> unat (rd_value_offset e)" "value_end e \<le> unat (rd_value_offset d)" by auto
    then show ?thesis by simp
  qed
qed simp

lemma in_order_disjoint: "in_order prev ds \<Longrightarrow> values_disjoint ds"
proof (induction ds arbitrary: prev)
  case (Cons d ds)
  have "value_range d \<inter> value_range e = {}" if "e \<in> set ds" for e
  proof (cases "rd_value_len d = 0 \<or> rd_value_len e = 0")
    case False
    with Cons.prems that in_order_above [of "value_end d" ds e] show ?thesis
      by (auto simp: value_range_def)
  qed auto
  with Cons show ?case by (auto simp: values_disjoint_def split: if_splits)
qed (simp add: values_disjoint_def)

section \<open>Metadata validation is exact\<close>

definition directory :: "byte list \<Rightarrow> record_descriptor list \<Rightarrow> bool" where
  "directory bytes ds \<longleftrightarrow> (\<forall>i < length ds.
     sub bytes (HEADER_LEN + i * DESCRIPTOR_LEN) DESCRIPTOR_LEN = record_descriptor_image (ds ! i))"

definition metadata_valid :: "'d crc_lib \<Rightarrow> frame_limits \<Rightarrow> frame_metadata \<Rightarrow> record_descriptor list \<Rightarrow> bool" where
  "metadata_valid L limits m ds \<longleftrightarrow>
     frame_header_ok limits (fm_header m) \<and> length (fm_bytes m) = frame_metadata_len (fm_header m)
     \<and> crc32c L (drop HEADER_LEN (fm_bytes m)) = fh_metadata_crc (fm_header m)
     \<and> length ds = unat (fh_record_count (fm_header m)) \<and> directory (fm_bytes m) ds
     \<and> descriptors_ok limits (frame_metadata_len (fm_header m)) (frame_len (fm_header m))
         (HEADER_LEN + length ds * DESCRIPTOR_LEN) ds (frame_metadata_len (fm_header m))
     \<and> values_disjoint ds"

lemma unat_ordinal: "i < unat (count :: u32) \<Longrightarrow> unat (of_nat i :: u32) = i"
proof -
  assume "i < unat count"
  also have "unat count < 2 ^ LENGTH(32)" by (rule unsigned_less)
  finally show ?thesis by (simp add: unat_of_nat)
qed

lemma length_ordinals [simp]: "length (ordinals count) = unat count"
  by (simp add: ordinals_def)

lemma nth_ordinals [simp]: "i < unat count \<Longrightarrow> ordinals count ! i = of_nat i"
  by (simp add: ordinals_def)

lemma descriptor_slot:
  assumes "i < n" and "HEADER_LEN + n * DESCRIPTOR_LEN \<le> len"
  shows "HEADER_LEN + i * DESCRIPTOR_LEN + DESCRIPTOR_LEN \<le> len"
proof -
  have "Suc i * DESCRIPTOR_LEN \<le> n * DESCRIPTOR_LEN" using assms(1) by (intro mult_le_mono) simp_all
  then show ?thesis using assms(2) by simp
qed

lemma map_decode_ordinals:
  assumes "HEADER_LEN + unat count * DESCRIPTOR_LEN \<le> length (fm_bytes m)"
  shows "map (decode_descriptor m) (ordinals count) = map Ok ds \<longleftrightarrow>
    length ds = unat count \<and> directory (fm_bytes m) ds"
proof -
  have "map (decode_descriptor m) (ordinals count) = map Ok ds \<longleftrightarrow>
      length ds = unat count \<and> (\<forall>i < unat count. decode_descriptor m (of_nat i) = Ok (ds ! i))"
    by (auto simp: list_eq_iff_nth_eq [where xs = "map _ _"])
  moreover have "decode_descriptor m (of_nat i) = Ok d \<longleftrightarrow>
      sub (fm_bytes m) (HEADER_LEN + i * DESCRIPTOR_LEN) DESCRIPTOR_LEN = record_descriptor_image d"
    if "i < unat count" for i d
    using descriptor_slot [OF that assms] decode_descriptor_Ok_iff [of "of_nat i" m d]
    by (simp add: unat_ordinal [OF that])
  ultimately show ?thesis by (auto simp: directory_def)
qed

lemma descriptors_ok_mono: "descriptors_ok limits mlen flen at ds at' \<Longrightarrow> at \<le> at'"
  by (induction ds arbitrary: at) fastforce+

lemma descriptors_okD:
  assumes "descriptors_ok limits mlen flen at ds at'" and "d \<in> set ds"
  shows "\<exists>a. at \<le> a \<and> a + 4 * unat (rd_checksum_count d) \<le> at' \<and> descriptor_ok limits mlen flen a d"
  using assms
proof (induction ds arbitrary: at)
  case (Cons e ds)
  let ?next = "at + 4 * unat (rd_checksum_count e)"
  from Cons.prems have rest: "descriptors_ok limits mlen flen ?next ds at'"
    and e: "descriptor_ok limits mlen flen at e" by auto
  show ?case
  proof (cases "d = e")
    case True
    with e descriptors_ok_mono [OF rest] show ?thesis by auto
  next
    case False
    with Cons.prems(2) have "d \<in> set ds" by simp
    from Cons.IH [OF rest this] obtain a where
      "?next \<le> a" "a + 4 * unat (rd_checksum_count d) \<le> at'" "descriptor_ok limits mlen flen a d" by blast
    then show ?thesis by (intro exI [of _ a]) simp
  qed
qed simp

lemma descriptor_ok_bounds:
  assumes "descriptor_ok limits mlen flen a d" and "mlen \<le> flen"
  shows "unat (rd_checksum_offset d) + unat (rd_checksum_count d) * 4 \<le> mlen" "value_end d \<le> flen"
    "rd_checksum_count d = block_count (unat (rd_value_len d))"
  using assms by (auto simp: descriptor_ok_def block_count_def split: if_splits)

text \<open>The record a valid directory holds at an index.\<close>

definition record_at :: "byte list \<Rightarrow> record_descriptor list \<Rightarrow> nat \<Rightarrow> frame_record" where
  "record_at bytes ds i = \<lparr> fr_descriptor = ds ! i, fr_ordinal = of_nat i,
     fr_checksums = sub bytes (unat (rd_checksum_offset (ds ! i))) (unat (rd_checksum_count (ds ! i)) * 4) \<rparr>"

lemma metadata_record_Some:
  assumes "directory (fm_bytes m) ds" and "length ds = unat (fh_record_count (fm_header m))"
    and "HEADER_LEN + length ds * DESCRIPTOR_LEN \<le> length (fm_bytes m)" and "i < length ds"
    and "unat (rd_checksum_offset (ds ! i)) + unat (rd_checksum_count (ds ! i)) * 4 \<le> length (fm_bytes m)"
  shows "metadata_record m (of_nat i) = Ok (Some (record_at (fm_bytes m) ds i))"
proof -
  have i: "unat (of_nat i :: u32) = i" using assms(2,4) unat_ordinal by simp
  then have "decode_descriptor m (of_nat i) = Ok (ds ! i)"
    using assms descriptor_slot [OF assms(4,3)] by (simp add: decode_descriptor_Ok_iff directory_def)
  moreover have "\<not> fh_record_count (fm_header m) \<le> of_nat i"
    using i assms(2,4) by (simp add: word_le_nat_alt)
  ultimately show ?thesis
    using assms(5) by (simp add: metadata_record_def Let_def record_at_def)
qed

lemma metadata_records_Ok:
  assumes "directory (fm_bytes m) ds" and "length ds = unat (fh_record_count (fm_header m))"
    and "HEADER_LEN + length ds * DESCRIPTOR_LEN \<le> length (fm_bytes m)"
    and "\<And>d. d \<in> set ds \<Longrightarrow> unat (rd_checksum_offset d) + unat (rd_checksum_count d) * 4 \<le> length (fm_bytes m)"
  shows "metadata_records m = Ok (map (record_at (fm_bytes m) ds) [0..<length ds])"
  using assms
  by (auto simp: metadata_records_def traverse_Ok_iff list_eq_iff_nth_eq metadata_record_Some)

lemma ranges_of_records:
  "map (\<lambda>r. (rd_value_offset (fr_descriptor r), rd_value_len (fr_descriptor r)))
     (filter (\<lambda>r. rd_value_len (fr_descriptor r) \<noteq> 0) (map (record_at bytes ds) [0..<length ds]))
   = map range_of (filter (\<lambda>d. rd_value_len d \<noteq> 0) ds)"
proof -
  have "filter P ds = map ((!) ds) (filter (\<lambda>i. P (ds ! i)) [0..<length ds])" for P
    using filter_map [of P "(!) ds" "[0..<length ds]"] by (simp add: map_nth comp_def)
  then show ?thesis
    by (simp add: filter_map comp_def record_at_def)
qed

lemma overlapping_directory:
  "overlapping (map range_of (filter (\<lambda>d. rd_value_len d \<noteq> 0) ds)) \<longleftrightarrow> \<not> values_disjoint ds"
  by (subst overlap_check_iff) (auto simp: values_disjoint_nonempty)

text \<open>
  The part of \<open>metadata_decode\<close> after the header and the metadata checksum have passed.
\<close>

definition check_directory :: "frame_limits \<Rightarrow> frame_metadata \<Rightarrow> (frame_error, frame_metadata) res" where
  "check_directory limits m =
     (let header = fm_header m in
      rbind (check_descriptors limits m (ordinals (fh_record_count header))
              (HEADER_LEN + unat (fh_record_count header) * DESCRIPTOR_LEN)
              (frame_metadata_len header) True) (\<lambda>(checksum_at, ordered).
      if checksum_at \<noteq> frame_metadata_len header then Err (FE_Corrupt ''unreferenced checksum bytes'') else
      if \<not> ordered then
        rbind (metadata_records m) (\<lambda>records.
        let ranges = map (\<lambda>r. (rd_value_offset (fr_descriptor r), rd_value_len (fr_descriptor r)))
                       (filter (\<lambda>r. rd_value_len (fr_descriptor r) \<noteq> 0) records) in
        if overlapping ranges then Err (FE_Corrupt ''overlapping values'') else Ok m)
      else Ok m))"

lemma metadata_decode_unfold:
  "metadata_decode L input limits position =
     rbind (frame_header_decode L input limits position) (\<lambda>header.
     if length input < frame_metadata_len header
     then Err (FE_Truncated (frame_metadata_len header) (length input)) else
     let m = \<lparr> fm_bytes = take (frame_metadata_len header) input, fm_header = header \<rparr> in
     if crc32c L (drop HEADER_LEN (fm_bytes m)) \<noteq> fh_metadata_crc header then Err (FE_Corrupt ''metadata checksum'')
     else check_directory limits m)"
proof -
  have "HEADER_LEN \<le> frame_metadata_len h" for h by (simp add: frame_metadata_len_def)
  then show ?thesis
    unfolding metadata_decode_def check_directory_def
    by (intro rbind_cong refl) (simp add: get_to_def Let_def sub_all)
qed

lemma directory_fits: "HEADER_LEN + unat (fh_record_count h) * DESCRIPTOR_LEN \<le> frame_metadata_len h"
  by (simp add: frame_metadata_len_def)

lemma check_directory_walk:
  assumes "length (fm_bytes m) = frame_metadata_len (fm_header m)" and "frame_metadata_len (fm_header m) \<le> frame_len (fm_header m)"
    and "length ds = unat (fh_record_count (fm_header m))" and "directory (fm_bytes m) ds"
    and "descriptors_ok limits (frame_metadata_len (fm_header m)) (frame_len (fm_header m)) at ds (frame_metadata_len (fm_header m))"
  shows "metadata_records m = Ok (map (record_at (fm_bytes m) ds) [0..<length ds])"
proof (rule metadata_records_Ok)
  fix d assume "d \<in> set ds"
  with assms(5) obtain a where "descriptor_ok limits (frame_metadata_len (fm_header m)) (frame_len (fm_header m)) a d"
    by (blast dest: descriptors_okD)
  from descriptor_ok_bounds(1) [OF this assms(2)]
  show "unat (rd_checksum_offset d) + unat (rd_checksum_count d) * 4 \<le> length (fm_bytes m)"
    using assms(1) by simp
qed (use assms directory_fits in simp_all)

lemma check_directory_iff:
  assumes "length (fm_bytes m) = frame_metadata_len (fm_header m)" and "frame_metadata_len (fm_header m) \<le> frame_len (fm_header m)"
  shows "check_directory limits m = Ok m' \<longleftrightarrow> m' = m \<and> (\<exists>ds. length ds = unat (fh_record_count (fm_header m))
     \<and> directory (fm_bytes m) ds
     \<and> descriptors_ok limits (frame_metadata_len (fm_header m)) (frame_len (fm_header m))
         (HEADER_LEN + length ds * DESCRIPTOR_LEN) ds (frame_metadata_len (fm_header m))
     \<and> values_disjoint ds)"
proof -
  let ?mlen = "frame_metadata_len (fm_header m)" and ?n = "unat (fh_record_count (fm_header m))"
  let ?check = "check_descriptors limits m (ordinals (fh_record_count (fm_header m)))
      (HEADER_LEN + ?n * DESCRIPTOR_LEN) ?mlen True"
  have fits: "HEADER_LEN + ?n * DESCRIPTOR_LEN \<le> length (fm_bytes m)" using assms(1) directory_fits by simp
  define D where "D ds \<longleftrightarrow> length ds = ?n \<and> directory (fm_bytes m) ds
      \<and> descriptors_ok limits ?mlen (frame_len (fm_header m)) (HEADER_LEN + length ds * DESCRIPTOR_LEN) ds ?mlen" for ds
  define R where "R \<longleftrightarrow> (\<exists>rs. metadata_records m = Ok rs \<and> \<not> overlapping (map (\<lambda>r. range_of (fr_descriptor r))
      (filter (\<lambda>r. rd_value_len (fr_descriptor r) \<noteq> 0) rs)))"
  have walk: "?check = Ok (?mlen, ord) \<longleftrightarrow> (\<exists>ds. D ds \<and> ord = in_order ?mlen ds)" for ord
    unfolding check_descriptors_iff map_decode_ordinals [OF fits] D_def by auto
  have R: "R \<longleftrightarrow> values_disjoint ds" if "D ds" for ds
  proof -
    have "metadata_records m = Ok (map (record_at (fm_bytes m) ds) [0..<length ds])"
      using check_directory_walk [OF assms, of ds] that unfolding D_def by blast
    then show ?thesis
      unfolding R_def by (simp only: res.inject ranges_of_records overlapping_directory simp_thms)
  qed
  have final: "check_directory limits m = Ok m' \<longleftrightarrow>
      m' = m \<and> (?check = Ok (?mlen, True) \<or> (?check = Ok (?mlen, False) \<and> R))"
    by (auto simp: check_directory_def R_def Let_def rbind_Ok_iff split: if_splits)
  have "(?check = Ok (?mlen, True) \<or> (?check = Ok (?mlen, False) \<and> R)) \<longleftrightarrow> (\<exists>ds. D ds \<and> values_disjoint ds)"
    unfolding walk using R in_order_disjoint by blast
  then show ?thesis
    unfolding final by (simp add: D_def)
qed

lemma frame_header_decode_ok:
  assumes "frame_header_decode L input limits position = Ok h"
  shows "HEADER_LEN \<le> length input" "frame_header_ok limits h" "fh_position h = position"
    "take HEADER_LEN input = frame_header_image L h"
proof -
  show *: "HEADER_LEN \<le> length input"
    using assms frame_header_decode_short [of input L limits position] by (cases "HEADER_LEN \<le> length input") auto
  show "frame_header_ok limits h" "fh_position h = position" "take HEADER_LEN input = frame_header_image L h"
    using assms by (simp_all add: frame_header_decode_exact *)
qed

lemma metadata_decode_iff:
  "metadata_decode L input limits position = Ok m \<longleftrightarrow>
     frame_header_decode L input limits position = Ok (fm_header m)
     \<and> frame_metadata_len (fm_header m) \<le> length input
     \<and> fm_bytes m = take (frame_metadata_len (fm_header m)) input
     \<and> (\<exists>ds. metadata_valid L limits m ds)"
proof (cases "frame_header_decode L input limits position")
  case (Ok h)
  note ok = frame_header_decode_ok(2) [OF Ok]
  show ?thesis
  proof (cases "frame_metadata_len h \<le> length input")
    case True
    let ?m = "\<lparr> fm_bytes = take (frame_metadata_len h) input, fm_header = h \<rparr>"
    have m: "fm_header m = h \<and> fm_bytes m = take (frame_metadata_len h) input \<longleftrightarrow> m = ?m"
      by (cases m) auto
    have "check_directory limits ?m = Ok m \<longleftrightarrow> m = ?m \<and> (\<exists>ds. length ds = unat (fh_record_count h)
       \<and> directory (fm_bytes ?m) ds
       \<and> descriptors_ok limits (frame_metadata_len h) (frame_len h)
           (HEADER_LEN + length ds * DESCRIPTOR_LEN) ds (frame_metadata_len h)
       \<and> values_disjoint ds)"
      using check_directory_iff [of ?m limits m] True frame_header_okD(2) [OF ok] by simp
    then show ?thesis
      using ok True m unfolding metadata_decode_unfold by (auto simp: Ok Let_def metadata_valid_def)
  next
    case False
    then show ?thesis by (auto simp: metadata_decode_unfold Ok)
  qed
qed (simp_all add: metadata_decode_unfold)

lemma check_descriptors_total:
  "(\<And>i. i \<in> set os \<Longrightarrow> decode_descriptor m i \<noteq> Panic) \<Longrightarrow> check_descriptors limits m os at prev ord \<noteq> Panic"
  by (induction os arbitrary: at prev ord) (auto simp: Let_def rbind_Panic_iff)

lemma set_ordinals: "i \<in> set (ordinals count) \<Longrightarrow> unat i < unat count"
  by (auto simp: ordinals_def unat_ordinal)

lemma check_directory_total:
  assumes "length (fm_bytes m) = frame_metadata_len (fm_header m)" and "frame_metadata_len (fm_header m) \<le> frame_len (fm_header m)"
  shows "check_directory limits m \<noteq> Panic"
proof -
  let ?mlen = "frame_metadata_len (fm_header m)"
  let ?check = "check_descriptors limits m (ordinals (fh_record_count (fm_header m)))
      (HEADER_LEN + unat (fh_record_count (fm_header m)) * DESCRIPTOR_LEN) ?mlen True"
  have fits: "HEADER_LEN + unat (fh_record_count (fm_header m)) * DESCRIPTOR_LEN \<le> length (fm_bytes m)"
    using assms(1) directory_fits by simp
  have total: "?check \<noteq> Panic"
    using descriptor_slot [OF set_ordinals fits] by (intro check_descriptors_total decode_descriptor_total) simp
  have "metadata_records m \<noteq> Panic" if walk: "?check = Ok (?mlen, ord)" for ord
  proof -
    from walk obtain ds where "length ds = unat (fh_record_count (fm_header m))" "directory (fm_bytes m) ds"
      "\<exists>at. descriptors_ok limits ?mlen (frame_len (fm_header m)) at ds ?mlen"
      unfolding check_descriptors_iff map_decode_ordinals [OF fits] by blast
    then show ?thesis using check_directory_walk [OF assms, of ds] by auto
  qed
  with total show ?thesis by (auto simp: check_directory_def Let_def rbind_Panic_iff split: if_splits)
qed

lemma metadata_decode_total: "metadata_decode L input limits position \<noteq> Panic"
proof (cases "frame_header_decode L input limits position")
  case (Ok h)
  then have "frame_metadata_len h \<le> frame_len h" by (rule frame_header_okD(2) [OF frame_header_decode_ok(2)])
  with Ok check_directory_total show ?thesis by (simp add: metadata_decode_unfold Let_def)
next
  case Panic
  then show ?thesis using frame_header_decode_total by metis
qed (simp add: metadata_decode_unfold)

section \<open>Records and payloads\<close>

definition record_sums :: "frame_record \<Rightarrow> u32 list" where
  "record_sums r = map (\<lambda>i. le_join (sub (fr_checksums r) (i * 4) 4)) [0..<unat (rd_checksum_count (fr_descriptor r))]"

lemma record_checksum_get:
  assumes "length (fr_checksums r) = unat (rd_checksum_count (fr_descriptor r)) * 4"
  shows "record_checksum r block = Ok (checksums_get (record_sums r) block)"
proof (cases "rd_checksum_count (fr_descriptor r) \<le> block")
  case True
  then show ?thesis by (simp add: record_checksum_def checksums_get_def record_sums_def word_le_nat_alt)
next
  case False
  then have "unat block < unat (rd_checksum_count (fr_descriptor r))" by (simp add: word_le_nat_alt)
  then show ?thesis
    using assms False by (simp add: record_checksum_def checksums_get_def record_sums_def)
qed

lemma verification_range_whole: "verification_range len (0, len) = Ok (0, len)"
proof -
  have "min (align_up (unat len) CHECKSUM_BLOCK_SIZE) (unat len) = unat len"
    by (simp add: align_up_ge)
  then show ?thesis
    by (simp add: verification_range_def validate_range_def Let_def align_down_def word_le_nat_alt)
qed

lemma record_verify_whole:
  assumes "length (fr_checksums r) = unat (rd_checksum_count (fr_descriptor r)) * 4"
    and "length bytes = unat (rd_value_len (fr_descriptor r))"
  shows "record_verify L r (0, rd_value_len (fr_descriptor r)) bytes =
    rbind (verify_blocks L bytes 0 (record_sums r)) (map_err (\<lambda>block. FE_PayloadChecksum (fr_ordinal r) block))"
proof -
  have "record_checksum r = (\<lambda>i. Ok (checksums_get (record_sums r) i))"
    using record_checksum_get [OF assms(1)] by blast
  then show ?thesis
    using assms(2) by (simp add: record_verify_def verification_range_whole verify_blocks_def)
qed

lemma verify_blocks_accepts:
  assumes "length sums = length (chunks CHECKSUM_BLOCK_SIZE data)" and "length sums < 2 ^ 32"
  shows "verify_blocks L data 0 sums = Ok (Ok ()) \<longleftrightarrow> block_checksums L data = sums"
proof -
  have "unat (of_nat j :: u32) = j" if "j < length sums" for j
    using that assms(2) by (simp add: unat_of_nat)
  then show ?thesis
    using assms(1)
    by (auto simp: verify_blocks_def verify_blocks_with_def verify_chunks_Ok_iff checksums_get_def
        block_checksums_def list_eq_iff_nth_eq [where xs = "map _ _"])
qed

lemma verify_blocks_no_panic:
  "verify_blocks L data first sums \<noteq> Panic" "verify_blocks L data first sums \<noteq> Err e"
  "verify_blocks L data first sums \<noteq> Ok Panic"
  using verify_chunks_no_panic by (fastforce simp: verify_blocks_def verify_blocks_with_def)+

text \<open>What a valid directory says of its \<open>i\<close>-th record.\<close>

lemma metadata_validD:
  assumes "metadata_valid L limits m ds" and "i < length ds"
  shows "metadata_record m (of_nat i) = Ok (Some (record_at (fm_bytes m) ds i))"
    and "value_end (ds ! i) \<le> frame_len (fm_header m)"
    and "rd_checksum_count (ds ! i) = block_count (unat (rd_value_len (ds ! i)))"
    and "length (fr_checksums (record_at (fm_bytes m) ds i)) = unat (rd_checksum_count (ds ! i)) * 4"
    and "rd_kind (ds ! i) = Tombstone \<longrightarrow> rd_value_len (ds ! i) = 0"
proof -
  have le: "frame_metadata_len (fm_header m) \<le> frame_len (fm_header m)"
    using assms(1) frame_header_okD(2) by (auto simp: metadata_valid_def)
  from assms obtain a where d: "descriptor_ok limits (frame_metadata_len (fm_header m)) (frame_len (fm_header m)) a (ds ! i)"
    unfolding metadata_valid_def using descriptors_okD nth_mem by blast
  note bounds = descriptor_ok_bounds [OF d le]
  show "metadata_record m (of_nat i) = Ok (Some (record_at (fm_bytes m) ds i))"
    using assms bounds(1) directory_fits [of "fm_header m"]
    by (intro metadata_record_Some) (simp_all add: metadata_valid_def)
  show "value_end (ds ! i) \<le> frame_len (fm_header m)"
    and "rd_checksum_count (ds ! i) = block_count (unat (rd_value_len (ds ! i)))"
    using bounds by auto
  show "length (fr_checksums (record_at (fm_bytes m) ds i)) = unat (rd_checksum_count (ds ! i)) * 4"
    using bounds(1) assms(1) by (simp add: record_at_def metadata_valid_def)
  show "rd_kind (ds ! i) = Tombstone \<longrightarrow> rd_value_len (ds ! i) = 0"
    using d by (simp add: descriptor_ok_def)
qed

end
