(* ===== verification/Frame_Validity.thy ===== *)
theory Frame_Validity
  imports Frame_Geometry
begin

text \<open>
  Properties of the frame decoders on arbitrary input: they never panic, they accept exactly
  the frames whose checksums all hold, every record of an accepted frame can be read, and any
  change of one checksummed byte is detected. Also the arithmetic of range verification.
\<close>

definition payload :: "byte list \<Rightarrow> record_descriptor \<Rightarrow> byte list" where
  "payload bytes d = sub bytes (unat (rd_value_offset d)) (unat (rd_value_len d))"

definition payload_ok :: "'d crc_lib \<Rightarrow> frame_metadata \<Rightarrow> byte list \<Rightarrow> record_descriptor list \<Rightarrow> nat \<Rightarrow> bool" where
  "payload_ok L m bytes ds i \<longleftrightarrow> block_checksums L (payload bytes (ds ! i)) = record_sums (record_at (fm_bytes m) ds i)"

lemma length_record_sums:
  assumes "metadata_valid L limits m ds" and "i < length ds" and "length bytes = frame_len (fm_header m)"
  shows "length (record_sums (record_at (fm_bytes m) ds i)) = length (chunks CHECKSUM_BLOCK_SIZE (payload bytes (ds ! i)))"
    and "length (payload bytes (ds ! i)) = unat (rd_value_len (ds ! i))"
    and "length (record_sums (record_at (fm_bytes m) ds i)) < 2 ^ 32"
proof -
  note valid = metadata_validD [OF assms(1,2)]
  show len: "length (payload bytes (ds ! i)) = unat (rd_value_len (ds ! i))"
    using valid(2) assms(3) by (simp add: payload_def)
  have "unat (rd_value_len (ds ! i)) < 2 ^ LENGTH(32)" by (rule unsigned_less)
  then show "length (record_sums (record_at (fm_bytes m) ds i)) = length (chunks CHECKSUM_BLOCK_SIZE (payload bytes (ds ! i)))"
    using len valid(3) by (simp add: record_sums_def record_at_def length_chunks unat_block_count)
  show "length (record_sums (record_at (fm_bytes m) ds i)) < 2 ^ 32"
    using unsigned_less [of "rd_checksum_count (ds ! i)", where 'a = nat] by (simp add: record_sums_def record_at_def)
qed

lemma verify_records_step:
  assumes "metadata_valid L limits m ds" and "i < length ds" and "length bytes = frame_len (fm_header m)"
  shows "verify_records L m bytes (of_nat i # os) =
    rbind (rbind (verify_blocks L (payload bytes (ds ! i)) 0 (record_sums (record_at (fm_bytes m) ds i)))
      (map_err (\<lambda>block. FE_PayloadChecksum (of_nat i) block))) (\<lambda>_. verify_records L m bytes os)"
proof -
  note valid = metadata_validD [OF assms(1,2)]
  have r: "fr_descriptor (record_at (fm_bytes m) ds i) = ds ! i" "fr_ordinal (record_at (fm_bytes m) ds i) = of_nat i"
    by (simp_all add: record_at_def)
  have "(slice bytes (unat (rd_value_offset (ds ! i))) (value_end (ds ! i)) :: (frame_error, _) res) = Ok (payload bytes (ds ! i))"
    using valid(2) assms(3) by (simp add: payload_def)
  moreover have "record_verify L (record_at (fm_bytes m) ds i) (0, rd_value_len (ds ! i)) (payload bytes (ds ! i)) =
    rbind (verify_blocks L (payload bytes (ds ! i)) 0 (record_sums (record_at (fm_bytes m) ds i)))
      (map_err (\<lambda>block. FE_PayloadChecksum (of_nat i) block))"
    using record_verify_whole [of "record_at (fm_bytes m) ds i" "payload bytes (ds ! i)" L] valid(4)
      length_record_sums(2) [OF assms] by (simp add: r)
  ultimately show ?thesis
    using valid(1) by (simp add: Let_def r)
qed

lemma verify_records_iff:
  assumes "metadata_valid L limits m ds" and "length bytes = frame_len (fm_header m)"
    and "\<And>i. i \<in> set is \<Longrightarrow> i < length ds"
  shows "(verify_records L m bytes (map of_nat is) = Ok () \<longleftrightarrow> (\<forall>i \<in> set is. payload_ok L m bytes ds i))
    \<and> verify_records L m bytes (map of_nat is) \<noteq> Panic"
  using assms(3)
proof (induction "is")
  case (Cons i "is")
  let ?v = "verify_blocks L (payload bytes (ds ! i)) 0 (record_sums (record_at (fm_bytes m) ds i)) :: (frame_error, _) res"
  have i: "i < length ds" using Cons.prems by simp
  note sums = length_record_sums [OF assms(1) i assms(2)]
  have total: "?v \<noteq> Panic" "?v \<noteq> Err e" "?v \<noteq> Ok Panic" for e
    by (rule verify_blocks_no_panic)+
  then obtain out where out: "?v = Ok out" "out \<noteq> Panic"
    by (cases ?v) auto
  have accept: "out = Ok () \<longleftrightarrow> payload_ok L m bytes ds i"
    using verify_blocks_accepts [OF sums(1,3), of L] out by (auto simp: payload_ok_def)
  then show ?case
    using Cons out by (cases out) (auto simp: verify_records_step [OF assms(1) i assms(2)]
      simp del: verify_records.simps)
qed simp_all

lemma frame_decode_iff:
  "frame_decode L input limits position = Ok f \<longleftrightarrow>
     frame_header_decode L input limits position = Ok (fm_header (f_metadata f))
     \<and> frame_len (fm_header (f_metadata f)) \<le> length input
     \<and> f_bytes f = take (frame_len (fm_header (f_metadata f))) input
     \<and> fm_bytes (f_metadata f) = take (frame_metadata_len (fm_header (f_metadata f))) input
     \<and> (\<exists>ds. metadata_valid L limits (f_metadata f) ds
         \<and> (\<forall>i < length ds. payload_ok L (f_metadata f) (f_bytes f) ds i))"
  (is "?lhs \<longleftrightarrow> ?rhs")
proof -
  have unfold: "?lhs \<longleftrightarrow> metadata_decode L input limits position = Ok (f_metadata f)
      \<and> frame_len (fm_header (f_metadata f)) \<le> length input
      \<and> f_bytes f = take (frame_len (fm_header (f_metadata f))) input
      \<and> verify_records L (f_metadata f) (f_bytes f) (ordinals (fh_record_count (fm_header (f_metadata f)))) = Ok ()"
    by (cases f) (auto simp: frame_decode_def rbind_Ok_iff get_to_Some_iff)
  have verify: "verify_records L (f_metadata f) (f_bytes f) (ordinals (fh_record_count (fm_header (f_metadata f)))) = Ok ()
      \<longleftrightarrow> (\<forall>i < length ds. payload_ok L (f_metadata f) (f_bytes f) ds i)"
    if "metadata_valid L limits (f_metadata f) ds" "length (f_bytes f) = frame_len (fm_header (f_metadata f))" for ds
    using verify_records_iff [OF that, of "[0..<length ds]"] that(1)
    by (auto simp: ordinals_def metadata_valid_def)
  have le: "frame_metadata_len (fm_header (f_metadata f)) \<le> frame_len (fm_header (f_metadata f))"
    if "metadata_valid L limits (f_metadata f) ds" for ds
    using that frame_header_okD(2) by (auto simp: metadata_valid_def)
  show ?thesis
    unfolding unfold metadata_decode_iff using verify le by fastforce
qed

lemma frame_decode_total: "frame_decode L input limits position \<noteq> Panic"
proof (cases "metadata_decode L input limits position")
  case (Ok m)
  then obtain ds where ds: "metadata_valid L limits m ds" by (auto simp: metadata_decode_iff)
  then have n: "length ds = unat (fh_record_count (fm_header m))" by (simp add: metadata_valid_def)
  have "verify_records L m (take (frame_len (fm_header m)) input) (ordinals (fh_record_count (fm_header m))) \<noteq> Panic"
    if "frame_len (fm_header m) \<le> length input"
    using verify_records_iff [OF ds, of "take (frame_len (fm_header m)) input" "[0..<length ds]"] that n
    by (simp add: ordinals_def)
  with Ok show ?thesis by (auto simp: frame_decode_def get_to_def rbind_Panic_iff split: if_splits)
qed (simp_all add: frame_decode_def metadata_decode_total)

lemma frame_valueD:
  assumes "metadata_valid L limits (f_metadata f) ds" and "i < length ds"
    and "length (f_bytes f) = frame_len (fm_header (f_metadata f))"
  shows "frame_value f (of_nat i) =
    Ok (if rd_kind (ds ! i) = Tombstone then None else Some (payload (f_bytes f) (ds ! i)))"
  using metadata_validD [OF assms(1,2)] assms(3)
  by (simp add: frame_value_def record_at_def payload_def Let_def)

lemma metadata_record_None:
  "fh_record_count (fm_header m) \<le> k \<Longrightarrow> metadata_record m k = Ok None"
  by (simp add: metadata_record_def)


section \<open>Corruption\<close>

lemma take_update_low: "j < n \<Longrightarrow> take n (xs[j := c]) = (take n xs)[j := c]"
  by (simp add: take_update_swap)

lemma chunks_update:
  assumes "j < length xs" and "0 < n"
  shows "chunks n (xs[j := c]) = (chunks n xs)[j div n := (chunks n xs ! (j div n))[j mod n := c]]"
  using assms
proof (induction n xs arbitrary: j rule: chunks.induct)
  case (1 n xs)
  then have ne: "xs \<noteq> []" by auto
  show ?case
  proof (cases "j < n")
    case True
    with 1 ne show ?thesis
      by (simp add: chunks_step take_update_swap drop_update_cancel)
  next
    case False
    with 1 ne have "chunks n ((drop n xs)[j - n := c]) =
        (chunks n (drop n xs))[(j - n) div n := (chunks n (drop n xs) ! ((j - n) div n))[(j - n) mod n := c]]"
      by simp
    moreover have "j div n = Suc ((j - n) div n)" "j mod n = (j - n) mod n"
      using False "1.prems"(2) by (simp_all add: le_div_geq le_mod_geq)
    ultimately show ?thesis
      using 1 ne False by (simp add: chunks_step drop_update_swap)
  qed
qed

context crc_detects_byte
begin

lemma block_checksums_detect:
  assumes "j < length xs" and "xs ! j \<noteq> c"
  shows "block_checksums L (xs[j := c]) \<noteq> block_checksums L xs"
proof
  let ?b = "chunks CHECKSUM_BLOCK_SIZE xs ! (j div CHECKSUM_BLOCK_SIZE)"
  have "Suc (j div CHECKSUM_BLOCK_SIZE) * CHECKSUM_BLOCK_SIZE \<le> length xs + CHECKSUM_BLOCK_SIZE - 1"
    using assms(1) div_times_less_eq_dividend [of j CHECKSUM_BLOCK_SIZE] by (simp only: mult_Suc)
  then have block: "j div CHECKSUM_BLOCK_SIZE < length (chunks CHECKSUM_BLOCK_SIZE xs)"
    by (simp only: length_chunks [OF CHECKSUM_BLOCK_SIZE_pos] less_eq_div_iff_mult_less_eq [OF CHECKSUM_BLOCK_SIZE_pos]
        flip: Suc_le_eq)
  then have b: "?b = sub xs (j div CHECKSUM_BLOCK_SIZE * CHECKSUM_BLOCK_SIZE) CHECKSUM_BLOCK_SIZE"
    by (rule block_of_chunks) simp
  have pos: "j mod CHECKSUM_BLOCK_SIZE < length ?b" "?b ! (j mod CHECKSUM_BLOCK_SIZE) = xs ! j"
    using assms(1) div_mult_mod_eq [of j CHECKSUM_BLOCK_SIZE] mod_less_divisor [OF CHECKSUM_BLOCK_SIZE_pos, of j]
    unfolding b by (simp_all add: nth_sub less_diff_conv add.commute)
  assume "block_checksums L (xs[j := c]) = block_checksums L xs"
  then have "map (crc32c L) (chunks CHECKSUM_BLOCK_SIZE (xs[j := c])) ! (j div CHECKSUM_BLOCK_SIZE)
      = map (crc32c L) (chunks CHECKSUM_BLOCK_SIZE xs) ! (j div CHECKSUM_BLOCK_SIZE)"
    by (simp add: block_checksums_def)
  then have "crc32c L (?b[j mod CHECKSUM_BLOCK_SIZE := c]) = crc32c L ?b"
    using assms(1) block by (simp add: chunks_update)
  with update_detected [OF pos(1), of c] pos(2) assms(2) show False by simp
qed

end

lemma payload_update:
  "unat (rd_value_offset d) \<le> j \<Longrightarrow> j < value_end d \<Longrightarrow>
   payload (bytes[j := c]) d = (payload bytes d)[j - unat (rd_value_offset d) := c]"
  by (simp add: payload_def sub_def drop_update_swap take_update_swap)

lemma record_descriptor_image_inject: "record_descriptor_image d = record_descriptor_image e \<longleftrightarrow> d = e"
  using record_descriptor_decode_exact [of "record_descriptor_image d"]
  by (metis length_record_descriptor_image res.inject(1))

lemma directory_unique:
  "directory bytes ds \<Longrightarrow> directory bytes es \<Longrightarrow> length ds = length es \<Longrightarrow> ds = es"
  by (auto simp: directory_def list_eq_iff_nth_eq [where xs = ds] simp flip: record_descriptor_image_inject)

lemma header_unchanged:
  "HEADER_LEN \<le> j \<Longrightarrow> frame_header_decode L (input[j := c]) limits position = frame_header_decode L input limits position"
  by (simp add: frame_header_decode_def get_to_def)

text \<open>The bytes that the checksums of a frame cover: metadata and values, not the padding.\<close>

definition covered :: "frame \<Rightarrow> nat \<Rightarrow> bool" where
  "covered f j \<longleftrightarrow> j < frame_metadata_len (fm_header (f_metadata f)) \<or>
     (\<exists>i r. i < unat (fh_record_count (fm_header (f_metadata f))) \<and>
        metadata_record (f_metadata f) (of_nat i) = Ok (Some r) \<and> j \<in> value_range (fr_descriptor r))"

lemma metadata_change_rejected:
  assumes "crc_detects_byte L" and "frame_decode L input limits position = Ok f"
    and "HEADER_LEN \<le> j" and "j < frame_metadata_len (fm_header (f_metadata f))" and "input ! j \<noteq> c"
  shows "frame_decode L (input[j := c]) limits position \<noteq> Ok g"
proof
  assume g: "frame_decode L (input[j := c]) limits position = Ok g"
  let ?m = "f_metadata f" and ?m' = "f_metadata g"
  have h: "fm_header ?m' = fm_header ?m"
    using g assms(2,3) by (auto simp: frame_decode_iff header_unchanged)
  have old: "fm_bytes ?m = take (frame_metadata_len (fm_header ?m)) input"
    "crc32c L (drop HEADER_LEN (fm_bytes ?m)) = fh_metadata_crc (fm_header ?m)"
    "length (fm_bytes ?m) = frame_metadata_len (fm_header ?m)"
    using assms(2) by (auto simp: frame_decode_iff metadata_valid_def)
  have new: "fm_bytes ?m' = take (frame_metadata_len (fm_header ?m)) (input[j := c])"
    "crc32c L (drop HEADER_LEN (fm_bytes ?m')) = fh_metadata_crc (fm_header ?m)"
    using g h by (auto simp: frame_decode_iff metadata_valid_def)
  have "drop HEADER_LEN (fm_bytes ?m') = (drop HEADER_LEN (fm_bytes ?m))[j - HEADER_LEN := c]"
    using assms(3,4) by (simp add: new old(1) take_update_swap drop_update_swap)
  moreover have "j - HEADER_LEN < length (drop HEADER_LEN (fm_bytes ?m))" using old(3) assms(3,4) by simp
  moreover have "drop HEADER_LEN (fm_bytes ?m) ! (j - HEADER_LEN) \<noteq> c"
    using old(1,3) assms(3-5) by simp
  ultimately show False
    using crc_detects_byte.update_detected [OF assms(1)] new(2) old(2) by metis
qed

lemma value_change_rejected:
  assumes "crc_detects_byte L" and "frame_decode L input limits position = Ok f"
    and "frame_metadata_len (fm_header (f_metadata f)) \<le> j" and "i < unat (fh_record_count (fm_header (f_metadata f)))"
    and "metadata_record (f_metadata f) (of_nat i) = Ok (Some r)" and "j \<in> value_range (fr_descriptor r)" and "input ! j \<noteq> c"
  shows "frame_decode L (input[j := c]) limits position \<noteq> Ok g"
proof
  assume g: "frame_decode L (input[j := c]) limits position = Ok g"
  let ?m = "f_metadata f" and ?flen = "frame_len (fm_header (f_metadata f))"
  from assms(2) obtain ds where f: "f_bytes f = take ?flen input" "?flen \<le> length input"
    "fm_bytes ?m = take (frame_metadata_len (fm_header ?m)) input"
    and ds: "metadata_valid L limits ?m ds" and ok: "\<And>i. i < length ds \<Longrightarrow> payload_ok L ?m (f_bytes f) ds i"
    by (auto simp: frame_decode_iff)
  have "HEADER_LEN \<le> j" using assms(3) by (simp add: frame_metadata_len_def)
  then have h: "fm_header (f_metadata g) = fm_header ?m"
    using g assms(2) by (auto simp: frame_decode_iff header_unchanged)
  from g obtain es where gb: "f_bytes g = (f_bytes f)[j := c]" "fm_bytes (f_metadata g) = fm_bytes ?m"
    and es: "metadata_valid L limits (f_metadata g) es"
    and ok': "\<And>i. i < length es \<Longrightarrow> payload_ok L (f_metadata g) (f_bytes g) es i"
  proof -
    assume thesis: "\<And>es. f_bytes g = (f_bytes f)[j := c] \<Longrightarrow> fm_bytes (f_metadata g) = fm_bytes ?m \<Longrightarrow>
      metadata_valid L limits (f_metadata g) es \<Longrightarrow>
      (\<And>i. i < length es \<Longrightarrow> payload_ok L (f_metadata g) (f_bytes g) es i) \<Longrightarrow> thesis"
    have "take ?flen (input[j := c]) = (f_bytes f)[j := c]" by (simp add: f(1) take_update_swap)
    moreover have "take (frame_metadata_len (fm_header ?m)) (input[j := c]) = fm_bytes ?m"
      using assms(3) by (simp add: f(3) take_update_cancel)
    ultimately show thesis using g thesis unfolding frame_decode_iff h by auto
  qed
  have eq: "es = ds"
    using ds es gb(2) h by (intro directory_unique) (auto simp: metadata_valid_def)
  have i: "i < length ds" using ds assms(4) by (simp add: metadata_valid_def)
  have r: "fr_descriptor r = ds ! i"
    using metadata_validD(1) [OF ds i] assms(5) by (auto simp: record_at_def)
  let ?o = "unat (rd_value_offset (ds ! i))"
  have j: "?o \<le> j" "j < value_end (ds ! i)" "value_end (ds ! i) \<le> ?flen"
    using assms(6) metadata_validD(2) [OF ds i] by (auto simp: r value_range_def)
  have "block_checksums L ((payload (f_bytes f) (ds ! i))[j - ?o := c]) = block_checksums L (payload (f_bytes f) (ds ! i))"
    using ok [OF i] ok' [of i] i gb eq j payload_update [of "ds ! i" j "f_bytes f" c] by (simp add: payload_ok_def)
  moreover have "j - ?o < length (payload (f_bytes f) (ds ! i))" "payload (f_bytes f) (ds ! i) ! (j - ?o) \<noteq> c"
    using j f assms(7) by (auto simp: payload_def nth_sub)
  ultimately show False using crc_detects_byte.block_checksums_detect [OF assms(1)] by blast
qed

text \<open>
  C12: A change of one checksummed byte is always detected. If a frame decodes, then replacing
  any one byte of its header, directory, checksum area or of any value by a different byte
  makes decoding fail with an error. The hypothesis is the documented error detection of
  CRC32C for one byte.
\<close>

theorem frame_corruption_detected:
  assumes "crc_detects_byte L" and "frame_decode L input limits position = Ok f"
    and "covered f j" and "input ! j \<noteq> c"
  shows "\<exists>e. frame_decode L (input[j := c]) limits position = Err e"
proof -
  have header: "frame_decode L (input[j := c]) limits position \<noteq> Ok g" if "j < HEADER_LEN" for g
    using frame_header_change_rejected [OF assms(1) _ that assms(4)] assms(2) by (auto simp: frame_decode_iff)
  have "frame_decode L (input[j := c]) limits position \<noteq> Ok g" for g
    using header metadata_change_rejected [OF assms(1,2) _ _ assms(4)] value_change_rejected [OF assms(1,2) _ _ _ _ assms(4)]
      assms(3) unfolding covered_def by (metis linorder_not_less)
  with frame_decode_total show ?thesis by (metis res.exhaust)
qed

section \<open>Range verification\<close>

lemma align_block_min:
  assumes "end \<le> len"
  shows "end \<le> min (align_up end CHECKSUM_BLOCK_SIZE) len" "min (align_up end CHECKSUM_BLOCK_SIZE) len \<le> len"
    "min (align_up end CHECKSUM_BLOCK_SIZE) len < end + CHECKSUM_BLOCK_SIZE"
    "is_aligned (min (align_up end CHECKSUM_BLOCK_SIZE) len) CHECKSUM_BLOCK_SIZE \<or> min (align_up end CHECKSUM_BLOCK_SIZE) len = len"
  using assms align_up_less [OF CHECKSUM_BLOCK_SIZE_pos, of "end"]
  by (auto simp: align_up_ge min_def)

lemma align_down_ident: "0 < a \<Longrightarrow> is_aligned v a \<Longrightarrow> align_down v a = v"
  using div_mult_mod_eq [of v a] by (simp add: align_down_def is_aligned_def)

lemma verification_range_Ok:
  assumes "fst rng < snd rng" and "snd rng \<le> len"
  shows "\<exists>s e. verification_range len rng = Ok (s, e)
    \<and> unat s = align_down (unat (fst rng)) CHECKSUM_BLOCK_SIZE
    \<and> unat e = min (align_up (unat (snd rng)) CHECKSUM_BLOCK_SIZE) (unat len)"
proof -
  have small: "align_down (unat (fst rng)) CHECKSUM_BLOCK_SIZE < 2 ^ LENGTH(32)"
    "min (align_up (unat (snd rng)) CHECKSUM_BLOCK_SIZE) (unat len) < 2 ^ LENGTH(32)"
    using align_down_le [of "unat (fst rng)" CHECKSUM_BLOCK_SIZE] unsigned_less [of "fst rng", where 'a = nat]
      unsigned_less [of len, where 'a = nat] by simp_all
  moreover have "\<not> (snd rng < fst rng \<or> len < snd rng)" "\<not> snd rng \<le> fst rng"
    using assms by auto
  ultimately show ?thesis
    by (simp add: verification_range_def validate_range_def Let_def unat_of_nat)
qed



end
