(* ===== verification/Frame_Roundtrip.thy ===== *)
theory Frame_Roundtrip
  imports Frame_Encode Frame_Validity
begin

text \<open>
  Encoding a frame and decoding it again. The plan of the encoder satisfies the geometry that
  the decoder checks, and what the encoder wrote satisfies its checksums.
\<close>

section \<open>The plan satisfies the decoder\<close>

definition planned :: "builder_input \<times> nat \<times> nat \<Rightarrow> record_descriptor" where
  "planned entry = (case entry of (r, value_at, ck) \<Rightarrow> descriptor_of r value_at ck)"

lemma planned_entry [simp]: "planned (r, value_at, ck) = descriptor_of r value_at ck"
  by (simp add: planned_def)

lemma descriptor_of_sel [simp]:
  "rd_key (descriptor_of r va ck) = in_key r" "rd_lsn (descriptor_of r va ck) = in_lsn r"
  "rd_kind (descriptor_of r va ck) = in_kind r" "rd_value_offset (descriptor_of r va ck) = of_nat va"
  "rd_value_len (descriptor_of r va ck) = of_nat (length (in_value r))"
  "rd_checksum_count (descriptor_of r va ck) = block_count (length (in_value r))"
  by (simp_all add: descriptor_of_def)

lemma length_plan [simp]: "length (plan ck e rs) = length rs"
  by (induction rs arbitrary: ck e) (simp_all add: case_prod_beta)

lemma checksums_len_simps [simp]:
  "checksums_len [] = 0"
  "checksums_len (r # rs) = 4 * unat (block_count (length (in_value r))) + checksums_len rs"
  by (simp_all add: checksums_len_def)

lemma plan_bounds:
  assumes "i < length rs"
  shows "\<exists>value_at c. plan ck e rs ! i = (rs ! i, value_at, c) \<and> ck \<le> c
    \<and> c + 4 * unat (block_count (length (in_value (rs ! i)))) \<le> ck + checksums_len rs
    \<and> (if in_value (rs ! i) = [] then value_at = 0
       else e \<le> value_at \<and> value_at + length (in_value (rs ! i)) \<le> place_all e rs)"
  using assms
proof (induction rs arbitrary: ck e i)
  case (Cons r rs)
  let ?ck = "ck + 4 * unat (block_count (length (in_value r)))" and ?e = "snd (place e (length (in_value r)))"
  show ?case
  proof (cases i)
    case 0
    then show ?thesis
      using place_all_ge [of ?e rs] by (auto simp: case_prod_beta place_pos value_start_ge)
  next
    case (Suc k)
    with Cons.prems have "k < length rs" by simp
    from Cons.IH [OF this, of ?ck ?e] obtain va c where IH: "plan ?ck ?e rs ! k = (rs ! k, va, c)" "?ck \<le> c"
      "c + 4 * unat (block_count (length (in_value (rs ! k)))) \<le> ?ck + checksums_len rs"
      "if in_value (rs ! k) = [] then va = 0 else ?e \<le> va \<and> va + length (in_value (rs ! k)) \<le> place_all ?e rs"
      by blast
    have "e \<le> ?e" by (rule place_ge)
    with IH Suc show ?thesis by (auto simp: case_prod_beta split: if_splits)
  qed
qed simp

lemma planned_empty:
  "in_value r = [] \<Longrightarrow> input_ok limits r \<Longrightarrow> descriptor_ok limits m f ck (descriptor_of r 0 ck)"
  by (simp add: descriptor_ok_def descriptor_of_def)

lemma planned_value:
  assumes "in_value r \<noteq> []" and "input_ok limits r" and "value_start e (length (in_value r)) + length (in_value r) \<le> f"
    and "f < 2 ^ 32" and "m \<le> e" and "ck + 4 * unat (block_count (length (in_value r))) \<le> m"
  shows "descriptor_ok limits m f ck (descriptor_of r (value_start e (length (in_value r))) ck)"
    and "rd_value_len (descriptor_of r (value_start e (length (in_value r))) ck) \<noteq> 0"
    and "value_end (descriptor_of r (value_start e (length (in_value r))) ck) = value_start e (length (in_value r)) + length (in_value r)"
    and "unat (rd_value_offset (descriptor_of r (value_start e (length (in_value r))) ck)) = value_start e (length (in_value r))"
proof -
  let ?s = "value_start e (length (in_value r))" and ?len = "length (in_value r)"
  have start: "e \<le> ?s" "is_aligned ?s VALUE_ALIGN" by (rule value_start_ge value_start_aligned)+
  have len: "unat (of_nat ?len :: u32) = ?len" "unat (of_nat ?s :: u32) = ?s" "unat (of_nat ck :: u32) = ck"
    using assms(3-6) start by (intro unat_u32; linarith)+
  have pos: "0 < ?len" using assms(1) by simp
  show "rd_value_len (descriptor_of r ?s ck) \<noteq> 0"
    using len(1) pos by (auto simp: descriptor_of_def)
  then show "descriptor_ok limits m f ck (descriptor_of r ?s ck)"
    using assms len start by (simp add: descriptor_ok_def descriptor_of_def input_ok_def word_le_nat_alt)
  show "value_end (descriptor_of r ?s ck) = ?s + ?len" "unat (rd_value_offset (descriptor_of r ?s ck)) = ?s"
    using len by (simp_all add: descriptor_of_def)
qed

lemma plan_geometry:
  assumes "list_all (input_ok limits) rs" and "place_all e rs \<le> f" and "f < 2 ^ 32" and "m \<le> e"
    and "ck + checksums_len rs \<le> m"
  shows "descriptors_ok limits m f ck (map planned (plan ck e rs)) (ck + checksums_len rs)"
    and "in_order e (map planned (plan ck e rs))"
proof -
  have "descriptors_ok limits m f ck (map planned (plan ck e rs)) (ck + checksums_len rs)
    \<and> in_order e (map planned (plan ck e rs))"
    using assms
  proof (induction rs arbitrary: ck e)
    case (Cons r rs)
    let ?len = "length (in_value r)"
    have IH: "descriptors_ok limits m f (ck + 4 * unat (block_count ?len))
        (map planned (plan (ck + 4 * unat (block_count ?len)) (snd (place e ?len)) rs)) (ck + checksums_len (r # rs))
      \<and> in_order (snd (place e ?len)) (map planned (plan (ck + 4 * unat (block_count ?len)) (snd (place e ?len)) rs))"
      using Cons.prems place_ge [of e ?len] Cons.IH [of "snd (place e ?len)" "ck + 4 * unat (block_count ?len)"]
      by (simp add: add.assoc)
    show ?case
    proof (cases "in_value r = []")
      case True
      with IH Cons.prems planned_empty [OF True, of limits m f ck] show ?thesis
        by simp
    next
      case False
      then have place: "place e ?len = (value_start e ?len, value_start e ?len + ?len)" by (simp add: place_pos)
      have "value_start e ?len + ?len \<le> f"
        using Cons.prems(2) place_all_ge [of "value_start e ?len + ?len" rs] by (simp add: place)
      note planned_value [OF False _ this, of limits m ck]
      with IH Cons.prems False show ?thesis
        by (simp add: place value_start_ge)
    qed
  qed simp
  then show "descriptors_ok limits m f ck (map planned (plan ck e rs)) (ck + checksums_len rs)"
    and "in_order e (map planned (plan ck e rs))" by auto
qed

lemma sums_image_read:
  "i < length sums \<Longrightarrow> le_join (sub (sums_image sums) (i * 4) 4) = sums ! i"
proof (induction sums arbitrary: i)
  case (Cons s sums)
  then show ?case by (cases i) (simp_all add: sub_append_right sub_append_left)
qed simp

section \<open>The encoder\<close>

lemma checksums_len_dvd: "4 dvd checksums_len rs"
  by (induction rs) simp_all

lemma builder_sizes:
  assumes "builder_ok b" and "fb_records b \<noteq> []"
  shows "encoded_len b = align_up (place_all (builder_metadata_len b) (fb_records b)) PAGE_SIZE"
    and "place_all (builder_metadata_len b) (fb_records b) \<le> encoded_len b"
    and "builder_metadata_len b \<le> place_all (builder_metadata_len b) (fb_records b)"
    and "encoded_len b \<le> unat (fl_max_frame_len (fb_limits b))" and "encoded_len b < 2 ^ 32"
    and "builder_metadata_len b = HEADER_LEN + length (fb_records b) * DESCRIPTOR_LEN + checksums_len (fb_records b)"
    and "length (fb_records b) < 2 ^ 32" and "checksums_len (fb_records b) < 2 ^ 32"
proof -
  show eq: "encoded_len b = align_up (place_all (builder_metadata_len b) (fb_records b)) PAGE_SIZE"
    using assms(2) by (simp add: encoded_len_def builder_is_empty_def)
  show E: "place_all (builder_metadata_len b) (fb_records b) \<le> encoded_len b"
    unfolding eq by (rule align_up_ge) simp
  show M: "builder_metadata_len b \<le> place_all (builder_metadata_len b) (fb_records b)" by (rule place_all_ge)
  show max: "encoded_len b \<le> unat (fl_max_frame_len (fb_limits b))" using assms(1) by (simp add: builder_ok_def)
  then show F: "encoded_len b < 2 ^ 32" using u32_less [of "fl_max_frame_len (fb_limits b)"] by linarith
  show len: "builder_metadata_len b = HEADER_LEN + length (fb_records b) * DESCRIPTOR_LEN + checksums_len (fb_records b)"
    using assms(1) by (simp add: builder_metadata_len_def builder_ok_def)
  show "length (fb_records b) < 2 ^ 32" "checksums_len (fb_records b) < 2 ^ 32"
    using len M E F by (simp_all add: DESCRIPTOR_LEN_def)
qed

lemma small_values: "builder_ok b \<Longrightarrow> r \<in> set (fb_records b) \<Longrightarrow> length (in_value r) < 2 ^ 40"
  using u32_less [of "fl_max_value_len (fb_limits b)"]
  by (auto simp: builder_ok_def list_all_iff input_ok_def dest!: bspec)

definition encoded_header :: "'d crc_lib \<Rightarrow> frame_builder \<Rightarrow> frame_position \<Rightarrow> byte list \<Rightarrow> frame_header" where
  "encoded_header L b position bytes =
     \<lparr> fh_position = position, fh_frame_len = of_nat (encoded_len b),
       fh_record_count = of_nat (length (fb_records b)), fh_checksum_len = of_nat (checksums_len (fb_records b)),
       fh_metadata_crc = crc32c L (sub bytes HEADER_LEN (builder_metadata_len b - HEADER_LEN)) \<rparr>"

lemma encode_into_written:
  assumes ok: "builder_ok b" and ne: "fb_records b \<noteq> []"
    and avail: "encoded_len b \<le> unat (fp_available position)" and fits: "encoded_len b \<le> length buffer"
  shows "\<exists>bytes. encode_into L b position buffer = Ok (encoded_header L b position bytes, bytes @ drop (encoded_len b) buffer)
    \<and> length bytes = encoded_len b
    \<and> take HEADER_LEN bytes = frame_header_image L (encoded_header L b position bytes)
    \<and> (\<forall>i < length (fb_records b). entry_written L bytes i
        (plan (HEADER_LEN + length (fb_records b) * DESCRIPTOR_LEN) (builder_metadata_len b) (fb_records b) ! i))"
proof -
  let ?rs = "fb_records b" and ?M = "builder_metadata_len b" and ?F = "encoded_len b"
  let ?ck = "HEADER_LEN + length (fb_records b) * DESCRIPTOR_LEN" and ?E = "place_all (builder_metadata_len b) (fb_records b)"
  note sizes = builder_sizes [OF ok ne]
  have "\<exists>b1. encode_records L 0 ?ck ?M ?rs (take ?F buffer) = Ok (?E, b1)
    \<and> (\<forall>i < length ?rs. entry_written L b1 (0 + i) (plan ?ck ?M ?rs ! i))
    \<and> same_outside (HEADER_LEN + 0 * DESCRIPTOR_LEN) (HEADER_LEN + (0 + length ?rs) * DESCRIPTOR_LEN)
        ?ck (?ck + checksums_len ?rs) ?M ?E b1 (take ?F buffer)"
    using sizes fits small_values [OF ok] by (intro encode_records_written) auto
  then obtain b1 where b1: "encode_records L 0 ?ck ?M ?rs (take ?F buffer) = Ok (?E, b1)" "length b1 = ?F"
    and written: "\<And>i. i < length ?rs \<Longrightarrow> entry_written L b1 i (plan ?ck ?M ?rs ! i)"
    using fits by (auto simp: same_outside_def)
  define b2 where "b2 = patch b1 ?E (replicate (?F - ?E) 0)"
  have len2: "length b2 = ?F" using b1(2) sizes by (simp add: b2_def)
  define h where "h = encoded_header L b position b2"
  define b3 where "b3 = frame_header_image L h @ drop HEADER_LEN b2"
  have M: "HEADER_LEN \<le> ?M" "?M \<le> ?F" using sizes by simp_all
  have len3: "length b3 = ?F" using len2 M by (simp add: b3_def)
  have body: "sub b3 a n = sub b2 a n" if "HEADER_LEN \<le> a" for a n
    using that by (simp add: b3_def sub_append_right sub_drop)
  then have h3: "encoded_header L b position b3 = h" by (simp add: h_def encoded_header_def)
  have keep: "sub b3 a n = sub b1 a n" if "HEADER_LEN \<le> a" "a + n \<le> ?E" for a n
    using that body sizes b1(2) by (simp add: b2_def sub_patch_before)
  have "entry_written L b3 i (plan ?ck ?M ?rs ! i)" if i: "i < length ?rs" for i
  proof -
    obtain va c where entry: "plan ?ck ?M ?rs ! i = (?rs ! i, va, c)" "?ck \<le> c"
      "c + 4 * unat (block_count (length (in_value (?rs ! i)))) \<le> ?ck + checksums_len ?rs"
      "if in_value (?rs ! i) = [] then va = 0 else ?M \<le> va \<and> va + length (in_value (?rs ! i)) \<le> ?E"
      using plan_bounds [OF i, of ?ck ?M] by blast
    have slot: "HEADER_LEN + i * DESCRIPTOR_LEN + DESCRIPTOR_LEN \<le> ?E"
      using descriptor_slot [OF i, of ?E] sizes by simp
    show ?thesis
      using written [OF i] entry slot sizes M unfolding entry_written_def
      by (auto simp: keep split: if_splits)
  qed
  moreover have "encode_into L b position buffer = Ok (h, b3 @ drop ?F buffer)"
  proof -
    have "fb_checksum_len b = checksums_len ?rs" using ok by (simp add: builder_ok_def)
    then show ?thesis
      using ne avail fits b1 len2 M sizes(2,3)
      by (simp add: encode_into_def builder_is_empty_def check_len_def b2_def [symmetric]
          frame_header_encode_image b3_def Let_def h_def encoded_header_def)
  qed
  moreover have "take HEADER_LEN b3 = frame_header_image L h" by (simp add: b3_def)
  ultimately show ?thesis using h3 len3 by metis
qed

section \<open>The round trip\<close>

abbreviation checksum_base :: "frame_builder \<Rightarrow> nat" where
  "checksum_base b \<equiv> HEADER_LEN + length (fb_records b) * DESCRIPTOR_LEN"

abbreviation entries :: "frame_builder \<Rightarrow> (builder_input \<times> nat \<times> nat) list" where
  "entries b \<equiv> plan (checksum_base b) (builder_metadata_len b) (fb_records b)"

abbreviation encoded_metadata :: "'d crc_lib \<Rightarrow> frame_builder \<Rightarrow> frame_position \<Rightarrow> byte list \<Rightarrow> frame_metadata" where
  "encoded_metadata L b position bytes \<equiv>
     \<lparr> fm_bytes = take (builder_metadata_len b) bytes, fm_header = encoded_header L b position bytes \<rparr>"

lemma encoded_header_sizes:
  assumes "builder_ok b" and "fb_records b \<noteq> []"
  shows "frame_len (encoded_header L b position bytes) = encoded_len b"
    "frame_metadata_len (encoded_header L b position bytes) = builder_metadata_len b"
    "unat (fh_record_count (encoded_header L b position bytes)) = length (fb_records b)"
  using builder_sizes(5-8) [OF assms]
  by (simp_all add: frame_len_def frame_metadata_len_def encoded_header_def unat_u32)

lemma encoded_header_ok:
  assumes "builder_ok b" and "fb_records b \<noteq> []" and "encoded_len b \<le> unat (fp_available position)"
  shows "frame_header_ok (fb_limits b) (encoded_header L b position bytes)"
proof -
  note sizes = builder_sizes [OF assms(1,2)]
  have count: "unat (of_nat (length (fb_records b)) :: u32) = length (fb_records b)"
    and frame: "unat (of_nat (encoded_len b) :: u32) = encoded_len b"
    and sums: "unat (of_nat (checksums_len (fb_records b)) :: u32) = checksums_len (fb_records b)"
    using sizes(5,7,8) by (simp_all add: unat_u32)
  have "0 < encoded_len b" using sizes(2,3,6) by (simp add: HEADER_LEN_def)
  then have "(of_nat (encoded_len b) :: u32) \<noteq> 0" using frame by auto
  moreover have "(of_nat (length (fb_records b)) :: u32) \<noteq> 0" using count assms(2) by auto
  moreover have "is_aligned (encoded_len b) PAGE_SIZE" unfolding sizes(1) by simp
  moreover have "checksums_len (fb_records b) mod 4 = 0" using checksums_len_dvd by (simp add: mod_eq_0_iff_dvd)
  ultimately show ?thesis
    using sizes(2-6) assms(3) count frame sums
    by (simp add: frame_header_ok_def frame_len_def frame_metadata_len_def encoded_header_def word_le_nat_alt)
qed

lemma encoded_valid:
  assumes ok: "builder_ok b" and ne: "fb_records b \<noteq> []"
    and avail: "encoded_len b \<le> unat (fp_available position)" and len: "length bytes = encoded_len b"
    and written: "\<And>i. i < length (fb_records b) \<Longrightarrow> entry_written L bytes i (entries b ! i)"
  shows "metadata_valid L (fb_limits b) (encoded_metadata L b position bytes) (map planned (entries b))"
proof -
  note sizes = builder_sizes [OF ok ne]
  have le: "builder_metadata_len b \<le> encoded_len b" "HEADER_LEN \<le> builder_metadata_len b" using sizes(2,3,6) by simp_all
  have inputs: "list_all (input_ok (fb_limits b)) (fb_records b)" using ok by (simp add: builder_ok_def)
  have geometry: "descriptors_ok (fb_limits b) (builder_metadata_len b) (encoded_len b) (checksum_base b)
      (map planned (entries b)) (builder_metadata_len b)" "values_disjoint (map planned (entries b))"
    using plan_geometry [OF inputs sizes(2,5) order_refl, of "checksum_base b"] sizes(6)
    by (auto intro: in_order_disjoint)
  have dir: "directory (take (builder_metadata_len b) bytes) (map planned (entries b))"
    unfolding directory_def
  proof (intro allI impI)
    fix i assume "i < length (map planned (entries b))"
    then have i: "i < length (fb_records b)" by simp
    have "HEADER_LEN + i * DESCRIPTOR_LEN + DESCRIPTOR_LEN \<le> builder_metadata_len b"
      using descriptor_slot [OF i, of "builder_metadata_len b"] sizes(6) by simp
    with written [OF i] i show "sub (take (builder_metadata_len b) bytes) (HEADER_LEN + i * DESCRIPTOR_LEN) DESCRIPTOR_LEN
        = record_descriptor_image (map planned (entries b) ! i)"
      by (simp add: sub_take entry_written_def planned_def split: prod.splits)
  qed
  have crc: "crc32c L (drop HEADER_LEN (take (builder_metadata_len b) bytes)) = fh_metadata_crc (encoded_header L b position bytes)"
    using le by (simp add: drop_take_sub encoded_header_def)
  show ?thesis
    using geometry dir crc le len
    by (simp add: metadata_valid_def encoded_header_ok [OF ok ne avail] encoded_header_sizes [OF ok ne])
qed

lemma encoded_payload:
  assumes ok: "builder_ok b" and ne: "fb_records b \<noteq> []" and len: "length bytes = encoded_len b"
    and i: "i < length (fb_records b)" and written: "entry_written L bytes i (entries b ! i)"
  shows "payload bytes (map planned (entries b) ! i) = in_value (fb_records b ! i)"
    and "payload_ok L (encoded_metadata L b position bytes) bytes (map planned (entries b)) i"
proof -
  note sizes = builder_sizes [OF ok ne]
  let ?r = "fb_records b ! i"
  obtain va c where entry: "entries b ! i = (?r, va, c)" "c + 4 * unat (block_count (length (in_value ?r))) \<le> builder_metadata_len b"
    "if in_value ?r = [] then va = 0 else va + length (in_value ?r) \<le> encoded_len b"
  proof -
    assume thesis: "\<And>va c. entries b ! i = (?r, va, c) \<Longrightarrow>
        c + 4 * unat (block_count (length (in_value ?r))) \<le> builder_metadata_len b \<Longrightarrow>
        (if in_value ?r = [] then va = 0 else va + length (in_value ?r) \<le> encoded_len b) \<Longrightarrow> thesis"
    obtain va c where "entries b ! i = (?r, va, c)"
      "c + 4 * unat (block_count (length (in_value ?r))) \<le> checksum_base b + checksums_len (fb_records b)"
      "if in_value ?r = [] then va = 0 else builder_metadata_len b \<le> va
        \<and> va + length (in_value ?r) \<le> place_all (builder_metadata_len b) (fb_records b)"
      using plan_bounds [OF i, of "checksum_base b" "builder_metadata_len b"] by blast
    with sizes(2,6) show thesis by (intro thesis [of va c]) (auto split: if_splits)
  qed
  have desc: "map planned (entries b) ! i = descriptor_of ?r va c" using i entry(1) by simp
  have small: "length (in_value ?r) < 2 ^ 40" using small_values [OF ok] i by simp
  have c: "unat (of_nat c :: u32) = c" using entry(2) sizes(2,3,5) by (intro unat_u32) linarith
  show val: "payload bytes (map planned (entries b) ! i) = in_value ?r"
  proof (cases "in_value ?r = []")
    case False
    then have "unat (of_nat va :: u32) = va" "unat (of_nat (length (in_value ?r)) :: u32) = length (in_value ?r)"
      using entry(3) sizes(5) by (intro unat_u32; simp)+
    with False written entry(1) show ?thesis unfolding desc by (simp add: payload_def entry_written_def)
  qed (simp add: desc payload_def)
  have "record_sums (record_at (take (builder_metadata_len b) bytes) (map planned (entries b)) i) = block_checksums L (in_value ?r)"
  proof (cases "in_value ?r = []")
    case False
    let ?n = "unat (block_count (length (in_value ?r)))"
    have "sub (take (builder_metadata_len b) bytes) c (?n * 4) = sums_image (block_checksums L (in_value ?r))"
      using written entry(1,2) False by (simp add: entry_written_def sub_take mult.commute)
    then have "record_sums (record_at (take (builder_metadata_len b) bytes) (map planned (entries b)) i) =
        map (\<lambda>j. le_join (sub (sums_image (block_checksums L (in_value ?r))) (j * 4) 4)) [0..<?n]"
      using False by (simp add: record_sums_def record_at_def desc descriptor_of_def c)
    also have "\<dots> = block_checksums L (in_value ?r)"
      by (intro nth_equalityI) (simp_all add: sums_image_read value_count [OF small])
    finally show ?thesis .
  qed (simp add: record_sums_def record_at_def desc block_checksums_def)
  with val show "payload_ok L (encoded_metadata L b position bytes) bytes (map planned (entries b)) i"
    by (simp add: payload_ok_def)
qed

lemma encode_decode:
  assumes ok: "builder_ok b" and ne: "fb_records b \<noteq> []"
    and avail: "encoded_len b \<le> unat (fp_available position)" and fits: "encoded_len b \<le> length buffer"
  shows "\<exists>h bytes f. encode_into L b position buffer = Ok (h, bytes) \<and> length bytes = length buffer
    \<and> drop (encoded_len b) bytes = drop (encoded_len b) buffer
    \<and> frame_decode L bytes (fb_limits b) position = Ok f \<and> fm_header (f_metadata f) = h \<and> frame_len h = encoded_len b
    \<and> unat (fh_record_count h) = length (fb_records b)
    \<and> (\<forall>i < length (fb_records b). \<exists>r. metadata_record (f_metadata f) (of_nat i) = Ok (Some r)
        \<and> rd_key (fr_descriptor r) = in_key (fb_records b ! i) \<and> rd_lsn (fr_descriptor r) = in_lsn (fb_records b ! i)
        \<and> rd_kind (fr_descriptor r) = in_kind (fb_records b ! i)
        \<and> frame_value f (of_nat i) =
            Ok (if in_kind (fb_records b ! i) = Tombstone then None else Some (in_value (fb_records b ! i))))"
proof -
  obtain bytes where enc: "encode_into L b position buffer = Ok (encoded_header L b position bytes, bytes @ drop (encoded_len b) buffer)"
    and len: "length bytes = encoded_len b" and head: "take HEADER_LEN bytes = frame_header_image L (encoded_header L b position bytes)"
    and written: "\<And>i. i < length (fb_records b) \<Longrightarrow> entry_written L bytes i (entries b ! i)"
    using encode_into_written [OF assms, of L] by blast
  let ?h = "encoded_header L b position bytes" and ?m = "encoded_metadata L b position bytes"
  let ?buf = "bytes @ drop (encoded_len b) buffer" and ?ds = "map planned (entries b)"
  define f where "f = \<lparr> f_bytes = bytes, f_metadata = ?m \<rparr>"
  note sizes = builder_sizes(2,3,6) [OF ok ne] and hs = encoded_header_sizes [OF ok ne, of L position bytes]
  have le: "builder_metadata_len b \<le> length bytes" "HEADER_LEN \<le> length bytes" using sizes len by simp_all
  have valid: "metadata_valid L (fb_limits b) ?m ?ds" by (rule encoded_valid [OF ok ne avail len written])
  have payload: "payload bytes (?ds ! i) = in_value (fb_records b ! i)" "payload_ok L ?m bytes ?ds i"
    if "i < length (fb_records b)" for i
    using encoded_payload [OF ok ne len that written [OF that]] by blast+
  have "frame_header_decode L ?buf (fb_limits b) position = Ok ?h"
    using head le encoded_header_ok [OF ok ne avail, of L bytes] by (simp add: frame_header_decode_exact encoded_header_def)
  then have dec: "frame_decode L ?buf (fb_limits b) position = Ok f"
    unfolding frame_decode_iff f_def using valid payload le len hs by auto
  have "\<exists>r. metadata_record (f_metadata f) (of_nat i) = Ok (Some r)
        \<and> rd_key (fr_descriptor r) = in_key (fb_records b ! i) \<and> rd_lsn (fr_descriptor r) = in_lsn (fb_records b ! i)
        \<and> rd_kind (fr_descriptor r) = in_kind (fb_records b ! i)
        \<and> frame_value f (of_nat i) =
            Ok (if in_kind (fb_records b ! i) = Tombstone then None else Some (in_value (fb_records b ! i)))"
    if i: "i < length (fb_records b)" for i
  proof -
    obtain va c where "entries b ! i = (fb_records b ! i, va, c)"
      using plan_bounds [OF i, of "checksum_base b" "builder_metadata_len b"] by blast
    then have d: "?ds ! i = descriptor_of (fb_records b ! i) va c" using i by simp
    have i': "i < length ?ds" using i by simp
    have val: "metadata_valid L (fb_limits b) (f_metadata f) ?ds" "length (f_bytes f) = frame_len (fm_header (f_metadata f))"
      using valid len hs by (simp_all add: f_def)
    show ?thesis
      using metadata_validD(1) [OF val(1) i'] frame_valueD [OF val(1) i' val(2)] payload(1) [OF i]
      by (simp add: record_at_def d) (simp add: f_def)
  qed
  then show ?thesis
    using enc dec hs len fits by (intro exI [of _ ?h] exI [of _ ?buf] exI [of _ f]) (simp add: f_def)
qed

text \<open>
  C1: Frame round trip. Take any builder reached by the public operations that holds at least
  one record, a position with room for the frame and a buffer at least as long. Encoding
  succeeds, changes only the first \<open>encoded_len\<close> bytes, and decoding the buffer with the same
  limits and position accepts it and gives back every record in order: its key, sequence number
  and kind, and its value, with deletions giving no value.
\<close>

theorem frame_roundtrip:
  assumes "frame_limits_new max_frame max_value = Ok limits" and "builder_reach limits b" and "\<not> builder_is_empty b"
    and "encoded_len b \<le> unat (fp_available position)" and "encoded_len b \<le> length buffer"
  shows "\<exists>h bytes f. encode_into L b position buffer = Ok (h, bytes) \<and> length bytes = length buffer
    \<and> drop (encoded_len b) bytes = drop (encoded_len b) buffer
    \<and> frame_decode L bytes limits position = Ok f \<and> fm_header (f_metadata f) = h \<and> frame_len h = encoded_len b
    \<and> unat (fh_record_count h) = length (fb_records b)
    \<and> (\<forall>i < length (fb_records b). \<exists>r. metadata_record (f_metadata f) (of_nat i) = Ok (Some r)
        \<and> rd_key (fr_descriptor r) = in_key (fb_records b ! i) \<and> rd_lsn (fr_descriptor r) = in_lsn (fb_records b ! i)
        \<and> rd_kind (fr_descriptor r) = in_kind (fb_records b ! i)
        \<and> frame_value f (of_nat i) =
            Ok (if in_kind (fb_records b ! i) = Tombstone then None else Some (in_value (fb_records b ! i))))"
proof -
  have "builder_ok b" "fb_limits b = limits"
    using builder_reach_ok [OF assms(2)] frame_limits_new_ok [OF assms(1)] by auto
  with encode_decode [of b position buffer L] assms(3-5) show ?thesis by (simp add: builder_is_empty_def)
qed

section \<open>A sample frame\<close>

text \<open>One three-byte value and one deletion.\<close>

definition sample_builder :: frame_builder where
  "sample_builder = \<lparr> fb_limits = sample_limits,
     fb_records = [\<lparr> in_key = from_u128 5, in_lsn = 1, in_kind = Data, in_value = [1, 2, 3] \<rparr>,
                   \<lparr> in_key = from_u128 6, in_lsn = 2, in_kind = Tombstone, in_value = [] \<rparr>],
     fb_checksum_len = 4, fb_payload_end = 3 \<rparr>"

lemmas frame_evals = encoded_len_def builder_is_empty_def builder_metadata_len_def place_all_def place_def align_up_def
  div_ceil_def block_count_def PAGE_SIZE_def VALUE_ALIGN_def CHECKSUM_BLOCK_SIZE_def HEADER_LEN_def DESCRIPTOR_LEN_def

lemma sample_limits_new: "frame_limits_new 8192 4096 = Ok sample_limits"
  by (simp add: frame_limits_new_def sample_limits_def is_aligned_def PAGE_SIZE_def)

lemma sample_builder_reach: "builder_reach sample_limits sample_builder"
proof -
  have "push (frame_builder_new sample_limits) (from_u128 5) 1 [1, 2, 3] =
      Ok (sample_builder \<lparr> fb_records := [hd (fb_records sample_builder)] \<rparr>)"
    by (simp add: push_def admit_def frame_builder_new_def sample_builder_def sample_limits_def Let_def frame_evals)
  moreover have "push_tombstone (sample_builder \<lparr> fb_records := [hd (fb_records sample_builder)] \<rparr>) (from_u128 6) 2 =
      Ok sample_builder"
    by (simp add: push_tombstone_def admit_def sample_builder_def sample_limits_def Let_def frame_evals)
  ultimately show ?thesis by (blast intro: builder_reach.intros)
qed

lemma sample_encoded_len: "encoded_len sample_builder = 4096"
  by (simp add: sample_builder_def frame_evals)

theorem frame_roundtrip_witness:
  "\<exists>h bytes f. encode_into rfc3720 sample_builder sample_position (replicate 8192 0) = Ok (h, bytes)
    \<and> frame_decode rfc3720 bytes sample_limits sample_position = Ok f
    \<and> frame_value f 0 = Ok (Some [1, 2, 3]) \<and> frame_value f 1 = Ok None"
proof -
  have "encoded_len sample_builder \<le> unat (fp_available sample_position)"
    "encoded_len sample_builder \<le> length (replicate 8192 (0::byte))" "\<not> builder_is_empty sample_builder"
    by (simp_all add: sample_encoded_len sample_position_def) (simp add: sample_builder_def builder_is_empty_def)
  from frame_roundtrip [OF sample_limits_new sample_builder_reach this(3,1,2), of rfc3720]
  obtain h bytes f where "encode_into rfc3720 sample_builder sample_position (replicate 8192 0) = Ok (h, bytes)"
    "frame_decode rfc3720 bytes sample_limits sample_position = Ok f"
    and vals: "\<And>i. i < length (fb_records sample_builder) \<Longrightarrow> frame_value f (of_nat i) =
            Ok (if in_kind (fb_records sample_builder ! i) = Tombstone then None else Some (in_value (fb_records sample_builder ! i)))"
    by blast
  moreover have "frame_value f 0 = Ok (Some [1, 2, 3])" "frame_value f 1 = Ok None"
    using vals [of 0] vals [of 1] by (simp_all add: sample_builder_def)
  ultimately show ?thesis by blast
qed

lemma sample_frame:
  "\<exists>bytes f. frame_decode rfc3720 bytes sample_limits sample_position = Ok f \<and> take 64 bytes = frame_header_image rfc3720 (fm_header (f_metadata f))"
proof -
  have ok: "builder_ok sample_builder" "fb_limits sample_builder = sample_limits"
    using builder_reach_ok [OF sample_builder_reach] frame_limits_new_ok [OF sample_limits_new] by auto
  have "encoded_len sample_builder \<le> unat (fp_available sample_position)"
    "encoded_len sample_builder \<le> length (replicate 8192 (0::byte))" "fb_records sample_builder \<noteq> []"
    by (simp_all add: sample_encoded_len sample_position_def) (simp add: sample_builder_def)
  from encode_decode [OF ok(1) this(3,1,2), of rfc3720] obtain bytes f where
    dec: "frame_decode rfc3720 bytes sample_limits sample_position = Ok f"
    using ok(2) by auto
  then have "frame_header_decode rfc3720 bytes sample_limits sample_position = Ok (fm_header (f_metadata f))"
    by (simp add: frame_decode_iff)
  from frame_header_decode_ok(4) [OF this] dec show ?thesis by (auto simp: HEADER_LEN_def)
qed


theorem frame_corruption_detected_witness:
  "\<exists>bytes f e. frame_decode rfc3720 bytes sample_limits sample_position = Ok f
    \<and> frame_decode rfc3720 (bytes[3 := 0]) sample_limits sample_position = Err e"
proof -
  obtain bytes f where dec: "frame_decode rfc3720 bytes sample_limits sample_position = Ok f"
    and head: "take 64 bytes = frame_header_image rfc3720 (fm_header (f_metadata f))"
    using sample_frame by blast
  have "bytes ! 3 = take 64 bytes ! 3" by simp
  also have "\<dots> \<noteq> 0" unfolding head by (simp add: frame_header_image_def frame_header_front_def MAGIC_def nth_append)
  finally have "bytes ! 3 \<noteq> 0" .
  moreover have "covered f 3" by (simp add: covered_def frame_metadata_len_def HEADER_LEN_def)
  ultimately show ?thesis
    using frame_corruption_detected [OF rfc_byte.crc_detects_byte_axioms dec] dec by blast
qed

end
