(* ===== verification/Segment_Header.thy ===== *)
theory Segment_Header
  imports Frame_Header
begin

text \<open>
  The allocation header page of a segment (\<^verbatim>\<open>moat-engine/src/segment/header.rs\<close>, the constants
  of \<^verbatim>\<open>segment/mod.rs\<close> and the errors of \<^verbatim>\<open>segment/error.rs\<close>).

  A device identity is a list of 16 bytes, \<open>id_ok\<close>. \<open>validate_prefix\<close> is shared with the footer
  trailer: magic, version and checksum at the same offsets. As for frames, decoding accepts
  exactly the images of valid headers.
\<close>

section \<open>Constants and errors\<close>

definition SEGMENT_FORMAT_VERSION :: u32 where
  "SEGMENT_FORMAT_VERSION = 1"

text \<open>The bytes of \<^verbatim>\<open>MOATSEG1\<close> and \<^verbatim>\<open>MOATFTR1\<close>.\<close>

definition HEADER_MAGIC :: "byte list" where
  "HEADER_MAGIC = [0x4D, 0x4F, 0x41, 0x54, 0x53, 0x45, 0x47, 0x31]"

definition FOOTER_MAGIC :: "byte list" where
  "FOOTER_MAGIC = [0x4D, 0x4F, 0x41, 0x54, 0x46, 0x54, 0x52, 0x31]"

definition FOOTER_TRAILER_LEN :: nat where
  "FOOTER_TRAILER_LEN = 64"

definition MIN_FRAME_METADATA_LEN :: nat where
  "MIN_FRAME_METADATA_LEN = HEADER_LEN + DESCRIPTOR_LEN"

definition footer_len :: "nat \<Rightarrow> nat" where
  "footer_len metadata_len = align_up (FOOTER_TRAILER_LEN + metadata_len) PAGE_SIZE"

datatype segment_error =
    SE_Allocation
  | SE_InvalidArgument string
  | SE_Sealed
  | SE_Full nat u32
  | SE_BufferTooSmall nat nat
  | SE_Truncated nat nat
  | SE_UnsupportedVersion u32
  | SE_Corrupt string
  | SE_Frame u32 frame_error

section \<open>The header\<close>

record segment_id =
  sid_device_id :: "byte list"
  sid_segment_no :: u32
  sid_sequence :: u64

record seal =
  seal_data_end :: u32
  seal_frame_count :: u32
  seal_metadata_len :: u32

record segment_header =
  sh_id :: segment_id
  sh_segment_len :: u32
  sh_seal :: "seal option"

definition segment_header_new :: "segment_id \<Rightarrow> u32 \<Rightarrow> (segment_error, segment_header) res" where
  "segment_header_new sid segment_len =
     (if sid_sequence sid = 0 \<or> segment_len < 2 * of_nat PAGE_SIZE \<or> \<not> is_aligned (unat segment_len) PAGE_SIZE
      then Err (SE_InvalidArgument ''invalid segment length or allocation incarnation'')
      else Ok \<lparr> sh_id = sid, sh_segment_len = segment_len, sh_seal = None \<rparr>)"

definition validate_prefix :: "'d crc_lib \<Rightarrow> byte list \<Rightarrow> byte list \<Rightarrow> (segment_error, unit) res" where
  "validate_prefix L bytes magic =
     rbind (slice bytes 0 8) (\<lambda>found.
     if found \<noteq> magic then Err (SE_Corrupt ''segment metadata magic'') else
     rbind (u32_at bytes 12) (\<lambda>stored.
     rbind (crc_with_zeroed_checksum L bytes) (\<lambda>crc.
     if stored \<noteq> crc then Err (SE_Corrupt ''segment metadata checksum'') else
     rbind (u32_at bytes 8) (\<lambda>version.
     if version \<noteq> SEGMENT_FORMAT_VERSION then Err (SE_UnsupportedVersion version) else Ok ()))))"

definition segment_header_decode ::
  "'d crc_lib \<Rightarrow> byte list \<Rightarrow> byte list \<Rightarrow> u32 \<Rightarrow> u32 \<Rightarrow> (segment_error, segment_header) res" where
  "segment_header_decode L input device_id segment_no segment_len =
     rbind (of_option (SE_Truncated PAGE_SIZE (length input)) (get_to input PAGE_SIZE)) (\<lambda>bytes.
     rbind (validate_prefix L bytes HEADER_MAGIC) (\<lambda>_.
     rbind (slice bytes 16 32) (\<lambda>device.
     rbind (u32_at bytes 32) (\<lambda>no.
     rbind (u32_at bytes 36) (\<lambda>len.
     if device \<noteq> device_id \<or> no \<noteq> segment_no \<or> len \<noteq> segment_len
     then Err (SE_Corrupt ''segment identity or length'') else
     rbind (u64_at bytes 40) (\<lambda>sequence.
     let sid = \<lparr> sid_device_id = device_id, sid_segment_no = segment_no, sid_sequence = sequence \<rparr> in
     rbind (map_err (\<lambda>_. SE_Corrupt ''segment geometry'') (segment_header_new sid segment_len)) (\<lambda>header.
     rbind (slice bytes 48 (length bytes)) (\<lambda>reserved.
     if \<not> all_zero reserved then Err (SE_Corrupt ''reserved allocation header bytes'') else Ok header))))))))"

definition is_sealed :: "segment_header \<Rightarrow> bool" where
  "is_sealed h \<longleftrightarrow> sh_seal h \<noteq> None"

definition segment_header_encode :: "'d crc_lib \<Rightarrow> segment_header \<Rightarrow> byte list \<Rightarrow> (segment_error, byte list) res" where
  "segment_header_encode L h buffer =
     (if is_sealed h then Err (SE_InvalidArgument ''seal state is encoded only in the footer trailer'') else
      rbind (of_option (SE_BufferTooSmall PAGE_SIZE (length buffer)) (get_to buffer PAGE_SIZE)) (\<lambda>bytes.
      rbind (fill bytes 0 (length bytes) 0) (\<lambda>bytes.
      rbind (put bytes 0 8 HEADER_MAGIC) (\<lambda>bytes.
      rbind (put_u32 bytes 8 SEGMENT_FORMAT_VERSION) (\<lambda>bytes.
      rbind (put bytes 16 32 (sid_device_id (sh_id h))) (\<lambda>bytes.
      rbind (put_u32 bytes 32 (sid_segment_no (sh_id h))) (\<lambda>bytes.
      rbind (put_u32 bytes 36 (sh_segment_len h)) (\<lambda>bytes.
      rbind (put_u64 bytes 40 (sid_sequence (sh_id h))) (\<lambda>bytes.
      rbind (crc_with_zeroed_checksum L bytes) (\<lambda>crc.
      rbind (put_u32 bytes 12 crc) (\<lambda>bytes.
        Ok (bytes @ drop PAGE_SIZE buffer))))))))))))"

definition footer_range :: "segment_header \<Rightarrow> (u32 \<times> u32) option" where
  "footer_range h = map_option (\<lambda>seal.
     (sh_segment_len h - of_nat (footer_len (unat (seal_metadata_len seal))), sh_segment_len h)) (sh_seal h)"

definition segment_data_end :: "segment_header \<Rightarrow> u32 option" where
  "segment_data_end h = map_option seal_data_end (sh_seal h)"

definition segment_position :: "segment_header \<Rightarrow> u32 \<Rightarrow> (frame_error, frame_position) res" where
  "segment_position h offset =
     (let end = (case sh_seal h of None \<Rightarrow> sh_segment_len h | Some seal \<Rightarrow> seal_data_end seal)
      in frame_position_new (sid_sequence (sh_id h)) offset end)"

section \<open>Specification\<close>

definition id_ok :: "segment_id \<Rightarrow> bool" where
  "id_ok sid \<longleftrightarrow> length (sid_device_id sid) = 16"

definition segment_geometry :: "segment_header \<Rightarrow> bool" where
  "segment_geometry h \<longleftrightarrow> sid_sequence (sh_id h) \<noteq> 0 \<and> 2 * PAGE_SIZE \<le> unat (sh_segment_len h)
     \<and> is_aligned (unat (sh_segment_len h)) PAGE_SIZE"

definition segment_front :: "byte list \<Rightarrow> byte list" where
  "segment_front magic = magic @ le_split 4 SEGMENT_FORMAT_VERSION"

text \<open>A checksummed page or trailer with the given magic and fields.\<close>

definition sealed_image :: "'d crc_lib \<Rightarrow> byte list \<Rightarrow> byte list \<Rightarrow> byte list" where
  "sealed_image L magic body =
     segment_front magic @ le_split 4 (header_crc L (segment_front magic) body) @ body"

definition segment_header_fields :: "segment_header \<Rightarrow> byte list" where
  "segment_header_fields h =
     sid_device_id (sh_id h) @ le_split 4 (sid_segment_no (sh_id h)) @ le_split 4 (sh_segment_len h)
     @ le_split 8 (sid_sequence (sh_id h)) @ replicate (PAGE_SIZE - 48) 0"

definition segment_header_image :: "'d crc_lib \<Rightarrow> segment_header \<Rightarrow> byte list" where
  "segment_header_image L h = sealed_image L HEADER_MAGIC (segment_header_fields h)"

lemma length_magics [simp]: "length HEADER_MAGIC = 8" "length FOOTER_MAGIC = 8"
  by (simp_all add: HEADER_MAGIC_def FOOTER_MAGIC_def)

lemma segment_header_new_iff:
  "segment_header_new sid len = Ok h \<longleftrightarrow> h = \<lparr> sh_id = sid, sh_segment_len = len, sh_seal = None \<rparr> \<and> segment_geometry h"
  by (auto simp: segment_header_new_def segment_geometry_def word_less_nat_alt PAGE_SIZE_def not_less split: if_splits)

lemma segment_header_new_no_panic [simp]: "segment_header_new sid len \<noteq> Panic"
  by (simp add: segment_header_new_def)

lemma validate_prefix_iff:
  assumes "16 \<le> length bytes" and "length magic = 8"
  shows "validate_prefix L bytes magic = Ok () \<longleftrightarrow> bytes = sealed_image L magic (drop 16 bytes)"
proof -
  have split: "bytes = take 8 bytes @ sub bytes 8 4 @ sub bytes 12 4 @ drop 16 bytes"
    using append_take_drop_id [of 16 bytes] by (simp add: sub_join take_join flip: append_assoc)
  have front: "take 12 bytes = take 8 bytes @ sub bytes 8 4" by (simp add: take_join)
  have "bytes = sealed_image L magic (drop 16 bytes) \<longleftrightarrow>
      take 8 bytes @ sub bytes 8 4 @ sub bytes 12 4 @ drop 16 bytes = sealed_image L magic (drop 16 bytes)"
    using split by (rule arg_cong [where f = "\<lambda>x. x = sealed_image L magic (drop 16 bytes)"])
  also have "\<dots> \<longleftrightarrow> take 8 bytes = magic \<and> sub bytes 8 4 = le_split 4 SEGMENT_FORMAT_VERSION
      \<and> sub bytes 12 4 = le_split 4 (header_crc L (segment_front magic) (drop 16 bytes))"
    using assms by (simp add: sealed_image_def segment_front_def)
  also have "\<dots> \<longleftrightarrow> validate_prefix L bytes magic = Ok ()"
    using assms front by (auto simp: validate_prefix_def segment_front_def u32_field_iff)
  finally show ?thesis by blast
qed

lemma validate_prefix_total: "16 \<le> length bytes \<Longrightarrow> validate_prefix L bytes magic \<noteq> Panic"
  by (simp add: validate_prefix_def)

lemma length_segment_front [simp]: "length magic = 8 \<Longrightarrow> length (segment_front magic) = 12"
  by (simp add: segment_front_def)

lemma length_sealed_image [simp]: "length magic = 8 \<Longrightarrow> length (sealed_image L magic body) = 16 + length body"
  by (simp add: sealed_image_def)

lemma drop_sealed_image [simp]: "length magic = 8 \<Longrightarrow> drop 16 (sealed_image L magic body) = body"
  by (simp add: sealed_image_def)

lemma validate_prefix_image:
  "length magic = 8 \<Longrightarrow> validate_prefix L (sealed_image L magic body) magic = Ok ()"
  by (subst validate_prefix_iff) simp_all

section \<open>Decoding accepts exactly the images of valid headers\<close>

lemma length_segment_header_fields:
  "id_ok (sh_id h) \<Longrightarrow> length (segment_header_fields h) = PAGE_SIZE - 16"
  by (simp add: segment_header_fields_def id_ok_def PAGE_SIZE_def)

lemma segment_fields_split:
  assumes "length bs = PAGE_SIZE"
  shows "drop 16 bs = sub bs 16 16 @ sub bs 32 4 @ sub bs 36 4 @ sub bs 40 8 @ drop 48 bs"
proof -
  have "sub bs 16 16 @ sub bs 32 4 @ sub bs 36 4 @ sub bs 40 8 = sub bs 16 32" by (simp add: sub_join)
  moreover have "drop 16 bs = sub bs 16 32 @ drop 48 bs"
    using append_take_drop_id [of 32 "drop 16 bs"] by (simp add: sub_def)
  ultimately show ?thesis by (metis append_assoc)
qed

lemma segment_header_body_iff:
  assumes "length bs = PAGE_SIZE" and "id_ok (sh_id h)"
  shows "drop 16 bs = segment_header_fields h \<longleftrightarrow>
    sub bs 16 16 = sid_device_id (sh_id h) \<and> sub bs 32 4 = le_split 4 (sid_segment_no (sh_id h))
    \<and> sub bs 36 4 = le_split 4 (sh_segment_len h) \<and> sub bs 40 8 = le_split 8 (sid_sequence (sh_id h))
    \<and> drop 48 bs = replicate (PAGE_SIZE - 48) 0"
  using assms unfolding segment_fields_split [OF assms(1)] segment_header_fields_def
  by (simp add: id_ok_def PAGE_SIZE_def)

lemma segment_header_decode_exact:
  assumes "PAGE_SIZE \<le> length input" and "length device_id = 16"
  shows "segment_header_decode L input device_id segment_no segment_len = Ok h \<longleftrightarrow>
    take PAGE_SIZE input = segment_header_image L h \<and> sid_device_id (sh_id h) = device_id
    \<and> sid_segment_no (sh_id h) = segment_no \<and> sh_segment_len h = segment_len \<and> sh_seal h = None \<and> segment_geometry h"
proof -
  define bs where "bs = take PAGE_SIZE input"
  have len: "length bs = PAGE_SIZE" using assms by (simp add: bs_def)
  have len': "length bs = 4096" using len by (simp add: PAGE_SIZE_def)
  have zero: "all_zero (drop 48 bs) \<longleftrightarrow> drop 48 bs = replicate (PAGE_SIZE - 48) 0"
    using len by (intro all_zero_eq) simp
  have decode: "segment_header_decode L input device_id segment_no segment_len = Ok h \<longleftrightarrow>
      validate_prefix L bs HEADER_MAGIC = Ok () \<and> sub bs 16 16 = device_id \<and> le_join (sub bs 32 4) = segment_no
      \<and> le_join (sub bs 36 4) = segment_len
      \<and> segment_header_new \<lparr> sid_device_id = device_id, sid_segment_no = segment_no, sid_sequence = le_join (sub bs 40 8) \<rparr>
          segment_len = Ok h
      \<and> drop 48 bs = replicate (PAGE_SIZE - 48) 0"
    using assms(1) len' zero
    by (auto simp: segment_header_decode_def bs_def [symmetric] rbind_Ok_iff sub_all split: if_splits)
  have image: "bs = segment_header_image L h \<longleftrightarrow> validate_prefix L bs HEADER_MAGIC = Ok () \<and> drop 16 bs = segment_header_fields h"
    using validate_prefix_iff [of bs HEADER_MAGIC L] len'
    by (auto simp: segment_header_image_def validate_prefix_image)
  show ?thesis
  proof (cases "sid_device_id (sh_id h) = device_id")
    case True
    then have "id_ok (sh_id h)" using assms(2) by (simp add: id_ok_def)
    with True show ?thesis
      unfolding decode bs_def [symmetric] image
      using segment_header_body_iff [OF len, of h] len' assms(2)
      by (cases h; cases "sh_id h") (auto simp: segment_header_new_iff u32_field_iff u64_field_iff)
  next
    case False
    then show ?thesis unfolding decode by (auto simp: segment_header_new_iff)
  qed
qed

lemma segment_header_encode_image:
  assumes "PAGE_SIZE \<le> length buffer" and "id_ok (sh_id h)" and "sh_seal h = None"
  shows "segment_header_encode L h buffer = Ok (segment_header_image L h @ drop PAGE_SIZE buffer)"
proof -
  define b where "b = patch (patch (patch (patch (patch (patch (replicate 4096 0) 0 HEADER_MAGIC)
     8 (le_split 4 SEGMENT_FORMAT_VERSION)) 16 (sid_device_id (sh_id h))) 32 (le_split 4 (sid_segment_no (sh_id h))))
     36 (le_split 4 (sh_segment_len h))) 40 (le_split 8 (sid_sequence (sh_id h)))"
  have dev: "length (sid_device_id (sh_id h)) = 16" using assms(2) by (simp add: id_ok_def)
  have len: "length b = 4096" using dev by (simp add: b_def)
  have front: "take 12 b = segment_front HEADER_MAGIC"
    unfolding header_front_split segment_front_def using dev by (simp add: b_def slice_simps)
  have body: "drop 16 b = segment_header_fields h"
    using dev segment_header_body_iff [of b h] assms(2) len by (simp add: b_def slice_simps PAGE_SIZE_def)
  let ?crc = "header_crc L (segment_front HEADER_MAGIC) (segment_header_fields h)"
  have "segment_header_encode L h buffer = Ok (patch b 12 (le_split 4 ?crc) @ drop PAGE_SIZE buffer)"
    using assms(1,3) dev len front body
    by (simp add: segment_header_encode_def is_sealed_def PAGE_SIZE_def patch_whole b_def [symmetric])
  moreover have "patch b 12 (le_split 4 ?crc) = segment_header_image L h"
    using front body by (simp add: patch_def segment_header_image_def sealed_image_def)
  ultimately show ?thesis by simp
qed

lemma segment_header_decode_short:
  "length input < PAGE_SIZE \<Longrightarrow>
   segment_header_decode L input device_id segment_no segment_len = Err (SE_Truncated PAGE_SIZE (length input))"
  by (simp add: segment_header_decode_def get_to_def)

lemma segment_header_decode_total:
  "segment_header_decode L input device_id segment_no segment_len \<noteq> Panic"
proof (cases "PAGE_SIZE \<le> length input")
  case True
  then show ?thesis
    using validate_prefix_total [of "take PAGE_SIZE input" L HEADER_MAGIC]
    by (auto simp: segment_header_decode_def rbind_Panic_iff PAGE_SIZE_def Let_def)
qed (simp add: segment_header_decode_short)

text \<open>
  C29: Exactness of the segment header. With a 16-byte device identity, decoding accepts a page
  exactly when it is the image of an unsealed header with that identity, number and length and
  valid geometry; encoding an unsealed header writes the image into the first page of the
  buffer; a sealed header is refused; decoding never panics.
\<close>

theorem segment_header_exact:
  assumes "length device_id = 16"
  shows "(segment_header_decode L input device_id no len = Ok h \<longleftrightarrow>
      PAGE_SIZE \<le> length input \<and> take PAGE_SIZE input = segment_header_image L h
      \<and> sid_device_id (sh_id h) = device_id \<and> sid_segment_no (sh_id h) = no \<and> sh_segment_len h = len
      \<and> sh_seal h = None \<and> segment_geometry h)
    \<and> segment_header_decode L input device_id no len \<noteq> Panic
    \<and> (if is_sealed h then segment_header_encode L h input =
          Err (SE_InvalidArgument ''seal state is encoded only in the footer trailer'')
       else PAGE_SIZE \<le> length input \<longrightarrow> id_ok (sh_id h) \<longrightarrow>
          segment_header_encode L h input = Ok (segment_header_image L h @ drop PAGE_SIZE input))"
proof (cases "PAGE_SIZE \<le> length input")
  case True
  then show ?thesis
    using segment_header_decode_exact [OF True assms] segment_header_encode_image [OF True, of h L]
    by (auto simp: segment_header_decode_total segment_header_encode_def is_sealed_def)
next
  case False
  then show ?thesis by (auto simp: segment_header_decode_short segment_header_encode_def)
qed

definition sample_segment :: segment_header where
  "sample_segment = \<lparr> sh_id = \<lparr> sid_device_id = replicate 16 9, sid_segment_no = 3, sid_sequence = 7 \<rparr>,
     sh_segment_len = 65536, sh_seal = None \<rparr>"

lemma sample_segment_ok: "id_ok (sh_id sample_segment)" "segment_geometry sample_segment" "sh_seal sample_segment = None"
  by (simp_all add: sample_segment_def id_ok_def segment_geometry_def PAGE_SIZE_def is_aligned_def)

theorem segment_header_exact_witness:
  "segment_header_decode rfc3720 (segment_header_image rfc3720 sample_segment) (replicate 16 9) 3 65536 = Ok sample_segment"
proof -
  have "length (segment_header_image rfc3720 sample_segment) = PAGE_SIZE"
    using length_segment_header_fields [OF sample_segment_ok(1)] by (simp add: segment_header_image_def PAGE_SIZE_def)
  then show ?thesis
    using segment_header_exact [of "replicate 16 9" rfc3720 "segment_header_image rfc3720 sample_segment" 3 65536 sample_segment]
      sample_segment_ok by (simp add: sample_segment_def)
qed

end
