(* ===== verification/Segment_Builder.thy ===== *)
theory Segment_Builder
  imports Segment_Header Frame_Validity
begin

text \<open>
  Segment construction (\<^verbatim>\<open>moat-engine/src/segment/builder.rs\<close>): admission of frames with the
  footer reserved, and the two footer encoders, one contiguous and one incremental.

  The allocation of the metadata vector may fail; whether \<open>try_reserve\<close> succeeds is the argument
  \<open>reserved\<close> of \<open>segment_append\<close>. A method that changes the builder returns the new one; an error
  leaves it as it was.
\<close>

section \<open>Admission\<close>

record segment_builder =
  sb_header :: segment_header
  sb_data_end :: u32
  sb_frame_count :: u32
  sb_metadata :: "byte list"

definition segment_builder_new :: "segment_header \<Rightarrow> (segment_error, segment_builder) res" where
  "segment_builder_new header =
     (if is_sealed header then Err SE_Sealed
      else Ok \<lparr> sb_header = header, sb_data_end = of_nat PAGE_SIZE, sb_frame_count = 0, sb_metadata = [] \<rparr>)"

definition builder_position :: "segment_builder \<Rightarrow> nat \<Rightarrow> nat \<Rightarrow> (segment_error, frame_position) res" where
  "builder_position b flen mlen =
     (if is_sealed (sb_header b) then Err SE_Sealed else
      if flen = 0 \<or> flen > 2 ^ 32 - 1 \<or> \<not> is_aligned flen PAGE_SIZE
         \<or> mlen < MIN_FRAME_METADATA_LEN \<or> mlen > flen \<or> mlen mod 4 \<noteq> 0
      then Err (SE_InvalidArgument ''invalid frame or metadata length'') else
      let required = unat (sb_data_end b) + flen + footer_len (length (sb_metadata b) + mlen) in
      if required > unat (sh_segment_len (sb_header b))
      then Err (SE_Full required (sh_segment_len (sb_header b))) else
      map_err (\<lambda>source. SE_Frame (sb_data_end b) source) (segment_position (sb_header b) (sb_data_end b)))"

definition segment_append :: "bool \<Rightarrow> segment_builder \<Rightarrow> frame_metadata \<Rightarrow> (segment_error, segment_builder) res" where
  "segment_append reserved b metadata =
     (let frame = fm_header metadata in
      rbind (builder_position b (frame_len frame) (length (fm_bytes metadata))) (\<lambda>position.
      if fp_segment_seq (fh_position frame) \<noteq> fp_segment_seq position \<or> fp_offset (fh_position frame) \<noteq> fp_offset position
      then Err (SE_InvalidArgument ''frame does not match the next segment position'') else
      if \<not> reserved then Err SE_Allocation else
      Ok (b \<lparr> sb_metadata := sb_metadata b @ fm_bytes metadata,
              sb_data_end := sb_data_end b + of_nat (frame_len frame),
              sb_frame_count := sb_frame_count b + 1 \<rparr>)))"

definition builder_footer_len :: "segment_builder \<Rightarrow> nat" where
  "builder_footer_len b = footer_len (length (sb_metadata b))"

definition sealed_header :: "segment_builder \<Rightarrow> segment_header" where
  "sealed_header b = (sb_header b) \<lparr> sh_seal := Some \<lparr> seal_data_end = sb_data_end b,
     seal_frame_count = sb_frame_count b, seal_metadata_len = of_nat (length (sb_metadata b)) \<rparr> \<rparr>"

section \<open>The contiguous footer\<close>

definition encode_trailer :: "byte list \<Rightarrow> segment_header \<Rightarrow> nat \<Rightarrow> (segment_error, byte list) res" where
  "encode_trailer trailer header flen =
     rbind (expect (sh_seal header)) (\<lambda>seal.
     rbind (put trailer 0 8 FOOTER_MAGIC) (\<lambda>trailer.
     rbind (put_u32 trailer 8 SEGMENT_FORMAT_VERSION) (\<lambda>trailer.
     rbind (put trailer 16 32 (sid_device_id (sh_id header))) (\<lambda>trailer.
     rbind (put_u32 trailer 32 (sid_segment_no (sh_id header))) (\<lambda>trailer.
     rbind (put_u32 trailer 36 (seal_data_end seal)) (\<lambda>trailer.
     rbind (put_u64 trailer 40 (sid_sequence (sh_id header))) (\<lambda>trailer.
     rbind (put_u32 trailer 48 (seal_frame_count seal)) (\<lambda>trailer.
     rbind (put_u32 trailer 52 (seal_metadata_len seal)) (\<lambda>trailer.
       put_u32 trailer 56 (of_nat flen))))))))))"

definition footer_checksum :: "'d crc_lib \<Rightarrow> byte list \<Rightarrow> (segment_error, u32) res" where
  "footer_checksum L bytes =
     (if length bytes < FOOTER_TRAILER_LEN then Panic else
      let at = length bytes - FOOTER_TRAILER_LEN in
      rbind (slice bytes 0 (at + 12)) (\<lambda>before.
      rbind (slice bytes (at + 16) (at + 60)) (\<lambda>middle.
        Ok (crc_finalize L (crc_update L (crc_update L (crc_update L (crc_update L (crc_new L)
              before) (replicate 4 0)) middle) (replicate 4 0))))))"

definition seal_into ::
  "'d crc_lib \<Rightarrow> segment_builder \<Rightarrow> byte list \<Rightarrow> (segment_error, segment_header \<times> byte list \<times> segment_builder) res" where
  "seal_into L b buffer =
     (if is_sealed (sb_header b) then Err SE_Sealed else
      let len = builder_footer_len b in
      rbind (of_option (SE_BufferTooSmall len (length buffer)) (get_to buffer len)) (\<lambda>bytes.
      rbind (fill bytes 0 (length bytes) 0) (\<lambda>bytes.
      rbind (put bytes 0 (length (sb_metadata b)) (sb_metadata b)) (\<lambda>bytes.
      let at = len - FOOTER_TRAILER_LEN; header = sealed_header b in
      rbind (rbind (slice bytes at (length bytes)) (\<lambda>trailer. encode_trailer trailer header len)) (\<lambda>trailer.
      rbind (footer_checksum L (take at bytes @ trailer)) (\<lambda>checksum.
      rbind (put_u32 trailer 60 checksum) (\<lambda>trailer.
      rbind (crc_with_zeroed_checksum L trailer) (\<lambda>checksum.
      rbind (put_u32 trailer 12 checksum) (\<lambda>trailer.
        Ok (header, take at bytes @ trailer @ drop len buffer, b \<lparr> sb_header := header \<rparr>))))))))))"

section \<open>The incremental footer\<close>

record 'd footer_encoder =
  fe_metadata :: "byte list"
  fe_header :: segment_header
  fe_len :: nat
  fe_offset :: nat
  fe_checksum :: 'd

definition into_footer :: "'d crc_lib \<Rightarrow> segment_builder \<Rightarrow> 'd footer_encoder" where
  "into_footer L b = \<lparr> fe_metadata = sb_metadata b, fe_header = sealed_header b,
     fe_len = builder_footer_len b, fe_offset = 0, fe_checksum = crc_new L \<rparr>"

definition footer_next ::
  "'d crc_lib \<Rightarrow> 'd footer_encoder \<Rightarrow> (segment_error, (u32 \<times> byte list \<times> bool) option \<times> 'd footer_encoder) res" where
  "footer_next L fe =
     (if fe_offset fe = fe_len fe then Ok (None, fe) else
      let last = (fe_offset fe = fe_len fe - PAGE_SIZE);
          len = (if last then PAGE_SIZE else min (fe_len fe - PAGE_SIZE - fe_offset fe) (64 * 1024));
          copied = min (length (fe_metadata fe) - fe_offset fe) len;
          from = min (fe_offset fe) (length (fe_metadata fe)) in
      rbind (slice (fe_metadata fe) from (from + copied)) (\<lambda>part.
      rbind (put (replicate len 0) 0 copied part) (\<lambda>bytes.
      let at = len - FOOTER_TRAILER_LEN in
      rbind (if last then
               rbind (rbind (slice bytes at len) (\<lambda>trailer. encode_trailer trailer (fe_header fe) (fe_len fe))) (\<lambda>trailer.
               let checksum = crc_update L (fe_checksum fe) (take at bytes @ trailer) in
               rbind (put_u32 trailer 60 (crc_finalize L checksum)) (\<lambda>trailer.
               rbind (crc_with_zeroed_checksum L trailer) (\<lambda>crc.
               rbind (put_u32 trailer 12 crc) (\<lambda>trailer.
                 Ok (take at bytes @ trailer, checksum)))))
             else Ok (bytes, crc_update L (fe_checksum fe) bytes)) (\<lambda>(bytes, checksum).
      let offset = sh_segment_len (fe_header fe) - of_nat (fe_len fe) + of_nat (fe_offset fe) in
      Ok (Some (offset, bytes, last), fe \<lparr> fe_offset := fe_offset fe + len, fe_checksum := checksum \<rparr>)))))"

end
