(* ===== verification/Segment_Seal.thy ===== *)
theory Segment_Seal
  imports Segment_Builder
begin

text \<open>
  What the two footer encoders write. \<open>footer_image\<close> is the footer as a specification: the
  concatenated frame metadata, zero padding and a checksummed trailer at the end of the last
  page. \<open>seal_into\<close> writes it at once, \<open>footer_next\<close> in chunks; with an incremental CRC that
  agrees with the one-shot CRC both give the same bytes.
\<close>

section \<open>The footer\<close>

definition footer_body :: "byte list \<Rightarrow> byte list" where
  "footer_body metadata =
     metadata @ replicate (footer_len (length metadata) - FOOTER_TRAILER_LEN - length metadata) 0"

definition trailer_core :: "segment_header \<Rightarrow> seal \<Rightarrow> nat \<Rightarrow> byte list" where
  "trailer_core h seal flen =
     sid_device_id (sh_id h) @ le_split 4 (sid_segment_no (sh_id h)) @ le_split 4 (seal_data_end seal)
     @ le_split 8 (sid_sequence (sh_id h)) @ le_split 4 (seal_frame_count seal)
     @ le_split 4 (seal_metadata_len seal) @ le_split 4 (of_nat flen :: u32)"

text \<open>The trailer before its two checksums are stored.\<close>

definition blank_trailer :: "segment_header \<Rightarrow> seal \<Rightarrow> nat \<Rightarrow> byte list" where
  "blank_trailer h seal flen =
     segment_front FOOTER_MAGIC @ replicate 4 0 @ trailer_core h seal flen @ replicate 4 0"

definition footer_sum :: "'d crc_lib \<Rightarrow> byte list \<Rightarrow> byte list \<Rightarrow> u32" where
  "footer_sum L body core =
     crc_finalize L (crc_update L (crc_update L (crc_update L (crc_update L (crc_new L)
       (body @ segment_front FOOTER_MAGIC)) (replicate 4 0)) core) (replicate 4 0))"

definition trailer_image :: "'d crc_lib \<Rightarrow> segment_header \<Rightarrow> seal \<Rightarrow> nat \<Rightarrow> u32 \<Rightarrow> byte list" where
  "trailer_image L h seal flen crc = sealed_image L FOOTER_MAGIC (trailer_core h seal flen @ le_split 4 crc)"

definition footer_image :: "'d crc_lib \<Rightarrow> segment_header \<Rightarrow> seal \<Rightarrow> byte list \<Rightarrow> byte list" where
  "footer_image L h seal metadata =
     footer_body metadata @ trailer_image L h seal (footer_len (length metadata))
       (footer_sum L (footer_body metadata) (trailer_core h seal (footer_len (length metadata))))"

lemma length_trailer_core: "id_ok (sh_id h) \<Longrightarrow> length (trailer_core h seal flen) = 44"
  by (simp add: trailer_core_def id_ok_def)

lemma length_trailer_image: "id_ok (sh_id h) \<Longrightarrow> length (trailer_image L h seal flen crc) = 64"
  by (simp add: trailer_image_def length_trailer_core)

lemma length_blank_trailer: "id_ok (sh_id h) \<Longrightarrow> length (blank_trailer h seal flen) = 64"
  by (simp add: blank_trailer_def length_trailer_core)

lemma footer_len_bounds:
  "FOOTER_TRAILER_LEN + m \<le> footer_len m" "PAGE_SIZE \<le> footer_len m" "is_aligned (footer_len m) PAGE_SIZE"
proof -
  show ge: "FOOTER_TRAILER_LEN + m \<le> footer_len m" unfolding footer_len_def by (rule align_up_ge) simp
  show aligned: "is_aligned (footer_len m) PAGE_SIZE" by (simp add: footer_len_def)
  have "0 < footer_len m" using ge by (simp add: FOOTER_TRAILER_LEN_def)
  with aligned show "PAGE_SIZE \<le> footer_len m" by (auto simp: is_aligned_def mod_eq_0_iff_dvd dvd_imp_le)
qed

lemma footer_len_mono: "m \<le> n \<Longrightarrow> footer_len m \<le> footer_len n"
  by (simp add: footer_len_def align_up_mono)

lemma length_footer_body [simp]: "length (footer_body metadata) = footer_len (length metadata) - FOOTER_TRAILER_LEN"
  using footer_len_bounds(1) [of "length metadata"] by (simp add: footer_body_def)

lemma length_footer_image:
  "id_ok (sh_id h) \<Longrightarrow> length (footer_image L h seal metadata) = footer_len (length metadata)"
  using footer_len_bounds(1) [of "length metadata"]
  by (simp add: footer_image_def length_trailer_image FOOTER_TRAILER_LEN_def)

section \<open>The contiguous encoder\<close>

lemma trailer_split:
  assumes "length t = 64"
  shows "t = take 12 t @ sub t 12 4 @ sub t 16 16 @ sub t 32 4 @ sub t 36 4 @ sub t 40 8 @ sub t 48 4 @ sub t 52 4
    @ sub t 56 4 @ sub t 60 4"
  using assms by (simp add: sub_join take_join)

lemma encode_trailer_blank:
  assumes "id_ok (sh_id h)" and "sh_seal h = Some seal"
  shows "encode_trailer (replicate 64 0) h flen = Ok (blank_trailer h seal flen)"
proof -
  define t where "t = patch (patch (patch (patch (patch (patch (patch (patch (patch (replicate 64 0) 0 FOOTER_MAGIC)
     8 (le_split 4 SEGMENT_FORMAT_VERSION)) 16 (sid_device_id (sh_id h))) 32 (le_split 4 (sid_segment_no (sh_id h))))
     36 (le_split 4 (seal_data_end seal))) 40 (le_split 8 (sid_sequence (sh_id h)))) 48 (le_split 4 (seal_frame_count seal)))
     52 (le_split 4 (seal_metadata_len seal))) 56 (le_split 4 (of_nat flen :: u32))"
  have dev: "length (sid_device_id (sh_id h)) = 16" using assms(1) by (simp add: id_ok_def)
  have len: "length t = 64" using dev by (simp add: t_def)
  have "take 12 t = segment_front FOOTER_MAGIC"
    unfolding header_front_split segment_front_def using dev by (simp add: t_def slice_simps)
  moreover have "sub t 12 4 = replicate 4 0" "sub t 16 16 = sid_device_id (sh_id h)"
    "sub t 32 4 = le_split 4 (sid_segment_no (sh_id h))" "sub t 36 4 = le_split 4 (seal_data_end seal)"
    "sub t 40 8 = le_split 8 (sid_sequence (sh_id h))" "sub t 48 4 = le_split 4 (seal_frame_count seal)"
    "sub t 52 4 = le_split 4 (seal_metadata_len seal)" "sub t 56 4 = le_split 4 (of_nat flen :: u32)" "sub t 60 4 = replicate 4 0"
    using dev by (simp_all add: t_def slice_simps)
  ultimately have "t = blank_trailer h seal flen"
    unfolding blank_trailer_def trailer_core_def using trailer_split [OF len] by (simp only: append_assoc)
  moreover have "encode_trailer (replicate 64 0) h flen = Ok t"
    using dev assms(2) by (simp add: encode_trailer_def t_def)
  ultimately show ?thesis by simp
qed

lemma store_trailer_checksums:
  assumes "id_ok (sh_id h)"
  shows "rbind (put_u32 (blank_trailer h seal flen) 60 crc) (\<lambda>t. rbind (crc_with_zeroed_checksum L t) (\<lambda>c. put_u32 t 12 c))
    = (Ok (trailer_image L h seal flen crc) :: (segment_error, _) res)"
proof -
  let ?core = "trailer_core h seal flen" and ?front = "segment_front FOOTER_MAGIC"
  have len: "length ?core = 44" by (rule length_trailer_core [OF assms])
  have "patch (blank_trailer h seal flen) 60 (le_split 4 crc) = ?front @ replicate 4 0 @ ?core @ le_split 4 crc"
    using len by (simp add: blank_trailer_def patch_def)
  moreover have "patch (?front @ replicate 4 0 @ ?core @ le_split 4 crc) 12 (le_split 4 c)
      = ?front @ le_split 4 c @ ?core @ le_split 4 crc" for c :: u32
    by (simp add: patch_def)
  ultimately show ?thesis
    using len by (simp add: length_blank_trailer [OF assms] trailer_image_def sealed_image_def)
qed

lemma footer_checksum_blank:
  assumes "id_ok (sh_id h)"
  shows "footer_checksum L (body @ blank_trailer h seal flen) = Ok (footer_sum L body (trailer_core h seal flen))"
proof -
  let ?bytes = "body @ blank_trailer h seal flen"
  have len: "length (trailer_core h seal flen) = 44" by (rule length_trailer_core [OF assms])
  have "take (length body + 12) ?bytes = body @ segment_front FOOTER_MAGIC" by (simp add: blank_trailer_def)
  moreover have "sub ?bytes (length body + 16) 44 = trailer_core h seal flen"
    using len by (simp add: sub_append_right blank_trailer_def)
  ultimately show ?thesis
    using len by (simp add: footer_checksum_def FOOTER_TRAILER_LEN_def length_blank_trailer [OF assms] Let_def footer_sum_def)
qed

abbreviation builder_seal :: "segment_builder \<Rightarrow> seal" where
  "builder_seal b \<equiv> \<lparr> seal_data_end = sb_data_end b, seal_frame_count = sb_frame_count b,
     seal_metadata_len = of_nat (length (sb_metadata b)) \<rparr>"

abbreviation builder_footer :: "'d crc_lib \<Rightarrow> segment_builder \<Rightarrow> byte list" where
  "builder_footer L b \<equiv> footer_image L (sealed_header b) (builder_seal b) (sb_metadata b)"

lemma sealed_header_sel [simp]:
  "sh_id (sealed_header b) = sh_id (sb_header b)" "sh_segment_len (sealed_header b) = sh_segment_len (sb_header b)"
  "sh_seal (sealed_header b) = Some (builder_seal b)"
  by (simp_all add: sealed_header_def)

lemma seal_into_image:
  assumes "\<not> is_sealed (sb_header b)" and "id_ok (sh_id (sb_header b))" and "builder_footer_len b \<le> length buffer"
  shows "seal_into L b buffer =
    Ok (sealed_header b, builder_footer L b @ drop (builder_footer_len b) buffer, b \<lparr> sb_header := sealed_header b \<rparr>)"
proof -
  let ?md = "sb_metadata b" and ?len = "builder_footer_len b" and ?h = "sealed_header b"
  let ?at = "?len - FOOTER_TRAILER_LEN" and ?blank = "blank_trailer ?h (builder_seal b) ?len"
  have ok: "id_ok (sh_id ?h)" using assms(2) by simp
  have len: "FOOTER_TRAILER_LEN + length ?md \<le> ?len" using footer_len_bounds(1) by (simp add: builder_footer_len_def)
  define bytes where "bytes = patch (replicate ?len (0::byte)) 0 ?md"
  have bytes: "length bytes = ?len" "take ?at bytes = footer_body ?md" "drop ?at bytes = replicate 64 0"
    using len by (auto simp: bytes_def patch_def footer_body_def builder_footer_len_def FOOTER_TRAILER_LEN_def
        min_def intro!: arg_cong2 [where f = replicate])
  have slice: "(slice bytes ?at (length bytes) :: (segment_error, _) res) = Ok (replicate 64 0)"
    using bytes len by (simp add: sub_all)
  have "seal_into L b buffer =
      rbind (footer_checksum L (footer_body ?md @ ?blank)) (\<lambda>crc.
      rbind (rbind (put_u32 ?blank 60 crc) (\<lambda>t. rbind (crc_with_zeroed_checksum L t) (\<lambda>c. put_u32 t 12 c))) (\<lambda>t.
        Ok (?h, footer_body ?md @ t @ drop ?len buffer, b \<lparr> sb_header := ?h \<rparr>)))"
    using assms len bytes slice
    by (simp add: seal_into_def Let_def patch_whole bytes_def [symmetric] encode_trailer_blank [OF ok sealed_header_sel(3)]
        footer_checksum_blank [OF ok] length_blank_trailer [OF ok])
  then show ?thesis
    unfolding footer_checksum_blank [OF ok] rbind.simps store_trailer_checksums [OF ok]
    by (simp add: footer_image_def builder_footer_len_def)
qed

section \<open>The incremental encoder\<close>

text \<open>The loop of the engine's lifecycle code that drains the encoder; \<open>None\<close> when the fuel runs out.\<close>

fun footer_chunks :: "'d crc_lib \<Rightarrow> nat \<Rightarrow> 'd footer_encoder \<Rightarrow> (u32 \<times> byte list \<times> bool) list option" where
  "footer_chunks L 0 fe = None"
| "footer_chunks L (Suc n) fe =
     (case footer_next L fe of
        Ok (None, fe') \<Rightarrow> Some []
      | Ok (Some c, fe') \<Rightarrow> map_option ((#) c) (footer_chunks L n fe')
      | Err _ \<Rightarrow> None
      | Panic \<Rightarrow> None)"

text \<open>The footer with both checksum fields blank, which the complete-footer checksum covers.\<close>

definition blank_footer :: "segment_builder \<Rightarrow> byte list" where
  "blank_footer b = footer_body (sb_metadata b) @ blank_trailer (sealed_header b) (builder_seal b) (builder_footer_len b)"

definition encoder_at :: "'d crc_lib \<Rightarrow> segment_builder \<Rightarrow> nat \<Rightarrow> 'd footer_encoder \<Rightarrow> bool" where
  "encoder_at L b at fe \<longleftrightarrow> fe_metadata fe = sb_metadata b \<and> fe_header fe = sealed_header b
     \<and> fe_len fe = builder_footer_len b \<and> fe_offset fe = at \<and> digest_of L (fe_checksum fe) (take at (blank_footer b))"

context crc_library
begin

lemma footer_sum_blank:
  "footer_sum L (footer_body (sb_metadata b)) (trailer_core (sealed_header b) (builder_seal b) (builder_footer_len b))
   = crc32c L (blank_footer b)"
  unfolding footer_sum_def blank_footer_def blank_trailer_def by (simp add: finalize_four)

end

lemma length_blank_footer: "id_ok (sh_id (sb_header b)) \<Longrightarrow> length (blank_footer b) = builder_footer_len b"
  using footer_len_bounds(1) [of "length (sb_metadata b)"]
  by (simp add: blank_footer_def length_blank_trailer builder_footer_len_def FOOTER_TRAILER_LEN_def)

text \<open>A chunk before the last page is a copy of the blank footer.\<close>

lemma footer_part:
  assumes "at + n \<le> builder_footer_len b - FOOTER_TRAILER_LEN"
  defines "md \<equiv> sb_metadata b"
  defines "c \<equiv> min (length md - at) n"
  shows "patch (replicate n 0) 0 (sub md (min at (length md)) c) = sub (footer_body md) at n"
proof (cases "at \<le> length md")
  case True
  then show ?thesis
    using assms(1) footer_len_bounds(1) [of "length md"]
    by (auto simp: footer_body_def c_def patch_def sub_def builder_footer_len_def md_def min_def
        intro!: arg_cong2 [where f = replicate])
next
  case False
  then show ?thesis
    using assms(1) footer_len_bounds(1) [of "length md"]
    by (auto simp: footer_body_def c_def patch_def sub_def builder_footer_len_def md_def min_def
        intro!: arg_cong2 [where f = replicate])
qed

lemma footer_last_part:
  assumes "at + PAGE_SIZE = builder_footer_len b"
  defines "md \<equiv> sb_metadata b"
  defines "c \<equiv> min (length md - at) PAGE_SIZE"
  shows "patch (replicate PAGE_SIZE 0) 0 (sub md (min at (length md)) c) = drop at (footer_body md) @ replicate 64 0"
proof (cases "at \<le> length md")
  case True
  then show ?thesis
    using assms(1) footer_len_bounds(1) [of "length md"]
    by (auto simp: footer_body_def c_def patch_def sub_def builder_footer_len_def md_def min_def FOOTER_TRAILER_LEN_def
        replicate_add [symmetric] intro!: arg_cong2 [where f = replicate])
next
  case False
  then show ?thesis
    using assms(1) footer_len_bounds(1) [of "length md"]
    by (auto simp: footer_body_def c_def patch_def sub_def builder_footer_len_def md_def min_def FOOTER_TRAILER_LEN_def
        PAGE_SIZE_def replicate_add [symmetric] intro!: arg_cong2 [where f = replicate])
qed

abbreviation chunk_offset :: "segment_builder \<Rightarrow> nat \<Rightarrow> u32" where
  "chunk_offset b at \<equiv> sh_segment_len (sb_header b) - of_nat (builder_footer_len b) + of_nat at"

lemma footer_next_part:
  assumes fe: "encoder_at L b at fe" and ok: "id_ok (sh_id (sb_header b))" and less: "at < builder_footer_len b - PAGE_SIZE"
  defines "n \<equiv> min (builder_footer_len b - PAGE_SIZE - at) (64 * 1024)"
  shows "\<exists>fe'. footer_next L fe = Ok (Some (chunk_offset b at, sub (builder_footer L b) at n, False), fe')
    \<and> encoder_at L b (at + n) fe'"
proof -
  let ?md = "sb_metadata b" and ?len = "builder_footer_len b"
  let ?from = "min at (length ?md)" and ?c = "min (length ?md - at) n"
  have bounds: "at + n \<le> ?len - FOOTER_TRAILER_LEN" "at + n \<le> length (footer_body ?md)"
    using less by (auto simp: n_def FOOTER_TRAILER_LEN_def PAGE_SIZE_def builder_footer_len_def)
  have bytes: "sub (footer_body ?md) at n = sub (builder_footer L b) at n" "sub (footer_body ?md) at n = sub (blank_footer b) at n"
    using bounds(2) by (simp_all add: footer_image_def blank_footer_def sub_append_left)
  have part: "patch (replicate n 0) 0 (sub ?md ?from ?c) = sub (builder_footer L b) at n"
    using footer_part [OF bounds(1)] bytes by simp
  let ?fe = "fe \<lparr> fe_offset := at + n, fe_checksum := crc_update L (fe_checksum fe) (sub (builder_footer L b) at n) \<rparr>"
  have "digest_of L (fe_checksum ?fe) (take (at + n) (blank_footer b))"
    using digest_of_update [of L "fe_checksum fe" "take at (blank_footer b)" "sub (blank_footer b) at n"] fe bytes
    by (simp add: encoder_at_def take_join)
  then have next_at: "encoder_at L b (at + n) ?fe" using fe by (simp add: encoder_at_def)
  have "footer_next L fe = Ok (Some (chunk_offset b at, sub (builder_footer L b) at n, False), ?fe)"
  proof -
    have "min (?len - (PAGE_SIZE + at)) 65536 = n" "at \<noteq> ?len" "at \<noteq> ?len - PAGE_SIZE"
      using less by (auto simp: n_def)
    then show ?thesis
      using fe part unfolding footer_next_def encoder_at_def by (simp add: Let_def)
  qed
  with next_at show ?thesis by blast
qed

context crc_library
begin

lemma footer_next_last:
  assumes fe: "encoder_at L b at fe" and ok: "id_ok (sh_id (sb_header b))" and eq: "at + PAGE_SIZE = builder_footer_len b"
  shows "\<exists>fe'. footer_next L fe = Ok (Some (chunk_offset b at, drop at (builder_footer L b), True), fe')
    \<and> fe_offset fe' = fe_len fe'"
proof -
  let ?md = "sb_metadata b" and ?len = "builder_footer_len b" and ?h = "sealed_header b"
  let ?from = "min at (length ?md)" and ?c = "min (length ?md - at) PAGE_SIZE"
  let ?body = "footer_body ?md" and ?blank = "blank_trailer ?h (builder_seal b) ?len"
  define page where "page = patch (replicate PAGE_SIZE (0::byte)) 0 (sub ?md ?from ?c)"
  have ok': "id_ok (sh_id ?h)" using ok by simp
  have page: "page = drop at ?body @ replicate 64 0" unfolding page_def by (rule footer_last_part [OF eq])
  have blen: "length ?body = ?len - FOOTER_TRAILER_LEN" by (simp add: builder_footer_len_def)
  have at: "at \<le> length ?body" "PAGE_SIZE - FOOTER_TRAILER_LEN = length (drop at ?body)" "FOOTER_TRAILER_LEN \<le> PAGE_SIZE"
    using eq blen by (simp_all add: FOOTER_TRAILER_LEN_def PAGE_SIZE_def)
  have plen: "length page = PAGE_SIZE" using at by (simp add: page FOOTER_TRAILER_LEN_def PAGE_SIZE_def)
  have cut: "take (PAGE_SIZE - FOOTER_TRAILER_LEN) page = drop at ?body" unfolding at(2) by (simp add: page)
  have slice: "(slice page (PAGE_SIZE - FOOTER_TRAILER_LEN) PAGE_SIZE :: (segment_error, _) res) = Ok (replicate 64 0)"
    using at(3) plen by (simp add: sub_all) (simp add: at(2) page)
  have "digest_of L (crc_update L (fe_checksum fe) (drop at ?body @ ?blank)) (blank_footer b)"
  proof -
    have "take at (blank_footer b) @ (drop at ?body @ ?blank) = blank_footer b"
      using at(1) by (simp add: blank_footer_def)
    then show ?thesis
      using digest_of_update [of L "fe_checksum fe" "take at (blank_footer b)" "drop at ?body @ ?blank"] fe
      by (simp add: encoder_at_def)
  qed
  then have crc: "crc_finalize L (crc_update L (fe_checksum fe) (drop at ?body @ ?blank)) =
      footer_sum L ?body (trailer_core ?h (builder_seal b) ?len)"
    by (simp add: digest_finalize footer_sum_blank)
  have image: "drop at ?body @ trailer_image L ?h (builder_seal b) ?len (footer_sum L ?body (trailer_core ?h (builder_seal b) ?len))
      = drop at (builder_footer L b)"
    using at(1) by (simp add: footer_image_def builder_footer_len_def)
  let ?store = "\<lambda>crc. rbind (put_u32 ?blank 60 crc) (\<lambda>t. rbind (crc_with_zeroed_checksum L t) (\<lambda>c. put_u32 t 12 c))"
  have "footer_next L fe =
      rbind (?store (crc_finalize L (crc_update L (fe_checksum fe) (drop at ?body @ ?blank)))) (\<lambda>t.
      Ok (Some (chunk_offset b at, drop at ?body @ t, True),
          fe \<lparr> fe_offset := at + PAGE_SIZE, fe_checksum := crc_update L (fe_checksum fe) (drop at ?body @ ?blank) \<rparr>))"
  proof -
    have "at \<noteq> ?len" "at = ?len - PAGE_SIZE" using eq PAGE_SIZE_pos by linarith+
    then have pos: "(at = ?len) = False" "(at = ?len - PAGE_SIZE) = True" by blast+
    have sel: "fe_metadata fe = ?md" "fe_header fe = ?h" "fe_len fe = ?len" "fe_offset fe = at"
      using fe by (simp_all add: encoder_at_def)
    have put: "(put (replicate PAGE_SIZE 0) 0 ?c (sub ?md ?from ?c) :: (segment_error, _) res) = Ok page"
      unfolding page_def by (rule put_Ok) (auto simp: min_def)
    have part: "(slice ?md ?from (?from + ?c) :: (segment_error, _) res) = Ok (sub ?md ?from ?c)"
      by (subst slice_Ok) (auto simp: min_def)
    show ?thesis
      unfolding footer_next_def Let_def pos sel if_True if_False part rbind.simps put slice cut
        encode_trailer_blank [OF ok' sealed_header_sel(3)]
      by (cases "?store (crc_finalize L (crc_update L (fe_checksum fe) (drop at ?body @ ?blank)))")
        (auto simp: rbind_assoc length_blank_trailer [OF ok'])
  qed
  then show ?thesis
    unfolding crc store_trailer_checksums [OF ok'] rbind.simps image
    using fe eq by (simp add: encoder_at_def)
qed

end

text \<open>What a caller sees of the chunks: contiguous extents, the last one flagged and one page long.\<close>

fun contiguous :: "u32 \<Rightarrow> (u32 \<times> byte list \<times> bool) list \<Rightarrow> bool" where
  "contiguous start [] \<longleftrightarrow> True"
| "contiguous start ((offset, bytes, final) # cs) \<longleftrightarrow>
     offset = start \<and> length bytes \<le> 64 * 1024 \<and> (final \<longleftrightarrow> cs = []) \<and> (final \<longrightarrow> length bytes = PAGE_SIZE)
     \<and> contiguous (start + of_nat (length bytes)) cs"

context crc_library
begin

lemma footer_chunks_from:
  assumes "encoder_at L b at fe" and "id_ok (sh_id (sb_header b))" and "at + PAGE_SIZE \<le> builder_footer_len b"
  shows "\<exists>n cs. footer_chunks L n fe = Some cs \<and> cs \<noteq> [] \<and> contiguous (chunk_offset b at) cs
    \<and> concat (map (fst \<circ> snd) cs) = drop at (builder_footer L b)"
  using assms
proof (induction "builder_footer_len b - at" arbitrary: at fe rule: less_induct)
  case less
  have flen: "length (builder_footer L b) = builder_footer_len b"
    using less.prems(2) by (simp add: length_footer_image builder_footer_len_def)
  show ?case
  proof (cases "at + PAGE_SIZE = builder_footer_len b")
    case True
    from footer_next_last [OF less.prems(1,2) True] obtain fe' where
      step: "footer_next L fe = Ok (Some (chunk_offset b at, drop at (builder_footer L b), True), fe')"
      and finished: "fe_offset fe' = fe_len fe'" by blast
    have "footer_chunks L (Suc (Suc 0)) fe = Some [(chunk_offset b at, drop at (builder_footer L b), True)]"
      using step finished by (simp add: footer_next_def)
    moreover have "length (drop at (builder_footer L b)) = PAGE_SIZE" using True flen by simp
    ultimately show ?thesis
      by (intro exI [of _ "Suc (Suc 0)"] exI [of _ "[(chunk_offset b at, drop at (builder_footer L b), True)]"])
        (simp add: PAGE_SIZE_def)
  next
    case False
    let ?n = "min (builder_footer_len b - PAGE_SIZE - at) (64 * 1024)"
    from False less.prems(3) have lt: "at < builder_footer_len b - PAGE_SIZE" by simp
    from footer_next_part [OF less.prems(1,2) lt] obtain fe' where
      step: "footer_next L fe = Ok (Some (chunk_offset b at, sub (builder_footer L b) at ?n, False), fe')"
      and at: "encoder_at L b (at + ?n) fe'" by blast
    have n: "0 < ?n" "at + ?n + PAGE_SIZE \<le> builder_footer_len b" using lt by auto
    from less.hyps [OF _ at less.prems(2) n(2)] n lt obtain k cs where
      rest: "footer_chunks L k fe' = Some cs" "cs \<noteq> []" "contiguous (chunk_offset b (at + ?n)) cs"
        "concat (map (fst \<circ> snd) cs) = drop (at + ?n) (builder_footer L b)" by force
    have len: "length (sub (builder_footer L b) at ?n) = ?n" using n flen by simp
    have "sub (builder_footer L b) at ?n @ drop (at + ?n) (builder_footer L b) = drop at (builder_footer L b)"
      by (rule sub_drop_join)
    moreover have "footer_chunks L (Suc k) fe = Some ((chunk_offset b at, sub (builder_footer L b) at ?n, False) # cs)"
      using step rest(1) by simp
    moreover have "contiguous (chunk_offset b at) ((chunk_offset b at, sub (builder_footer L b) at ?n, False) # cs)"
      using rest(2,3) len by (simp add: add.assoc)
    moreover have "concat (map (fst \<circ> snd) ((chunk_offset b at, sub (builder_footer L b) at ?n, False) # cs)) =
        sub (builder_footer L b) at ?n @ drop (at + ?n) (builder_footer L b)"
      unfolding rest(4) [symmetric] by simp
    ultimately show ?thesis by (metis list.distinct(1))
  qed
qed

end

text \<open>
  C23: The incremental footer encoder writes the bytes of the contiguous one. Draining
  \<open>into_footer\<close> ends; its chunks are contiguous extents of at most 64 KiB that end at the
  segment end, exactly the last one is flagged and is one page, and their concatenation is what
  \<open>seal_into\<close> writes to the start of its buffer. The hypothesis is the law of the incremental CRC.
\<close>

theorem footer_encoders_agree:
  assumes "crc_library L" and "\<not> is_sealed (sb_header b)" and "id_ok (sh_id (sb_header b))"
    and "builder_footer_len b \<le> length buffer"
  shows "\<exists>n cs header bytes b'. footer_chunks L n (into_footer L b) = Some cs \<and> cs \<noteq> []
    \<and> contiguous (sh_segment_len (sb_header b) - of_nat (builder_footer_len b)) cs
    \<and> seal_into L b buffer = Ok (header, bytes, b')
    \<and> bytes = concat (map (fst \<circ> snd) cs) @ drop (builder_footer_len b) buffer"
proof -
  have "encoder_at L b 0 (into_footer L b)" by (simp add: encoder_at_def into_footer_def)
  moreover have "0 + PAGE_SIZE \<le> builder_footer_len b"
    using footer_len_bounds(2) by (simp add: builder_footer_len_def)
  ultimately obtain n cs where "footer_chunks L n (into_footer L b) = Some cs" "cs \<noteq> []"
    "contiguous (chunk_offset b 0) cs" "concat (map (fst \<circ> snd) cs) = drop 0 (builder_footer L b)"
    using crc_library.footer_chunks_from [OF assms(1) _ assms(3), of 0 "into_footer L b"] by blast
  then show ?thesis
    using seal_into_image [OF assms(2-4), of L] by (intro exI [of _ n] exI [of _ cs]) simp
qed

definition sample_segment_builder :: segment_builder where
  "sample_segment_builder =
     \<lparr> sb_header = sample_segment, sb_data_end = of_nat PAGE_SIZE, sb_frame_count = 0, sb_metadata = [] \<rparr>"

theorem footer_encoders_agree_witness:
  "\<exists>n cs header bytes b'. footer_chunks rfc3720 n (into_footer rfc3720 sample_segment_builder) = Some cs
    \<and> seal_into rfc3720 sample_segment_builder (replicate 4096 0) = Ok (header, bytes, b')
    \<and> bytes = concat (map (fst \<circ> snd) cs)"
proof -
  have "\<not> is_sealed (sb_header sample_segment_builder)" "id_ok (sh_id (sb_header sample_segment_builder))"
    "builder_footer_len sample_segment_builder = 4096"
    using sample_segment_ok
    by (simp_all add: sample_segment_builder_def is_sealed_def builder_footer_len_def footer_len_def align_up_def PAGE_SIZE_def
        FOOTER_TRAILER_LEN_def)
  with footer_encoders_agree [OF rfc.crc_library_axioms this(1,2), of "replicate 4096 0"]
  show ?thesis by simp blast
qed

end
