(* ===== verification/Segment_Footer.thy ===== *)
theory Segment_Footer
  imports Segment_Builder
begin

text \<open>
  Footer validation (\<^verbatim>\<open>moat-engine/src/segment/footer.rs\<close>): the trailer, the complete footer with
  every embedded frame's metadata, its frames, and the budgeted validator of engine recovery.
\<close>

section \<open>The trailer\<close>

record footer_trailer =
  ft_header :: segment_header
  ft_checksum :: u32

definition trailer_decode :: "'d crc_lib \<Rightarrow> byte list \<Rightarrow> u32 \<Rightarrow> (segment_error, footer_trailer) res" where
  "trailer_decode L tail segment_len =
     (if length tail < FOOTER_TRAILER_LEN then Err (SE_Truncated FOOTER_TRAILER_LEN (length tail)) else
      let at = length tail - FOOTER_TRAILER_LEN in
      rbind (slice tail at (length tail)) (\<lambda>bytes.
      rbind (validate_prefix L bytes FOOTER_MAGIC) (\<lambda>_.
      rbind (slice bytes 16 32) (\<lambda>device_id.
      rbind (u32_at bytes 32) (\<lambda>segment_no.
      rbind (u64_at bytes 40) (\<lambda>sequence.
      let sid = \<lparr> sid_device_id = device_id, sid_segment_no = segment_no, sid_sequence = sequence \<rparr> in
      rbind (map_err (\<lambda>_. SE_Corrupt ''footer segment geometry'') (segment_header_new sid segment_len)) (\<lambda>header.
      rbind (u32_at bytes 36) (\<lambda>data_end.
      rbind (u32_at bytes 48) (\<lambda>frame_count.
      rbind (u32_at bytes 52) (\<lambda>metadata_len.
      let len = footer_len (unat metadata_len) in
      rbind (u32_at bytes 56) (\<lambda>stored_len.
      if data_end < of_nat PAGE_SIZE \<or> \<not> is_aligned (unat data_end) PAGE_SIZE \<or> unat metadata_len mod 4 \<noteq> 0
         \<or> len \<noteq> unat stored_len \<or> unat data_end + len > unat segment_len
         \<or> (frame_count = 0) \<noteq> (data_end = of_nat PAGE_SIZE) \<or> (frame_count = 0) \<noteq> (metadata_len = 0)
         \<or> unat frame_count * PAGE_SIZE > unat data_end - PAGE_SIZE
         \<or> unat frame_count * MIN_FRAME_METADATA_LEN > unat metadata_len
         \<or> unat metadata_len > unat data_end - PAGE_SIZE
      then Err (SE_Corrupt ''sealed footer geometry'') else
      rbind (u32_at bytes 60) (\<lambda>checksum.
        Ok \<lparr> ft_header = header \<lparr> sh_seal := Some \<lparr> seal_data_end = data_end, seal_frame_count = frame_count,
               seal_metadata_len = metadata_len \<rparr> \<rparr>, ft_checksum = checksum \<rparr>))))))))))))"

section \<open>The complete footer\<close>

record footer =
  fo_bytes :: "byte list"
  fo_header :: segment_header
  fo_limits :: frame_limits

definition footer_decode_next ::
  "'d crc_lib \<Rightarrow> footer \<Rightarrow> byte list \<Rightarrow> u32 \<Rightarrow> (segment_error, frame_metadata \<times> byte list) res" where
  "footer_decode_next L f bytes offset =
     map_err (\<lambda>source. SE_Frame offset source)
       (rbind (segment_position (fo_header f) offset) (\<lambda>position.
        rbind (metadata_decode L bytes (fo_limits f) position) (\<lambda>metadata.
        rbind (slice bytes (length (fm_bytes metadata)) (length bytes)) (\<lambda>rest.
          Ok (metadata, rest)))))"

fun footer_walk ::
  "'d crc_lib \<Rightarrow> footer \<Rightarrow> nat \<Rightarrow> byte list \<Rightarrow> u32 \<Rightarrow> (segment_error, byte list \<times> u32) res" where
  "footer_walk L f 0 remaining offset = Ok (remaining, offset)"
| "footer_walk L f (Suc n) remaining offset =
     rbind (footer_decode_next L f remaining offset) (\<lambda>(metadata, rest).
       footer_walk L f n rest (offset + of_nat (frame_len (fm_header metadata))))"

definition footer_decode ::
  "'d crc_lib \<Rightarrow> byte list \<Rightarrow> segment_header \<Rightarrow> frame_limits \<Rightarrow> (segment_error, footer) res" where
  "footer_decode L input header limits =
     rbind (of_option (SE_InvalidArgument ''active segment has no committed footer'') (sh_seal header)) (\<lambda>seal.
     rbind (expect (footer_range header)) (\<lambda>rng.
     let len = unat (snd rng) - unat (fst rng) in
     rbind (of_option (SE_Truncated len (length input)) (get_to input len)) (\<lambda>bytes.
     rbind (trailer_decode L bytes (sh_segment_len header)) (\<lambda>trailer.
     rbind (footer_checksum L bytes) (\<lambda>checksum.
     if ft_header trailer \<noteq> header \<or> ft_checksum trailer \<noteq> checksum
     then Err (SE_Corrupt ''footer identity, geometry, or checksum'') else
     let end = unat (seal_metadata_len seal) in
     rbind (slice bytes end (len - FOOTER_TRAILER_LEN)) (\<lambda>padding.
     if \<not> all_zero padding then Err (SE_Corrupt ''footer padding'') else
     rbind (slice bytes 0 end) (\<lambda>metadata.
     let footer = \<lparr> fo_bytes = metadata, fo_header = header, fo_limits = limits \<rparr> in
     rbind (footer_walk L footer (unat (seal_frame_count seal)) (fo_bytes footer) (of_nat PAGE_SIZE)) (\<lambda>(remaining, offset).
     if remaining \<noteq> [] \<or> offset \<noteq> seal_data_end seal then Err (SE_Corrupt ''footer frame coverage'') else
     Ok footer))))))))"

fun footer_frames_walk ::
  "'d crc_lib \<Rightarrow> footer \<Rightarrow> nat \<Rightarrow> byte list \<Rightarrow> u32 \<Rightarrow> (segment_error, frame_metadata list) res" where
  "footer_frames_walk L f 0 bytes offset = Ok []"
| "footer_frames_walk L f (Suc n) bytes offset =
     rbind (unwrap (segment_position (fo_header f) offset)) (\<lambda>position.
     rbind (unwrap (frame_header_decode L bytes (fo_limits f) position)) (\<lambda>header.
     rbind (slice bytes 0 (frame_metadata_len header)) (\<lambda>front.
     rbind (slice bytes (frame_metadata_len header) (length bytes)) (\<lambda>rest.
     rbind (footer_frames_walk L f n rest (offset + of_nat (frame_len header))) (\<lambda>ms.
       Ok (\<lparr> fm_bytes = front, fm_header = header \<rparr> # ms))))))"

definition footer_frames :: "'d crc_lib \<Rightarrow> footer \<Rightarrow> (segment_error, frame_metadata list) res" where
  "footer_frames L f =
     rbind (expect (sh_seal (fo_header f))) (\<lambda>seal.
       footer_frames_walk L f (unat (seal_frame_count seal)) (fo_bytes f) (of_nat PAGE_SIZE))"

section \<open>The budgeted validator\<close>

record 'd footer_validator =
  fv_header :: segment_header
  fv_limits :: frame_limits
  fv_checksum :: 'd
  fv_checked :: nat
  fv_metadata_at :: nat
  fv_frame_offset :: u32
  fv_frames :: u32
  fv_expected :: u32
  fv_checksum_done :: bool

definition validator_new ::
  "'d crc_lib \<Rightarrow> byte list \<Rightarrow> segment_header \<Rightarrow> frame_limits \<Rightarrow> (segment_error, 'd footer_validator) res" where
  "validator_new L bytes header limits =
     rbind (trailer_decode L bytes (sh_segment_len header)) (\<lambda>trailer.
     if ft_header trailer \<noteq> header then Err (SE_Corrupt ''footer identity'') else
     Ok \<lparr> fv_header = header, fv_limits = limits, fv_checksum = crc_new L, fv_checked = 0, fv_metadata_at = 0,
          fv_frame_offset = of_nat PAGE_SIZE, fv_frames = 0, fv_expected = ft_checksum trailer, fv_checksum_done = False \<rparr>)"

text \<open>The four ranges of the complete-footer checksum; the two checksum fields count as zero.\<close>

fun feed_ranges ::
  "'d crc_lib \<Rightarrow> byte list \<Rightarrow> nat \<Rightarrow> nat \<Rightarrow> (nat \<times> nat \<times> bool) list \<Rightarrow> 'd \<Rightarrow> (segment_error, 'd) res" where
  "feed_ranges L bytes checked end [] d = Ok d"
| "feed_ranges L bytes checked end ((start, stop, zero) # rest) d =
     (let lo = max checked start; hi = min end stop in
      if lo < hi then
        rbind (if zero then slice (replicate 4 0) 0 (hi - lo) else slice bytes lo hi) (\<lambda>part.
          feed_ranges L bytes checked end rest (crc_update L d part))
      else feed_ranges L bytes checked end rest d)"

definition validator_step ::
  "'d crc_lib \<Rightarrow> 'd footer_validator \<Rightarrow> byte list \<Rightarrow> (segment_error, bool \<times> 'd footer_validator) res" where
  "validator_step L v bytes =
     rbind (expect (sh_seal (fv_header v))) (\<lambda>seal.
     if length bytes < FOOTER_TRAILER_LEN then Panic else
     let at = length bytes - FOOTER_TRAILER_LEN in
     if \<not> fv_checksum_done v then
       (let end = min (fv_checked v + 64 * 1024) (length bytes) in
        rbind (feed_ranges L bytes (fv_checked v) end
                 [(0, at + 12, False), (at + 12, at + 16, True), (at + 16, at + 60, False), (at + 60, length bytes, True)]
                 (fv_checksum v)) (\<lambda>checksum.
        let lo = max (fv_checked v) (unat (seal_metadata_len seal)); hi = min end at in
        rbind (if lo < hi then slice bytes lo hi else Ok []) (\<lambda>padding.
        if \<not> all_zero padding then Err (SE_Corrupt ''footer padding'') else
        if end = length bytes \<and> crc_finalize L checksum \<noteq> fv_expected v then Err (SE_Corrupt ''footer checksum'') else
        Ok (False, v \<lparr> fv_checksum := checksum, fv_checked := end, fv_checksum_done := (end = length bytes) \<rparr>))))
     else if fv_frames v = seal_frame_count seal then
       (if fv_metadata_at v \<noteq> unat (seal_metadata_len seal) \<or> fv_frame_offset v \<noteq> seal_data_end seal
        then Err (SE_Corrupt ''footer frame coverage'') else Ok (True, v))
     else
       rbind (map_err (SE_Frame (fv_frame_offset v)) (segment_position (fv_header v) (fv_frame_offset v))) (\<lambda>position.
       rbind (slice bytes (fv_metadata_at v) (unat (seal_metadata_len seal))) (\<lambda>rest.
       rbind (map_err (SE_Frame (fv_frame_offset v)) (metadata_decode L rest (fv_limits v) position)) (\<lambda>metadata.
         Ok (False, v \<lparr> fv_metadata_at := fv_metadata_at v + length (fm_bytes metadata),
              fv_frame_offset := fv_frame_offset v + of_nat (frame_len (fm_header metadata)),
              fv_frames := fv_frames v + 1 \<rparr>)))))"

end
