(* ===== verification/Segment_Roundtrip.thy ===== *)
theory Segment_Roundtrip
  imports Frame_Roundtrip Segment_Seal Segment_Footer
begin

text \<open>
  The invariant of the segment builder and the footer round trip. \<open>segment_reach\<close> is a builder
  after a sequence of accepted frames; \<open>segment_ok\<close> holds of every such builder: the frames lie
  back to back from the first page on, the metadata is their concatenation, and the data and
  the eventual footer fit in the segment. Sealing such a builder gives a footer that
  \<open>footer_decode\<close> accepts and from which \<open>footer_frames\<close> reads the frames' metadata back.
\<close>

section \<open>Frame metadata at another bound\<close>

text \<open>A position also carries the room up to a bound, which is not part of the encoding.\<close>

definition rebind :: "frame_position \<Rightarrow> frame_metadata \<Rightarrow> frame_metadata" where
  "rebind p m = m \<lparr> fm_header := (fm_header m) \<lparr> fh_position := p \<rparr> \<rparr>"

lemma rebind_sel [simp]:
  "fm_bytes (rebind p m) = fm_bytes m" "frame_len (fm_header (rebind p m)) = frame_len (fm_header m)"
  "frame_metadata_len (fm_header (rebind p m)) = frame_metadata_len (fm_header m)"
  "fh_position (fm_header (rebind p m)) = p" "fh_record_count (fm_header (rebind p m)) = fh_record_count (fm_header m)"
  "fh_metadata_crc (fm_header (rebind p m)) = fh_metadata_crc (fm_header m)"
  by (simp_all add: rebind_def frame_len_def frame_metadata_len_def)

lemma metadata_decode_rebind:
  assumes dec: "metadata_decode L input limits p = Ok m"
    and same: "fp_segment_seq q = fp_segment_seq p" "fp_offset q = fp_offset p"
    and room: "frame_len (fm_header m) \<le> unat (fp_available q)"
  shows "metadata_decode L (fm_bytes m @ rest) limits q = Ok (rebind q m)"
proof -
  let ?h = "fm_header m" and ?h' = "fm_header (rebind q m)"
  from dec obtain ds where hdr: "frame_header_decode L input limits p = Ok ?h"
    and len: "frame_metadata_len ?h \<le> length input" "fm_bytes m = take (frame_metadata_len ?h) input"
    and valid: "metadata_valid L limits m ds"
    unfolding metadata_decode_iff by blast
  note hdr' = frame_header_decode_ok [OF hdr]
  have le: "HEADER_LEN \<le> frame_metadata_len ?h" by (simp add: frame_metadata_len_def)
  have ok: "frame_header_ok limits ?h'"
    using hdr'(2) room by (simp add: frame_header_ok_def rebind_def frame_len_def frame_metadata_len_def word_le_nat_alt)
  have "frame_header_image L ?h' = frame_header_image L ?h"
    using same hdr'(3) by (simp add: rebind_def frame_header_image_def frame_header_fields_def)
  moreover have "take HEADER_LEN (fm_bytes m @ rest) = take HEADER_LEN input"
    using len le by simp
  moreover have "HEADER_LEN \<le> length (fm_bytes m @ rest)" using len le by simp
  ultimately have "frame_header_decode L (fm_bytes m @ rest) limits q = Ok ?h'"
    using hdr'(4) ok by (simp add: frame_header_decode_exact)
  moreover have "metadata_valid L limits (rebind q m) ds"
    using valid ok by (auto simp: metadata_valid_def)
  ultimately show ?thesis
    unfolding metadata_decode_iff using len by auto
qed

lemma metadata_decode_facts:
  assumes "metadata_decode L input limits p = Ok m"
  shows "fh_position (fm_header m) = p" "length (fm_bytes m) = frame_metadata_len (fm_header m)"
    "0 < frame_len (fm_header m)" "is_aligned (frame_len (fm_header m)) PAGE_SIZE"
    "frame_metadata_len (fm_header m) \<le> frame_len (fm_header m)" "MIN_FRAME_METADATA_LEN \<le> frame_metadata_len (fm_header m)"
    "frame_len (fm_header m) < 2 ^ 32"
proof -
  from assms have hdr: "frame_header_decode L input limits p = Ok (fm_header m)"
    and len: "length (fm_bytes m) = frame_metadata_len (fm_header m)"
    by (auto simp: metadata_decode_iff)
  note ok = frame_header_decode_ok [OF hdr]
  note okD = frame_header_okD [OF ok(2)]
  show "fh_position (fm_header m) = p" "length (fm_bytes m) = frame_metadata_len (fm_header m)"
    "is_aligned (frame_len (fm_header m)) PAGE_SIZE" "frame_metadata_len (fm_header m) \<le> frame_len (fm_header m)"
    "frame_len (fm_header m) < 2 ^ 32"
    using ok(3) len okD by simp_all
  show "0 < frame_len (fm_header m)" using okD(2,3) by (simp add: HEADER_LEN_def)
  show "MIN_FRAME_METADATA_LEN \<le> frame_metadata_len (fm_header m)"
    using okD(7) by (simp add: frame_metadata_len_def MIN_FRAME_METADATA_LEN_def DESCRIPTOR_LEN_def)
qed

section \<open>The builder invariant\<close>

fun frame_chain :: "'d crc_lib \<Rightarrow> frame_limits \<Rightarrow> u64 \<Rightarrow> nat \<Rightarrow> frame_metadata list \<Rightarrow> nat \<Rightarrow> bool" where
  "frame_chain L limits seq off [] off' \<longleftrightarrow> off = off'"
| "frame_chain L limits seq off (m # ms) off' \<longleftrightarrow>
     (\<exists>input p. metadata_decode L input limits p = Ok m \<and> fp_segment_seq p = seq \<and> unat (fp_offset p) = off)
     \<and> frame_chain L limits seq (off + frame_len (fm_header m)) ms off'"

lemma frame_chain_append:
  "frame_chain L limits seq off (ms @ [m]) off'' \<longleftrightarrow>
   (\<exists>off'. frame_chain L limits seq off ms off' \<and> frame_chain L limits seq off' [m] off'')"
  by (induction ms arbitrary: off) auto

lemma frame_chain_sum:
  "frame_chain L limits seq off ms off' \<Longrightarrow> off' = off + (\<Sum>m\<leftarrow>ms. frame_len (fm_header m))"
proof (induction ms arbitrary: off)
  case (Cons m ms)
  then have "frame_chain L limits seq (off + frame_len (fm_header m)) ms off'" by simp
  from Cons.IH [OF this] show ?case by simp
qed simp

lemma frame_chain_head:
  assumes "frame_chain L limits seq off (m # ms) off'"
  shows "PAGE_SIZE \<le> frame_len (fm_header m)" "is_aligned (frame_len (fm_header m)) PAGE_SIZE"
    "MIN_FRAME_METADATA_LEN \<le> length (fm_bytes m)" "length (fm_bytes m) \<le> frame_len (fm_header m)"
    "4 dvd length (fm_bytes m)" "frame_len (fm_header m) < 2 ^ 32"
    "frame_chain L limits seq (off + frame_len (fm_header m)) ms off'"
proof -
  from assms obtain input p where dec: "metadata_decode L input limits p = Ok m" by auto
  note facts = metadata_decode_facts [OF dec]
  show "PAGE_SIZE \<le> frame_len (fm_header m)"
    using facts(3,4) by (auto simp: is_aligned_def mod_eq_0_iff_dvd dvd_imp_le)
  have "frame_header_ok limits (fm_header m)" using dec frame_header_decode_ok(2) by (auto simp: metadata_decode_iff)
  then have "4 dvd unat (fh_checksum_len (fm_header m))" by (auto simp: frame_header_ok_def mod_eq_0_iff_dvd)
  then show "4 dvd length (fm_bytes m)" by (simp add: facts(2) frame_metadata_len_def HEADER_LEN_def DESCRIPTOR_LEN_def)
  show "is_aligned (frame_len (fm_header m)) PAGE_SIZE" "MIN_FRAME_METADATA_LEN \<le> length (fm_bytes m)"
    "length (fm_bytes m) \<le> frame_len (fm_header m)" "frame_len (fm_header m) < 2 ^ 32"
    "frame_chain L limits seq (off + frame_len (fm_header m)) ms off'"
    using facts assms by simp_all
qed

lemma frame_chain_bounds:
  assumes "frame_chain L limits seq off ms off'"
  shows "off + length ms * PAGE_SIZE \<le> off' \<and> (is_aligned off PAGE_SIZE \<longrightarrow> is_aligned off' PAGE_SIZE)
    \<and> length ms * MIN_FRAME_METADATA_LEN \<le> length (concat (map fm_bytes ms))
    \<and> length (concat (map fm_bytes ms)) + off \<le> off' \<and> 4 dvd length (concat (map fm_bytes ms))"
  using assms
proof (induction ms arbitrary: off)
  case (Cons m ms)
  note head = frame_chain_head [OF Cons.prems]
  from Cons.IH [OF head(7)] head(1-5) show ?case by (auto simp: is_aligned_add)
qed simp

definition segment_ok :: "'d crc_lib \<Rightarrow> frame_limits \<Rightarrow> segment_builder \<Rightarrow> frame_metadata list \<Rightarrow> bool" where
  "segment_ok L limits b ms \<longleftrightarrow>
     \<not> is_sealed (sb_header b) \<and> id_ok (sh_id (sb_header b)) \<and> segment_geometry (sb_header b)
     \<and> frame_chain L limits (sid_sequence (sh_id (sb_header b))) PAGE_SIZE ms (unat (sb_data_end b))
     \<and> sb_metadata b = concat (map fm_bytes ms) \<and> unat (sb_frame_count b) = length ms
     \<and> unat (sb_data_end b) + builder_footer_len b \<le> unat (sh_segment_len (sb_header b))"

inductive segment_reach ::
  "'d crc_lib \<Rightarrow> frame_limits \<Rightarrow> segment_header \<Rightarrow> segment_builder \<Rightarrow> frame_metadata list \<Rightarrow> bool"
  for L limits header where
  start: "segment_builder_new header = Ok b \<Longrightarrow> segment_reach L limits header b []"
| frame: "segment_reach L limits header b ms \<Longrightarrow> metadata_decode L input limits position = Ok m \<Longrightarrow>
    segment_append reserved b m = Ok b' \<Longrightarrow> segment_reach L limits header b' (ms @ [m])"

lemma unat_PAGE_SIZE [simp]: "unat (of_nat PAGE_SIZE :: u32) = PAGE_SIZE"
  by (simp add: PAGE_SIZE_def)

lemma footer_len_0: "footer_len 0 = PAGE_SIZE"
  by (simp add: footer_len_def align_up_def FOOTER_TRAILER_LEN_def PAGE_SIZE_def)

lemma segment_position_iff:
  "segment_position h offset = Ok p \<longleftrightarrow>
     (let end = unat (case sh_seal h of None \<Rightarrow> sh_segment_len h | Some seal \<Rightarrow> seal_data_end seal) in
      is_aligned end PAGE_SIZE \<and> is_aligned (unat offset) PAGE_SIZE \<and> PAGE_SIZE \<le> unat offset \<and> unat offset < end
      \<and> fp_segment_seq p = sid_sequence (sh_id h) \<and> fp_offset p = offset \<and> unat (fp_available p) = end - unat offset)"
proof -
  have sub: "unat (a - b) = unat a - unat b" if "unat b < unat a" for a b :: u32
    using that by (simp add: unat_sub word_le_nat_alt)
  show ?thesis
    by (cases p) (auto simp: segment_position_def frame_position_new_def Let_def word_less_nat_alt word_le_nat_alt
        not_less not_le sub word_unat_eq_iff split: if_splits)
qed

lemma segment_append_iff:
  "segment_append reserved b m = Ok b' \<longleftrightarrow> reserved \<and>
     (\<exists>p. builder_position b (frame_len (fm_header m)) (length (fm_bytes m)) = Ok p
       \<and> fp_segment_seq (fh_position (fm_header m)) = fp_segment_seq p \<and> fp_offset (fh_position (fm_header m)) = fp_offset p)
     \<and> b' = b \<lparr> sb_metadata := sb_metadata b @ fm_bytes m, sb_data_end := sb_data_end b + of_nat (frame_len (fm_header m)),
          sb_frame_count := sb_frame_count b + 1 \<rparr>"
  by (auto simp: segment_append_def Let_def rbind_Ok_iff split: if_splits)

lemma builder_position_Ok:
  assumes "builder_position b flen mlen = Ok p"
  shows "\<not> is_sealed (sb_header b)"
    "unat (sb_data_end b) + flen + footer_len (length (sb_metadata b) + mlen) \<le> unat (sh_segment_len (sb_header b))"
    "fp_segment_seq p = sid_sequence (sh_id (sb_header b))" "fp_offset p = sb_data_end b"
  using assms by (auto simp: builder_position_def Let_def segment_position_iff split: if_splits)

lemma segment_append_ok:
  assumes ok: "segment_ok L limits b ms" and dec: "metadata_decode L input limits position = Ok m"
    and app: "segment_append reserved b m = Ok b'"
  shows "segment_ok L limits b' (ms @ [m]) \<and> sb_header b' = sb_header b"
proof -
  from app obtain p where p: "builder_position b (frame_len (fm_header m)) (length (fm_bytes m)) = Ok p"
    "fp_segment_seq (fh_position (fm_header m)) = fp_segment_seq p" "fp_offset (fh_position (fm_header m)) = fp_offset p"
    and b': "b' = b \<lparr> sb_metadata := sb_metadata b @ fm_bytes m, sb_data_end := sb_data_end b + of_nat (frame_len (fm_header m)),
          sb_frame_count := sb_frame_count b + 1 \<rparr>"
    unfolding segment_append_iff by blast
  note pos = builder_position_Ok [OF p(1)] and facts = metadata_decode_facts [OF dec]
  have lim: "unat (sh_segment_len (sb_header b)) < 2 ^ 32" by (rule u32_less)
  have "frame_chain L limits (sid_sequence (sh_id (sb_header b))) PAGE_SIZE ms (unat (sb_data_end b))"
    using ok by (simp add: segment_ok_def)
  moreover have "frame_chain L limits (sid_sequence (sh_id (sb_header b))) (unat (sb_data_end b)) [m]
      (unat (sb_data_end b) + frame_len (fm_header m))"
    using dec p(2,3) pos(3,4) facts(1) by (auto intro!: exI [of _ input] exI [of _ position])
  ultimately have chain: "frame_chain L limits (sid_sequence (sh_id (sb_header b))) PAGE_SIZE (ms @ [m])
      (unat (sb_data_end b) + frame_len (fm_header m))"
    using frame_chain_append by blast
  have sum: "unat (sb_data_end b + of_nat (frame_len (fm_header m))) = unat (sb_data_end b) + frame_len (fm_header m)"
    using pos(2) lim facts(7) by (simp add: unat_word_ariths unat_of_nat)
  have "Suc (length ms) * PAGE_SIZE < 2 ^ 32"
    using frame_chain_bounds [OF chain] pos(2) lim by simp
  then have "Suc (length ms) < 2 ^ 32" by (simp add: PAGE_SIZE_def)
  then have count: "unat (sb_frame_count b + 1) = Suc (length ms)"
    using ok by (simp add: segment_ok_def unat_word_ariths)
  show ?thesis
    using ok chain sum count pos(2) unfolding b' by (simp add: segment_ok_def builder_footer_len_def)
qed

lemma segment_reach_ok:
  assumes "segment_reach L limits header b ms" and "segment_geometry header" and "id_ok (sh_id header)"
  shows "segment_ok L limits b ms \<and> sb_header b = header"
  using assms
proof (induction rule: segment_reach.induct)
  case (start b)
  then show ?case
    by (auto simp: segment_builder_new_def segment_ok_def builder_footer_len_def footer_len_0 segment_geometry_def
        split: if_splits)
next
  case (frame b ms input position m reserved b')
  then show ?case using segment_append_ok [of L limits b ms input position m reserved b'] by simp
qed

section \<open>Decoding the trailer\<close>

definition seal_geometry :: "u32 \<Rightarrow> seal \<Rightarrow> bool" where
  "seal_geometry segment_len seal \<longleftrightarrow>
     PAGE_SIZE \<le> unat (seal_data_end seal) \<and> is_aligned (unat (seal_data_end seal)) PAGE_SIZE
     \<and> unat (seal_metadata_len seal) mod 4 = 0
     \<and> unat (seal_data_end seal) + footer_len (unat (seal_metadata_len seal)) \<le> unat segment_len
     \<and> (seal_frame_count seal = 0 \<longleftrightarrow> unat (seal_data_end seal) = PAGE_SIZE)
     \<and> (seal_frame_count seal = 0 \<longleftrightarrow> seal_metadata_len seal = 0)
     \<and> unat (seal_frame_count seal) * PAGE_SIZE \<le> unat (seal_data_end seal) - PAGE_SIZE
     \<and> unat (seal_frame_count seal) * MIN_FRAME_METADATA_LEN \<le> unat (seal_metadata_len seal)
     \<and> unat (seal_metadata_len seal) \<le> unat (seal_data_end seal) - PAGE_SIZE"

lemma trailer_image_fields:
  fixes L :: "'d crc_lib" and seal :: seal and flen :: nat and crc :: u32
  assumes "id_ok (sh_id h)"
  defines "t \<equiv> trailer_image L h seal flen crc"
  shows "length t = 64" "sub t 16 16 = sid_device_id (sh_id h)" "sub t 32 4 = le_split 4 (sid_segment_no (sh_id h))"
    "sub t 36 4 = le_split 4 (seal_data_end seal)" "sub t 40 8 = le_split 8 (sid_sequence (sh_id h))"
    "sub t 48 4 = le_split 4 (seal_frame_count seal)" "sub t 52 4 = le_split 4 (seal_metadata_len seal)"
    "sub t 56 4 = le_split 4 (of_nat flen :: u32)" "sub t 60 4 = le_split 4 crc" "validate_prefix L t FOOTER_MAGIC = Ok ()"
proof -
  have dev: "length (sid_device_id (sh_id h)) = 16" using assms(1) by (simp add: id_ok_def)
  show "length t = 64" unfolding t_def by (rule length_trailer_image [OF assms(1)])
  show "validate_prefix L t FOOTER_MAGIC = Ok ()" unfolding t_def trailer_image_def by (rule validate_prefix_image) simp
  show "sub t 16 16 = sid_device_id (sh_id h)" "sub t 32 4 = le_split 4 (sid_segment_no (sh_id h))"
    "sub t 36 4 = le_split 4 (seal_data_end seal)" "sub t 40 8 = le_split 8 (sid_sequence (sh_id h))"
    "sub t 48 4 = le_split 4 (seal_frame_count seal)" "sub t 52 4 = le_split 4 (seal_metadata_len seal)"
    "sub t 56 4 = le_split 4 (of_nat flen :: u32)" "sub t 60 4 = le_split 4 crc"
    using dev by (simp_all add: t_def trailer_image_def sealed_image_def trailer_core_def sub_append_right)
qed

lemma footer_len_less: "seal_geometry n seal \<Longrightarrow> footer_len (unat (seal_metadata_len seal)) < 2 ^ 32"
  using u32_less [of n] by (simp add: seal_geometry_def)

lemma trailer_decode_image:
  assumes ok: "id_ok (sh_id h)" "segment_geometry h" and seal: "sh_seal h = Some seal"
    and geo: "seal_geometry (sh_segment_len h) seal"
  defines "flen \<equiv> footer_len (unat (seal_metadata_len seal))"
  shows "trailer_decode L (body @ trailer_image L h seal flen crc) (sh_segment_len h) =
    Ok \<lparr> ft_header = h, ft_checksum = crc \<rparr>"
proof -
  let ?t = "trailer_image L h seal flen crc"
  note t = trailer_image_fields [OF ok(1), of L seal flen crc]
  have flen: "unat (of_nat flen :: u32) = flen" using footer_len_less [OF geo] by (simp add: flen_def unat_u32)
  have new: "segment_header_new (sh_id h) (sh_segment_len h) = Ok (h \<lparr> sh_seal := None \<rparr>)"
    using ok(2) by (auto simp: segment_header_new_iff segment_geometry_def)
  have slice: "(slice (body @ ?t) (length (body @ ?t) - FOOTER_TRAILER_LEN) (length (body @ ?t)) :: (segment_error, _) res) = Ok ?t"
    using t(1) by (simp add: FOOTER_TRAILER_LEN_def sub_append_right)
  have dev: "\<lparr> sid_device_id = sid_device_id (sh_id h), sid_segment_no = sid_segment_no (sh_id h),
      sid_sequence = sid_sequence (sh_id h) \<rparr> = sh_id h" by simp
  have h: "h \<lparr> sh_seal := Some \<lparr> seal_data_end = seal_data_end seal, seal_frame_count = seal_frame_count seal,
      seal_metadata_len = seal_metadata_len seal \<rparr> \<rparr> = h"
    using seal by (cases h) simp
  show ?thesis
    using geo unfolding trailer_decode_def slice Let_def
    by (simp add: t new flen dev h FOOTER_TRAILER_LEN_def seal_geometry_def flen_def [symmetric] word_less_nat_alt word_unat_eq_iff
        not_less) argo
qed

lemma footer_checksum_image:
  assumes "id_ok (sh_id h)"
  shows "footer_checksum L (body @ trailer_image L h seal flen crc) = Ok (footer_sum L body (trailer_core h seal flen))"
proof -
  let ?bytes = "body @ trailer_image L h seal flen crc"
  have len: "length (trailer_core h seal flen) = 44" by (rule length_trailer_core [OF assms])
  have "take (length body + 12) ?bytes = body @ segment_front FOOTER_MAGIC"
    by (simp add: trailer_image_def sealed_image_def)
  moreover have "sub ?bytes (length body + 16) 44 = trailer_core h seal flen"
    using len by (simp add: sub_append_right trailer_image_def sealed_image_def)
  ultimately show ?thesis
    using len by (simp add: footer_checksum_def FOOTER_TRAILER_LEN_def length_trailer_image [OF assms] Let_def footer_sum_def)
qed

section \<open>Walking the frames\<close>

definition sealed_position :: "segment_header \<Rightarrow> nat \<Rightarrow> frame_position" where
  "sealed_position h off = \<lparr> fp_segment_seq = sid_sequence (sh_id h), fp_offset = of_nat off,
     fp_available = (case sh_seal h of None \<Rightarrow> sh_segment_len h | Some seal \<Rightarrow> seal_data_end seal) - of_nat off \<rparr>"

fun rebind_all :: "segment_header \<Rightarrow> nat \<Rightarrow> frame_metadata list \<Rightarrow> frame_metadata list" where
  "rebind_all h off [] = []"
| "rebind_all h off (m # ms) = rebind (sealed_position h off) m # rebind_all h (off + frame_len (fm_header m)) ms"

lemma length_rebind_all [simp]: "length (rebind_all h off ms) = length ms"
  by (induction ms arbitrary: off) simp_all

lemma sealed_position_step:
  assumes "sh_seal h = Some seal" and "is_aligned (unat (seal_data_end seal)) PAGE_SIZE" and "is_aligned off PAGE_SIZE"
    and "PAGE_SIZE \<le> off" and "off < unat (seal_data_end seal)"
  shows "segment_position h (of_nat off) = Ok (sealed_position h off)"
    and "unat (fp_available (sealed_position h off)) = unat (seal_data_end seal) - off"
proof -
  have off: "unat (of_nat off :: u32) = off" using assms(5) u32_less [of "seal_data_end seal"] by (simp add: unat_u32)
  show av: "unat (fp_available (sealed_position h off)) = unat (seal_data_end seal) - off"
    using assms(1,5) off by (simp add: sealed_position_def unat_sub word_le_nat_alt)
  show "segment_position h (of_nat off) = Ok (sealed_position h off)"
    unfolding segment_position_iff Let_def using assms av off by (simp add: sealed_position_def)
qed

lemma decode_next_chain:
  assumes chain: "frame_chain L limits (sid_sequence (sh_id h)) off (m # ms) off'"
    and seal: "sh_seal h = Some seal" "is_aligned (unat (seal_data_end seal)) PAGE_SIZE" "off' \<le> unat (seal_data_end seal)"
    and off: "is_aligned off PAGE_SIZE" "PAGE_SIZE \<le> off"
  shows "segment_position h (of_nat off) = Ok (sealed_position h off)"
    and "metadata_decode L (fm_bytes m @ rest) limits (sealed_position h off) = Ok (rebind (sealed_position h off) m)"
    and "of_nat off + of_nat (frame_len (fm_header m)) = (of_nat (off + frame_len (fm_header m)) :: u32)"
proof -
  note head = frame_chain_head [OF chain]
  from frame_chain_bounds [OF head(7)] have fin: "off + frame_len (fm_header m) \<le> off'" by simp
  have less: "off < unat (seal_data_end seal)" using fin head(1) seal(3) PAGE_SIZE_pos by linarith
  note pos = sealed_position_step [OF seal(1,2) off less]
  show "segment_position h (of_nat off) = Ok (sealed_position h off)" by (rule pos(1))
  from chain obtain input p where dec: "metadata_decode L input limits p = Ok m"
    and p: "fp_segment_seq p = sid_sequence (sh_id h)" "unat (fp_offset p) = off" by auto
  have "fp_offset p = of_nat off" by (simp flip: p(2))
  then show "metadata_decode L (fm_bytes m @ rest) limits (sealed_position h off) = Ok (rebind (sealed_position h off) m)"
    using p(1) pos(2) fin seal(3) by (intro metadata_decode_rebind [OF dec]) (auto simp: sealed_position_def)
  show "of_nat off + of_nat (frame_len (fm_header m)) = (of_nat (off + frame_len (fm_header m)) :: u32)" by simp
qed

lemma footer_walk_chain:
  assumes "frame_chain L (fo_limits f) (sid_sequence (sh_id (fo_header f))) off ms off'"
    and "sh_seal (fo_header f) = Some seal" "is_aligned (unat (seal_data_end seal)) PAGE_SIZE" "off' \<le> unat (seal_data_end seal)"
    and "is_aligned off PAGE_SIZE" "PAGE_SIZE \<le> off"
  shows "footer_walk L f (length ms) (concat (map fm_bytes ms) @ rest) (of_nat off) = Ok (rest, of_nat off')
    \<and> footer_frames_walk L f (length ms) (concat (map fm_bytes ms) @ rest) (of_nat off) = Ok (rebind_all (fo_header f) off ms)"
  using assms
proof (induction ms arbitrary: off)
  case (Cons m ms)
  let ?rest = "concat (map fm_bytes ms) @ rest"
  note head = frame_chain_head [OF Cons.prems(1)] and step = decode_next_chain(1) [OF Cons.prems]
    decode_next_chain(2) [OF Cons.prems, where rest = ?rest] decode_next_chain(3) [OF Cons.prems]
  have IH: "footer_walk L f (length ms) ?rest (of_nat (off + frame_len (fm_header m))) = Ok (rest, of_nat off')"
    "footer_frames_walk L f (length ms) ?rest (of_nat (off + frame_len (fm_header m))) =
      Ok (rebind_all (fo_header f) (off + frame_len (fm_header m)) ms)"
    using Cons.IH [OF head(7) Cons.prems(2-4)] Cons.prems(5,6) head(2) by (auto simp: is_aligned_add)
  have next_frame: "footer_decode_next L f (fm_bytes m @ ?rest) (of_nat off) = Ok (rebind (sealed_position (fo_header f) off) m, ?rest)"
    by (simp add: footer_decode_next_def step sub_append_right)
  have hdr: "frame_header_decode L (fm_bytes m @ ?rest) (fo_limits f) (sealed_position (fo_header f) off)
      = Ok (fm_header (rebind (sealed_position (fo_header f) off) m))"
    using step(2) by (simp add: metadata_decode_iff)
  have len: "length (fm_bytes m) = frame_metadata_len (fm_header m)"
    using Cons.prems(1) metadata_decode_facts(2) by auto
  show ?case
    using IH next_frame hdr step(1,3) len by (simp add: sub_append_right rebind_def frame_metadata_len_def frame_len_def)
qed simp

section \<open>The sealed footer\<close>

lemma builder_seal_geometry:
  assumes "segment_ok L limits b ms"
  shows "seal_geometry (sh_segment_len (sb_header b)) (builder_seal b)"
    "unat (of_nat (length (sb_metadata b)) :: u32) = length (sb_metadata b)"
proof -
  from assms have chain: "frame_chain L limits (sid_sequence (sh_id (sb_header b))) PAGE_SIZE ms (unat (sb_data_end b))"
    and md: "sb_metadata b = concat (map fm_bytes ms)" and count: "unat (sb_frame_count b) = length ms"
    and room: "unat (sb_data_end b) + footer_len (length (sb_metadata b)) \<le> unat (sh_segment_len (sb_header b))"
    unfolding segment_ok_def builder_footer_len_def by blast+
  note bounds = frame_chain_bounds [OF chain]
  have "length (sb_metadata b) < 2 ^ 32" using bounds md u32_less [of "sb_data_end b"] by simp
  then show len: "unat (of_nat (length (sb_metadata b)) :: u32) = length (sb_metadata b)" by (simp add: unat_u32)
  have zero: "sb_frame_count b = 0 \<longleftrightarrow> ms = []" "(of_nat (length (sb_metadata b)) :: u32) = 0 \<longleftrightarrow> length (sb_metadata b) = 0"
    using count len by (auto simp: word_unat_eq_iff)
  have some: "PAGE_SIZE < unat (sb_data_end b)" "0 < length (sb_metadata b)" if "ms \<noteq> []"
  proof -
    have n: "0 < length ms" using that by simp
    then have "0 < length ms * PAGE_SIZE" "0 < length ms * MIN_FRAME_METADATA_LEN"
      by (simp_all add: PAGE_SIZE_def MIN_FRAME_METADATA_LEN_def HEADER_LEN_def DESCRIPTOR_LEN_def)
    then show "PAGE_SIZE < unat (sb_data_end b)" "0 < length (sb_metadata b)" using bounds unfolding md by linarith+
  qed
  have none: "unat (sb_data_end b) = PAGE_SIZE" "length (sb_metadata b) = 0" if "ms = []"
    using chain md that by simp_all
  have empty: "ms = [] \<longleftrightarrow> unat (sb_data_end b) = PAGE_SIZE" "ms = [] \<longleftrightarrow> length (sb_metadata b) = 0"
    using some none by fastforce+
  have "length (sb_metadata b) mod 4 = 0" "is_aligned (unat (sb_data_end b)) PAGE_SIZE"
    using bounds md by (simp_all add: is_aligned_def)
  then show "seal_geometry (sh_segment_len (sb_header b)) (builder_seal b)"
    using bounds room unfolding seal_geometry_def seal.simps len count md [symmetric] zero empty [symmetric]
    by linarith
qed

lemma footer_range_len:
  assumes "sh_seal h = Some seal" and "seal_geometry (sh_segment_len h) seal"
  shows "\<exists>lo hi. footer_range h = Some (lo, hi) \<and> unat hi - unat lo = footer_len (unat (seal_metadata_len seal))"
proof -
  let ?len = "footer_len (unat (seal_metadata_len seal))"
  have "?len \<le> unat (sh_segment_len h)" using assms(2) by (simp add: seal_geometry_def)
  then have "unat (sh_segment_len h - of_nat ?len) = unat (sh_segment_len h) - ?len"
    using footer_len_less [OF assms(2)] by (simp add: unat_sub word_le_nat_alt unat_u32)
  then show ?thesis using \<open>?len \<le> _\<close> assms(1) by (simp add: footer_range_def Let_def)
qed

lemma footer_body_parts:
  "sub (footer_body md @ t) 0 (length md) = md"
  "all_zero (sub (footer_body md @ t) (length md) (footer_len (length md) - FOOTER_TRAILER_LEN - length md))"
  using footer_len_bounds(1) [of "length md"] by (simp_all add: footer_body_def sub_append_right all_zero_def list_all_iff)

lemma sealed_footer_decodes:
  assumes ok: "segment_ok L limits b ms"
  defines "f \<equiv> \<lparr> fo_bytes = sb_metadata b, fo_header = sealed_header b, fo_limits = limits \<rparr>"
  shows "footer_decode L (builder_footer L b @ rest) (sealed_header b) limits = Ok f"
    and "footer_frames L f = Ok (rebind_all (sealed_header b) PAGE_SIZE ms)"
proof -
  let ?h = "sealed_header b" and ?seal = "builder_seal b" and ?md = "sb_metadata b" and ?len = "builder_footer_len b"
  note geo = builder_seal_geometry [OF ok]
  have hid: "id_ok (sh_id ?h)" "segment_geometry ?h" using ok by (simp_all add: segment_ok_def segment_geometry_def)
  obtain lo hi where range: "footer_range ?h = Some (lo, hi)" "unat hi - unat lo = ?len"
    using footer_range_len [of ?h ?seal] geo by (auto simp: builder_footer_len_def)
  have bytes: "length (builder_footer L b) = ?len"
    using hid by (simp add: length_footer_image builder_footer_len_def)
  have trailer: "trailer_decode L (builder_footer L b) (sh_segment_len ?h) =
      Ok \<lparr> ft_header = ?h, ft_checksum = footer_sum L (footer_body ?md) (trailer_core ?h ?seal ?len) \<rparr>"
    using trailer_decode_image [OF hid, of ?seal L "footer_body ?md"] geo
    by (simp add: footer_image_def builder_footer_len_def)
  have sum: "footer_checksum L (builder_footer L b) = Ok (footer_sum L (footer_body ?md) (trailer_core ?h ?seal ?len))"
    using footer_checksum_image [OF hid(1)] by (simp add: footer_image_def builder_footer_len_def)
  have chain: "frame_chain L (fo_limits f) (sid_sequence (sh_id (fo_header f))) PAGE_SIZE ms (unat (sb_data_end b))"
    and md: "?md = concat (map fm_bytes ms)" and count: "unat (sb_frame_count b) = length ms"
    using ok by (simp_all add: segment_ok_def f_def)
  have walk: "footer_walk L f (length ms) ?md (of_nat PAGE_SIZE) = Ok ([], sb_data_end b)"
    "footer_frames_walk L f (length ms) ?md (of_nat PAGE_SIZE) = Ok (rebind_all ?h PAGE_SIZE ms)"
    using footer_walk_chain [OF chain, of ?seal "[]"] geo md
    by (simp_all add: f_def seal_geometry_def) (simp_all add: is_aligned_def)
  have le: "FOOTER_TRAILER_LEN + length ?md \<le> ?len" using footer_len_bounds(1) by (simp add: builder_footer_len_def)
  have parts: "sub (builder_footer L b) 0 (length ?md) = ?md"
    "all_zero (sub (builder_footer L b) (length ?md) (?len - FOOTER_TRAILER_LEN - length ?md))"
    using footer_body_parts by (simp_all add: footer_image_def builder_footer_len_def)
  show "footer_decode L (builder_footer L b @ rest) ?h limits = Ok f"
    using range bytes trailer sum walk(1) parts le geo(2) count
    by (simp add: footer_decode_def Let_def f_def)
  show "footer_frames L f = Ok (rebind_all ?h PAGE_SIZE ms)"
    using walk(2) count by (simp add: footer_frames_def f_def)
qed

text \<open>
  C2: Footer round trip. Take a segment builder reached from a fresh segment by any sequence of
  accepted frames and a buffer that holds its footer. Sealing succeeds and writes a footer that
  decodes against the returned sealed header; its frames are the appended ones in order, with the
  same bytes and header fields, each at its offset in the segment and bounded by the data end.
\<close>

theorem footer_roundtrip:
  assumes "segment_header_new sid len = Ok header" and "id_ok sid" and "segment_reach L limits header b ms"
    and "builder_footer_len b \<le> length buffer"
  shows "\<exists>sealed bytes b' f. seal_into L b buffer = Ok (sealed, bytes, b') \<and> is_sealed (sb_header b')
    \<and> length bytes = length buffer \<and> footer_decode L bytes sealed limits = Ok f
    \<and> footer_frames L f = Ok (rebind_all sealed PAGE_SIZE ms)"
proof -
  have ok: "segment_ok L limits b ms" "sb_header b = header"
    using segment_reach_ok [OF assms(3)] assms(1,2) by (auto simp: segment_header_new_iff)
  have hid: "\<not> is_sealed (sb_header b)" "id_ok (sh_id (sb_header b))" using ok(1) by (simp_all add: segment_ok_def)
  have "length (builder_footer L b) = builder_footer_len b"
    using hid(2) by (simp add: length_footer_image builder_footer_len_def)
  then show ?thesis
    using sealed_footer_decodes(1) [OF ok(1), of "drop (builder_footer_len b) buffer"] sealed_footer_decodes(2) [OF ok(1)] assms(4)
    unfolding seal_into_image [OF hid assms(4)] by (auto simp: is_sealed_def)
qed

text \<open>
  C21: The footer reservation. At every point of a segment's life the frames appended so far lie
  back to back from the end of the header page, the builder's metadata is theirs, and the data and
  the footer for it still fit in the segment; so an active segment can always be sealed. A frame
  that would break this is refused with the length it would need, before the builder changes.
\<close>

theorem footer_always_fits:
  assumes "segment_header_new sid len = Ok header" and "id_ok sid" and "segment_reach L limits header b ms"
  shows "unat (sb_data_end b) = PAGE_SIZE + (\<Sum>m\<leftarrow>ms. frame_len (fm_header m))
    \<and> sb_metadata b = concat (map fm_bytes ms) \<and> unat (sb_frame_count b) = length ms
    \<and> unat (sb_data_end b) + builder_footer_len b \<le> unat len
    \<and> (metadata_decode L input limits position = Ok m
        \<and> unat (sb_data_end b) + frame_len (fm_header m) + footer_len (length (sb_metadata b) + length (fm_bytes m)) > unat len
        \<longrightarrow> segment_append True b m = Err (SE_Full
             (unat (sb_data_end b) + frame_len (fm_header m) + footer_len (length (sb_metadata b) + length (fm_bytes m))) len))"
proof -
  have ok: "segment_ok L limits b ms" "sb_header b = header" "sh_segment_len header = len"
    using segment_reach_ok [OF assms(3)] assms(1,2) by (auto simp: segment_header_new_iff)
  have "builder_position b (frame_len (fm_header m)) (length (fm_bytes m)) = Err (SE_Full
      (unat (sb_data_end b) + frame_len (fm_header m) + footer_len (length (sb_metadata b) + length (fm_bytes m))) len)"
    if "metadata_decode L input limits position = Ok m"
      "unat (sb_data_end b) + frame_len (fm_header m) + footer_len (length (sb_metadata b) + length (fm_bytes m)) > unat len"
  proof -
    have "frame_chain L limits (fp_segment_seq position) (unat (fp_offset position)) [m]
        (unat (fp_offset position) + frame_len (fm_header m))" using that(1) by auto
    from frame_chain_head [OF this] that(2) ok show ?thesis
      by (auto simp: builder_position_def segment_ok_def Let_def PAGE_SIZE_def)
  qed
  then show ?thesis using ok frame_chain_sum by (auto simp: segment_ok_def segment_append_def Let_def)
qed

section \<open>A sample segment\<close>

lemma sample_segment_frame:
  "\<exists>b m bytes f. segment_reach rfc3720 sample_limits sample_segment b [m] \<and> builder_footer_len b \<le> 8192
    \<and> frame_decode rfc3720 bytes sample_limits sample_position = Ok f \<and> f_metadata f = m"
proof -
  have ok: "builder_ok sample_builder" "fb_limits sample_builder = sample_limits"
    using builder_reach_ok [OF sample_builder_reach] frame_limits_new_ok [OF sample_limits_new] by auto
  have "encoded_len sample_builder \<le> unat (fp_available sample_position)"
    "encoded_len sample_builder \<le> length (replicate 8192 (0::byte))" "fb_records sample_builder \<noteq> []"
    by (simp_all add: sample_encoded_len sample_position_def) (simp add: sample_builder_def)
  from encode_decode [OF ok(1) this(3,1,2), of rfc3720] obtain bytes f m where
    whole: "frame_decode rfc3720 bytes sample_limits sample_position = Ok f" "f_metadata f = m"
    and len: "frame_len (fm_header m) = 4096"
    using ok(2) by (auto simp: sample_encoded_len)
  then have dec: "metadata_decode rfc3720 bytes sample_limits sample_position = Ok m"
    by (auto simp: frame_decode_def rbind_Ok_iff)
  note facts = metadata_decode_facts [OF dec]
  have mod4: "length (fm_bytes m) mod 4 = 0"
  proof -
    have "frame_chain rfc3720 sample_limits 7 4096 [m] 8192"
      using dec len by (auto simp: sample_position_def intro!: exI [of _ bytes] exI [of _ sample_position])
    from frame_chain_head(5) [OF this] show ?thesis by presburger
  qed
  have footer: "footer_len (length (fm_bytes m)) \<le> 8192"
    using footer_len_mono [of "length (fm_bytes m)" 4096] facts(2,5) len
    by (simp add: footer_len_def align_up_def PAGE_SIZE_def FOOTER_TRAILER_LEN_def)
  have pos: "segment_position sample_segment (of_nat PAGE_SIZE) = Ok \<lparr> fp_segment_seq = 7, fp_offset = of_nat PAGE_SIZE,
      fp_available = 61440 \<rparr>"
    unfolding segment_position_iff by (simp add: sample_segment_def PAGE_SIZE_def is_aligned_def)
  have "builder_position sample_segment_builder (frame_len (fm_header m)) (length (fm_bytes m)) =
      Ok \<lparr> fp_segment_seq = 7, fp_offset = of_nat PAGE_SIZE, fp_available = 61440 \<rparr>"
    using facts(2,4,5,6) mod4 footer pos
    by (simp add: builder_position_def sample_segment_builder_def Let_def is_sealed_def len)
      (simp add: sample_segment_def PAGE_SIZE_def)
  then have "segment_append True sample_segment_builder m = Ok (sample_segment_builder \<lparr> sb_metadata := fm_bytes m,
      sb_data_end := 8192, sb_frame_count := 1 \<rparr>)"
    unfolding segment_append_iff using facts(1)
    by (simp add: sample_segment_builder_def len) (simp add: sample_position_def PAGE_SIZE_def)
  moreover have "segment_reach rfc3720 sample_limits sample_segment sample_segment_builder []"
    by (rule segment_reach.start) (simp add: segment_builder_new_def sample_segment_builder_def is_sealed_def sample_segment_def)
  ultimately have "segment_reach rfc3720 sample_limits sample_segment (sample_segment_builder \<lparr> sb_metadata := fm_bytes m,
      sb_data_end := 8192, sb_frame_count := 1 \<rparr>) [m]"
    using segment_reach.frame [OF _ dec] by fastforce
  then show ?thesis using footer whole
    by (intro exI [of _ "sample_segment_builder \<lparr> sb_metadata := fm_bytes m, sb_data_end := 8192, sb_frame_count := 1 \<rparr>"]
        exI [of _ m] exI [of _ bytes] exI [of _ f]) (simp add: builder_footer_len_def)
qed

lemma sample_segment_reach:
  "\<exists>b m. segment_reach rfc3720 sample_limits sample_segment b [m] \<and> builder_footer_len b \<le> 8192"
  using sample_segment_frame by blast

lemma sample_segment_new:
  "segment_header_new (sh_id sample_segment) 65536 = Ok sample_segment"
  unfolding segment_header_new_iff using sample_segment_ok(2) by (simp add: sample_segment_def)

theorem footer_roundtrip_witness:
  "\<exists>b m sealed bytes b' f. segment_reach rfc3720 sample_limits sample_segment b [m]
    \<and> seal_into rfc3720 b (replicate 8192 0) = Ok (sealed, bytes, b')
    \<and> footer_decode rfc3720 bytes sealed sample_limits = Ok f
    \<and> footer_frames rfc3720 f = Ok [rebind (sealed_position sealed PAGE_SIZE) m]"
proof -
  obtain b m where b: "segment_reach rfc3720 sample_limits sample_segment b [m]" "builder_footer_len b \<le> 8192"
    using sample_segment_reach by blast
  have "builder_footer_len b \<le> length (replicate 8192 (0::byte))" using b(2) by simp
  from footer_roundtrip [OF sample_segment_new sample_segment_ok(1) b(1) this] b(1) show ?thesis by fastforce
qed

theorem footer_always_fits_witness:
  "\<exists>b m. segment_reach rfc3720 sample_limits sample_segment b [m] \<and> unat (sb_data_end b) + builder_footer_len b \<le> 65536"
proof -
  obtain b m where b: "segment_reach rfc3720 sample_limits sample_segment b [m]"
    using sample_segment_reach by blast
  from footer_always_fits [OF sample_segment_new sample_segment_ok(1) b] b show ?thesis by auto
qed

end
