(* ===== verification/Segment_Validator.thy ===== *)
theory Segment_Validator
  imports Segment_Roundtrip
begin

text \<open>
  The budgeted footer validator accepts what \<open>footer_decode\<close> accepts. \<open>validator_run\<close> repeats
  \<open>validator_step\<close>; it checks the checksum and the padding in steps of 64 KiB, then one frame a
  step. The run ends within a number of steps that the footer's length and frame count give.
\<close>

fun validator_run :: "'d crc_lib \<Rightarrow> nat \<Rightarrow> 'd footer_validator \<Rightarrow> byte list \<Rightarrow> (segment_error, bool) res" where
  "validator_run L 0 v bytes = Ok False"
| "validator_run L (Suc n) v bytes =
     rbind (validator_step L v bytes) (\<lambda>(complete, v'). if complete then Ok True else validator_run L n v' bytes)"

section \<open>The trailer\<close>

lemma trailer_decode_facts:
  assumes "trailer_decode L bytes n = Ok t"
  shows "FOOTER_TRAILER_LEN \<le> length bytes \<and> sh_segment_len (ft_header t) = n
    \<and> (\<exists>seal. sh_seal (ft_header t) = Some seal \<and> seal_geometry n seal)"
  using assms
  by (auto simp: trailer_decode_def Let_def rbind_Ok_iff map_err_Ok_iff segment_header_new_iff seal_geometry_def
      word_less_nat_alt word_unat_eq_iff not_less split: if_splits)

lemma trailer_decode_total: "trailer_decode L bytes n \<noteq> Panic"
proof (cases "length bytes < FOOTER_TRAILER_LEN")
  case False
  define t where "t = sub bytes (length bytes - FOOTER_TRAILER_LEN) FOOTER_TRAILER_LEN"
  have len: "length t = 64" using False by (simp add: t_def FOOTER_TRAILER_LEN_def)
  have "validate_prefix L t FOOTER_MAGIC \<noteq> Panic" using len by (intro validate_prefix_total) simp
  moreover have "(slice bytes (length bytes - FOOTER_TRAILER_LEN) (length bytes) :: (segment_error, _) res) = Ok t"
    using False by (simp add: t_def)
  ultimately show ?thesis
    using False len by (simp add: trailer_decode_def Let_def rbind_Panic_iff map_err_Panic_iff)
qed (simp add: trailer_decode_def)

section \<open>The checksum phase\<close>

text \<open>The footer with its two checksum fields zeroed.\<close>

definition zeroed_footer :: "byte list \<Rightarrow> byte list" where
  "zeroed_footer bytes = (let at = length bytes - FOOTER_TRAILER_LEN in
     sub bytes 0 (at + 12) @ replicate 4 0 @ sub bytes (at + 16) 44 @ replicate 4 0)"

lemma length_zeroed_footer: "FOOTER_TRAILER_LEN \<le> length bytes \<Longrightarrow> length (zeroed_footer bytes) = length bytes"
  by (simp add: zeroed_footer_def Let_def FOOTER_TRAILER_LEN_def)

fun tiles :: "byte list \<Rightarrow> byte list \<Rightarrow> nat \<Rightarrow> (nat \<times> nat \<times> bool) list \<Rightarrow> nat \<Rightarrow> bool" where
  "tiles bytes z s [] s' \<longleftrightarrow> s = s'"
| "tiles bytes z s ((start, stop, zero) # rest) s' \<longleftrightarrow> start = s \<and> start \<le> stop \<and> stop \<le> length bytes
     \<and> (if zero then stop \<le> start + 4 \<and> (\<forall>i. start \<le> i \<and> i < stop \<longrightarrow> z ! i = 0)
        else (\<forall>i. start \<le> i \<and> i < stop \<longrightarrow> z ! i = bytes ! i))
     \<and> tiles bytes z stop rest s'"

lemma footer_tiles:
  assumes "FOOTER_TRAILER_LEN \<le> length bytes"
  defines "at \<equiv> length bytes - FOOTER_TRAILER_LEN"
  shows "tiles bytes (zeroed_footer bytes) 0
    [(0, at + 12, False), (at + 12, at + 16, True), (at + 16, at + 60, False), (at + 60, length bytes, True)] (length bytes)"
  using assms
  by (auto simp: zeroed_footer_def Let_def FOOTER_TRAILER_LEN_def nth_append nth_sub)

lemma take_extend: "a \<le> b \<Longrightarrow> take b xs = take a xs @ sub xs a (b - a)"
  by (metis le_add_diff_inverse sub_def take_add)

lemma sub_zeros: "lo + n \<le> length z \<Longrightarrow> (\<And>i. lo \<le> i \<Longrightarrow> i < lo + n \<Longrightarrow> z ! i = 0) \<Longrightarrow> sub z lo n = replicate n 0"
  by (intro nth_equalityI) (simp_all add: nth_sub)

lemma feed_ranges_digest:
  assumes "tiles bytes z s ranges s'" and "length z = length bytes" and "c \<le> e" and "e \<le> length bytes"
    and "digest_of L d (take (max c (min e s)) z)"
  shows "\<exists>d'. feed_ranges L bytes c e ranges d = Ok d' \<and> digest_of L d' (take (max c (min e s')) z)"
  using assms
proof (induction bytes z s ranges s' arbitrary: d rule: tiles.induct)
  case (2 bytes z s start stop zero rest s')
  let ?lo = "max c start" and ?hi = "min e stop"
  show ?case
  proof (cases "?lo < ?hi")
    case True
    let ?part = "sub z ?lo (?hi - ?lo)"
    have part: "(if zero then slice (replicate 4 0) 0 (?hi - ?lo) else slice bytes ?lo ?hi) = (Ok ?part :: (segment_error, _) res)"
    proof (cases zero)
      case zero: True
      have "?part = replicate (?hi - ?lo) 0"
        using zero True 2(2-5) by (intro sub_zeros) auto
      then show ?thesis using zero True 2(2) by (auto simp: sub_def min_def)
    next
      case False
      have "sub bytes ?lo (?hi - ?lo) = ?part"
        using False True 2(2-5) by (intro sub_eqI) auto
      then show ?thesis using False True 2(2-5) by auto
    qed
    have "take (max c (min e stop)) z = take (max c (min e s)) z @ ?part"
      using True 2(2) by (subst take_extend [of "max c (min e s)"]) auto
    then have "digest_of L (crc_update L d ?part) (take (max c (min e stop)) z)"
      using digest_of_update [OF 2(6)] by simp
    then obtain d' where "feed_ranges L bytes c e rest (crc_update L d ?part) = Ok d'" "digest_of L d' (take (max c (min e s')) z)"
      using 2(1-5) by auto
    moreover have "feed_ranges L bytes c e ((start, stop, zero) # rest) d = feed_ranges L bytes c e rest (crc_update L d ?part)"
      using True part by (simp only: feed_ranges.simps Let_def if_True rbind.simps)
    ultimately show ?thesis by auto
  next
    case False
    then have "max c (min e stop) = max c (min e s)" using 2(2,4) by auto
    moreover have "feed_ranges L bytes c e ((start, stop, zero) # rest) d = feed_ranges L bytes c e rest d"
      using False by (simp only: feed_ranges.simps Let_def if_False)
    ultimately show ?thesis using 2 by auto
  qed
qed simp

definition zero_between :: "byte list \<Rightarrow> nat \<Rightarrow> nat \<Rightarrow> bool" where
  "zero_between bytes lo hi \<longleftrightarrow> (\<forall>i. lo \<le> i \<and> i < hi \<longrightarrow> bytes ! i = 0)"

lemma all_zero_sub:
  assumes "lo \<le> hi" and "hi \<le> length bytes"
  shows "all_zero (sub bytes lo (hi - lo)) \<longleftrightarrow> zero_between bytes lo hi"
proof -
  have "all_zero (sub bytes lo (hi - lo)) \<longleftrightarrow> (\<forall>k < hi - lo. bytes ! (lo + k) = 0)"
    using assms by (simp add: all_zero_def list_all_length nth_sub)
  also have "\<dots> \<longleftrightarrow> zero_between bytes lo hi"
  proof
    assume zero: "\<forall>k < hi - lo. bytes ! (lo + k) = 0"
    show "zero_between bytes lo hi"
      unfolding zero_between_def
    proof (intro allI impI)
      fix i
      assume "lo \<le> i \<and> i < hi"
      then show "bytes ! i = 0" using zero [rule_format, of "i - lo"] by (simp add: diff_less_mono)
    qed
  qed (simp add: zero_between_def)
  finally show ?thesis .
qed

lemma zero_between_split:
  "c < e \<Longrightarrow> zero_between bytes (max c m) t \<longleftrightarrow> zero_between bytes (max c m) (min e t) \<and> zero_between bytes (max e m) t"
  by (auto simp: zero_between_def not_less) (metis linorder_le_less_linear)

definition checks_good :: "'d crc_lib \<Rightarrow> seal \<Rightarrow> 'd footer_validator \<Rightarrow> byte list \<Rightarrow> bool" where
  "checks_good L seal v bytes \<longleftrightarrow>
     zero_between bytes (max (fv_checked v) (unat (seal_metadata_len seal))) (length bytes - FOOTER_TRAILER_LEN)
     \<and> crc32c L (zeroed_footer bytes) = fv_expected v"

definition checks_done :: "'d footer_validator \<Rightarrow> 'd \<Rightarrow> byte list \<Rightarrow> 'd footer_validator" where
  "checks_done v d bytes = v \<lparr> fv_checksum := d, fv_checked := length bytes, fv_checksum_done := True \<rparr>"

context crc_library
begin

lemma checksum_step:
  assumes len: "FOOTER_TRAILER_LEN \<le> length bytes" and seal: "sh_seal (fv_header v) = Some seal"
    and at: "\<not> fv_checksum_done v" "fv_checked v < length bytes"
    and digest: "digest_of L (fv_checksum v) (take (fv_checked v) (zeroed_footer bytes))"
  defines "e \<equiv> min (fv_checked v + 64 * 1024) (length bytes)"
  defines "pad \<equiv> zero_between bytes (max (fv_checked v) (unat (seal_metadata_len seal))) (min e (length bytes - FOOTER_TRAILER_LEN))"
  shows "\<exists>d'. digest_of L d' (take e (zeroed_footer bytes)) \<and> validator_step L v bytes =
    (if \<not> pad then Err (SE_Corrupt ''footer padding'')
     else if e = length bytes \<and> crc32c L (zeroed_footer bytes) \<noteq> fv_expected v then Err (SE_Corrupt ''footer checksum'')
     else Ok (False, v \<lparr> fv_checksum := d', fv_checked := e, fv_checksum_done := (e = length bytes) \<rparr>))"
proof -
  let ?at = "length bytes - FOOTER_TRAILER_LEN" and ?z = "zeroed_footer bytes"
  have e: "fv_checked v \<le> e" "e \<le> length bytes" using at(2) by (simp_all add: e_def)
  obtain d' where feed: "feed_ranges L bytes (fv_checked v) e
      [(0, ?at + 12, False), (?at + 12, ?at + 16, True), (?at + 16, ?at + 60, False), (?at + 60, length bytes, True)] (fv_checksum v)
      = Ok d'" and d': "digest_of L d' (take e ?z)"
    using feed_ranges_digest [OF footer_tiles [OF len] length_zeroed_footer [OF len] e, of L "fv_checksum v"] digest e
    by (auto simp: max_absorb2)
  have final: "crc_finalize L d' = crc32c L ?z" if "e = length bytes"
    using digest_finalize [OF d'] that length_zeroed_footer [OF len] by simp
  have pads: "rbind (if lo < min e ?at then slice bytes lo (min e ?at) else Ok []) (\<lambda>padding. if \<not> all_zero padding then Err x else r)
      = (if \<not> zero_between bytes lo (min e ?at) then Err x else r)" for lo and x :: segment_error and r
  proof (cases "lo < min e ?at")
    case True
    then have "all_zero (sub bytes lo (min e ?at - lo)) \<longleftrightarrow> zero_between bytes lo (min e ?at)" using e by (intro all_zero_sub) auto
    moreover have "(slice bytes lo (min e ?at) :: (segment_error, _) res) = Ok (sub bytes lo (min e ?at - lo))" using True e by (intro slice_Ok) auto
    ultimately show ?thesis using True by (simp only: if_True rbind.simps)
  next
    case False
    then have "zero_between bytes lo (min e ?at)" by (auto simp: zero_between_def)
    moreover have "all_zero []" by (simp add: all_zero_def)
    ultimately show ?thesis using False by (simp only: if_False rbind.simps simp_thms)
  qed
  have "validator_step L v bytes = (if \<not> pad then Err (SE_Corrupt ''footer padding'')
     else if e = length bytes \<and> crc_finalize L d' \<noteq> fv_expected v then Err (SE_Corrupt ''footer checksum'')
     else Ok (False, v \<lparr> fv_checksum := d', fv_checked := e, fv_checksum_done := (e = length bytes) \<rparr>))"
    unfolding validator_step_def seal Let_def e_def [symmetric] pad_def
    using len at(1) by (simp only: expect.simps rbind.simps not_less [symmetric] if_False if_True simp_thms feed pads)
  with final d' show ?thesis by (auto intro!: exI [of _ d'])
qed

lemma checksum_phase:
  assumes len: "FOOTER_TRAILER_LEN \<le> length bytes" and seal: "sh_seal (fv_header v) = Some seal"
    and at: "\<not> fv_checksum_done v" "fv_checked v < length bytes"
    and digest: "digest_of L (fv_checksum v) (take (fv_checked v) (zeroed_footer bytes))"
  shows "\<exists>k d'. k * 65536 < length bytes - fv_checked v + 65536 \<and> (\<forall>n. if checks_good L seal v bytes
     then validator_run L (k + n) v bytes = validator_run L n (checks_done v d' bytes) bytes
     else \<exists>e. validator_run L (k + n) v bytes = Err e)"
  using seal at digest
proof (induction "length bytes - fv_checked v" arbitrary: v rule: less_induct)
  case less
  let ?N = "length bytes" and ?at = "length bytes - FOOTER_TRAILER_LEN" and ?c = "fv_checked v"
  let ?ml = "unat (seal_metadata_len seal)" and ?z = "zeroed_footer bytes"
  define e where "e = min (?c + 64 * 1024) ?N"
  define pad where "pad = zero_between bytes (max ?c ?ml) (min e ?at)"
  obtain d' where d': "digest_of L d' (take e ?z)"
    and step: "validator_step L v bytes = (if \<not> pad then Err (SE_Corrupt ''footer padding'')
     else if e = ?N \<and> crc32c L ?z \<noteq> fv_expected v then Err (SE_Corrupt ''footer checksum'')
     else Ok (False, v \<lparr> fv_checksum := d', fv_checked := e, fv_checksum_done := (e = ?N) \<rparr>))"
    using checksum_step [OF len less.prems] unfolding e_def [symmetric] pad_def [symmetric] by (elim exE conjE)
  define v' where "v' = v \<lparr> fv_checksum := d', fv_checked := e, fv_checksum_done := (e = ?N) \<rparr>"
  have e: "?c < e" "e \<le> ?N" "e < ?N \<Longrightarrow> e = ?c + 65536" using less.prems(3) by (auto simp: e_def min_def split: if_splits)
  have split: "zero_between bytes (max ?c ?ml) ?at \<longleftrightarrow> pad \<and> zero_between bytes (max e ?ml) ?at"
    using e(1) unfolding pad_def by (rule zero_between_split)
  show ?case
  proof (cases "e = ?N")
    case True
    have "zero_between bytes (max e ?ml) ?at" using True by (auto simp: zero_between_def)
    then have good: "checks_good L seal v bytes \<longleftrightarrow> pad \<and> crc32c L ?z = fv_expected v" using split by (simp add: checks_good_def)
    have "validator_run L (1 + n) v bytes = (if checks_good L seal v bytes
        then validator_run L n (checks_done v d' bytes) bytes
        else Err (if pad then SE_Corrupt ''footer checksum'' else SE_Corrupt ''footer padding''))" for n
      using True step good by (simp add: checks_done_def)
    then show ?thesis using less.prems(3) by (intro exI [of _ 1] exI [of _ d']) auto
  next
    case False
    have v': "sh_seal (fv_header v') = Some seal" "\<not> fv_checksum_done v'" "fv_checked v' < ?N"
      "digest_of L (fv_checksum v') (take (fv_checked v') ?z)" "fv_checked v' = e"
      using less.prems(1) d' False e(2) by (simp_all add: v'_def)
    have "?N - fv_checked v' < ?N - fv_checked v" using v'(3,5) e(1) by simp
    from less.hyps [OF this v'(1-4)] obtain k d'' where k: "k * 65536 < ?N - e + 65536"
      and run: "\<And>n. if checks_good L seal v' bytes
        then validator_run L (k + n) v' bytes = validator_run L n (checks_done v' d'' bytes) bytes
        else \<exists>e. validator_run L (k + n) v' bytes = Err e"
      unfolding v'(5) by auto
    have good: "checks_good L seal v bytes \<longleftrightarrow> pad \<and> checks_good L seal v' bytes"
      and fin: "checks_done v' d'' bytes = checks_done v d'' bytes"
      using split by (auto simp: checks_good_def checks_done_def v'_def)
    have "validator_run L (Suc k + n) v bytes = (if pad then validator_run L (k + n) v' bytes else Err (SE_Corrupt ''footer padding''))" for n
      using False step by (simp add: v'_def)
    then have "if checks_good L seal v bytes
        then validator_run L (Suc k + n) v bytes = validator_run L n (checks_done v d'' bytes) bytes
        else \<exists>e. validator_run L (Suc k + n) v bytes = Err e" for n
      using run [of n] fin by (auto simp: good)
    moreover have "Suc k * 65536 < ?N - fv_checked v + 65536" using k e False by simp
    ultimately show ?thesis by blast
  qed
qed

end

section \<open>The frame phase\<close>

definition coverage :: "seal \<Rightarrow> byte list \<Rightarrow> u32 \<Rightarrow> (segment_error, bool) res" where
  "coverage seal remaining offset =
     (if remaining \<noteq> [] \<or> offset \<noteq> seal_data_end seal then Err (SE_Corrupt ''footer frame coverage'') else Ok True)"

lemma coverage_rbind: "rbind (coverage seal remaining offset) g =
    (if remaining \<noteq> [] \<or> offset \<noteq> seal_data_end seal then Err (SE_Corrupt ''footer frame coverage'') else g True)"
  by (simp add: coverage_def)

lemma frame_phase:
  assumes "sh_seal (fv_header v) = Some seal" and "fv_checksum_done v" and "FOOTER_TRAILER_LEN \<le> length bytes"
    and "unat (seal_metadata_len seal) \<le> length bytes" and "fv_metadata_at v \<le> unat (seal_metadata_len seal)"
    and "unat (fv_frames v) + n = unat (seal_frame_count seal)"
    and "fo_header f = fv_header v" and "fo_limits f = fv_limits v"
  shows "validator_run L (Suc n) v bytes =
    rbind (footer_walk L f n (sub bytes (fv_metadata_at v) (unat (seal_metadata_len seal) - fv_metadata_at v)) (fv_frame_offset v))
      (\<lambda>(remaining, offset). coverage seal remaining offset)"
  using assms
proof (induction n arbitrary: v)
  case 0
  then have "fv_frames v = seal_frame_count seal" by (simp add: word_unat_eq_iff)
  moreover have "sub bytes (fv_metadata_at v) (unat (seal_metadata_len seal) - fv_metadata_at v) = []
      \<longleftrightarrow> fv_metadata_at v = unat (seal_metadata_len seal)"
    using 0(4,5) by (auto simp: sub_def)
  ultimately show ?case
    using 0(1-5) by (auto simp: validator_step_def coverage_def Let_def)
next
  case (Suc n)
  let ?ml = "unat (seal_metadata_len seal)" and ?off = "fv_frame_offset v"
  let ?rest = "sub bytes (fv_metadata_at v) (?ml - fv_metadata_at v)"
  have more: "fv_frames v \<noteq> seal_frame_count seal" using Suc.prems(6) by (auto simp: word_unat_eq_iff)
  have slice: "slice bytes (fv_metadata_at v) ?ml = (Ok ?rest :: (segment_error, _) res)" using Suc.prems(4,5) by simp
  show ?case
  proof (cases "segment_position (fv_header v) ?off")
    case (Ok position)
    show ?thesis
    proof (cases "metadata_decode L ?rest (fv_limits v) position")
      case meta: (Ok m)
      define v' where "v' = v \<lparr> fv_metadata_at := fv_metadata_at v + length (fm_bytes m),
         fv_frame_offset := ?off + of_nat (frame_len (fm_header m)), fv_frames := fv_frames v + 1 \<rparr>"
      have len: "length (fm_bytes m) \<le> ?ml - fv_metadata_at v"
        using meta Suc.prems(4) by (auto simp: metadata_decode_iff)
      have rest: "sub ?rest (length (fm_bytes m)) (length ?rest - length (fm_bytes m)) =
          sub bytes (fv_metadata_at v') (?ml - fv_metadata_at v')"
        using len Suc.prems(4,5) by (simp add: v'_def sub_def drop_take min_absorb1 add.commute)
      have "unat (fv_frames v) + 1 < 2 ^ 32" using Suc.prems(6) u32_less [of "seal_frame_count seal"] by simp
      then have count: "unat (fv_frames v') = unat (fv_frames v) + 1" by (simp add: v'_def unat_word_ariths)
      have step: "validator_step L v bytes = Ok (False, v')"
        using Suc.prems(1-3) more slice Ok meta by (simp add: validator_step_def Let_def v'_def)
      have decoded: "footer_decode_next L f ?rest ?off = Ok (m, sub bytes (fv_metadata_at v') (?ml - fv_metadata_at v'))"
        using Suc.prems(7,8) Ok meta len rest Suc.prems(4) by (simp add: footer_decode_next_def)
      have "validator_run L (Suc n) v' bytes = rbind (footer_walk L f n (sub bytes (fv_metadata_at v') (?ml - fv_metadata_at v'))
          (fv_frame_offset v')) (\<lambda>(remaining, offset). coverage seal remaining offset)"
        using Suc.prems count len by (intro Suc.IH) (simp_all add: v'_def)
      then show ?thesis using step decoded by (simp add: v'_def)
    qed (use Suc.prems more slice Ok in \<open>simp_all add: validator_step_def footer_decode_next_def Let_def\<close>)
  qed (use Suc.prems more in \<open>simp_all add: validator_step_def footer_decode_next_def Let_def\<close>)
qed

section \<open>Agreement with the complete decoder\<close>

lemma segment_position_total [simp]: "segment_position h offset \<noteq> Panic"
  by (simp add: segment_position_def frame_position_new_def Let_def)

lemma footer_walk_total: "footer_walk L f n bytes offset \<noteq> Panic"
proof (induction n arbitrary: bytes offset)
  case (Suc n)
  have "footer_decode_next L f bytes offset \<noteq> Panic"
    using metadata_decode_total
    by (auto simp: footer_decode_next_def map_err_Panic_iff rbind_Panic_iff slice_Panic_iff metadata_decode_iff)
  with Suc show ?case by (auto simp: rbind_Panic_iff)
qed simp

lemma footer_checksum_zeroed:
  assumes "crc_library L" and "FOOTER_TRAILER_LEN \<le> length bytes"
  shows "footer_checksum L bytes = Ok (crc32c L (zeroed_footer bytes))"
  using assms(2) crc_library.finalize_four [OF assms(1)]
  by (simp add: footer_checksum_def zeroed_footer_def Let_def FOOTER_TRAILER_LEN_def)

lemma footer_decode_trailer:
  fixes limits :: frame_limits
  assumes "crc_library L" and "trailer_decode L bytes (sh_segment_len header) = Ok t"
    and seal: "sh_seal header = Some seal" and range: "footer_range header = Some (lo, hi)"
    and len: "length bytes = unat hi - unat lo" and same: "ft_header t = header"
  defines "f \<equiv> \<lparr> fo_bytes = sub bytes 0 (unat (seal_metadata_len seal)), fo_header = header, fo_limits = limits \<rparr>"
  shows "footer_decode L bytes header limits =
    (if ft_checksum t \<noteq> crc32c L (zeroed_footer bytes) then Err (SE_Corrupt ''footer identity, geometry, or checksum'')
     else if \<not> zero_between bytes (unat (seal_metadata_len seal)) (length bytes - FOOTER_TRAILER_LEN)
     then Err (SE_Corrupt ''footer padding'')
     else rbind (footer_walk L f (unat (seal_frame_count seal)) (fo_bytes f) (of_nat PAGE_SIZE)) (\<lambda>(remaining, offset).
       rbind (coverage seal remaining offset) (\<lambda>_. Ok f)))"
    and "FOOTER_TRAILER_LEN + unat (seal_metadata_len seal) \<le> length bytes"
proof -
  have geo: "seal_geometry (sh_segment_len header) seal" "FOOTER_TRAILER_LEN \<le> length bytes"
    using trailer_decode_facts [OF assms(2)] seal same by auto
  have n: "length bytes = footer_len (unat (seal_metadata_len seal))"
    using footer_range_len [OF seal geo(1)] range len by auto
  then show le: "FOOTER_TRAILER_LEN + unat (seal_metadata_len seal) \<le> length bytes" using footer_len_bounds(1) by simp
  have zero: "all_zero (sub bytes (unat (seal_metadata_len seal)) (length bytes - FOOTER_TRAILER_LEN - unat (seal_metadata_len seal)))
      \<longleftrightarrow> zero_between bytes (unat (seal_metadata_len seal)) (length bytes - FOOTER_TRAILER_LEN)"
    using le by (intro all_zero_sub) simp_all
  have ends: "get_to bytes (unat hi - unat lo) = Some bytes" using len by simp
  show "footer_decode L bytes header limits =
    (if ft_checksum t \<noteq> crc32c L (zeroed_footer bytes) then Err (SE_Corrupt ''footer identity, geometry, or checksum'')
     else if \<not> zero_between bytes (unat (seal_metadata_len seal)) (length bytes - FOOTER_TRAILER_LEN)
     then Err (SE_Corrupt ''footer padding'')
     else rbind (footer_walk L f (unat (seal_frame_count seal)) (fo_bytes f) (of_nat PAGE_SIZE)) (\<lambda>(remaining, offset).
       rbind (coverage seal remaining offset) (\<lambda>_. Ok f)))"
    using seal range ends assms(2) same footer_checksum_zeroed [OF assms(1) geo(2)] le zero
    by (simp add: footer_decode_def Let_def f_def coverage_rbind len [symmetric])
qed

text \<open>
  C11: The budgeted validator agrees with the complete decoder. For a footer of the length the
  header names, \<open>FooterValidator::new\<close> and repeated \<open>step\<close> either finish with acceptance, and
  then \<open>Footer::decode\<close> accepts, or stop with an error, and then \<open>Footer::decode\<close> gives an error
  too. The run takes at most one step per 64 KiB of footer, one per frame and one more; no step
  panics. The hypothesis on the library is the law of the incremental CRC.
\<close>

theorem footer_validator_agrees:
  assumes "crc_library L" and "sh_seal header = Some seal" and "footer_range header = Some (lo, hi)"
    and "length bytes = unat hi - unat lo"
  shows "case validator_new L bytes header limits of
      Ok v \<Rightarrow> \<exists>n. n \<le> length bytes div 65536 + 2 + unat (seal_frame_count seal)
        \<and> (validator_run L n v bytes = Ok True \<and> (\<exists>f. footer_decode L bytes header limits = Ok f)
           \<or> (\<exists>e e'. validator_run L n v bytes = Err e \<and> footer_decode L bytes header limits = Err e'))
    | Err e \<Rightarrow> \<exists>e'. footer_decode L bytes header limits = Err e'
    | Panic \<Rightarrow> False"
proof (cases "trailer_decode L bytes (sh_segment_len header)")
  case (Ok t)
  show ?thesis
  proof (cases "ft_header t = header")
    case True
    note dec = footer_decode_trailer [OF assms(1) Ok assms(2-4) True]
    have trailer: "FOOTER_TRAILER_LEN \<le> length bytes" using dec(2) by simp
    define v where "v = \<lparr> fv_header = header, fv_limits = limits, fv_checksum = crc_new L, fv_checked = 0, fv_metadata_at = 0,
          fv_frame_offset = of_nat PAGE_SIZE, fv_frames = 0, fv_expected = ft_checksum t, fv_checksum_done = False \<rparr>"
    have new: "validator_new L bytes header limits = Ok v" using Ok True by (simp add: validator_new_def v_def)
    have v: "sh_seal (fv_header v) = Some seal" "\<not> fv_checksum_done v" "fv_checked v < length bytes"
      "digest_of L (fv_checksum v) (take (fv_checked v) (zeroed_footer bytes))" "fv_checked v = 0"
      using assms(2) trailer by (auto simp: v_def FOOTER_TRAILER_LEN_def)
    obtain k d where k: "k * 65536 < length bytes + 65536" and run: "\<And>n. if checks_good L seal v bytes
        then validator_run L (k + n) v bytes = validator_run L n (checks_done v d bytes) bytes
        else \<exists>e. validator_run L (k + n) v bytes = Err e"
      using crc_library.checksum_phase [OF assms(1) trailer v(1-4)] unfolding v(5) by auto
    have steps: "k + Suc (unat (seal_frame_count seal)) \<le> length bytes div 65536 + 2 + unat (seal_frame_count seal)" using k by simp
    have good: "checks_good L seal v bytes \<longleftrightarrow> crc32c L (zeroed_footer bytes) = ft_checksum t
        \<and> zero_between bytes (unat (seal_metadata_len seal)) (length bytes - FOOTER_TRAILER_LEN)"
      by (auto simp: checks_good_def v_def)
    define f where "f = \<lparr> fo_bytes = sub bytes 0 (unat (seal_metadata_len seal)), fo_header = header, fo_limits = limits \<rparr>"
    have frames: "validator_run L (Suc (unat (seal_frame_count seal))) (checks_done v d bytes) bytes =
        rbind (footer_walk L f (unat (seal_frame_count seal)) (fo_bytes f) (of_nat PAGE_SIZE))
          (\<lambda>(remaining, offset). coverage seal remaining offset)"
      using frame_phase [of "checks_done v d bytes" seal bytes "unat (seal_frame_count seal)" f L] assms(2) trailer dec(2)
      by (simp add: checks_done_def v_def f_def)
    have "validator_run L n v bytes = Ok True \<and> (\<exists>f. footer_decode L bytes header limits = Ok f)
        \<or> (\<exists>e e'. validator_run L n v bytes = Err e \<and> footer_decode L bytes header limits = Err e')"
      if n: "n = k + Suc (unat (seal_frame_count seal))" for n
    proof (cases "checks_good L seal v bytes")
      case yes: True
      have "validator_run L n v bytes = rbind (footer_walk L f (unat (seal_frame_count seal)) (fo_bytes f) (of_nat PAGE_SIZE))
          (\<lambda>(remaining, offset). coverage seal remaining offset)"
        using run [of "Suc (unat (seal_frame_count seal))"] frames yes unfolding n by (simp only: if_True)
      then show ?thesis
        using good yes footer_walk_total [of L f "unat (seal_frame_count seal)" "fo_bytes f" "of_nat PAGE_SIZE"]
        unfolding dec(1) f_def [symmetric]
        by (cases "footer_walk L f (unat (seal_frame_count seal)) (fo_bytes f) (of_nat PAGE_SIZE)")
          (auto simp: coverage_rbind coverage_def split: if_splits)
    next
      case False
      then show ?thesis using run [of "Suc (unat (seal_frame_count seal))"] good unfolding dec(1) n by auto
    qed
    with steps show ?thesis unfolding new res.case by blast
  next
    case False
    have "footer_range header = Some (lo, hi)" "get_to bytes (unat hi - unat lo) = Some bytes" using assms(3,4) by simp_all
    moreover have "footer_checksum L bytes = Ok (crc32c L (zeroed_footer bytes))"
      using footer_checksum_zeroed [OF assms(1)] trailer_decode_facts [OF Ok] by simp
    ultimately show ?thesis using False Ok assms(2) by (simp add: validator_new_def footer_decode_def Let_def)
  qed
qed (use assms trailer_decode_total in \<open>auto simp: validator_new_def footer_decode_def Let_def\<close>)

theorem footer_validator_agrees_witness:
  "\<exists>b m bytes v n f. segment_reach rfc3720 sample_limits sample_segment b [m]
    \<and> validator_new rfc3720 bytes (sealed_header b) sample_limits = Ok v \<and> validator_run rfc3720 n v bytes = Ok True
    \<and> footer_decode rfc3720 bytes (sealed_header b) sample_limits = Ok f"
proof -
  obtain b m where b: "segment_reach rfc3720 sample_limits sample_segment b [m]" using sample_segment_reach by blast
  have ok: "segment_ok rfc3720 sample_limits b [m]" using segment_reach_ok [OF b] sample_segment_ok by simp
  let ?h = "sealed_header b" and ?bytes = "builder_footer rfc3720 b"
  note geo = builder_seal_geometry [OF ok]
  obtain lo hi where range: "footer_range ?h = Some (lo, hi)" "unat hi - unat lo = builder_footer_len b"
    using footer_range_len [of ?h "builder_seal b"] geo by (auto simp: builder_footer_len_def)
  have len: "length ?bytes = unat hi - unat lo"
    using ok range(2) by (simp add: length_footer_image builder_footer_len_def segment_ok_def)
  obtain f where dec: "footer_decode rfc3720 ?bytes ?h sample_limits = Ok f"
    using sealed_footer_decodes(1) [OF ok, of "[]"] by auto
  from footer_validator_agrees [OF rfc.crc_library_axioms _ range(1) len, of "builder_seal b" sample_limits] dec b
  show ?thesis by (cases "validator_new rfc3720 ?bytes ?h sample_limits") auto
qed

end
