(* ===== verification/Segment_Recovery.thy ===== *)
theory Segment_Recovery
  imports Segment_Validator
begin

text \<open>
  Frame-by-frame recovery of a segment (\<^verbatim>\<open>moat-engine/src/segment/recovery.rs\<close>). \<open>next_frame\<close>
  returns the scanner it leaves behind together with its result, since a failing call also
  changes the scanner. \<open>scan\<close> is the loop of a caller that holds the segment's bytes: it offers
  the bytes from the scanner's offset on until the scanner ends.
\<close>

section \<open>The scanner\<close>

record scanner =
  sc_header :: segment_header
  sc_limits :: frame_limits
  sc_offset :: u32
  sc_frame_count :: u32
  sc_metadata_len :: nat
  sc_done :: bool
  sc_tail_error :: "frame_error option"

definition scanner_new :: "segment_header \<Rightarrow> frame_limits \<Rightarrow> scanner" where
  "scanner_new header limits = \<lparr> sc_header = header, sc_limits = limits, sc_offset = of_nat PAGE_SIZE,
     sc_frame_count = 0, sc_metadata_len = 0, sc_done = False, sc_tail_error = None \<rparr>"

definition scanner_at_end :: "scanner \<Rightarrow> bool" where
  "scanner_at_end sc = (case sh_seal (sc_header sc) of
     Some seal \<Rightarrow> sc_offset sc = seal_data_end seal
   | None \<Rightarrow> unat (sc_offset sc) + PAGE_SIZE + footer_len (sc_metadata_len sc + MIN_FRAME_METADATA_LEN)
       > unat (sh_segment_len (sc_header sc)))"

definition scanner_position :: "scanner \<Rightarrow> frame_position option" where
  "scanner_position sc =
     (if sc_done sc \<or> scanner_at_end sc then None
      else (case segment_position (sc_header sc) (sc_offset sc) of Ok p \<Rightarrow> Some p | _ \<Rightarrow> None))"

definition scanner_candidate :: "'d crc_lib \<Rightarrow> scanner \<Rightarrow> byte list \<Rightarrow> (frame_error, frame) res" where
  "scanner_candidate L sc bytes =
     rbind (segment_position (sc_header sc) (sc_offset sc)) (\<lambda>position.
     rbind (frame_decode L bytes (sc_limits sc) position) (\<lambda>frame.
     let end = unat (sc_offset sc) + length (f_bytes frame);
         metadata_len = sc_metadata_len sc + length (fm_bytes (f_metadata frame)) in
     if end + footer_len metadata_len > unat (sh_segment_len (sc_header sc))
     then Err (FE_Corrupt ''frame leaves no room for the segment footer'') else
     case sh_seal (sc_header sc) of
       None \<Rightarrow> Ok frame
     | Some seal \<Rightarrow>
         let count = sc_frame_count sc + 1 in
         if count > seal_frame_count seal \<or> metadata_len > unat (seal_metadata_len seal)
            \<or> (end = unat (seal_data_end seal)
                \<and> (count \<noteq> seal_frame_count seal \<or> metadata_len \<noteq> unat (seal_metadata_len seal)))
            \<or> (end < unat (seal_data_end seal) \<and> count = seal_frame_count seal)
         then Err (FE_Corrupt ''frames disagree with sealed summary'') else Ok frame))"

fun unsupported :: "frame_error \<Rightarrow> bool" where
  "unsupported (FE_UnsupportedVersion v) = True"
| "unsupported _ = False"

definition advance :: "scanner \<Rightarrow> frame_metadata \<Rightarrow> nat \<Rightarrow> scanner" where
  "advance sc m n = sc \<lparr> sc_offset := sc_offset sc + of_nat n, sc_frame_count := sc_frame_count sc + 1,
     sc_metadata_len := sc_metadata_len sc + length (fm_bytes m) \<rparr>"

definition next_frame :: "'d crc_lib \<Rightarrow> scanner \<Rightarrow> byte list \<Rightarrow> scanner \<times> (segment_error, frame option) res" where
  "next_frame L sc bytes =
     (if sc_done sc then (sc, Ok None) else
      if scanner_at_end sc then (sc \<lparr> sc_done := True \<rparr>, Ok None) else
      case scanner_candidate L sc bytes of
        Ok frame \<Rightarrow> (advance sc (f_metadata frame) (length (f_bytes frame)), Ok (Some frame))
      | Err source \<Rightarrow>
          (let sc' = sc \<lparr> sc_done := True \<rparr> in
           if is_sealed (sc_header sc) \<or> unsupported source
           then (sc', Err (SE_Frame (sc_offset sc) source))
           else (sc' \<lparr> sc_tail_error := Some source \<rparr>, Ok None))
      | Panic \<Rightarrow> (sc, Panic))"

definition scanner_data_end :: "scanner \<Rightarrow> u32" where
  "scanner_data_end sc = sc_offset sc"

text \<open>The scan of a segment image; \<open>Ok False\<close> means that the steps did not suffice.\<close>

fun scan :: "'d crc_lib \<Rightarrow> nat \<Rightarrow> scanner \<Rightarrow> byte list \<Rightarrow> scanner \<times> frame list \<times> (segment_error, bool) res" where
  "scan L 0 sc seg = (sc, [], Ok False)"
| "scan L (Suc n) sc seg =
     (case next_frame L sc (drop (unat (sc_offset sc)) seg) of
        (sc', Ok None) \<Rightarrow> (sc', [], Ok True)
      | (sc', Ok (Some frame)) \<Rightarrow> (case scan L n sc' seg of (sc'', fs, r) \<Rightarrow> (sc'', frame # fs, r))
      | (sc', Err e) \<Rightarrow> (sc', [], Err e)
      | (sc', Panic) \<Rightarrow> (sc', [], Panic))"

section \<open>One frame\<close>

definition segment_end :: "segment_header \<Rightarrow> nat" where
  "segment_end h = unat (case sh_seal h of None \<Rightarrow> sh_segment_len h | Some seal \<Rightarrow> seal_data_end seal)"

lemma position_in_segment:
  assumes "is_aligned (segment_end h) PAGE_SIZE" and "is_aligned off PAGE_SIZE" and "PAGE_SIZE \<le> off" and "off < segment_end h"
  shows "segment_position h (of_nat off) = Ok (sealed_position h off)"
    and "unat (fp_available (sealed_position h off)) = segment_end h - off"
proof -
  have off: "unat (of_nat off :: u32) = off"
    using assms(4) u32_less by (intro unat_u32) (auto simp: segment_end_def intro: less_trans)
  show av: "unat (fp_available (sealed_position h off)) = segment_end h - off"
    using assms(4) off by (cases "sh_seal h") (simp_all add: sealed_position_def segment_end_def unat_sub word_le_nat_alt)
  show "segment_position h (of_nat off) = Ok (sealed_position h off)"
    unfolding segment_position_iff Let_def using assms av off by (simp add: sealed_position_def segment_end_def)
qed

lemma frame_decode_facts:
  assumes "frame_decode L input limits p = Ok f"
  shows "metadata_decode L input limits p = Ok (f_metadata f)" "length (f_bytes f) = frame_len (fm_header (f_metadata f))"
    "fm_bytes (f_metadata f) = take (length (fm_bytes (f_metadata f))) input"
  using assms by (auto simp: frame_decode_def rbind_Ok_iff get_to_Some_iff metadata_decode_iff)

lemma record_rebind: "metadata_record (rebind q m) i = metadata_record m i"
  by (simp add: metadata_record_def decode_descriptor_def rebind_def)

lemma frame_decode_rebind:
  assumes dec: "frame_decode L input limits p = Ok f"
    and same: "fp_segment_seq q = fp_segment_seq p" "fp_offset q = fp_offset p"
    and room: "frame_len (fm_header (f_metadata f)) \<le> unat (fp_available q)"
  shows "frame_decode L input limits q = Ok (f \<lparr> f_metadata := rebind q (f_metadata f) \<rparr>)"
proof -
  note facts = frame_decode_facts [OF dec]
  have "metadata_decode L (fm_bytes (f_metadata f) @ drop (length (fm_bytes (f_metadata f))) input) limits q = Ok (rebind q (f_metadata f))"
    by (rule metadata_decode_rebind [OF facts(1) same room])
  then have "metadata_decode L input limits q = Ok (rebind q (f_metadata f))" using facts(3) by (metis append_take_drop_id)
  moreover have "verify_records L (rebind q m) bytes is = verify_records L m bytes is" for m bytes "is"
    by (induction "is") (simp_all add: record_rebind)
  ultimately show ?thesis using dec by (auto simp: frame_decode_def rbind_Ok_iff)
qed

section \<open>Recovering stored frames\<close>

text \<open>The segment holds the frames \<open>ms\<close> back to back from \<open>off\<close> on.\<close>

fun stored :: "'d crc_lib \<Rightarrow> frame_limits \<Rightarrow> byte list \<Rightarrow> nat \<Rightarrow> frame_metadata list \<Rightarrow> bool" where
  "stored L limits seg off [] \<longleftrightarrow> True"
| "stored L limits seg off (m # ms) \<longleftrightarrow>
     (\<exists>p f. frame_decode L (drop off seg) limits p = Ok f \<and> f_metadata f = m)
     \<and> stored L limits seg (off + frame_len (fm_header m)) ms"

text \<open>
  Room for the frames \<open>ms\<close> after \<open>k\<close> frames with \<open>ml\<close> bytes of metadata: an active segment keeps
  room for the footer, a sealed one holds exactly the frames its seal announces.
\<close>

definition room :: "segment_header \<Rightarrow> nat \<Rightarrow> nat \<Rightarrow> frame_metadata list \<Rightarrow> nat \<Rightarrow> bool" where
  "room h k ml ms off' \<longleftrightarrow>
     is_aligned (segment_end h) PAGE_SIZE
     \<and> off' + footer_len (ml + length (concat (map fm_bytes ms))) \<le> unat (sh_segment_len h)
     \<and> (case sh_seal h of None \<Rightarrow> True | Some seal \<Rightarrow> off' = unat (seal_data_end seal)
         \<and> k + length ms = unat (seal_frame_count seal)
         \<and> ml + length (concat (map fm_bytes ms)) = unat (seal_metadata_len seal))"

definition scanner_at :: "scanner \<Rightarrow> segment_header \<Rightarrow> frame_limits \<Rightarrow> nat \<Rightarrow> nat \<Rightarrow> nat \<Rightarrow> bool" where
  "scanner_at sc h limits off k ml \<longleftrightarrow> sc_header sc = h \<and> sc_limits sc = limits \<and> unat (sc_offset sc) = off
     \<and> unat (sc_frame_count sc) = k \<and> k * PAGE_SIZE \<le> off \<and> sc_metadata_len sc = ml \<and> \<not> sc_done sc \<and> sc_tail_error sc = None"

lemma room_head:
  assumes chain: "frame_chain L limits seq off (m # ms) off'" and "room h k ml (m # ms) off'"
  defines "off1 \<equiv> off + frame_len (fm_header m)" and "ml1 \<equiv> ml + length (fm_bytes m)"
  shows "room h (Suc k) ml1 ms off'" "off1 \<le> off'" "off1 \<le> segment_end h" "off1 + footer_len ml1 \<le> unat (sh_segment_len h)"
    "sh_seal h = Some seal \<Longrightarrow> Suc k \<le> unat (seal_frame_count seal) \<and> ml1 \<le> unat (seal_metadata_len seal)
      \<and> (off1 = unat (seal_data_end seal) \<longrightarrow> Suc k = unat (seal_frame_count seal) \<and> ml1 = unat (seal_metadata_len seal))
      \<and> (off1 < unat (seal_data_end seal) \<longrightarrow> Suc k \<noteq> unat (seal_frame_count seal))"
proof -
  note head = frame_chain_head [OF chain]
  note bounds = frame_chain_bounds [OF head(7)] and whole = frame_chain_bounds [OF chain]
  show "room h (Suc k) ml1 ms off'" using assms(2) by (auto simp: room_def ml1_def add.assoc split: option.splits)
  show le: "off1 \<le> off'" using bounds by (simp add: off1_def)
  have "footer_len ml1 \<le> footer_len (ml + length (concat (map fm_bytes (m # ms))))"
    by (rule footer_len_mono) (simp add: ml1_def)
  then show "off1 + footer_len ml1 \<le> unat (sh_segment_len h)" using assms(2) le by (simp add: room_def)
  then show "off1 \<le> segment_end h"
    using assms(2) le by (cases "sh_seal h") (auto simp: room_def segment_end_def)
  have nil: "off1 = off' \<longleftrightarrow> ms = []"
  proof
    assume "off1 = off'"
    then have "length ms * PAGE_SIZE = 0" using bounds by (simp add: off1_def)
    then show "ms = []" by (simp add: PAGE_SIZE_def)
  qed (use head(7) in \<open>simp add: off1_def\<close>)
  show "sh_seal h = Some seal \<Longrightarrow> Suc k \<le> unat (seal_frame_count seal) \<and> ml1 \<le> unat (seal_metadata_len seal)
      \<and> (off1 = unat (seal_data_end seal) \<longrightarrow> Suc k = unat (seal_frame_count seal) \<and> ml1 = unat (seal_metadata_len seal))
      \<and> (off1 < unat (seal_data_end seal) \<longrightarrow> Suc k \<noteq> unat (seal_frame_count seal))"
    using assms(2) nil by (auto simp: room_def ml1_def simp flip: length_0_conv)
qed

lemma next_frame_stored:
  assumes chain: "frame_chain L limits (sid_sequence (sh_id h)) off (m # ms) off'" and room: "room h k ml (m # ms) off'"
    and at: "scanner_at sc h limits off k ml" and off: "is_aligned off PAGE_SIZE" "PAGE_SIZE \<le> off"
    and stored: "stored L limits seg off (m # ms)"
  shows "\<exists>f. next_frame L sc (drop (unat (sc_offset sc)) seg) = (advance sc m (frame_len (fm_header m)), Ok (Some f))
      \<and> f_metadata f = rebind (sealed_position h off) m"
    and "scanner_at (advance sc m (frame_len (fm_header m))) h limits (off + frame_len (fm_header m)) (Suc k) (ml + length (fm_bytes m))"
proof -
  note head = frame_chain_head [OF chain] and rm = room_head [OF chain room]
  have sc: "sc_header sc = h" "sc_limits sc = limits" "unat (sc_offset sc) = off" "unat (sc_frame_count sc) = k"
    "sc_metadata_len sc = ml" "\<not> sc_done sc" "sc_offset sc = of_nat off" "k * PAGE_SIZE \<le> off"
    using at by (auto simp: scanner_at_def)
  have less: "off < segment_end h" using rm(3) head(1) PAGE_SIZE_pos by linarith
  note pos = position_in_segment [OF _ off less]
  have al: "is_aligned (segment_end h) PAGE_SIZE" using room by (simp add: room_def)
  have small: "off + frame_len (fm_header m) < 2 ^ 32" using rm(4) u32_less [of "sh_segment_len h"] by linarith
  have "Suc k * PAGE_SIZE < 2 ^ 32" using sc(8) head(1) small by simp
  then have k: "unat (sc_frame_count sc + 1) = Suc k" using sc(4) by (simp add: PAGE_SIZE_def unat_word_ariths)
  from stored obtain p f where f: "frame_decode L (drop off seg) limits p = Ok f" "f_metadata f = m" by auto
  from chain obtain input p' where p': "metadata_decode L input limits p' = Ok m" "fp_segment_seq p' = sid_sequence (sh_id h)" "unat (fp_offset p') = off"
    by auto
  have "p' = p" using metadata_decode_facts(1) [OF p'(1)] metadata_decode_facts(1) [OF frame_decode_facts(1) [OF f(1)]] f(2) by simp
  then have "frame_decode L (drop off seg) limits (sealed_position h off) = Ok (f \<lparr> f_metadata := rebind (sealed_position h off) m \<rparr>)"
    using p'(2,3) rm(3) pos(2) [OF al] f(2)
    by (subst frame_decode_rebind [OF f(1)]) (auto simp: sealed_position_def word_unat_eq_iff sc(3) sc(7) [symmetric])
  moreover have "length (f_bytes f) = frame_len (fm_header m)" using frame_decode_facts(2) [OF f(1)] f(2) by simp
  moreover have eq: "sc_frame_count sc + 1 = c \<longleftrightarrow> Suc k = unat c" "c < sc_frame_count sc + 1 \<longleftrightarrow> unat c < Suc k" for c
    using k by (simp_all add: word_unat_eq_iff word_less_nat_alt)
  moreover have "segment_position h (sc_offset sc) = Ok (sealed_position h off)" using pos(1) [OF al] sc(7) by simp
  ultimately have cand: "scanner_candidate L sc (drop off seg) = Ok (f \<lparr> f_metadata := rebind (sealed_position h off) m \<rparr>)"
    using sc(1-6) rm(4,5) by (cases "sh_seal h") (auto simp: scanner_candidate_def Let_def not_less)
  have "footer_len (ml + MIN_FRAME_METADATA_LEN) \<le> footer_len (ml + length (fm_bytes m))" using head(3) by (intro footer_len_mono) simp
  then have "\<not> scanner_at_end sc"
    using sc(1-6) less head(1) rm(4) by (cases "sh_seal h") (auto simp: scanner_at_end_def segment_end_def)
  then show "\<exists>f. next_frame L sc (drop (unat (sc_offset sc)) seg) = (advance sc m (frame_len (fm_header m)), Ok (Some f))
      \<and> f_metadata f = rebind (sealed_position h off) m"
    using cand sc(3,6) \<open>length (f_bytes f) = _\<close> by (simp add: next_frame_def advance_def)
  have "unat (sc_offset sc + of_nat (frame_len (fm_header m))) = off + frame_len (fm_header m)"
    using sc(3) small head(6) by (simp add: unat_word_ariths unat_of_nat)
  then show "scanner_at (advance sc m (frame_len (fm_header m))) h limits (off + frame_len (fm_header m)) (Suc k) (ml + length (fm_bytes m))"
    using at k head(1) by (simp add: scanner_at_def advance_def)
qed

lemma scan_stored:
  assumes "frame_chain L limits (sid_sequence (sh_id h)) off ms off'" and "room h k ml ms off'"
    and "scanner_at sc h limits off k ml" and "is_aligned off PAGE_SIZE" and "PAGE_SIZE \<le> off" and "stored L limits seg off ms"
  shows "\<exists>sc' fs. scanner_at sc' h limits off' (k + length ms) (ml + length (concat (map fm_bytes ms)))
    \<and> map f_metadata fs = rebind_all h off ms
    \<and> (\<forall>n. scan L (length ms + n) sc seg = (case scan L n sc' seg of (sc'', fs', r) \<Rightarrow> (sc'', fs @ fs', r)))"
  using assms
proof (induction ms arbitrary: off k ml sc)
  case Nil
  then show ?case by (intro exI [of _ sc] exI [of _ "[]"]) (auto split: prod.splits)
next
  case (Cons m ms)
  note head = frame_chain_head [OF Cons.prems(1)]
  obtain f where f: "next_frame L sc (drop (unat (sc_offset sc)) seg) = (advance sc m (frame_len (fm_header m)), Ok (Some f))"
    "f_metadata f = rebind (sealed_position h off) m"
    using next_frame_stored(1) [OF Cons.prems] by blast
  have "is_aligned (off + frame_len (fm_header m)) PAGE_SIZE" "PAGE_SIZE \<le> off + frame_len (fm_header m)"
    "stored L limits seg (off + frame_len (fm_header m)) ms"
    using Cons.prems(4-6) head(2) by (auto simp: is_aligned_add)
  from Cons.IH [OF head(7) room_head(1) [OF Cons.prems(1,2)] next_frame_stored(2) [OF Cons.prems] this]
  obtain sc' fs where sc': "scanner_at sc' h limits off' (Suc k + length ms) (ml + length (fm_bytes m) + length (concat (map fm_bytes ms)))"
    and fs: "map f_metadata fs = rebind_all h (off + frame_len (fm_header m)) ms"
    and run: "\<And>n. scan L (length ms + n) (advance sc m (frame_len (fm_header m))) seg =
      (case scan L n sc' seg of (sc'', fs', r) \<Rightarrow> (sc'', fs @ fs', r))" by blast
  have "scan L (length (m # ms) + n) sc seg = (case scan L n sc' seg of (sc'', fs', r) \<Rightarrow> (sc'', (f # fs) @ fs', r))" for n
    using f(1) run [of n] by (simp split: prod.splits)
  then show ?case using sc' fs f(2) by (intro exI [of _ sc'] exI [of _ "f # fs"]) (simp add: add.assoc)
qed

section \<open>Scanning an arbitrary segment\<close>

definition header_ok :: "segment_header \<Rightarrow> bool" where
  "header_ok h \<longleftrightarrow> segment_geometry h \<and> (\<forall>seal. sh_seal h = Some seal \<longrightarrow> seal_geometry (sh_segment_len h) seal)"

definition scan_inv :: "segment_header \<Rightarrow> nat \<Rightarrow> nat \<Rightarrow> nat \<Rightarrow> bool" where
  "scan_inv h off k ml \<longleftrightarrow> is_aligned off PAGE_SIZE \<and> PAGE_SIZE \<le> off \<and> off \<le> segment_end h
     \<and> off + footer_len ml \<le> unat (sh_segment_len h)
     \<and> (\<forall>seal. sh_seal h = Some seal \<and> off = unat (seal_data_end seal) \<longrightarrow>
          k = unat (seal_frame_count seal) \<and> ml = unat (seal_metadata_len seal))"

lemma header_ok_aligned: "header_ok h \<Longrightarrow> is_aligned (segment_end h) PAGE_SIZE"
  by (auto simp: header_ok_def segment_geometry_def seal_geometry_def segment_end_def split: option.splits)

lemma scan_inv_start:
  assumes "header_ok h"
  shows "scan_inv h PAGE_SIZE 0 0" "scanner_at (scanner_new h limits) h limits PAGE_SIZE 0 0"
proof -
  show "scan_inv h PAGE_SIZE 0 0"
  proof (cases "sh_seal h")
    case None
    then show ?thesis using assms by (auto simp: header_ok_def scan_inv_def segment_end_def segment_geometry_def footer_len_0) (simp add: is_aligned_def)
  next
    case (Some seal)
    have "footer_len 0 \<le> footer_len (unat (seal_metadata_len seal))" by (rule footer_len_mono) simp
    then show ?thesis
      using assms Some by (auto simp: header_ok_def scan_inv_def segment_end_def seal_geometry_def) (auto simp: is_aligned_def)
  qed
  show "scanner_at (scanner_new h limits) h limits PAGE_SIZE 0 0" by (simp add: scanner_at_def scanner_new_def)
qed

lemma candidate_frame:
  assumes cand: "scanner_candidate L sc bytes = Ok f" and at: "scanner_at sc h limits off k ml" and inv: "scan_inv h off k ml"
    and ok: "header_ok h"
  defines "m \<equiv> f_metadata f"
  shows "frame_chain L limits (sid_sequence (sh_id h)) off [m] (off + frame_len (fm_header m))"
    "scanner_at (advance sc m (length (f_bytes f))) h limits (off + frame_len (fm_header m)) (Suc k) (ml + length (fm_bytes m))"
    "scan_inv h (off + frame_len (fm_header m)) (Suc k) (ml + length (fm_bytes m))"
proof -
  have sc: "sc_header sc = h" "sc_limits sc = limits" "unat (sc_offset sc) = off" "unat (sc_frame_count sc) = k"
    "sc_metadata_len sc = ml" "k * PAGE_SIZE \<le> off"
    using at by (auto simp: scanner_at_def)
  from cand obtain p where p: "segment_position h (sc_offset sc) = Ok p" and dec: "frame_decode L bytes limits p = Ok f"
    and fits: "off + length (f_bytes f) + footer_len (ml + length (fm_bytes m)) \<le> unat (sh_segment_len h)"
    and summary: "\<And>seal. sh_seal h = Some seal \<Longrightarrow> off + length (f_bytes f) = unat (seal_data_end seal) \<Longrightarrow>
       sc_frame_count sc + 1 = seal_frame_count seal \<and> ml + length (fm_bytes m) = unat (seal_metadata_len seal)"
    using sc by (auto simp: scanner_candidate_def rbind_Ok_iff Let_def m_def not_less split: if_splits option.splits)
  note facts = frame_decode_facts [OF dec] and md = metadata_decode_facts [OF frame_decode_facts(1) [OF dec]]
  have pos: "fp_segment_seq p = sid_sequence (sh_id h)" "unat (fp_offset p) = off" "unat (fp_available p) = segment_end h - off" "off < segment_end h"
    using p sc(3) by (auto simp: segment_position_iff Let_def segment_end_def)
  show chain: "frame_chain L limits (sid_sequence (sh_id h)) off [m] (off + frame_len (fm_header m))"
    using facts(1) pos by (auto simp: m_def)
  note head = frame_chain_head [OF chain]
  have len: "length (f_bytes f) = frame_len (fm_header m)" using facts(2) by (simp add: m_def)
  have avail: "frame_len (fm_header m) \<le> segment_end h - off"
    using frame_header_decode_ok(2,3) facts(1) pos(3) by (fastforce simp: metadata_decode_iff m_def frame_header_ok_def word_le_nat_alt frame_len_def)
  have small: "off + frame_len (fm_header m) < 2 ^ 32" using fits len u32_less [of "sh_segment_len h"] by linarith
  have "Suc k * PAGE_SIZE < 2 ^ 32" using sc(6) head(1) small by simp
  then have k: "unat (sc_frame_count sc + 1) = Suc k" using sc(4) by (simp add: PAGE_SIZE_def unat_word_ariths)
  have "unat (sc_offset sc + of_nat (frame_len (fm_header m))) = off + frame_len (fm_header m)"
    using sc(3) small head(6) by (simp add: unat_word_ariths unat_of_nat)
  then show "scanner_at (advance sc m (length (f_bytes f))) h limits (off + frame_len (fm_header m)) (Suc k) (ml + length (fm_bytes m))"
    using at k head(1) len by (simp add: scanner_at_def advance_def)
  have "sh_seal h = Some seal \<Longrightarrow> off + frame_len (fm_header m) = unat (seal_data_end seal) \<Longrightarrow>
      Suc k = unat (seal_frame_count seal) \<and> ml + length (fm_bytes m) = unat (seal_metadata_len seal)" for seal
    using summary [of seal] k len by auto
  then show "scan_inv h (off + frame_len (fm_header m)) (Suc k) (ml + length (fm_bytes m))"
    using inv fits avail pos(4) head(1,2) len by (auto simp: scan_inv_def is_aligned_add)
qed

lemma scanner_candidate_total: "scanner_candidate L sc bytes \<noteq> Panic"
  using frame_decode_total by (auto simp: scanner_candidate_def rbind_Panic_iff Let_def split: if_splits option.splits)

lemma next_frame_cases:
  assumes at: "scanner_at sc h limits off k ml"
  obtains (finished) sc' where "next_frame L sc bytes = (sc', Ok None)" "sc_offset sc' = sc_offset sc"
      "\<And>seal. sh_seal h = Some seal \<Longrightarrow> off = unat (seal_data_end seal)"
  | (failed) sc' e where "next_frame L sc bytes = (sc', Err (SE_Frame (sc_offset sc) e))" "sc_offset sc' = sc_offset sc"
      "is_sealed h \<or> unsupported e"
  | (frame) f where "next_frame L sc bytes = (advance sc (f_metadata f) (length (f_bytes f)), Ok (Some f))"
      "scanner_candidate L sc bytes = Ok f"
proof (cases "scanner_at_end sc")
  case True
  show thesis
    by (rule finished [of "sc \<lparr> sc_done := True \<rparr>"]) (use True at in \<open>auto simp: next_frame_def scanner_at_def scanner_at_end_def\<close>)
next
  case False
  show thesis
  proof (cases "scanner_candidate L sc bytes")
    case (Ok f)
    then show thesis using False at by (intro frame [of f]) (auto simp: next_frame_def scanner_at_def)
  next
    case (Err e)
    show thesis
    proof (cases "is_sealed h \<or> unsupported e")
      case True
      then show thesis using False Err at by (intro failed [of "sc \<lparr> sc_done := True \<rparr>" e]) (auto simp: next_frame_def scanner_at_def)
    next
      case no: False
      then show thesis
        using False Err at
        by (intro finished [of "sc \<lparr> sc_done := True, sc_tail_error := Some e \<rparr>"]) (auto simp: next_frame_def scanner_at_def is_sealed_def)
    qed
  qed (use scanner_candidate_total in blast)
qed

definition scan_result ::
  "'d crc_lib \<Rightarrow> frame_limits \<Rightarrow> segment_header \<Rightarrow> nat \<Rightarrow> nat \<Rightarrow> nat \<Rightarrow> scanner \<times> frame list \<times> (segment_error, bool) res \<Rightarrow> bool" where
  "scan_result L limits h off k ml out \<longleftrightarrow> (case out of (sc, fs, r) \<Rightarrow>
     let ms = map f_metadata fs; total = ml + length (concat (map fm_bytes ms)) in
     frame_chain L limits (sid_sequence (sh_id h)) off ms (unat (sc_offset sc))
     \<and> unat (sc_offset sc) + footer_len total \<le> unat (sh_segment_len h)
     \<and> (r = Ok True \<and> (\<forall>seal. sh_seal h = Some seal \<longrightarrow> unat (sc_offset sc) = unat (seal_data_end seal)
           \<and> k + length ms = unat (seal_frame_count seal) \<and> total = unat (seal_metadata_len seal))
        \<or> (\<exists>e. r = Err (SE_Frame (sc_offset sc) e) \<and> (is_sealed h \<or> unsupported e))))"

lemma scan_run:
  assumes "scanner_at sc h limits off k ml" and "scan_inv h off k ml" and "header_ok h" and "segment_end h < off + n * PAGE_SIZE"
  shows "scan_result L limits h off k ml (scan L n sc seg)"
  using assms
proof (induction n arbitrary: sc off k ml)
  case 0
  then show ?case by (simp add: scan_inv_def)
next
  case (Suc n)
  have off: "unat (sc_offset sc) = off" using Suc.prems(1) by (simp add: scanner_at_def)
  have inv: "off + footer_len ml \<le> unat (sh_segment_len h)" "\<And>seal. sh_seal h = Some seal \<Longrightarrow> off = unat (seal_data_end seal) \<Longrightarrow>
      k = unat (seal_frame_count seal) \<and> ml = unat (seal_metadata_len seal)"
    using Suc.prems(2) by (auto simp: scan_inv_def)
  from Suc.prems(1) show ?case
  proof (cases rule: next_frame_cases [where L = L and bytes = "drop (unat (sc_offset sc)) seg"])
    case (finished sc')
    then show ?thesis using inv off by (auto simp: scan_result_def)
  next
    case (failed sc' e)
    then show ?thesis using inv off by (auto simp: scan_result_def)
  next
    case (frame f)
    let ?m = "f_metadata f"
    note step = candidate_frame [OF frame(2) Suc.prems(1-3)]
    have "segment_end h < off + frame_len (fm_header ?m) + n * PAGE_SIZE"
      using Suc.prems(4) frame_chain_head(1) [OF step(1)] by simp
    from Suc.IH [OF step(2,3) Suc.prems(3) this]
    have IH: "scan_result L limits h (off + frame_len (fm_header ?m)) (Suc k) (ml + length (fm_bytes ?m))
        (scan L n (advance sc ?m (length (f_bytes f))) seg)" .
    then show ?thesis
      using frame(1) step(1)
      by (auto simp: scan_result_def Let_def add.assoc split: prod.splits)
  qed
qed

section \<open>Recovery\<close>


text \<open>
  C5: Recovery finds what was written. Take a segment builder reached by accepted frames and the
  bytes of a segment that hold these frames. A scan with the sealed header yields exactly these
  frames and ends without an error. A scan with the active header yields them first; it yields
  nothing else and ends at the builder's data end when the bytes there are rejected.
\<close>

theorem recovery_complete:
  assumes "segment_header_new sid len = Ok header" and "id_ok sid" and "segment_reach L limits header b ms"
    and "stored L limits seg PAGE_SIZE ms"
  shows "(\<exists>sc fs. scan L (Suc (length ms)) (scanner_new (sealed_header b) limits) seg = (sc, fs, Ok True)
      \<and> map f_metadata fs = rebind_all (sealed_header b) PAGE_SIZE ms)
    \<and> (\<exists>sc fs. map f_metadata fs = rebind_all header PAGE_SIZE ms
      \<and> (\<forall>n. \<exists>sc' rest r. scan L (length ms + n) (scanner_new header limits) seg = (sc', fs @ rest, r))
      \<and> ((\<forall>p. segment_position header (sb_data_end b) = Ok p \<longrightarrow>
            (\<exists>e. frame_decode L (drop (unat (sb_data_end b)) seg) limits p = Err e \<and> \<not> unsupported e)) \<longrightarrow>
          scan L (Suc (length ms)) (scanner_new header limits) seg = (sc, fs, Ok True) \<and> scanner_data_end sc = sb_data_end b))"
proof -
  have ok: "segment_ok L limits b ms" "sb_header b = header" and hdr: "sh_seal header = None" "segment_geometry header"
    using segment_reach_ok [OF assms(3)] assms(1,2) by (auto simp: segment_header_new_iff)
  let ?stop = "unat (sb_data_end b)" and ?total = "length (concat (map fm_bytes ms))"
  note geo = builder_seal_geometry [OF ok(1)]
  have chain: "frame_chain L limits (sid_sequence (sh_id header)) PAGE_SIZE ms ?stop"
    and fits: "?stop + footer_len ?total \<le> unat (sh_segment_len header)"
    and count: "unat (sb_frame_count b) = length ms" "length (sb_metadata b) = ?total"
    using ok by (auto simp: segment_ok_def builder_footer_len_def)
  have start: "is_aligned PAGE_SIZE PAGE_SIZE" "PAGE_SIZE \<le> PAGE_SIZE" by (simp_all add: is_aligned_def)
  have at: "scanner_at (scanner_new h limits) h limits PAGE_SIZE 0 0" for h by (simp add: scanner_at_def scanner_new_def)
  have rooms: "room header 0 0 ms ?stop" "room (sealed_header b) 0 0 ms ?stop"
    using fits hdr geo count ok(2) by (auto simp: room_def segment_end_def segment_geometry_def seal_geometry_def)
  have chain': "frame_chain L limits (sid_sequence (sh_id (sealed_header b))) PAGE_SIZE ms ?stop" using chain ok(2) by simp
  from scan_stored [OF chain' rooms(2) at start assms(4)] obtain sc fs where sc: "scanner_at sc (sealed_header b) limits ?stop (length ms) ?total"
    and fs: "map f_metadata fs = rebind_all (sealed_header b) PAGE_SIZE ms"
    and run: "\<And>n. scan L (length ms + n) (scanner_new (sealed_header b) limits) seg = (case scan L n sc seg of (sc'', fs', r) \<Rightarrow> (sc'', fs @ fs', r))"
    by auto
  have "scanner_at_end sc" "\<not> sc_done sc" using sc by (auto simp: scanner_at_def scanner_at_end_def word_unat_eq_iff)
  then have sealed: "\<exists>sc. scan L (Suc (length ms)) (scanner_new (sealed_header b) limits) seg = (sc, fs, Ok True)"
    using run [of 1] by (simp add: next_frame_def)
  from scan_stored [OF chain rooms(1) at start assms(4)] obtain sa fa where sa: "scanner_at sa header limits ?stop (length ms) ?total"
    and fa: "map f_metadata fa = rebind_all header PAGE_SIZE ms"
    and runa: "\<And>n. scan L (length ms + n) (scanner_new header limits) seg = (case scan L n sa seg of (sc'', fs', r) \<Rightarrow> (sc'', fa @ fs', r))"
    by auto
  have prefix: "\<exists>sc' rest r. scan L (length ms + n) (scanner_new header limits) seg = (sc', fa @ rest, r)" for n
    using runa [of n] by (cases "scan L n sa seg") auto
  have tail: "\<exists>sc. scan L (Suc (length ms)) (scanner_new header limits) seg = (sc, fa, Ok True) \<and> scanner_data_end sc = sb_data_end b"
    if bad: "\<forall>p. segment_position header (sb_data_end b) = Ok p \<longrightarrow>
            (\<exists>e. frame_decode L (drop ?stop seg) limits p = Err e \<and> \<not> unsupported e)"
  proof -
    have sa': "sc_header sa = header" "sc_limits sa = limits" "sc_offset sa = sb_data_end b" "\<not> sc_done sa"
      using sa by (auto simp: scanner_at_def word_unat_eq_iff)
    have "\<exists>e. scanner_candidate L sa (drop ?stop seg) = Err e \<and> \<not> unsupported e"
    proof (cases "segment_position header (sb_data_end b)")
      case (Err e)
      then have "\<not> unsupported e" by (auto simp: segment_position_def frame_position_new_def Let_def split: if_splits)
      then show ?thesis using Err sa' by (simp add: scanner_candidate_def)
    qed (use bad sa' in \<open>auto simp: scanner_candidate_def\<close>)
    then show ?thesis
      using sa' runa [of 1] hdr(1) by (cases "scanner_at_end sa") (auto simp: next_frame_def Let_def is_sealed_def scanner_data_end_def)
  qed
  show ?thesis using sealed fs fa prefix tail by blast
qed

theorem recovery_complete_witness:
  "\<exists>b m seg sc fs. segment_reach rfc3720 sample_limits sample_segment b [m] \<and> stored rfc3720 sample_limits seg PAGE_SIZE [m]
    \<and> scan rfc3720 2 (scanner_new (sealed_header b) sample_limits) seg = (sc, fs, Ok True) \<and> length fs = 1"
proof -
  obtain b m bytes f where b: "segment_reach rfc3720 sample_limits sample_segment b [m]"
    and f: "frame_decode rfc3720 bytes sample_limits sample_position = Ok f" "f_metadata f = m"
    using sample_segment_frame by blast
  have st: "stored rfc3720 sample_limits (replicate PAGE_SIZE 0 @ bytes) PAGE_SIZE [m]" using f by auto
  obtain sc fs where "scan rfc3720 (Suc (length [m])) (scanner_new (sealed_header b) sample_limits) (replicate PAGE_SIZE 0 @ bytes) = (sc, fs, Ok True)"
    "map f_metadata fs = rebind_all (sealed_header b) PAGE_SIZE [m]"
    using recovery_complete [OF sample_segment_new sample_segment_ok(1) b st] by blast
  moreover from this(2) have "length fs = 1" by (metis length_map length_rebind_all length_Cons list.size(3) One_nat_def)
  moreover have "Suc (length [m]) = 2" by simp
  ultimately show ?thesis using b st by metis
qed


end
