(* ===== verification/Index.thy ===== *)
theory Index
  imports Segment_Recovery "HOL-Library.Multiset"
begin

text \<open>
  The in-memory index (\<^verbatim>\<open>moat-engine/src/pipeline/index.rs\<close>): one location per key, replaced only
  by a location with a larger sequence number, and the keys in the order of their first
  appearance. Publication happens in completion order, which need not be the order of the
  sequence numbers; the theorems say that the index does not depend on it.
\<close>

section \<open>The model\<close>

record location =
  loc_segment :: u32
  loc_frame_offset :: u32
  loc_frame_len :: u32
  loc_metadata_len :: u32
  loc_ordinal :: u32
  loc_lsn :: u64
  loc_value_offset :: u32
  loc_value_len :: u32
  loc_kind :: record_kind

type_synonym index_map = "chunk_id \<rightharpoonup> location"

definition location_of :: "frame_header \<Rightarrow> u32 \<Rightarrow> nat \<Rightarrow> record_descriptor \<Rightarrow> location" where
  "location_of header segment ordinal d =
     \<lparr> loc_segment = segment, loc_frame_offset = fp_offset (fh_position header),
       loc_frame_len = of_nat (frame_len header), loc_metadata_len = of_nat (frame_metadata_len header),
       loc_ordinal = of_nat ordinal, loc_lsn = rd_lsn d, loc_value_offset = rd_value_offset d,
       loc_value_len = rd_value_len d, loc_kind = rd_kind d \<rparr>"

definition entries_of :: "frame_metadata \<Rightarrow> u32 \<Rightarrow> (frame_error, (chunk_id \<times> location) list) res" where
  "entries_of m segment =
     rbind (metadata_records m) (\<lambda>records.
       Ok (map (\<lambda>(ordinal, record). (rd_key (fr_descriptor record),
                 location_of (fm_header m) segment ordinal (fr_descriptor record)))
            (enumerate 0 records)))"

fun index_apply :: "index_map \<times> chunk_id list \<Rightarrow> (chunk_id \<times> location) list \<Rightarrow> index_map \<times> chunk_id list" where
  "index_apply (ix, keys) [] = (ix, keys)"
| "index_apply (ix, keys) ((key, loc) # rest) =
     (case ix key of
        Some old \<Rightarrow> index_apply (if loc_lsn loc > loc_lsn old then ix(key \<mapsto> loc) else ix, keys) rest
      | None \<Rightarrow> index_apply (ix(key \<mapsto> loc), keys @ [key]) rest)"

section \<open>The newest version\<close>

definition newest :: "(chunk_id \<times> location) list \<Rightarrow> index_map \<Rightarrow> bool" where
  "newest es ix \<longleftrightarrow> (\<forall>k. case ix k of
     None \<Rightarrow> k \<notin> fst ` set es
   | Some loc \<Rightarrow> (k, loc) \<in> set es \<and> (\<forall>loc'. (k, loc') \<in> set es \<longrightarrow> loc_lsn loc' \<le> loc_lsn loc))"

lemma newestD:
  assumes "newest es ix"
  shows "ix k = None \<longleftrightarrow> k \<notin> fst ` set es" and "ix k = Some loc \<Longrightarrow> (k, loc) \<in> set es"
    and "ix k = Some loc \<Longrightarrow> (k, loc') \<in> set es \<Longrightarrow> loc_lsn loc' \<le> loc_lsn loc"
  using assms [unfolded newest_def, rule_format, of k] by (cases "ix k"; force)+

lemma newestI:
  assumes "\<And>k. ix k = None \<longleftrightarrow> k \<notin> fst ` set es" and "\<And>k loc. ix k = Some loc \<Longrightarrow> (k, loc) \<in> set es"
    and "\<And>k loc loc'. ix k = Some loc \<Longrightarrow> (k, loc') \<in> set es \<Longrightarrow> loc_lsn loc' \<le> loc_lsn loc"
  shows "newest es ix"
  unfolding newest_def using assms by (auto split: option.split)

lemma newest_insert_new:
  assumes "newest es ix" and "ix key = None"
  shows "newest (es @ [(key, loc)]) (ix(key \<mapsto> loc))"
proof (rule newestI)
  note new = newestD [OF assms(1)]
  have absent: "(key, loc') \<notin> set es" for loc' using new(1) [of key] assms(2) by force
  show "(ix(key \<mapsto> loc)) k = None \<longleftrightarrow> k \<notin> fst ` set (es @ [(key, loc)])" for k using new(1) [of k] by auto
  show "(k, l) \<in> set (es @ [(key, loc)])" if "(ix(key \<mapsto> loc)) k = Some l" for k l
    using that new(2) by (auto split: if_splits)
  show "loc_lsn l' \<le> loc_lsn l" if "(ix(key \<mapsto> loc)) k = Some l" "(k, l') \<in> set (es @ [(key, loc)])" for k l l'
    using that new(3) absent by (auto split: if_splits)
qed

lemma newest_replace:
  assumes "newest es ix" and "ix key = Some old"
  shows "newest (es @ [(key, loc)]) (if loc_lsn loc > loc_lsn old then ix(key \<mapsto> loc) else ix)" (is "newest ?es ?ix")
proof (rule newestI)
  note new = newestD [OF assms(1)]
  have old: "(key, loc') \<in> set es \<Longrightarrow> loc_lsn loc' \<le> loc_lsn old" for loc' using new(3) [OF assms(2)] .
  show "?ix k = None \<longleftrightarrow> k \<notin> fst ` set ?es" for k using new(1) [of k] assms(2) by auto
  show "(k, l) \<in> set ?es" if "?ix k = Some l" for k l
    using that new(2) by (auto split: if_splits)
  show "loc_lsn l' \<le> loc_lsn l" if "?ix k = Some l" "(k, l') \<in> set ?es" for k l l'
  proof (cases "k = key")
    case True
    then show ?thesis using that old [of l'] assms(2) by (auto split: if_splits)
  next
    case False
    then show ?thesis using that new(3) by (auto split: if_splits)
  qed
qed

lemma index_apply_newest:
  assumes "newest es0 ix" and "distinct keys" and "set keys = dom ix" and "index_apply (ix, keys) es = (ix', keys')"
  shows "newest (es0 @ es) ix' \<and> distinct keys' \<and> set keys' = dom ix'"
  using assms
proof (induction es arbitrary: es0 ix keys)
  case (Cons e es)
  obtain key loc where e: "e = (key, loc)" by (cases e)
  show ?case
  proof (cases "ix key")
    case None
    have "distinct (keys @ [key])" "set (keys @ [key]) = dom (ix(key \<mapsto> loc))" using Cons.prems(2,3) None by auto
    moreover have "index_apply (ix(key \<mapsto> loc), keys @ [key]) es = (ix', keys')" using Cons.prems(4) None e by simp
    ultimately have "newest ((es0 @ [(key, loc)]) @ es) ix' \<and> distinct keys' \<and> set keys' = dom ix'"
      by (rule Cons.IH [OF newest_insert_new [OF Cons.prems(1) None]])
    then show ?thesis using e by simp
  next
    case (Some old)
    let ?ix = "if loc_lsn loc > loc_lsn old then ix(key \<mapsto> loc) else ix"
    have "set keys = dom ?ix" using Cons.prems(3) Some by auto
    moreover have "index_apply (?ix, keys) es = (ix', keys')" using Cons.prems(4) Some e by simp
    ultimately show ?thesis using Cons.IH [OF newest_replace [OF Cons.prems(1) Some] Cons.prems(2)] e by simp
  qed
qed simp

lemma newest_empty: "newest [] Map.empty"
  by (simp add: newest_def)

text \<open>
  C35: The newest version wins. After publishing any entries to an empty index, a key is present
  exactly if an entry names it; its location is one of the entries' and no entry of that key has a
  larger sequence number. The key list holds each indexed key once.
\<close>

theorem index_newest_wins:
  assumes "index_apply (Map.empty, []) es = (ix, keys)"
  shows "newest es ix \<and> distinct keys \<and> set keys = dom ix"
  using index_apply_newest [OF newest_empty _ _ assms] by simp

text \<open>
  C15: Completion order does not matter. If a key's entries with equal sequence numbers are equal,
  publishing the same entries in any other order gives the same index; in particular a value that
  arrives after a newer deletion does not come back.
\<close>

theorem index_order_independent:
  assumes "mset es = mset es'"
    and "\<And>k loc loc'. (k, loc) \<in> set es \<Longrightarrow> (k, loc') \<in> set es \<Longrightarrow> loc_lsn loc = loc_lsn loc' \<Longrightarrow> loc = loc'"
  shows "fst (index_apply (Map.empty, []) es) = fst (index_apply (Map.empty, []) es')"
proof -
  obtain ix keys ix' keys' where run: "index_apply (Map.empty, []) es = (ix, keys)" "index_apply (Map.empty, []) es' = (ix', keys')"
    by (metis surj_pair)
  have new: "newest es ix" "newest es' ix'"
    using index_apply_newest [OF newest_empty _ _ run(1)] index_apply_newest [OF newest_empty _ _ run(2)] by auto
  have "set es' = set es" using assms(1) by (metis mset_eq_setD)
  then have new': "newest es ix'" using new(2) unfolding newest_def by (simp only: simp_thms)
  have "ix k = ix' k" for k
  proof (cases "ix k")
    case None
    then show ?thesis using newestD(1) [OF new(1), of k] newestD(1) [OF new', of k] by simp
  next
    case (Some loc)
    then obtain loc' where loc': "ix' k = Some loc'"
      using newestD(1) [OF new(1), of k] newestD(1) [OF new', of k] by (cases "ix' k") auto
    have "loc_lsn loc = loc_lsn loc'"
      using newestD(2,3) [OF new(1) Some] newestD(2,3) [OF new' loc'] by (simp add: order.antisym)
    then show ?thesis using assms(2) newestD(2) [OF new(1) Some] newestD(2) [OF new' loc'] Some loc' by auto
  qed
  then show ?thesis using run by auto
qed

section \<open>A sample\<close>

definition sample_location :: "u64 \<Rightarrow> record_kind \<Rightarrow> location" where
  "sample_location lsn kind = \<lparr> loc_segment = 0, loc_frame_offset = 4096, loc_frame_len = 4096, loc_metadata_len = 192,
     loc_ordinal = 0, loc_lsn = lsn, loc_value_offset = 0, loc_value_len = 0, loc_kind = kind \<rparr>"

theorem index_newest_wins_witness:
  "\<exists>ix keys. index_apply (Map.empty, []) [(from_u128 1, sample_location 2 Tombstone), (from_u128 1, sample_location 1 Data)] = (ix, keys)
    \<and> ix (from_u128 1) = Some (sample_location 2 Tombstone) \<and> keys = [from_u128 1]
    \<and> newest [(from_u128 1, sample_location 2 Tombstone), (from_u128 1, sample_location 1 Data)] ix"
proof -
  have run: "index_apply (Map.empty, []) [(from_u128 1, sample_location 2 Tombstone), (from_u128 1, sample_location 1 Data)] =
      ([from_u128 1 \<mapsto> sample_location 2 Tombstone], [from_u128 1])"
    by (simp add: sample_location_def)
  from index_newest_wins [OF run] run show ?thesis by auto
qed

theorem index_order_independent_witness:
  "fst (index_apply (Map.empty, []) [(from_u128 1, sample_location 2 Tombstone), (from_u128 1, sample_location 1 Data)]) =
   fst (index_apply (Map.empty, []) [(from_u128 1, sample_location 1 Data), (from_u128 1, sample_location 2 Tombstone)])"
  by (rule index_order_independent) (auto simp: sample_location_def)

end
