(* ===== verification/Layout.thy ===== *)
theory Layout
  imports Segment_Roundtrip
begin

text \<open>
  Device geometry (\<^verbatim>\<open>moat-engine/src/engine/layout.rs\<close>): the duplicated superblock, the segment
  slots, and formatting. The trait \<open>Device\<close> (\<^verbatim>\<open>engine/device.rs\<close>) is a record of operations on an
  abstract device state; an operation that changes the device returns the new state. Byte offsets
  on the device are natural numbers; the geometry check keeps them below the 64-bit capacity.
\<close>

section \<open>Devices and errors\<close>

datatype engine_error =
    EE_Aborted
  | EE_NotReady
  | EE_Closed
  | EE_InvalidArgument string
  | EE_NotFormatted
  | EE_Corrupt string
  | EE_UnsupportedVersion u32
  | EE_OutOfSpace
  | EE_Failed
  | EE_IndexAllocation
  | EE_Io
  | EE_Segment segment_error
  | EE_Frame frame_error

record 's device_ops =
  dv_capacity :: "'s \<Rightarrow> (engine_error, u64) res"
  dv_read :: "'s \<Rightarrow> nat \<Rightarrow> nat \<Rightarrow> (engine_error, byte list) res"
  dv_write :: "'s \<Rightarrow> byte list \<Rightarrow> nat \<Rightarrow> (engine_error, 's) res"
  dv_sync :: "'s \<Rightarrow> (engine_error, 's) res"

section \<open>Geometry\<close>

datatype sync_mode = SyncEnabled | SyncDisabled

definition LAYOUT_MAGIC :: "byte list" where
  "LAYOUT_MAGIC = [0x4D, 0x4F, 0x41, 0x54, 0x44, 0x45, 0x56, 0x31]"

definition LAYOUT_VERSION :: u32 where
  "LAYOUT_VERSION = 1"

definition LAYOUT_START :: nat where
  "LAYOUT_START = 2 * PAGE_SIZE"

record layout =
  ly_id :: "byte list"
  ly_capacity :: u64
  ly_segment_size :: u32
  ly_segments :: u32
  ly_limits :: frame_limits
  ly_sequence :: u64

record format_options =
  opt_sync_mode :: sync_mode
  opt_device_id :: "byte list"
  opt_segment_size :: u32
  opt_limits :: frame_limits

definition layout_new :: "u64 \<Rightarrow> format_options \<Rightarrow> u64 \<Rightarrow> (engine_error, layout) res" where
  "layout_new capacity options sequence =
     (let count = (unat capacity - LAYOUT_START) div unat (max (opt_segment_size options) 1) in
      if opt_device_id options = replicate 16 0
         \<or> opt_segment_size options < of_nat (4 * PAGE_SIZE)
         \<or> \<not> is_aligned (unat (opt_segment_size options)) PAGE_SIZE
         \<or> count = 0
         \<or> count > 2 ^ 32 - 1
         \<or> sequence = 0
         \<or> unat sequence + count \<ge> 2 ^ 64
         \<or> unat (fl_max_frame_len (opt_limits options)) > 2 ^ 31 - 1
         \<or> unat (fl_max_frame_len (opt_limits options)) + 3 * PAGE_SIZE > unat (opt_segment_size options)
      then Err (EE_InvalidArgument ''invalid device geometry or frame bounds'')
      else Ok \<lparr> ly_id = opt_device_id options, ly_capacity = capacity, ly_segment_size = opt_segment_size options,
                ly_segments = of_nat count, ly_limits = opt_limits options, ly_sequence = sequence \<rparr>)"

definition segment_base :: "layout \<Rightarrow> u32 \<Rightarrow> (engine_error, nat) res" where
  "segment_base l number =
     (if number \<ge> ly_segments l then Err (EE_InvalidArgument ''segment number out of range'')
      else Ok (LAYOUT_START + unat number * unat (ly_segment_size l)))"

definition layout_header :: "layout \<Rightarrow> u32 \<Rightarrow> (engine_error, segment_header) res" where
  "layout_header l number =
     rbind (segment_base l number) (\<lambda>_.
       map_err EE_Segment (segment_header_new
         \<lparr> sid_device_id = ly_id l, sid_segment_no = number, sid_sequence = ly_sequence l + ucast number \<rparr>
         (ly_segment_size l)))"

definition footer_tail_offset :: "layout \<Rightarrow> u32 \<Rightarrow> (engine_error, nat) res" where
  "footer_tail_offset l number =
     rbind (segment_base l number) (\<lambda>base. Ok (base + unat (ly_segment_size l) - PAGE_SIZE))"

section \<open>The superblock\<close>

definition layout_encode :: "'d crc_lib \<Rightarrow> layout \<Rightarrow> byte list \<Rightarrow> (engine_error, byte list) res" where
  "layout_encode L l page =
     rbind (fill page 0 (length page) 0) (\<lambda>page.
     rbind (put page 0 8 LAYOUT_MAGIC) (\<lambda>page.
     rbind (put_u32 page 8 LAYOUT_VERSION) (\<lambda>page.
     rbind (put page 16 32 (ly_id l)) (\<lambda>page.
     rbind (put_u64 page 32 (ly_capacity l)) (\<lambda>page.
     rbind (put_u32 page 40 (ly_segment_size l)) (\<lambda>page.
     rbind (put_u32 page 44 (ly_segments l)) (\<lambda>page.
     rbind (put_u32 page 48 (fl_max_frame_len (ly_limits l))) (\<lambda>page.
     rbind (put_u32 page 52 (fl_max_value_len (ly_limits l))) (\<lambda>page.
     rbind (put_u64 page 56 (ly_sequence l)) (\<lambda>page.
     rbind (crc_with_zeroed_checksum L page) (\<lambda>crc.
       put_u32 page 12 crc)))))))))))"

definition layout_decode :: "'d crc_lib \<Rightarrow> byte list \<Rightarrow> (engine_error, layout) res" where
  "layout_decode L page =
     rbind (slice page 0 8) (\<lambda>magic.
     rbind (u32_at page 12) (\<lambda>stored.
     rbind (crc_with_zeroed_checksum L page) (\<lambda>crc.
     if magic \<noteq> LAYOUT_MAGIC \<or> stored \<noteq> crc then Err EE_NotFormatted else
     rbind (u32_at page 8) (\<lambda>version.
     if version \<noteq> LAYOUT_VERSION then Err (EE_UnsupportedVersion version) else
     rbind (slice page 64 (length page)) (\<lambda>reserved.
     if \<not> all_zero reserved then Err (EE_Corrupt ''reserved superblock bytes'') else
     rbind (slice page 16 32) (\<lambda>device_id.
     rbind (u32_at page 40) (\<lambda>segment_size.
     rbind (u32_at page 48) (\<lambda>max_frame.
     rbind (u32_at page 52) (\<lambda>max_value.
     rbind (map_err EE_Frame (frame_limits_new max_frame max_value)) (\<lambda>limits.
     rbind (u64_at page 32) (\<lambda>capacity.
     rbind (u64_at page 56) (\<lambda>sequence.
     rbind (layout_new capacity \<lparr> opt_sync_mode = SyncEnabled, opt_device_id = device_id,
              opt_segment_size = segment_size, opt_limits = limits \<rparr> sequence) (\<lambda>l.
     rbind (u32_at page 44) (\<lambda>segments.
     if ly_segments l \<noteq> segments then Err (EE_Corrupt ''segment count'') else Ok l))))))))))))))"

fun read_copies :: "'d crc_lib \<Rightarrow> 's device_ops \<Rightarrow> 's \<Rightarrow> nat list \<Rightarrow> layout option \<Rightarrow> (engine_error, layout option) res" where
  "read_copies L ops s [] found = Ok found"
| "read_copies L ops s (offset # rest) found =
     rbind (dv_read ops s PAGE_SIZE offset) (\<lambda>page.
       case layout_decode L page of
         Ok l \<Rightarrow> (if found \<noteq> None \<and> found \<noteq> Some l then Err (EE_Corrupt ''superblocks disagree'')
                 else read_copies L ops s rest (Some l))
       | Err e \<Rightarrow> (if e = EE_NotFormatted then read_copies L ops s rest found else Err e)
       | Panic \<Rightarrow> Panic)"

definition layout_read :: "'d crc_lib \<Rightarrow> 's device_ops \<Rightarrow> 's \<Rightarrow> (engine_error, layout) res" where
  "layout_read L ops s =
     rbind (read_copies L ops s [0, PAGE_SIZE] None) (\<lambda>found.
     rbind (of_option EE_NotFormatted found) (\<lambda>l.
     rbind (dv_capacity ops s) (\<lambda>capacity.
     if capacity < ly_capacity l then Err (EE_Corrupt ''device was truncated'') else Ok l)))"

section \<open>Formatting\<close>

fun last_sequence :: "'d crc_lib \<Rightarrow> 's device_ops \<Rightarrow> 's \<Rightarrow> layout \<Rightarrow> nat list \<Rightarrow> u64 \<Rightarrow> (engine_error, u64) res" where
  "last_sequence L ops s old [] latest = Ok latest"
| "last_sequence L ops s old (number # rest) latest =
     rbind (segment_base old (of_nat number)) (\<lambda>base.
     rbind (dv_read ops s PAGE_SIZE base) (\<lambda>page.
     if all_zero page then last_sequence L ops s old rest latest else
     rbind (map_err EE_Segment (segment_header_decode L page (ly_id old) (of_nat number) (ly_segment_size old))) (\<lambda>header.
       last_sequence L ops s old rest (max latest (sid_sequence (sh_id header))))))"

definition format_sequence :: "'d crc_lib \<Rightarrow> 's device_ops \<Rightarrow> format_options \<Rightarrow> 's \<Rightarrow> (engine_error, u64) res" where
  "format_sequence L ops options s =
     (case layout_read L ops s of
        Ok old \<Rightarrow>
          (if ly_id old = opt_device_id options
           then Err (EE_InvalidArgument ''format requires a fresh device identity'') else
           rbind (last_sequence L ops s old [0..<unat (ly_segments old)] (ly_sequence old + ucast (ly_segments old) - 1)) (\<lambda>latest.
           if unat latest + 1 \<ge> 2 ^ 64 then Err (EE_InvalidArgument ''allocation epoch exhausted'') else Ok (latest + 1)))
      | Err e \<Rightarrow>
          (if e = EE_NotFormatted then
             rbind (slice (opt_device_id options) 0 8) (\<lambda>bytes. Ok (max (drop_bit 1 (le_join bytes)) 1))
           else Err e)
      | Panic \<Rightarrow> Panic)"

fun write_all :: "'s device_ops \<Rightarrow> byte list \<Rightarrow> nat list \<Rightarrow> 's \<Rightarrow> (engine_error, 's) res" where
  "write_all ops page [] s = Ok s"
| "write_all ops page (offset # rest) s = rbind (dv_write ops s page offset) (write_all ops page rest)"

fun clear_segments :: "'s device_ops \<Rightarrow> layout \<Rightarrow> byte list \<Rightarrow> nat list \<Rightarrow> 's \<Rightarrow> (engine_error, 's) res" where
  "clear_segments ops l page [] s = Ok s"
| "clear_segments ops l page (number # rest) s =
     rbind (segment_base l (of_nat number)) (\<lambda>base.
     rbind (dv_write ops s page base) (\<lambda>s.
     rbind (footer_tail_offset l (of_nat number)) (\<lambda>tail.
     rbind (dv_write ops s page tail) (clear_segments ops l page rest))))"

definition format_sync :: "'s device_ops \<Rightarrow> format_options \<Rightarrow> 's \<Rightarrow> (engine_error, 's) res" where
  "format_sync ops options s = (if opt_sync_mode options = SyncEnabled then dv_sync ops s else Ok s)"

definition format_device :: "'d crc_lib \<Rightarrow> 's device_ops \<Rightarrow> format_options \<Rightarrow> 's \<Rightarrow> (engine_error, layout \<times> 's) res" where
  "format_device L ops options s =
     rbind (dv_capacity ops s) (\<lambda>capacity.
     rbind (format_sequence L ops options s) (\<lambda>sequence.
     rbind (layout_new capacity options sequence) (\<lambda>l.
     let page = replicate PAGE_SIZE 0 in
     rbind (write_all ops page [0, PAGE_SIZE] s) (\<lambda>s.
     rbind (format_sync ops options s) (\<lambda>s.
     rbind (clear_segments ops l page [0..<unat (ly_segments l)] s) (\<lambda>s.
     rbind (format_sync ops options s) (\<lambda>s.
     rbind (layout_encode L l page) (\<lambda>page.
     rbind (dv_write ops s page 0) (\<lambda>s.
     rbind (format_sync ops options s) (\<lambda>s.
     rbind (dv_write ops s page PAGE_SIZE) (\<lambda>s.
     rbind (format_sync ops options s) (\<lambda>s.
       Ok (l, s)))))))))))))"

section \<open>Files as devices\<close>

definition file_device :: "byte list device_ops" where
  "file_device = \<lparr>
     dv_capacity = (\<lambda>bytes. Ok (of_nat (length bytes))),
     dv_read = (\<lambda>bytes len offset. of_option EE_Io (if offset + len \<le> length bytes then Some (sub bytes offset len) else None)),
     dv_write = (\<lambda>bytes page offset. Ok (take offset (bytes @ replicate (offset - length bytes) 0) @ page @ drop (offset + length page) bytes)),
     dv_sync = (\<lambda>bytes. Ok bytes) \<rparr>"

end
