(* ===== verification/Layout_Format.thy ===== *)
theory Layout_Format
  imports Layout
begin

text \<open>
  Properties of the device layout: the superblock round trip, disjoint segment slots inside the
  capacity, fresh allocation epochs after a reformat, and the crash behaviour of formatting.
\<close>

section \<open>Valid layouts\<close>

definition layout_ok :: "layout \<Rightarrow> bool" where
  "layout_ok l \<longleftrightarrow> ly_id l \<noteq> replicate 16 0 \<and> length (ly_id l) = 16
     \<and> 4 * PAGE_SIZE \<le> unat (ly_segment_size l) \<and> is_aligned (unat (ly_segment_size l)) PAGE_SIZE
     \<and> unat (ly_segments l) = (unat (ly_capacity l) - LAYOUT_START) div unat (ly_segment_size l)
     \<and> 0 < unat (ly_segments l) \<and> ly_sequence l \<noteq> 0 \<and> unat (ly_sequence l) + unat (ly_segments l) < 2 ^ 64
     \<and> unat (fl_max_frame_len (ly_limits l)) \<le> 2 ^ 31 - 1
     \<and> unat (fl_max_frame_len (ly_limits l)) + 3 * PAGE_SIZE \<le> unat (ly_segment_size l)"

lemma layout_new_iff:
  assumes "length (opt_device_id options) = 16"
  shows "layout_new capacity options sequence = Ok l \<longleftrightarrow> layout_ok l \<and> ly_id l = opt_device_id options
    \<and> ly_capacity l = capacity \<and> ly_segment_size l = opt_segment_size options \<and> ly_limits l = opt_limits options
    \<and> ly_sequence l = sequence"
proof -
  let ?size = "opt_segment_size options"
  have max: "unat (max ?size 1) = unat ?size" if "4 * PAGE_SIZE \<le> unat ?size"
    using that by (simp add: max_def word_le_nat_alt PAGE_SIZE_def)
  have size: "?size < of_nat (4 * PAGE_SIZE) \<longleftrightarrow> unat ?size < 4 * PAGE_SIZE"
    by (simp add: word_less_nat_alt PAGE_SIZE_def)
  show ?thesis
    using assms max u32_less [of "ly_segments l"] unfolding layout_new_def Let_def size
    by (cases l) (auto simp: layout_ok_def not_less not_le unat_u32 word_unat_eq_iff split: if_splits)
qed

lemma layout_new_total [simp]: "layout_new capacity options sequence \<noteq> Panic"
  by (simp add: layout_new_def Let_def)

section \<open>The superblock\<close>

definition layout_fields :: "layout \<Rightarrow> byte list" where
  "layout_fields l = ly_id l @ le_split 8 (ly_capacity l) @ le_split 4 (ly_segment_size l) @ le_split 4 (ly_segments l)
     @ le_split 4 (fl_max_frame_len (ly_limits l)) @ le_split 4 (fl_max_value_len (ly_limits l)) @ le_split 8 (ly_sequence l)
     @ replicate (PAGE_SIZE - 64) 0"

definition layout_image :: "'d crc_lib \<Rightarrow> layout \<Rightarrow> byte list" where
  "layout_image L l = sealed_image L LAYOUT_MAGIC (layout_fields l)"

lemma length_LAYOUT_MAGIC [simp]: "length LAYOUT_MAGIC = 8"
  by (simp add: LAYOUT_MAGIC_def)

lemma length_layout_image: "length (ly_id l) = 16 \<Longrightarrow> length (layout_image L l) = PAGE_SIZE"
  by (simp add: layout_image_def layout_fields_def PAGE_SIZE_def)

lemma layout_page_split:
  assumes "length b = 4096"
  shows "drop 16 b = sub b 16 16 @ sub b 32 8 @ sub b 40 4 @ sub b 44 4 @ sub b 48 4 @ sub b 52 4 @ sub b 56 8 @ drop 64 b"
proof -
  have "sub b 16 16 @ sub b 32 8 @ sub b 40 4 @ sub b 44 4 @ sub b 48 4 @ sub b 52 4 @ sub b 56 8 = sub b 16 48" by (simp add: sub_join)
  moreover have "drop 16 b = sub b 16 48 @ drop 64 b" using append_take_drop_id [of 48 "drop 16 b"] by (simp add: sub_def)
  ultimately show ?thesis by (metis append_assoc)
qed

lemma layout_encode_image:
  assumes "length page = PAGE_SIZE" and "length (ly_id l) = 16"
  shows "layout_encode L l page = Ok (layout_image L l)"
proof -
  define b where "b = patch (patch (patch (patch (patch (patch (patch (patch (patch (replicate 4096 0) 0 LAYOUT_MAGIC)
     8 (le_split 4 LAYOUT_VERSION)) 16 (ly_id l)) 32 (le_split 8 (ly_capacity l))) 40 (le_split 4 (ly_segment_size l)))
     44 (le_split 4 (ly_segments l))) 48 (le_split 4 (fl_max_frame_len (ly_limits l))))
     52 (le_split 4 (fl_max_value_len (ly_limits l)))) 56 (le_split 8 (ly_sequence l))"
  note dev = assms(2)
  have len: "length b = 4096" using dev by (simp add: b_def)
  have front: "take 12 b = segment_front LAYOUT_MAGIC"
    unfolding header_front_split segment_front_def using dev
    by (simp add: b_def slice_simps LAYOUT_VERSION_def SEGMENT_FORMAT_VERSION_def)
  have body: "drop 16 b = layout_fields l"
    unfolding layout_page_split [OF len] layout_fields_def using dev by (simp add: b_def slice_simps PAGE_SIZE_def)
  let ?crc = "header_crc L (segment_front LAYOUT_MAGIC) (layout_fields l)"
  have "layout_encode L l page = Ok (patch b 12 (le_split 4 ?crc))"
    using assms len front body by (simp add: layout_encode_def PAGE_SIZE_def patch_whole b_def [symmetric])
  moreover have "patch b 12 (le_split 4 ?crc) = layout_image L l"
    using front body by (simp add: patch_def layout_image_def sealed_image_def)
  ultimately show ?thesis by simp
qed

lemma layout_image_fields:
  fixes L :: "'d crc_lib"
  assumes "length (ly_id l) = 16"
  defines "b \<equiv> layout_image L l"
  shows "sub b 16 16 = ly_id l" "sub b 32 8 = le_split 8 (ly_capacity l)" "sub b 40 4 = le_split 4 (ly_segment_size l)"
    "sub b 44 4 = le_split 4 (ly_segments l)" "sub b 48 4 = le_split 4 (fl_max_frame_len (ly_limits l))"
    "sub b 52 4 = le_split 4 (fl_max_value_len (ly_limits l))" "sub b 56 8 = le_split 8 (ly_sequence l)"
    "drop 64 b = replicate (PAGE_SIZE - 64) 0"
  using assms by (simp_all add: b_def layout_image_def sealed_image_def layout_fields_def sub_append_right)

lemma layout_decode_prefix:
  assumes "length page = PAGE_SIZE"
  shows "layout_decode L page = (if take 8 page \<noteq> LAYOUT_MAGIC \<or> le_join (sub page 12 4) \<noteq> header_crc L (take 12 page) (drop 16 page)
     then Err EE_NotFormatted else
     if le_join (sub page 8 4) \<noteq> LAYOUT_VERSION then Err (EE_UnsupportedVersion (le_join (sub page 8 4))) else
     if \<not> all_zero (drop 64 page) then Err (EE_Corrupt ''reserved superblock bytes'') else
     rbind (map_err EE_Frame (frame_limits_new (le_join (sub page 48 4)) (le_join (sub page 52 4)))) (\<lambda>limits.
     rbind (layout_new (le_join (sub page 32 8)) \<lparr> opt_sync_mode = SyncEnabled, opt_device_id = sub page 16 16,
              opt_segment_size = le_join (sub page 40 4), opt_limits = limits \<rparr> (le_join (sub page 56 8))) (\<lambda>l.
     if ly_segments l \<noteq> le_join (sub page 44 4) then Err (EE_Corrupt ''segment count'') else Ok l)))"
  using assms by (simp add: layout_decode_def PAGE_SIZE_def sub_all)

definition layout_limits_ok :: "frame_limits \<Rightarrow> bool" where
  "layout_limits_ok limits \<longleftrightarrow> frame_limits_new (fl_max_frame_len limits) (fl_max_value_len limits) = Ok limits"

lemma layout_decode_image:
  assumes "layout_ok l" and "layout_limits_ok (ly_limits l)"
  shows "layout_decode L (layout_image L l) = Ok l"
proof -
  have dev: "length (ly_id l) = 16" using assms(1) by (simp add: layout_ok_def)
  let ?b = "layout_image L l"
  have page: "length ?b = PAGE_SIZE" by (rule length_layout_image [OF dev])
  have front: "take 8 ?b = LAYOUT_MAGIC" "sub ?b 8 4 = le_split 4 LAYOUT_VERSION" "take 12 ?b = segment_front LAYOUT_MAGIC"
    "sub ?b 12 4 = le_split 4 (header_crc L (segment_front LAYOUT_MAGIC) (drop 16 ?b))"
    by (simp_all add: layout_image_def sealed_image_def segment_front_def sub_append_right LAYOUT_VERSION_def SEGMENT_FORMAT_VERSION_def)
  define opts where "opts = \<lparr> opt_sync_mode = SyncEnabled, opt_device_id = ly_id l,
      opt_segment_size = ly_segment_size l, opt_limits = ly_limits l \<rparr>"
  have "layout_new (ly_capacity l) opts (ly_sequence l) = Ok l"
    using assms(1) dev by (subst layout_new_iff) (simp_all add: opts_def)
  then show ?thesis
    unfolding layout_decode_prefix [OF page] layout_image_fields [OF dev] front(1,2,4) unfolding front(3)
    using assms(2) by (simp add: layout_limits_ok_def opts_def)
qed

lemma layout_decode_ok:
  assumes "length page = PAGE_SIZE" and "layout_decode L page = Ok l"
  shows "layout_ok l" "layout_limits_ok (ly_limits l)"
  using assms(2) layout_new_iff [where l = l] unfolding layout_decode_prefix [OF assms(1)]
  by (auto simp: rbind_Ok_iff map_err_Ok_iff layout_limits_ok_def frame_limits_new_def assms(1) PAGE_SIZE_def split: if_splits)

lemma layout_decode_zero: "layout_decode L (replicate PAGE_SIZE 0) = Err EE_NotFormatted"
proof -
  have "take 8 (replicate PAGE_SIZE 0) ! 0 \<noteq> LAYOUT_MAGIC ! 0" by (simp add: LAYOUT_MAGIC_def PAGE_SIZE_def)
  then have "take 8 (replicate PAGE_SIZE 0) \<noteq> LAYOUT_MAGIC" by metis
  then show ?thesis by (subst layout_decode_prefix) simp_all
qed

section \<open>Slots\<close>

lemma unat_ucast_u64: "unat (ucast (w :: u32) :: u64) = unat w"
  using u32_less [of w] by (simp add: unsigned_ucast_eq take_bit_nat_eq_self)

lemma segment_base_Ok:
  assumes "n < unat (ly_segments l)"
  shows "segment_base l (of_nat n) = Ok (LAYOUT_START + n * unat (ly_segment_size l))"
    and "footer_tail_offset l (of_nat n) = Ok (LAYOUT_START + n * unat (ly_segment_size l) + unat (ly_segment_size l) - PAGE_SIZE)"
proof -
  have "unat (of_nat n :: u32) = n" using assms u32_less [of "ly_segments l"] by (simp add: unat_u32)
  then show "segment_base l (of_nat n) = Ok (LAYOUT_START + n * unat (ly_segment_size l))"
    using assms by (simp add: segment_base_def word_le_nat_alt)
  then show "footer_tail_offset l (of_nat n) = Ok (LAYOUT_START + n * unat (ly_segment_size l) + unat (ly_segment_size l) - PAGE_SIZE)"
    by (simp add: footer_tail_offset_def)
qed

lemma slots_fit:
  assumes "layout_ok l" and "n < unat (ly_segments l)"
  shows "LAYOUT_START + n * unat (ly_segment_size l) + unat (ly_segment_size l) \<le> unat (ly_capacity l)"
proof -
  have "Suc n * unat (ly_segment_size l) \<le> unat (ly_segments l) * unat (ly_segment_size l)" using assms(2) by (intro mult_le_mono1) simp
  also have "\<dots> \<le> unat (ly_capacity l) - LAYOUT_START" using assms(1) by (simp add: layout_ok_def)
  finally have le: "Suc n * unat (ly_segment_size l) \<le> unat (ly_capacity l) - LAYOUT_START" .
  have "0 < Suc n * unat (ly_segment_size l)" using assms(1) PAGE_SIZE_pos by (auto simp: layout_ok_def)
  with le have "LAYOUT_START \<le> unat (ly_capacity l)" by linarith
  with le show ?thesis by simp
qed

lemma slot_sequence:
  assumes "layout_ok l" and "n < unat (ly_segments l)"
  shows "unat (ly_sequence l + ucast (of_nat n :: u32)) = unat (ly_sequence l) + n"
proof -
  have "unat (of_nat n :: u32) = n" using assms(2) u32_less [of "ly_segments l"] by (simp add: unat_u32)
  then have "unat (ucast (of_nat n :: u32) :: u64) = n" by (simp add: unat_ucast_u64)
  moreover have "unat (ly_sequence l) + n < 2 ^ 64" using assms by (simp add: layout_ok_def)
  ultimately show ?thesis by (simp add: unat_word_ariths)
qed

lemma layout_header_Ok:
  assumes "layout_ok l" and "n < unat (ly_segments l)"
  shows "\<exists>h. layout_header l (of_nat n) = Ok h \<and> unat (sid_sequence (sh_id h)) = unat (ly_sequence l) + n
    \<and> sid_device_id (sh_id h) = ly_id l \<and> sh_segment_len h = ly_segment_size l \<and> sh_seal h = None \<and> segment_geometry h"
proof -
  define h where "h = \<lparr> sh_id = \<lparr> sid_device_id = ly_id l, sid_segment_no = of_nat n, sid_sequence = ly_sequence l + ucast (of_nat n :: u32) \<rparr>,
     sh_segment_len = ly_segment_size l, sh_seal = None \<rparr>"
  have seq: "unat (sid_sequence (sh_id h)) = unat (ly_sequence l) + n" using slot_sequence [OF assms] by (simp add: h_def)
  moreover have "unat (ly_sequence l) \<noteq> 0" using assms(1) by (simp add: layout_ok_def unat_eq_zero)
  ultimately have "sid_sequence (sh_id h) \<noteq> 0" by (metis add_is_0 unat_0)
  then have "segment_geometry h" using assms(1) by (simp add: segment_geometry_def h_def layout_ok_def)
  moreover from this have "segment_header_new (sh_id h) (sh_segment_len h) = Ok h" by (simp add: segment_header_new_iff) (simp add: h_def)
  ultimately show ?thesis
    using seq by (intro exI [of _ h]) (simp add: layout_header_def segment_base_Ok [OF assms(2)] h_def)
qed

section \<open>A sample layout\<close>

definition sample_options :: format_options where
  "sample_options = \<lparr> opt_sync_mode = SyncEnabled, opt_device_id = replicate 16 1, opt_segment_size = 16384,
     opt_limits = \<lparr> fl_max_frame_len = 4096, fl_max_value_len = 4096 \<rparr> \<rparr>"

lemma sample_layout:
  assumes "unat seq \<noteq> 0" and "unat seq < 2 ^ 63"
  shows "\<exists>l. layout_new (of_nat (length (replicate 40960 (0::byte)))) sample_options seq = Ok l \<and> unat (ly_segments l) = 2"
proof -
  have "max (16384 :: u32) 1 = 16384" by (simp add: max_def word_le_nat_alt)
  then show ?thesis
    using assms by (auto simp: layout_new_def sample_options_def PAGE_SIZE_def LAYOUT_START_def is_aligned_def unat_eq_zero replicate_eq_replicate)
qed

lemma half_word: "unat (max (drop_bit 1 (w :: u64)) 1) \<noteq> 0" "unat (max (drop_bit 1 (w :: u64)) 1) < 2 ^ 63"
proof -
  have "unat (drop_bit 1 w) = unat w div 2" by (simp add: unat_div_distrib drop_bit_eq_div)
  then have "unat (drop_bit 1 w) < 2 ^ 63" using u64_less [of w] by simp
  then show "unat (max (drop_bit 1 w) 1) \<noteq> 0" "unat (max (drop_bit 1 w) 1) < 2 ^ 63"
    by (auto simp: max_def word_le_nat_alt not_le)
qed

section \<open>Properties\<close>





section \<open>Fresh epochs\<close>

lemma zero_page_no_header:
  assumes "length page = PAGE_SIZE" and "length device_id = 16" and "segment_header_decode L page device_id n len = Ok h"
  shows "\<not> all_zero page"
proof
  assume zero: "all_zero page"
  have "page = segment_header_image L h" using assms segment_header_decode_exact [of page device_id L n len h] by simp
  then have "page ! 0 = 0x4D" by (simp add: segment_header_image_def sealed_image_def segment_front_def HEADER_MAGIC_def)
  then show False using zero assms(1) by (simp add: all_zero_def list_all_length PAGE_SIZE_def)
qed

text \<open>What formatting relies on of a device: a read fills its whole destination.\<close>

locale positional_device =
  fixes ops :: "'s device_ops"
  assumes read_len: "dv_read ops s len offset = Ok bytes \<Longrightarrow> length bytes = len"
begin

lemma read_copies_ok:
  assumes "read_copies L ops s offsets found = Ok (Some l)" and "\<And>l. found = Some l \<Longrightarrow> layout_ok l"
  shows "layout_ok l"
  using assms
proof (induction offsets arbitrary: found)
  case (Cons offset offsets)
  from Cons.prems(1) obtain page where page: "dv_read ops s PAGE_SIZE offset = Ok page" by (auto simp: rbind_Ok_iff)
  have "layout_ok x" if "layout_decode L page = Ok x" for x using layout_decode_ok(1) [OF read_len [OF page] that] .
  then show ?case using Cons page by (auto split: res.splits if_splits)
qed auto

lemma layout_read_ok: "layout_read L ops s = Ok l \<Longrightarrow> layout_ok l"
  using read_copies_ok [of L s "[0, PAGE_SIZE]" None l] by (auto simp: layout_read_def rbind_Ok_iff split: if_splits)

lemma last_sequence_grows: "last_sequence L ops s old ns latest = Ok r \<Longrightarrow> latest \<le> r"
proof (induction ns arbitrary: latest)
  case (Cons k ns)
  then show ?case by (fastforce simp: rbind_Ok_iff split: if_splits)
qed simp

lemma last_sequence_covers:
  assumes "last_sequence L ops s old ns latest = Ok r" and "length (ly_id old) = 16" and "n \<in> set ns"
    and "segment_base old (of_nat n) = Ok base" and "dv_read ops s PAGE_SIZE base = Ok page"
    and "segment_header_decode L page (ly_id old) (of_nat n) (ly_segment_size old) = Ok h"
  shows "sid_sequence (sh_id h) \<le> r"
  using assms(1,3)
proof (induction ns arbitrary: latest)
  case (Cons k ns)
  show ?case
  proof (cases "n = k")
    case True
    have "\<not> all_zero page" using zero_page_no_header [OF read_len [OF assms(5)] assms(2,6)] .
    then have "last_sequence L ops s old ns (max latest (sid_sequence (sh_id h))) = Ok r"
      using Cons.prems(1) True assms(4-6) by simp
    from last_sequence_grows [OF this] show ?thesis by simp
  next
    case False
    then show ?thesis using Cons by (auto simp: rbind_Ok_iff split: if_splits)
  qed
qed simp

lemma format_sequence_fresh:
  assumes "layout_read L ops s = Ok old" and "format_sequence L ops options s = Ok seq" and "i < unat (ly_segments old)"
  shows "unat (ly_sequence old) + i < unat seq"
    and "segment_base old (of_nat i) = Ok base \<Longrightarrow> dv_read ops s PAGE_SIZE base = Ok page \<Longrightarrow>
      segment_header_decode L page (ly_id old) (of_nat i) (ly_segment_size old) = Ok h \<Longrightarrow> sid_sequence (sh_id h) < seq"
proof -
  have ok: "layout_ok old" by (rule layout_read_ok [OF assms(1)])
  from assms(1,2) obtain r where r: "last_sequence L ops s old [0..<unat (ly_segments old)] (ly_sequence old + ucast (ly_segments old) - 1) = Ok r"
    and seq: "unat r + 1 < 2 ^ 64" "seq = r + 1"
    by (auto simp: format_sequence_def rbind_Ok_iff split: if_splits)
  have s: "unat seq = unat r + 1" using seq by (simp add: unat_word_ariths)
  have "unat (ly_sequence old) + unat (ly_segments old) < 2 ^ 64" "0 < unat (ly_segments old)" using ok by (simp_all add: layout_ok_def)
  then have "unat (ly_sequence old + ucast (ly_segments old)) = unat (ly_sequence old) + unat (ly_segments old)"
    by (simp add: unat_word_ariths unat_ucast_u64)
  then have "unat (ly_sequence old + ucast (ly_segments old) - 1) = unat (ly_sequence old) + unat (ly_segments old) - 1"
    using \<open>0 < _\<close> by (subst unat_sub) (simp_all add: word_le_nat_alt)
  then show "unat (ly_sequence old) + i < unat seq"
    using last_sequence_grows [OF r] s assms(3) by (simp add: word_le_nat_alt)
  show "sid_sequence (sh_id h) < seq" if "segment_base old (of_nat i) = Ok base" "dv_read ops s PAGE_SIZE base = Ok page"
      "segment_header_decode L page (ly_id old) (of_nat i) (ly_segment_size old) = Ok h"
    using last_sequence_covers [OF r _ _ that] ok assms(3) s by (simp add: layout_ok_def word_le_nat_alt word_less_nat_alt)
qed

end

interpretation os_file: positional_device file_device
  by unfold_locales (auto simp: file_device_def split: if_splits)

text \<open>
  C38: Reformatting uses fresh epochs. When a device that already holds a layout is formatted
  again, the sequence number of every new slot is larger than that of every old slot and than that
  of every allocation header found on the device, so no frame written under the old layout has a
  sequence number of the new one. The hypothesis on the device is that a read fills its destination.
\<close>

theorem reformat_fresh_epochs:
  assumes "positional_device ops" and "layout_read L ops s = Ok old" and "format_device L ops options s = Ok (l, s')"
    and "length (opt_device_id options) = 16" and "i < unat (ly_segments old)" and "j < unat (ly_segments l)"
  shows "\<exists>h. layout_header l (of_nat j) = Ok h \<and> unat (ly_sequence old) + i < unat (sid_sequence (sh_id h))
    \<and> (\<forall>base page g. segment_base old (of_nat i) = Ok base \<and> dv_read ops s PAGE_SIZE base = Ok page
        \<and> segment_header_decode L page (ly_id old) (of_nat i) (ly_segment_size old) = Ok g
        \<longrightarrow> sid_sequence (sh_id g) < sid_sequence (sh_id h))"
proof -
  from assms(3) obtain capacity seq where seq: "format_sequence L ops options s = Ok seq" and new: "layout_new capacity options seq = Ok l"
    by (auto simp: format_device_def rbind_Ok_iff Let_def)
  have ok: "layout_ok l" "ly_sequence l = seq" using new assms(4) by (auto simp: layout_new_iff)
  note fresh = positional_device.format_sequence_fresh [OF assms(1,2) seq assms(5)]
  obtain h where h: "layout_header l (of_nat j) = Ok h" "unat (sid_sequence (sh_id h)) = unat seq + j"
    using layout_header_Ok [OF ok(1) assms(6)] ok(2) by auto
  show ?thesis
    using h fresh by (intro exI [of _ h]) (auto simp: word_less_nat_alt intro: trans_less_add1)
qed

end
