(* ===== verification/Layout_Crash.thy ===== *)
theory Layout_Crash
  imports Layout_Format "HOL-Library.Sublist"
begin

text \<open>
  Formatting and power loss. \<open>log_device\<close> is a device of fixed size that records its writes and
  barriers. A crash after some prefix of these effects keeps every write before the last barrier
  and any selection of the page writes behind it (\<open>crash\<close>; page writes are atomic). Whatever the
  crash leaves, reading the layout gives the old layout, no layout, or the new one, and the new one
  only once all allocation pages are cleared.
\<close>

section \<open>A device with a log\<close>

datatype effect = Write nat "byte list" | Barrier

definition log_device :: "(byte list \<times> effect list) device_ops" where
  "log_device = \<lparr>
     dv_capacity = (\<lambda>(img, es). Ok (of_nat (length img))),
     dv_read = (\<lambda>(img, es) len offset. if offset + len \<le> length img then Ok (sub img offset len) else Err EE_Io),
     dv_write = (\<lambda>(img, es) page offset.
       if offset + length page \<le> length img then Ok (patch img offset page, es @ [Write offset page]) else Err EE_Io),
     dv_sync = (\<lambda>(img, es). Ok (img, es @ [Barrier])) \<rparr>"

fun apply_effects :: "byte list \<Rightarrow> effect list \<Rightarrow> byte list" where
  "apply_effects img [] = img"
| "apply_effects img (Barrier # es) = apply_effects img es"
| "apply_effects img (Write offset page # es) = apply_effects (patch img offset page) es"

text \<open>\<open>crash d pending es d'\<close>: the device may hold \<open>d'\<close> after power is lost behind \<open>es\<close>.\<close>

fun crash :: "byte list \<Rightarrow> effect list \<Rightarrow> effect list \<Rightarrow> byte list \<Rightarrow> bool" where
  "crash d pending [] d' \<longleftrightarrow> list_ex (\<lambda>ws. d' = apply_effects d ws) (subseqs pending)"
| "crash d pending (Barrier # es) d' \<longleftrightarrow> crash (apply_effects d pending) [] es d'"
| "crash d pending (Write offset page # es) d' \<longleftrightarrow> crash d (pending @ [Write offset page]) es d'"

lemma log_device_sel [simp]:
  "dv_capacity log_device (img, es) = Ok (of_nat (length img))"
  "dv_read log_device (img, es) len offset = (if offset + len \<le> length img then Ok (sub img offset len) else Err EE_Io)"
  "dv_write log_device (img, es) page offset =
    (if offset + length page \<le> length img then Ok (patch img offset page, es @ [Write offset page]) else Err EE_Io)"
  "dv_sync log_device (img, es) = Ok (img, es @ [Barrier])"
  by (simp_all add: log_device_def)

lemma apply_effects_append: "apply_effects img (es @ fs) = apply_effects (apply_effects img es) fs"
  by (induction img es rule: apply_effects.induct) simp_all

section \<open>Effects that write whole pages inside the device\<close>

fun fits :: "nat \<Rightarrow> effect \<Rightarrow> bool" where
  "fits n Barrier \<longleftrightarrow> True"
| "fits n (Write offset page) \<longleftrightarrow> length page = PAGE_SIZE \<and> offset + PAGE_SIZE \<le> n \<and> is_aligned offset PAGE_SIZE"

lemma length_apply_effects: "list_all (fits (length img)) es \<Longrightarrow> length (apply_effects img es) = length img"
proof (induction img es rule: apply_effects.induct)
  case (3 img offset page es)
  then have "length (patch img offset page) = length img" by simp
  then show ?case using 3 by simp
qed simp_all

lemma aligned_apart:
  assumes "is_aligned a PAGE_SIZE" and "is_aligned b PAGE_SIZE" and "a \<noteq> b"
  shows "a + PAGE_SIZE \<le> b \<or> b + PAGE_SIZE \<le> a"
proof -
  obtain m n where "a = PAGE_SIZE * m" "b = PAGE_SIZE * n" using assms(1,2) by (auto simp: is_aligned_def mod_eq_0_iff_dvd dvd_def)
  moreover from this assms(3) have "m < n \<or> n < m" by auto
  moreover have "PAGE_SIZE * Suc m \<le> PAGE_SIZE * n" if "m < n" for m n :: nat using that by (intro mult_le_mono2) simp
  ultimately show ?thesis by fastforce
qed

text \<open>A page holds its old contents or those of a write to it; once written it cannot hold the old ones.\<close>

lemma page_after:
  assumes "list_all (fits (length img)) es" and "is_aligned off PAGE_SIZE" and "off + PAGE_SIZE \<le> length img"
  shows "Write off (sub (apply_effects img es) off PAGE_SIZE) \<in> set es
    \<or> sub (apply_effects img es) off PAGE_SIZE = sub img off PAGE_SIZE \<and> (\<forall>page. Write off page \<notin> set es)"
  using assms
proof (induction img es rule: apply_effects.induct)
  case (3 img offset page es)
  have len: "length (patch img offset page) = length img" using 3(2) by simp
  then have IH: "Write off (sub (apply_effects (patch img offset page) es) off PAGE_SIZE) \<in> set es
      \<or> sub (apply_effects (patch img offset page) es) off PAGE_SIZE = sub (patch img offset page) off PAGE_SIZE \<and> (\<forall>page. Write off page \<notin> set es)"
    using 3 by simp
  show ?case
  proof (cases "offset = off")
    case True
    have "sub (patch img offset page) off PAGE_SIZE = page" using 3(2) True by (simp add: sub_patch_same)
    with IH True show ?thesis by auto
  next
    case False
    then have "sub (patch img offset page) off PAGE_SIZE = sub img off PAGE_SIZE"
      using aligned_apart [of offset off] 3(2,3) by (auto simp: sub_patch_before sub_patch_after)
    with IH False show ?thesis by auto
  qed
qed auto

section \<open>Crashes between groups of writes\<close>

definition writes :: "effect list \<Rightarrow> bool" where
  "writes g \<longleftrightarrow> Barrier \<notin> set g"

lemma crash_pending: "writes g \<Longrightarrow> crash d pending g d' \<Longrightarrow> \<exists>ws. set ws \<subseteq> set (pending @ g) \<and> d' = apply_effects d ws"
proof (induction d pending g d' rule: crash.induct)
  case (1 d pending d')
  then obtain ws where ws: "ws \<in> set (subseqs pending)" "d' = apply_effects d ws" by (auto simp: list_ex_iff)
  have "set ws \<subseteq> set pending" using ws(1) subseqs_powset [of pending] by blast
  with ws(2) show ?case by auto
qed (auto simp: writes_def)

lemma crash_barrier: "writes g \<Longrightarrow> crash d pending (g @ Barrier # es) d' \<longleftrightarrow> crash (apply_effects d (pending @ g)) [] es d'"
proof (induction g arbitrary: pending)
  case (Cons e g)
  then show ?case by (cases e) (simp_all add: writes_def)
qed simp

lemma crash_groups:
  assumes "\<And>g. g \<in> set gs \<Longrightarrow> writes g" and "prefix es (concat (map (\<lambda>g. g @ [Barrier]) gs))" and "crash d [] es d'"
  shows "\<exists>k ws. k \<le> length gs \<and> set ws \<subseteq> (if k < length gs then set (gs ! k) else {})
    \<and> d' = apply_effects (apply_effects d (concat (take k gs))) ws \<and> (Barrier \<in> set es \<longrightarrow> 0 < k)
    \<and> (es = concat (map (\<lambda>g. g @ [Barrier]) gs) \<longrightarrow> k = length gs)"
  using assms
proof (induction gs arbitrary: d es)
  case Nil
  then show ?case by (intro exI [of _ 0] exI [of _ "[]"]) simp
next
  case (Cons g gs)
  let ?rest = "concat (map (\<lambda>g. g @ [Barrier]) gs)"
  have g: "writes g" using Cons.prems(1) by simp
  have "prefix es (g @ [Barrier] @ ?rest)" using Cons.prems(2) by simp
  then consider "prefix es g" | es' where "es = g @ [Barrier] @ es'" "prefix es' ?rest"
    by (auto simp: prefix_append prefix_Cons)
  then show ?case
  proof cases
    case 1
    then have es: "writes es" "set es \<subseteq> set g" using g by (auto simp: writes_def dest: set_mono_prefix)
    have "es \<noteq> concat (map (\<lambda>g. g @ [Barrier]) (g # gs))" using 1 by (auto dest: prefix_length_le)
    moreover obtain ws where "set ws \<subseteq> set es" "d' = apply_effects d ws"
      using crash_pending [OF es(1) Cons.prems(3)] by auto
    ultimately show ?thesis using es by (intro exI [of _ 0] exI [of _ ws]) (auto simp: writes_def)
  next
    case 2
    then have "crash (apply_effects d g) [] es' d'" using Cons.prems(3) crash_barrier [OF g, of d "[]" es' d'] by simp
    from Cons.IH [OF _ 2(2) this] Cons.prems(1) obtain k ws where "k \<le> length gs" "set ws \<subseteq> (if k < length gs then set (gs ! k) else {})"
      "d' = apply_effects (apply_effects (apply_effects d g) (concat (take k gs))) ws" "es' = ?rest \<longrightarrow> k = length gs" by auto
    then show ?thesis by (intro exI [of _ "Suc k"] exI [of _ ws]) (auto simp: apply_effects_append 2(1))
  qed
qed

section \<open>Reading the two copies\<close>

definition page0 :: "byte list \<Rightarrow> byte list" where
  "page0 img = sub img 0 PAGE_SIZE"

definition page1 :: "byte list \<Rightarrow> byte list" where
  "page1 img = sub img PAGE_SIZE PAGE_SIZE"

definition superblock :: "'d crc_lib \<Rightarrow> byte list \<Rightarrow> layout option \<Rightarrow> bool" where
  "superblock L page x \<longleftrightarrow> (case x of None \<Rightarrow> layout_decode L page = Err EE_NotFormatted | Some l \<Rightarrow> layout_decode L page = Ok l)"

lemma layout_read_two:
  assumes "2 * PAGE_SIZE \<le> length img" and "superblock L (page0 img) x" and "superblock L (page1 img) y"
    and "x = None \<or> x = Some l" and "y = None \<or> y = Some l" and "ly_capacity l \<le> of_nat (length img)"
  shows "layout_read L log_device (img, es) = (if x = None \<and> y = None then Err EE_NotFormatted else Ok l)"
  using assms by (auto simp: layout_read_def superblock_def page0_def page1_def not_less split: option.splits)

lemma layout_readD:
  assumes "2 * PAGE_SIZE \<le> length img"
  shows "layout_read L log_device (img, es) = Ok l \<Longrightarrow> \<exists>x y. superblock L (page0 img) x \<and> superblock L (page1 img) y
      \<and> (x = None \<or> x = Some l) \<and> (y = None \<or> y = Some l) \<and> ly_capacity l \<le> of_nat (length img)"
    and "layout_read L log_device (img, es) = Err EE_NotFormatted \<Longrightarrow> superblock L (page0 img) None \<and> superblock L (page1 img) None"
proof -
  let ?a = "layout_decode L (page0 img)" and ?b = "layout_decode L (page1 img)"
  have read: "layout_read L log_device (img, es) =
     rbind (case ?a of
       Ok l \<Rightarrow> (case ?b of Ok l' \<Rightarrow> if l = l' then Ok (Some l') else Err (EE_Corrupt ''superblocks disagree'')
                | Err e \<Rightarrow> if e = EE_NotFormatted then Ok (Some l) else Err e | Panic \<Rightarrow> Panic)
     | Err e \<Rightarrow> if e = EE_NotFormatted then (case ?b of Ok l' \<Rightarrow> Ok (Some l')
                | Err e \<Rightarrow> if e = EE_NotFormatted then Ok None else Err e | Panic \<Rightarrow> Panic) else Err e
     | Panic \<Rightarrow> Panic) (\<lambda>found. rbind (of_option EE_NotFormatted found) (\<lambda>l.
       if of_nat (length img) < ly_capacity l then Err (EE_Corrupt ''device was truncated'') else Ok l))"
    using assms by (simp add: layout_read_def page0_def page1_def split: res.split)
  show "\<exists>x y. superblock L (page0 img) x \<and> superblock L (page1 img) y
      \<and> (x = None \<or> x = Some l) \<and> (y = None \<or> y = Some l) \<and> ly_capacity l \<le> of_nat (length img)"
    if "layout_read L log_device (img, es) = Ok l"
    using that unfolding read
    by (intro exI [of _ "case ?a of Ok l \<Rightarrow> Some l | _ \<Rightarrow> None"] exI [of _ "case ?b of Ok l \<Rightarrow> Some l | _ \<Rightarrow> None"],
        cases ?a; cases ?b) (auto simp: superblock_def not_less split: if_splits)
  show "superblock L (page0 img) None \<and> superblock L (page1 img) None"
    if "layout_read L log_device (img, es) = Err EE_NotFormatted"
    using that unfolding read by (cases ?a; cases ?b) (auto simp: superblock_def split: if_splits)
qed

section \<open>The effects of a format\<close>

abbreviation zero_page :: "byte list" where
  "zero_page \<equiv> replicate PAGE_SIZE 0"

definition slot_clears :: "layout \<Rightarrow> nat \<Rightarrow> effect list" where
  "slot_clears l n = [Write (LAYOUT_START + n * unat (ly_segment_size l)) zero_page,
     Write (LAYOUT_START + n * unat (ly_segment_size l) + unat (ly_segment_size l) - PAGE_SIZE) zero_page]"

definition format_groups :: "'d crc_lib \<Rightarrow> layout \<Rightarrow> effect list list" where
  "format_groups L l =
     [[Write 0 zero_page, Write PAGE_SIZE zero_page],
      concat (map (slot_clears l) [0..<unat (ly_segments l)]),
      [Write 0 (layout_image L l)], [Write PAGE_SIZE (layout_image L l)]]"

lemma slot_clears_fit:
  assumes "layout_ok l" and "n < unat (ly_segments l)"
  shows "list_all (fits (unat (ly_capacity l))) (slot_clears l n)" and "\<And>off page. Write off page \<in> set (slot_clears l n) \<Longrightarrow> LAYOUT_START \<le> off"
proof -
  let ?size = "unat (ly_segment_size l)" and ?base = "LAYOUT_START + n * unat (ly_segment_size l)"
  have size: "4 * PAGE_SIZE \<le> ?size" "is_aligned ?size PAGE_SIZE" using assms(1) by (simp_all add: layout_ok_def)
  have "PAGE_SIZE dvd ?base" "PAGE_SIZE dvd ?base + ?size - PAGE_SIZE"
    using size(2) by (auto simp: is_aligned_def mod_eq_0_iff_dvd LAYOUT_START_def intro!: dvd_diff_nat)
  then show "list_all (fits (unat (ly_capacity l))) (slot_clears l n)"
    using slots_fit [OF assms] size by (simp add: slot_clears_def is_aligned_def mod_eq_0_iff_dvd)
  show "LAYOUT_START \<le> off" if "Write off page \<in> set (slot_clears l n)" for off page
    using that size by (auto simp: slot_clears_def)
qed

lemma clear_segments_log:
  assumes "layout_ok l" and "set ns \<subseteq> {..<unat (ly_segments l)}" and "length img = unat (ly_capacity l)"
  shows "clear_segments log_device l zero_page ns (img, es) =
    Ok (apply_effects img (concat (map (slot_clears l) ns)), es @ concat (map (slot_clears l) ns))"
  using assms(2,3)
proof (induction ns arbitrary: img es)
  case (Cons n ns)
  let ?size = "unat (ly_segment_size l)" and ?base = "LAYOUT_START + n * unat (ly_segment_size l)"
  have n: "n < unat (ly_segments l)" using Cons.prems(1) by simp
  have bounds: "?base + PAGE_SIZE \<le> length img" "?base + ?size - PAGE_SIZE + PAGE_SIZE \<le> length img" "PAGE_SIZE \<le> ?size"
    using slots_fit [OF assms(1) n] assms(1) Cons.prems(2) by (auto simp: layout_ok_def)
  let ?img = "patch (patch img ?base zero_page) (?base + ?size - PAGE_SIZE) zero_page"
  have "length ?img = length img" using bounds by simp
  then have "clear_segments log_device l zero_page ns (?img, es @ slot_clears l n) =
      Ok (apply_effects ?img (concat (map (slot_clears l) ns)), (es @ slot_clears l n) @ concat (map (slot_clears l) ns))"
    using Cons.prems by (intro Cons.IH) simp_all
  then show ?case using bounds by (simp add: segment_base_Ok [OF n] slot_clears_def [of l n])
qed simp

lemma format_device_run:
  assumes seq: "format_sequence L log_device options (img, []) = Ok seq" and new: "layout_new (of_nat (length img)) options seq = Ok l"
    and opts: "length (opt_device_id options) = 16" "opt_sync_mode options = SyncEnabled" and len: "length img < 2 ^ 64"
  shows "\<exists>img'. format_device L log_device options (img, []) = Ok (l, img', concat (map (\<lambda>g. g @ [Barrier]) (format_groups L l)))"
proof -
  have ok: "layout_ok l" and cap: "unat (ly_capacity l) = length img" using new opts(1) len by (auto simp: layout_new_iff unat_u64)
  have "0 < unat (ly_segments l)" "4 * PAGE_SIZE \<le> unat (ly_segment_size l)" using ok by (simp_all add: layout_ok_def)
  then have two: "2 * PAGE_SIZE + PAGE_SIZE \<le> length img" using slots_fit [OF ok, of 0] cap by (simp add: LAYOUT_START_def)
  have idl: "length (ly_id l) = 16" using ok by (simp add: layout_ok_def)
  let ?img = "patch (patch img 0 zero_page) PAGE_SIZE zero_page"
  have len2: "length ?img = unat (ly_capacity l)" using two cap by simp
  have enc: "(layout_encode L l zero_page :: (engine_error, _) res) = Ok (layout_image L l)"
    using layout_encode_image [OF _ idl, of zero_page L] by simp
  let ?cl = "concat (map (slot_clears l) [0..<unat (ly_segments l)])"
  have all: "list_all (fits (length ?img)) ?cl"
    using slot_clears_fit(1) [OF ok] len2 by (fastforce simp: list_all_iff)
  have len3: "length (apply_effects ?img ?cl) = length img" using length_apply_effects [OF all] len2 cap by simp
  have clr: "clear_segments log_device l zero_page [0..<unat (ly_segments l)] (?img, e) = Ok (apply_effects ?img ?cl, e @ ?cl)" for e
    by (rule clear_segments_log [OF ok _ len2]) auto
  show ?thesis
    using seq new two opts(2) enc clr len3 length_layout_image [OF idl, of L]
    by (simp add: format_device_def format_sync_def Let_def format_groups_def)
qed

lemma format_device_log:
  assumes fmt: "format_device L log_device options (img, []) = Ok (l, img', es)" and opts: "length (opt_device_id options) = 16"
    "opt_sync_mode options = SyncEnabled" and len: "length img < 2 ^ 64"
  shows "layout_ok l" "ly_id l = opt_device_id options" "ly_limits l = opt_limits options" "unat (ly_capacity l) = length img"
    "es = concat (map (\<lambda>g. g @ [Barrier]) (format_groups L l))" "\<exists>seq. format_sequence L log_device options (img, []) = Ok seq"
proof -
  from fmt obtain seq where seq: "format_sequence L log_device options (img, []) = Ok seq"
    and new: "layout_new (of_nat (length img)) options seq = Ok l"
    by (auto simp: format_device_def rbind_Ok_iff Let_def)
  show "\<exists>seq. format_sequence L log_device options (img, []) = Ok seq" using seq by blast
  show "layout_ok l" "ly_id l = opt_device_id options" "ly_limits l = opt_limits options" "unat (ly_capacity l) = length img"
    using new opts(1) len by (auto simp: layout_new_iff unat_u64)
  show "es = concat (map (\<lambda>g. g @ [Barrier]) (format_groups L l))"
    using fmt format_device_run [OF seq new opts len] by auto
qed

section \<open>Power loss while formatting\<close>

definition slots_clear :: "layout \<Rightarrow> byte list \<Rightarrow> bool" where
  "slots_clear l d \<longleftrightarrow> (\<forall>n < unat (ly_segments l). \<forall>off page. Write off page \<in> set (slot_clears l n) \<longrightarrow> sub d off PAGE_SIZE = zero_page)"

lemma stage_pages:
  assumes "list_all (fits (length d)) ws" and "3 * PAGE_SIZE \<le> length d"
  shows "Write 0 (page0 (apply_effects d ws)) \<in> set ws \<or> page0 (apply_effects d ws) = page0 d \<and> (\<forall>page. Write 0 page \<notin> set ws)"
    and "Write PAGE_SIZE (page1 (apply_effects d ws)) \<in> set ws
      \<or> page1 (apply_effects d ws) = page1 d \<and> (\<forall>page. Write PAGE_SIZE page \<notin> set ws)"
  using page_after [OF assms(1), of 0] page_after [OF assms(1), of PAGE_SIZE] assms(2)
  by (simp_all add: page0_def page1_def is_aligned_def)

lemma slots_clear_kept:
  assumes "slots_clear l d" and "layout_ok l" and "length d = unat (ly_capacity l)" and "list_all (fits (length d)) ws"
    and "\<And>off page. Write off page \<in> set ws \<Longrightarrow> off < LAYOUT_START \<or> page = zero_page"
  shows "slots_clear l (apply_effects d ws)"
  unfolding slots_clear_def
proof (intro allI impI)
  fix n off page
  assume n: "n < unat (ly_segments l)" and w: "Write off page \<in> set (slot_clears l n)"
  have "fits (length d) (Write off page)" "LAYOUT_START \<le> off"
    using slot_clears_fit [OF assms(2) n] w assms(3) by (auto simp: list_all_iff)
  moreover have "sub d off PAGE_SIZE = zero_page" using assms(1) n w by (auto simp: slots_clear_def)
  ultimately show "sub (apply_effects d ws) off PAGE_SIZE = zero_page"
    using page_after [OF assms(4), of off] assms(5) [of off] by fastforce
qed

lemma slots_cleared:
  assumes "layout_ok l" and "length d = unat (ly_capacity l)"
  shows "slots_clear l (apply_effects d (concat (map (slot_clears l) [0..<unat (ly_segments l)])))"
  unfolding slots_clear_def
proof (intro allI impI)
  fix n off page
  let ?ws = "concat (map (slot_clears l) [0..<unat (ly_segments l)])"
  assume n: "n < unat (ly_segments l)" and w: "Write off page \<in> set (slot_clears l n)"
  have fit: "list_all (fits (length d)) ?ws" using slot_clears_fit(1) [OF assms(1)] assms(2) by (fastforce simp: list_all_iff)
  have "Write off page \<in> set ?ws" using n w by auto
  moreover from this fit have "fits (length d) (Write off page)" by (meson list_all_iff)
  ultimately have "Write off (sub (apply_effects d ?ws) off PAGE_SIZE) \<in> set ?ws" using page_after [OF fit, of off] by auto
  then show "sub (apply_effects d ?ws) off PAGE_SIZE = zero_page" by (auto simp: slot_clears_def)
qed

lemma superblock_zero: "superblock L zero_page None"
  by (simp add: superblock_def layout_decode_zero)

lemma superblock_image: "layout_ok l \<Longrightarrow> layout_limits_ok (ly_limits l) \<Longrightarrow> superblock L (layout_image L l) (Some l)"
  by (simp add: superblock_def layout_decode_image)

text \<open>The device after the first \<open>k\<close> groups.\<close>

definition stage :: "'d crc_lib \<Rightarrow> layout \<Rightarrow> byte list \<Rightarrow> nat \<Rightarrow> byte list" where
  "stage L l img k = apply_effects img (concat (take k (format_groups L l)))"

lemma length_format_groups: "length (format_groups L l) = 4"
  by (simp add: format_groups_def)

lemma stage_Suc: "k < 4 \<Longrightarrow> stage L l img (Suc k) = apply_effects (stage L l img k) (format_groups L l ! k)"
  by (simp add: stage_def take_Suc_conv_app_nth length_format_groups apply_effects_append)

lemma PAGE_SIZE_nz [simp]: "PAGE_SIZE \<noteq> 0"
  by (simp add: PAGE_SIZE_def)

lemma group_cases: "k < 4 \<Longrightarrow> k = 0 \<or> k = 1 \<or> k = 2 \<or> k = (3::nat)"
  by auto

lemma group_writes:
  assumes "layout_ok l" and "k < 4"
  shows "Write 0 page \<in> set (format_groups L l ! k) \<longleftrightarrow> k = 0 \<and> page = zero_page \<or> k = 2 \<and> page = layout_image L l"
    and "Write PAGE_SIZE page \<in> set (format_groups L l ! k) \<longleftrightarrow> k = 0 \<and> page = zero_page \<or> k = 3 \<and> page = layout_image L l"
    and "Write off page \<in> set (format_groups L l ! k) \<Longrightarrow> off < LAYOUT_START \<or> page = zero_page"
proof -
  have far: "LAYOUT_START \<le> off" if "n < unat (ly_segments l)" "Write off page \<in> set (slot_clears l n)" for n off page
    using that slot_clears_fit(2) [OF assms(1)] by blast
  have away: "Write off page \<notin> set (slot_clears l n)" if "n < unat (ly_segments l)" "off < LAYOUT_START" for n off page
    using far that by fastforce
  show "Write 0 page \<in> set (format_groups L l ! k) \<longleftrightarrow> k = 0 \<and> page = zero_page \<or> k = 2 \<and> page = layout_image L l"
    "Write PAGE_SIZE page \<in> set (format_groups L l ! k) \<longleftrightarrow> k = 0 \<and> page = zero_page \<or> k = 3 \<and> page = layout_image L l"
    using group_cases [OF assms(2)] away PAGE_SIZE_pos by (auto simp: format_groups_def LAYOUT_START_def)
  show "Write off page \<in> set (format_groups L l ! k) \<Longrightarrow> off < LAYOUT_START \<or> page = zero_page"
    using group_cases [OF assms(2)] PAGE_SIZE_pos by (auto simp: format_groups_def LAYOUT_START_def slot_clears_def)
qed

lemma groups_fit:
  assumes "layout_ok l" and "k < 4"
  shows "list_all (fits (unat (ly_capacity l))) (format_groups L l ! k)" and "3 * PAGE_SIZE \<le> unat (ly_capacity l)"
proof -
  have "4 * PAGE_SIZE \<le> unat (ly_segment_size l)" "0 < unat (ly_segments l)" using assms(1) by (simp_all add: layout_ok_def)
  then show three: "3 * PAGE_SIZE \<le> unat (ly_capacity l)" using slots_fit [OF assms(1), of 0] by (simp add: LAYOUT_START_def)
  have "length (layout_image L l) = PAGE_SIZE" using assms(1) by (intro length_layout_image) (simp add: layout_ok_def)
  moreover have "is_aligned 0 PAGE_SIZE" "is_aligned PAGE_SIZE PAGE_SIZE" by (simp_all add: is_aligned_def)
  ultimately show "list_all (fits (unat (ly_capacity l))) (format_groups L l ! k)"
    using group_cases [OF assms(2)] three slot_clears_fit(1) [OF assms(1)] by (auto simp: format_groups_def list_all_iff)
qed

lemma stage_state:
  assumes "layout_ok l" and "length img = unat (ly_capacity l)" and "k \<le> 4"
  shows "length (stage L l img k) = unat (ly_capacity l)
    \<and> page0 (stage L l img k) = (if k = 0 then page0 img else if k \<le> 2 then zero_page else layout_image L l)
    \<and> page1 (stage L l img k) = (if k = 0 then page1 img else if k \<le> 3 then zero_page else layout_image L l)
    \<and> (2 \<le> k \<longrightarrow> slots_clear l (stage L l img k))"
  using assms(3)
proof (induction k)
  case 0
  then show ?case using assms(2) by (simp add: stage_def)
next
  case (Suc k)
  then have k: "k < 4" by simp
  let ?d = "stage L l img k" and ?g = "format_groups L l ! k"
  have IH: "length ?d = unat (ly_capacity l)" "page0 ?d = (if k = 0 then page0 img else if k \<le> 2 then zero_page else layout_image L l)"
    "page1 ?d = (if k = 0 then page1 img else if k \<le> 3 then zero_page else layout_image L l)" "2 \<le> k \<longrightarrow> slots_clear l ?d"
    using Suc by simp_all
  have fit: "list_all (fits (length ?d)) ?g" "3 * PAGE_SIZE \<le> length ?d" using groups_fit [OF assms(1) k] IH(1) by simp_all
  have slots: "slots_clear l (apply_effects ?d ?g)" if "2 \<le> Suc k"
  proof (cases "k = 1")
    case True
    then show ?thesis using slots_cleared [OF assms(1) IH(1)] by (simp add: format_groups_def)
  next
    case False
    then show ?thesis using that IH(4) slots_clear_kept [OF _ assms(1) IH(1) fit(1) group_writes(3) [OF assms(1) k]] by simp
  qed
  show ?case
    unfolding stage_Suc [OF k]
    using stage_pages [OF fit] group_writes(1,2) [OF assms(1) k, of _ L] IH length_apply_effects [OF fit(1)] slots group_cases [OF k]
    by auto
qed

lemma format_stages:
  assumes ok: "layout_ok l" and len: "length img = unat (ly_capacity l)"
    and ws: "set ws \<subseteq> (if k < 4 then set (format_groups L l ! k) else {})" and k: "k \<le> 4"
  defines "d \<equiv> apply_effects (stage L l img k) ws"
  shows "length d = length img"
    "k = 0 \<Longrightarrow> (page0 d = page0 img \<or> page0 d = zero_page) \<and> (page1 d = page1 img \<or> page1 d = zero_page)"
    "0 < k \<Longrightarrow> (page0 d = zero_page \<or> 2 \<le> k \<and> page0 d = layout_image L l) \<and> (page1 d = zero_page \<or> 3 \<le> k \<and> page1 d = layout_image L l)"
    "3 \<le> k \<Longrightarrow> page0 d = layout_image L l" "4 \<le> k \<Longrightarrow> page1 d = layout_image L l" "2 \<le> k \<Longrightarrow> slots_clear l d"
proof -
  let ?s = "stage L l img k"
  have s: "length ?s = unat (ly_capacity l)" "page0 ?s = (if k = 0 then page0 img else if k \<le> 2 then zero_page else layout_image L l)"
    "page1 ?s = (if k = 0 then page1 img else if k \<le> 3 then zero_page else layout_image L l)" "2 \<le> k \<Longrightarrow> slots_clear l ?s"
    using stage_state [OF ok len k, of L] by simp_all
  have w: "k < 4" "e \<in> set (format_groups L l ! k)" if "e \<in> set ws" for e using that ws by (auto split: if_splits)
  have fit: "list_all (fits (length ?s)) ws" "3 * PAGE_SIZE \<le> length ?s"
    using groups_fit [OF ok] s(1) w by (fastforce simp: list_all_iff)+
  have w0: "k = 0 \<and> page = zero_page \<or> k = 2 \<and> page = layout_image L l" if "Write 0 page \<in> set ws" for page
    using group_writes(1) [OF ok w(1) [OF that]] w(2) [OF that] by blast
  have w1: "k = 0 \<and> page = zero_page \<or> k = 3 \<and> page = layout_image L l" if "Write PAGE_SIZE page \<in> set ws" for page
    using group_writes(2) [OF ok w(1) [OF that]] w(2) [OF that] by blast
  have p0: "page0 d = page0 ?s \<or> k = 0 \<and> page0 d = zero_page \<or> k = 2 \<and> page0 d = layout_image L l"
    using stage_pages(1) [OF fit] w0 unfolding d_def by metis
  have p1: "page1 d = page1 ?s \<or> k = 0 \<and> page1 d = zero_page \<or> k = 3 \<and> page1 d = layout_image L l"
    using stage_pages(2) [OF fit] w1 unfolding d_def by metis
  show "length d = length img" using length_apply_effects [OF fit(1)] s(1) len by (simp add: d_def)
  show "k = 0 \<Longrightarrow> (page0 d = page0 img \<or> page0 d = zero_page) \<and> (page1 d = page1 img \<or> page1 d = zero_page)"
    "0 < k \<Longrightarrow> (page0 d = zero_page \<or> 2 \<le> k \<and> page0 d = layout_image L l) \<and> (page1 d = zero_page \<or> 3 \<le> k \<and> page1 d = layout_image L l)"
    "3 \<le> k \<Longrightarrow> page0 d = layout_image L l" "4 \<le> k \<Longrightarrow> page1 d = layout_image L l"
    using p0 p1 s(2,3) k by (auto split: if_splits)
  show "slots_clear l d" if "2 \<le> k"
    unfolding d_def using slots_clear_kept [OF s(4) [OF that] ok s(1) fit(1)] group_writes(3) [OF ok w(1)] w(2) by blast
qed


section \<open>A sample device\<close>

lemma sample_format:
  "\<exists>l img' es. format_device rfc3720 log_device sample_options (replicate 40960 0, []) = Ok (l, img', es)"
proof -
  let ?img = "replicate 40960 (0::byte)"
  have "page0 ?img = zero_page" "page1 ?img = zero_page" by (simp_all add: page0_def page1_def sub_def PAGE_SIZE_def)
  moreover obtain l0 :: layout where "ly_capacity l0 = 0" by (metis select_convs(2) layout.select_convs(2))
  ultimately have "layout_read rfc3720 log_device (?img, []) = Err EE_NotFormatted"
    using layout_read_two [of ?img rfc3720 None None l0 "[]"] superblock_zero [of rfc3720] by (simp add: PAGE_SIZE_def)
  then have seq: "format_sequence rfc3720 log_device sample_options (?img, []) =
      Ok (max (drop_bit 1 (le_join (sub (replicate 16 1) 0 8))) 1)"
    by (simp add: format_sequence_def sample_options_def)
  obtain l where new: "layout_new (of_nat (length ?img)) sample_options (max (drop_bit 1 (le_join (sub (replicate 16 1) 0 8))) 1) = Ok l"
    using sample_layout half_word by metis
  have "length (opt_device_id sample_options) = 16" "opt_sync_mode sample_options = SyncEnabled" by (simp_all add: sample_options_def)
  from format_device_run [OF seq new this] show ?thesis by auto
qed


interpretation logged: positional_device log_device
  by unfold_locales (auto split: if_splits)

theorem reformat_fresh_epochs_witness:
  "\<exists>img old l s' h. layout_read rfc3720 log_device (img, []) = Ok old
    \<and> format_device rfc3720 log_device (sample_options \<lparr> opt_device_id := replicate 16 2 \<rparr>) (img, []) = Ok (l, s')
    \<and> layout_header l 0 = Ok h \<and> ly_sequence old < sid_sequence (sh_id h)"
proof -
  let ?opts = "sample_options \<lparr> opt_device_id := replicate 16 2 \<rparr>"
  obtain old where old: "layout_new 40960 sample_options 5 = Ok old" "unat (ly_segments old) = 2" using sample_layout [of 5] by auto
  have fields: "layout_ok old" "ly_limits old = opt_limits sample_options" "ly_id old = replicate 16 1" "ly_capacity old = 40960"
    "ly_segment_size old = 16384" "ly_sequence old = 5"
    using old(1) layout_new_iff [of sample_options 40960 5 old] by (simp_all add: sample_options_def)
  define img where "img = layout_image rfc3720 old @ replicate 36864 0"
  have len: "length (layout_image rfc3720 old) = 4096" using length_layout_image [of old rfc3720] fields(3) by (simp add: PAGE_SIZE_def)
  have lim: "layout_limits_ok (ly_limits old)"
    unfolding fields(2) by (simp add: layout_limits_ok_def sample_options_def frame_limits_new_def is_aligned_def PAGE_SIZE_def)
  have pages: "page0 img = layout_image rfc3720 old" "page1 img = zero_page" "length img = 40960"
    using len by (simp_all add: img_def page0_def page1_def sub_def PAGE_SIZE_def)
  have "2 * PAGE_SIZE \<le> length img" using pages(3) by (simp add: PAGE_SIZE_def)
  from layout_read_two [OF this, of rfc3720 "Some old" None old "[]"]
  have read: "layout_read rfc3720 log_device (img, []) = Ok old"
    using pages superblock_image [OF fields(1) lim, of rfc3720] superblock_zero [of rfc3720] fields(4) by simp
  have base: "segment_base old (of_nat n) = Ok (8192 + n * 16384)" if "n < 2" for n
    using segment_base_Ok(1) [of n old] that old(2) fields(5) by (simp add: LAYOUT_START_def PAGE_SIZE_def)
  have zero: "all_zero (sub img (8192 + n * 16384) 4096)" if "n < 2" for n
    using len by (simp add: img_def sub_def all_zero_def list_all_iff)
  have "[0..<unat (ly_segments old)] = [0, 1]" unfolding old(2) by (simp add: numeral_2_eq_2)
  then have "last_sequence rfc3720 log_device (img, []) old [0..<unat (ly_segments old)] x = Ok x" for x
    using base [of 0] base [of 1] zero [of 0] zero [of 1] pages(3) by (simp add: PAGE_SIZE_def)
  moreover have "ucast (ly_segments old) = (2 :: u64)" using old(2) unat_ucast_u64 [of "ly_segments old"] by (simp add: word_unat_eq_iff)
  ultimately have seq: "format_sequence rfc3720 log_device ?opts (img, []) = Ok 7"
    using read fields(3,6) by (simp add: format_sequence_def replicate_eq_replicate)
  have "max (16384 :: u32) 1 = 16384" by (simp add: max_def word_le_nat_alt)
  then obtain l where new: "layout_new (of_nat (length img)) ?opts 7 = Ok l" "unat (ly_segments l) = 2"
    using pages(3) by (auto simp: layout_new_def sample_options_def PAGE_SIZE_def LAYOUT_START_def is_aligned_def replicate_eq_replicate)
  have "length (opt_device_id ?opts) = 16" "opt_sync_mode ?opts = SyncEnabled" "length img < 2 ^ 64"
    using pages(3) by (simp_all add: sample_options_def)
  from format_device_run [OF seq new(1) this] obtain s' where fmt: "format_device rfc3720 log_device ?opts (img, []) = Ok (l, s')" by auto
  from reformat_fresh_epochs [OF logged.positional_device_axioms read fmt, of 0 0] old(2) new(2)
  obtain h where "layout_header l 0 = Ok h" "ly_sequence old < sid_sequence (sh_id h)"
    by (auto simp: word_less_nat_alt sample_options_def)
  with read fmt show ?thesis by blast
qed

end
