(* ===== verification/Buddy.thy ===== *)
theory Buddy
  imports Align "HOL-Library.Multiset"
begin

text \<open>
  The binary buddy allocator of one arena (\<^verbatim>\<open>moat-common/src/pool.rs\<close>, \<open>Buddy\<close>). The state is the
  code's: the heads of the free lists, the stacks of parked blocks, the bitmaps of 64-bit words, and
  the links that free blocks hold in their first bytes, as a map from block offsets to the pair
  \<open>(prev, next)\<close>. \<open>usize\<close> values are natural numbers and \<open>NONE\<close> is their largest. An index out of
  range is a panic. \<open>Vec::with_capacity\<close> may reserve more than it is asked for: the function \<open>reserve\<close>
  from requested to actual capacities is a parameter, and the capacities are a field of the state.
\<close>

unbundle bit_operations_syntax

section \<open>The state\<close>

definition NONE :: nat where
  "NONE = 2 ^ 64 - 1"

definition LAZY_BYTES_PER_ORDER :: nat where
  "LAZY_BYTES_PER_ORDER = 8 * 2 ^ 20"

record buddy =
  bd_min_shift :: nat
  bd_heads :: "nat list"
  bd_parked :: "nat list list"
  bd_park_caps :: "nat list"
  bd_bitmaps :: "u64 list list"
  bd_links :: "nat \<Rightarrow> nat \<times> nat"

type_synonym 'a step = "(unit, 'a) res"

section \<open>Free lists\<close>

definition buddy_size :: "buddy \<Rightarrow> nat \<Rightarrow> nat" where
  "buddy_size b order = 2 ^ (order + bd_min_shift b)"

definition set_links :: "buddy \<Rightarrow> nat \<Rightarrow> nat \<Rightarrow> nat \<Rightarrow> buddy" where
  "set_links b offset prev nxt = b \<lparr> bd_links := (bd_links b)(offset := (prev, nxt)) \<rparr>"

definition bit_index :: "buddy \<Rightarrow> nat \<Rightarrow> nat \<Rightarrow> nat \<times> u64" where
  "bit_index b order offset =
     (let i = drop_bit (order + bd_min_shift b) offset in (i div 64, push_bit (i mod 64) 1))"

definition is_free :: "buddy \<Rightarrow> nat \<Rightarrow> nat \<Rightarrow> bool step" where
  "is_free b order offset =
     (case bit_index b order offset of (word, bm) \<Rightarrow>
        rbind (index (bd_bitmaps b) order) (\<lambda>words.
          Ok (word < length words \<and> words ! word AND bm \<noteq> 0)))"

definition update_bitmap :: "(u64 \<Rightarrow> u64 \<Rightarrow> u64) \<Rightarrow> nat \<Rightarrow> nat \<Rightarrow> buddy \<Rightarrow> buddy step" where
  "update_bitmap f order offset b =
     (case bit_index b order offset of (word, bm) \<Rightarrow>
        rbind (index (bd_bitmaps b) order) (\<lambda>words.
        rbind (index words word) (\<lambda>w.
        rbind (index_put words word (f w bm)) (\<lambda>words.
        rbind (index_put (bd_bitmaps b) order words) (\<lambda>bitmaps.
          Ok (b \<lparr> bd_bitmaps := bitmaps \<rparr>))))))"

definition buddy_push :: "buddy \<Rightarrow> nat \<Rightarrow> nat \<Rightarrow> buddy step" where
  "buddy_push b order offset =
     rbind (index (bd_heads b) order) (\<lambda>head.
     let b = set_links b offset NONE head;
         b = (if head \<noteq> NONE then set_links b head offset (snd (bd_links b head)) else b) in
     rbind (index_put (bd_heads b) order offset) (\<lambda>heads.
       update_bitmap (\<lambda>w bm. w OR bm) order offset (b \<lparr> bd_heads := heads \<rparr>)))"

definition buddy_unlink :: "buddy \<Rightarrow> nat \<Rightarrow> nat \<Rightarrow> buddy step" where
  "buddy_unlink b order offset =
     (let prev = fst (bd_links b offset); nxt = snd (bd_links b offset) in
      rbind (if prev = NONE then rbind (index_put (bd_heads b) order nxt) (\<lambda>heads. Ok (b \<lparr> bd_heads := heads \<rparr>))
             else Ok (set_links b prev (fst (bd_links b prev)) nxt)) (\<lambda>b.
      let b = (if nxt \<noteq> NONE then set_links b nxt prev (snd (bd_links b nxt)) else b) in
      update_bitmap (\<lambda>w bm. w AND NOT bm) order offset b))"

section \<open>Allocation and release\<close>

text \<open>The loop of \<open>release_eager\<close>; \<open>n\<close> counts the orders above \<open>order\<close>.\<close>

fun merge_up :: "buddy \<Rightarrow> nat \<Rightarrow> nat \<Rightarrow> nat \<Rightarrow> buddy step" where
  "merge_up b offset order 0 = buddy_push b order offset"
| "merge_up b offset order (Suc n) =
     (let other = offset XOR buddy_size b order in
      rbind (is_free b order other) (\<lambda>free.
      if \<not> free then buddy_push b order offset else
      rbind (buddy_unlink b order other) (\<lambda>b.
        merge_up b (min offset other) (order + 1) n)))"

definition release_eager :: "buddy \<Rightarrow> nat \<Rightarrow> nat \<Rightarrow> buddy step" where
  "release_eager b offset order = merge_up b offset order (length (bd_heads b) - (order + 1))"

text \<open>The inner loop of \<open>compact\<close>; \<open>n\<close> bounds the blocks it pops.\<close>

fun compact_order :: "buddy \<Rightarrow> nat \<Rightarrow> nat \<Rightarrow> buddy step" where
  "compact_order b order 0 = Ok b"
| "compact_order b order (Suc n) =
     rbind (index (bd_parked b) order) (\<lambda>stack.
     if stack = [] then Ok b else
     rbind (release_eager (b \<lparr> bd_parked := (bd_parked b)[order := butlast stack] \<rparr>) (last stack) order) (\<lambda>b.
       compact_order b order n))"

fun compact_orders :: "buddy \<Rightarrow> nat list \<Rightarrow> buddy step" where
  "compact_orders b [] = Ok b"
| "compact_orders b (order # rest) =
     rbind (index (bd_parked b) order) (\<lambda>stack.
     rbind (compact_order b order (length stack)) (\<lambda>b. compact_orders b rest))"

definition compact :: "buddy \<Rightarrow> buddy step" where
  "compact b = compact_orders b [0..<length (bd_heads b)]"

definition find_head :: "buddy \<Rightarrow> nat \<Rightarrow> nat option" where
  "find_head b order = find (\<lambda>k. bd_heads b ! k \<noteq> NONE) [order..<length (bd_heads b)]"

fun split_down :: "buddy \<Rightarrow> nat \<Rightarrow> nat list \<Rightarrow> buddy step" where
  "split_down b offset [] = Ok b"
| "split_down b offset (k # rest) = rbind (buddy_push b k (offset + buddy_size b k)) (\<lambda>b. split_down b offset rest)"

definition take_head :: "buddy \<Rightarrow> nat \<Rightarrow> nat \<Rightarrow> (nat option \<times> buddy) step" where
  "take_head b order from =
     rbind (index (bd_heads b) from) (\<lambda>offset.
     rbind (buddy_unlink b from offset) (\<lambda>b.
     rbind (split_down b offset (rev [order..<from])) (\<lambda>b.
       Ok (Some offset, b))))"

definition buddy_alloc :: "buddy \<Rightarrow> nat \<Rightarrow> (nat option \<times> buddy) step" where
  "buddy_alloc b order =
     rbind (index (bd_parked b) order) (\<lambda>stack.
     if stack \<noteq> [] then Ok (Some (last stack), b \<lparr> bd_parked := (bd_parked b)[order := butlast stack] \<rparr>) else
     case find_head b order of
       Some from \<Rightarrow> take_head b order from
     | None \<Rightarrow>
         if list_all (\<lambda>s. s = []) (bd_parked b) then Ok (None, b) else
         rbind (compact b) (\<lambda>b.
         case find_head b order of
           None \<Rightarrow> Ok (None, b)
         | Some from \<Rightarrow> take_head b order from))"

definition buddy_release :: "buddy \<Rightarrow> nat \<Rightarrow> nat \<Rightarrow> buddy step" where
  "buddy_release b offset order =
     rbind (index (bd_parked b) order) (\<lambda>stack.
     rbind (index (bd_park_caps b) order) (\<lambda>capacity.
     if length stack < capacity
     then Ok (b \<lparr> bd_parked := (bd_parked b)[order := stack @ [offset]] \<rparr>)
     else release_eager b offset order))"

section \<open>Construction\<close>

function seed :: "nat \<Rightarrow> nat \<Rightarrow> buddy \<Rightarrow> nat \<Rightarrow> nat \<Rightarrow> buddy step" where
  "seed min_shift max_shift b offset remaining =
     (if remaining \<ge> 2 ^ min_shift then
        let shift = min (ilog2 remaining) max_shift in
        rbind (buddy_push b (shift - min_shift) offset) (\<lambda>b.
          seed min_shift max_shift b (offset + 2 ^ shift) (remaining - 2 ^ shift))
      else Ok b)"
  by pat_completeness auto
termination
  by (relation "measure (\<lambda>(_, _, _, _, remaining). remaining)") (auto intro!: diff_less intro: less_le_trans [rotated])

definition blank_buddy :: "(nat \<Rightarrow> nat) \<Rightarrow> nat \<Rightarrow> nat \<Rightarrow> nat \<Rightarrow> (nat \<Rightarrow> nat \<times> nat) \<Rightarrow> buddy" where
  "blank_buddy reserve len min_shift max_shift memory =
     (let orders = max_shift - min_shift + 1 in
      \<lparr> bd_min_shift = min_shift, bd_heads = replicate orders NONE, bd_parked = replicate orders [],
        bd_park_caps = map (\<lambda>k. reserve (max (drop_bit (k + min_shift) LAZY_BYTES_PER_ORDER) 1)) [0..<orders],
        bd_bitmaps = map (\<lambda>k. replicate (max ((drop_bit (k + min_shift) len + 63) div 64) 1) 0) [0..<orders],
        bd_links = memory \<rparr>)"

definition buddy_new :: "(nat \<Rightarrow> nat) \<Rightarrow> nat \<Rightarrow> nat \<Rightarrow> nat \<Rightarrow> (nat \<Rightarrow> nat \<times> nat) \<Rightarrow> buddy step" where
  "buddy_new reserve len min_shift max_shift memory =
     seed min_shift max_shift (blank_buddy reserve len min_shift max_shift memory) 0 len"

end
