(* ===== verification/Buddy_Lists.thy ===== *)
theory Buddy_Lists
  imports Buddy
begin

text \<open>
  The free lists of the buddy allocator represent lists of blocks: \<open>rep len b cs\<close> says that order
  \<open>k\<close>'s doubly linked list is \<open>cs ! k\<close>, that its bitmap marks exactly these blocks, and that they are
  aligned blocks inside an arena of \<open>len\<close> bytes. Pushing and unlinking a block are then insertion
  at the front and removal; neither panics.
\<close>

declare index_put_Ok [simp del]

lemma index_put_upd [simp]: "i < length xs \<Longrightarrow> index_put xs i v = Ok (xs[i := v])"
  by (simp add: index_put_def)

section \<open>Linked lists\<close>

fun lseg :: "(nat \<Rightarrow> nat \<times> nat) \<Rightarrow> nat \<Rightarrow> nat \<Rightarrow> nat list \<Rightarrow> nat \<Rightarrow> bool" where
  "lseg m p h [] t \<longleftrightarrow> h = t"
| "lseg m p h (x # xs) t \<longleftrightarrow> h = x \<and> x \<noteq> NONE \<and> fst (m x) = p \<and> lseg m x (snd (m x)) xs t"

definition first :: "nat list \<Rightarrow> nat \<Rightarrow> nat" where
  "first xs t = (case xs of [] \<Rightarrow> t | x # _ \<Rightarrow> x)"

lemma first_simps [simp]: "first [] t = t" "first (x # xs) t = x"
  by (simp_all add: first_def)

lemma lseg_head: "lseg m p h xs t \<Longrightarrow> h = first xs t"
  by (cases xs) simp_all

lemma lseg_append: "lseg m p h (xs @ ys) t \<longleftrightarrow> lseg m p h xs (first ys t) \<and> lseg m (last (p # xs)) (first ys t) ys t"
proof (induction xs arbitrary: p h)
  case Nil
  then show ?case by (cases ys) auto
qed auto

lemma lseg_frame: "(\<And>x. x \<in> set xs \<Longrightarrow> m' x = m x) \<Longrightarrow> lseg m' p h xs t \<longleftrightarrow> lseg m p h xs t"
  by (induction xs arbitrary: p h) auto

lemma lseg_nonempty: "lseg m p h xs NONE \<Longrightarrow> h \<noteq> NONE \<longleftrightarrow> xs \<noteq> []"
  by (cases xs) auto

lemma lseg_push:
  assumes "lseg m NONE h c NONE" and "x \<notin> set c" and "x \<noteq> NONE" and "distinct c"
  defines "m1 \<equiv> m(x := (NONE, h))"
  shows "lseg (if h \<noteq> NONE then m1(h := (x, snd (m1 h))) else m1) NONE x (x # c) NONE"
proof (cases c)
  case Nil
  then show ?thesis using assms by simp
next
  case (Cons y ys)
  then have h: "h = y" "y \<noteq> NONE" "x \<noteq> y" using assms by auto
  let ?m = "m1(h := (x, snd (m1 h)))"
  have "lseg ?m y (snd (m y)) ys NONE \<longleftrightarrow> lseg m y (snd (m y)) ys NONE"
    using assms(2,4) Cons h by (intro lseg_frame) (auto simp: m1_def)
  then show ?thesis using assms(1,3) Cons h by (simp add: m1_def)
qed

lemma lseg_unlink:
  assumes seg: "lseg m NONE h (xs @ x # ys) NONE" and dist: "distinct (xs @ x # ys)"
  defines "prev \<equiv> last (NONE # xs)" and "nxt \<equiv> first ys NONE"
  defines "m1 \<equiv> (if prev = NONE then m else m(prev := (fst (m prev), nxt)))"
  defines "m2 \<equiv> (if nxt \<noteq> NONE then m1(nxt := (prev, snd (m1 nxt))) else m1)"
  shows "m x = (prev, nxt)" "prev = NONE \<longleftrightarrow> xs = []" "lseg m2 NONE (if prev = NONE then nxt else h) (xs @ ys) NONE"
    "\<And>z. z \<notin> set (xs @ ys) \<Longrightarrow> m2 z = m z"
proof -
  have parts: "lseg m NONE h xs x" "lseg m prev x (x # ys) NONE" using seg by (simp_all add: lseg_append prev_def)
  then have x: "fst (m x) = prev" "lseg m x (snd (m x)) ys NONE" "x \<noteq> NONE" by auto
  then show mx: "m x = (prev, nxt)" using lseg_head [OF x(2)] by (simp add: nxt_def prod_eq_iff)
  have nn: "\<forall>z\<in>set zs. z \<noteq> NONE" if "lseg m p h zs t" for p h zs t using that by (induction zs arbitrary: p h) auto
  have xs: "\<forall>z\<in>set xs. z \<noteq> NONE" and ys: "\<forall>z\<in>set ys. z \<noteq> NONE" using nn [OF parts(1)] nn [OF x(2)] by auto
  show prev: "prev = NONE \<longleftrightarrow> xs = []" using xs by (auto simp: prev_def)
  have nxt: "nxt = NONE \<longleftrightarrow> ys = []" using ys by (auto simp: nxt_def first_def split: list.splits)
  have left: "lseg m2 NONE (if prev = NONE then nxt else h) xs nxt"
  proof (cases xs rule: rev_cases)
    case Nil
    then show ?thesis using prev by simp
  next
    case (snoc zs a)
    have a: "prev = a" "prev \<noteq> NONE" using snoc prev by (auto simp: prev_def)
    have out: "a \<notin> set zs" "nxt \<notin> set xs"
      using dist snoc nxt xs by (auto simp: nxt_def first_def split: list.splits)
    have "lseg m2 NONE h zs a \<longleftrightarrow> lseg m NONE h zs a"
      using out snoc a by (intro lseg_frame) (auto simp: m2_def m1_def)
    then show ?thesis
      using parts(1) snoc a out by (auto simp: lseg_append m2_def m1_def)
  qed
  have right: "lseg m2 prev nxt ys NONE"
  proof (cases ys)
    case (Cons y zs)
    have "prev \<in> insert NONE (set xs)" by (simp add: prev_def)
    then have "y \<notin> set zs" "prev \<notin> set ys" "y \<noteq> prev"
      using dist Cons ys by auto
    then have "lseg m2 y (snd (m y)) zs NONE \<longleftrightarrow> lseg m y (snd (m y)) zs NONE"
      using Cons by (intro lseg_frame) (auto simp: m2_def m1_def nxt_def)
    then show ?thesis using x(2) Cons ys \<open>y \<noteq> prev\<close> mx by (auto simp: m2_def m1_def nxt_def)
  qed (simp add: nxt_def)
  show "lseg m2 NONE (if prev = NONE then nxt else h) (xs @ ys) NONE"
    using left right by (simp add: lseg_append prev_def nxt_def)
  show "m2 z = m z" if "z \<notin> set (xs @ ys)" for z
  proof -
    have "z \<noteq> prev" if "prev \<noteq> NONE" using \<open>z \<notin> _\<close> that prev by (auto simp: prev_def)
    moreover have "z \<noteq> nxt" if "nxt \<noteq> NONE" using \<open>z \<notin> _\<close> that nxt by (auto simp: nxt_def first_def split: list.splits)
    ultimately show ?thesis by (auto simp: m2_def m1_def)
  qed
qed

section \<open>Bitmaps\<close>

definition bit_at :: "u64 list \<Rightarrow> nat \<Rightarrow> bool" where
  "bit_at ws i \<longleftrightarrow> i div 64 < length ws \<and> bit (ws ! (i div 64)) (i mod 64)"

lemma and_bit_iff: "n < 64 \<Longrightarrow> (w :: u64) AND push_bit n 1 \<noteq> 0 \<longleftrightarrow> bit w n"
  by (metis and_exp_eq_0_iff_not_bit push_bit_of_1)

lemma bit_at_set:
  assumes "i div 64 < length ws"
  shows "bit_at (ws[i div 64 := ws ! (i div 64) OR push_bit (i mod 64) 1]) j \<longleftrightarrow> bit_at ws j \<or> j = i"
proof (cases "j div 64 = i div 64")
  case True
  have "j = i \<longleftrightarrow> j mod 64 = i mod 64" using True by (metis div_mod_decomp)
  then show ?thesis using True assms by (auto simp: bit_at_def bit_simps)
next
  case False
  then show ?thesis by (auto simp: bit_at_def)
qed

lemma bit_at_clear:
  assumes "i div 64 < length ws"
  shows "bit_at (ws[i div 64 := ws ! (i div 64) AND NOT (push_bit (i mod 64) 1)]) j \<longleftrightarrow> bit_at ws j \<and> j \<noteq> i"
proof (cases "j div 64 = i div 64")
  case True
  have "j = i \<longleftrightarrow> j mod 64 = i mod 64" using True by (metis div_mod_decomp)
  then show ?thesis using True assms by (auto simp: bit_at_def bit_simps)
next
  case False
  then show ?thesis by (auto simp: bit_at_def)
qed

section \<open>The representation\<close>

definition block_ok :: "nat \<Rightarrow> nat \<Rightarrow> nat \<Rightarrow> bool" where
  "block_ok len s x \<longleftrightarrow> 2 ^ s dvd x \<and> x + 2 ^ s \<le> len"

definition bitmap_ok :: "nat \<Rightarrow> nat \<Rightarrow> u64 list \<Rightarrow> nat set \<Rightarrow> bool" where
  "bitmap_ok len s ws S \<longleftrightarrow> len div 2 ^ s \<le> 64 * length ws \<and> (\<forall>i. bit_at ws i \<longleftrightarrow> i * 2 ^ s \<in> S)"

definition rep :: "nat \<Rightarrow> buddy \<Rightarrow> nat list list \<Rightarrow> bool" where
  "rep len b cs \<longleftrightarrow> length (bd_heads b) = length cs \<and> length (bd_bitmaps b) = length cs \<and> length (bd_parked b) = length cs
     \<and> length (bd_park_caps b) = length cs \<and> len < NONE \<and> distinct (concat cs)
     \<and> (\<forall>k < length cs. lseg (bd_links b) NONE (bd_heads b ! k) (cs ! k) NONE
         \<and> (\<forall>x \<in> set (cs ! k). block_ok len (k + bd_min_shift b) x)
         \<and> bitmap_ok len (k + bd_min_shift b) (bd_bitmaps b ! k) (set (cs ! k)))"

lemma repD:
  assumes "rep len b cs"
  shows "length (bd_heads b) = length cs" "length (bd_bitmaps b) = length cs" "length (bd_parked b) = length cs"
    "length (bd_park_caps b) = length cs" "len < NONE" "distinct (concat cs)"
    "k < length cs \<Longrightarrow> lseg (bd_links b) NONE (bd_heads b ! k) (cs ! k) NONE"
    "k < length cs \<Longrightarrow> x \<in> set (cs ! k) \<Longrightarrow> block_ok len (k + bd_min_shift b) x"
    "k < length cs \<Longrightarrow> bitmap_ok len (k + bd_min_shift b) (bd_bitmaps b ! k) (set (cs ! k))"
  using assms by (auto simp: rep_def)

lemma block_index:
  assumes "block_ok len s x" and "len div 2 ^ s \<le> 64 * n"
  shows "drop_bit s x * 2 ^ s = x" "drop_bit s x div 64 < n"
proof -
  show "drop_bit s x * 2 ^ s = x" using assms(1) by (simp add: block_ok_def drop_bit_eq_div)
  have "x div 2 ^ s < len div 2 ^ s"
    using assms(1) div_le_mono [of "x + 2 ^ s" len "2 ^ s"] by (simp add: block_ok_def)
  then show "drop_bit s x div 64 < n" using assms(2) by (simp add: drop_bit_eq_div less_mult_imp_div_less mult.commute)
qed

lemma is_free_rep:
  assumes "rep len b cs" and "k < length cs" and "2 ^ (k + bd_min_shift b) dvd x"
  shows "is_free b k x = Ok (x \<in> set (cs ! k))"
proof -
  let ?s = "k + bd_min_shift b"
  let ?i = "drop_bit ?s x"
  have "?i * 2 ^ ?s = x" using assms(3) by (simp add: drop_bit_eq_div)
  moreover have "bit_at (bd_bitmaps b ! k) ?i \<longleftrightarrow> ?i * 2 ^ ?s \<in> set (cs ! k)"
    using repD(9) [OF assms(1,2)] by (simp add: bitmap_ok_def)
  ultimately show ?thesis
    using assms(2) repD(2) [OF assms(1)] and_bit_iff [of "?i mod 64"] by (auto simp: is_free_def bit_index_def Let_def bit_at_def)
qed

lemma update_bitmap_Ok:
  assumes "k < length (bd_bitmaps b)" and "drop_bit (k + bd_min_shift b) x div 64 < length (bd_bitmaps b ! k)"
  shows "update_bitmap f k x b = Ok (b \<lparr> bd_bitmaps := (bd_bitmaps b)[k := (bd_bitmaps b ! k)
     [drop_bit (k + bd_min_shift b) x div 64 := f (bd_bitmaps b ! k ! (drop_bit (k + bd_min_shift b) x div 64))
        (push_bit (drop_bit (k + bd_min_shift b) x mod 64) 1)]] \<rparr>)"
  using assms by (simp add: update_bitmap_def bit_index_def Let_def)

lemma concat_parts: "k < length cs \<Longrightarrow> concat cs = concat (take k cs) @ cs ! k @ concat (drop (Suc k) cs)"
  by (metis append.assoc concat.simps(2) concat_append id_take_nth_drop)

lemma concat_update: "k < length cs \<Longrightarrow> concat (cs[k := c]) = concat (take k cs) @ c @ concat (drop (Suc k) cs)"
  by (simp add: upd_conv_take_nth_drop)

lemma chains_apart:
  assumes "distinct (concat cs)" and "i < length cs" and "j < length cs" and "i \<noteq> j"
  shows "set (cs ! i) \<inter> set (cs ! j) = {}"
proof -
  show ?thesis
  proof (cases "i < j")
    case True
    have "cs ! i \<in> set (take j cs)" using True assms(2,3) by (metis in_set_conv_nth length_take min_less_iff_conj nth_take)
    then show ?thesis using assms(1) concat_parts [OF assms(3)] by auto
  next
    case False
    then have "j < i" using assms(4) by simp
    have "cs ! j \<in> set (take i cs)" using \<open>j < i\<close> assms(2,3) by (metis in_set_conv_nth length_take min_less_iff_conj nth_take)
    then show ?thesis using assms(1) concat_parts [OF assms(2)] by auto
  qed
qed

lemma rep_update:
  assumes rep: "rep len b cs" and k: "k < length cs"
    and eqs: "bd_min_shift b' = bd_min_shift b" "length (bd_parked b') = length (bd_parked b)" "bd_park_caps b' = bd_park_caps b"
      "bd_heads b' = (bd_heads b)[k := h]" "bd_bitmaps b' = (bd_bitmaps b)[k := ws]"
    and links: "\<And>z. z \<notin> set (cs ! k) \<Longrightarrow> z \<notin> set c \<Longrightarrow> bd_links b' z = bd_links b z"
    and dist: "distinct (concat (cs[k := c]))" and seg: "lseg (bd_links b') NONE h c NONE"
    and ok: "\<And>x. x \<in> set c \<Longrightarrow> block_ok len (k + bd_min_shift b) x"
    and bm: "bitmap_ok len (k + bd_min_shift b) ws (set c)"
  shows "rep len b' (cs[k := c])"
proof -
  have "lseg (bd_links b') NONE (bd_heads b' ! j) (cs[k := c] ! j) NONE
     \<and> (\<forall>x \<in> set (cs[k := c] ! j). block_ok len (j + bd_min_shift b') x)
     \<and> bitmap_ok len (j + bd_min_shift b') (bd_bitmaps b' ! j) (set (cs[k := c] ! j))" if j: "j < length cs" for j
  proof (cases "j = k")
    case True
    then show ?thesis using k seg ok bm repD(1,2) [OF rep] by (simp add: eqs)
  next
    case False
    have "set (cs ! j) \<inter> set (cs ! k) = {}" using chains_apart [OF repD(6) [OF rep] j k False] .
    moreover have "set (cs ! j) \<inter> set c = {}" using chains_apart [OF dist, of j k] False j k by simp
    ultimately have "lseg (bd_links b') NONE (bd_heads b ! j) (cs ! j) NONE \<longleftrightarrow> lseg (bd_links b) NONE (bd_heads b ! j) (cs ! j) NONE"
      by (intro lseg_frame links) auto
    then show ?thesis using False repD(7-9) [OF rep j] by (simp add: eqs)
  qed
  then show ?thesis using repD(1-5) [OF rep] dist by (auto simp: rep_def eqs)
qed

lemma rep_parked: "rep len (b\<lparr>bd_parked := ps\<rparr>) cs \<longleftrightarrow> rep len b cs"
  if "length ps = length (bd_parked b)"
  using that by (simp add: rep_def)

lemma block_ok_lt: "block_ok len s x \<Longrightarrow> x < len"
  by (auto simp: block_ok_def intro: less_le_trans [rotated])

definition same_shape :: "buddy \<Rightarrow> buddy \<Rightarrow> bool" where
  "same_shape b b' \<longleftrightarrow> bd_min_shift b' = bd_min_shift b \<and> bd_park_caps b' = bd_park_caps b \<and> bd_parked b' = bd_parked b"

lemma same_shape_refl [simp]: "same_shape b b"
  by (simp add: same_shape_def)

lemma same_shape_trans: "same_shape a b \<Longrightarrow> same_shape b c \<Longrightarrow> same_shape a c"
  by (simp add: same_shape_def)

lemma buddy_push_rep:
  assumes rep: "rep len b cs" and k: "k < length cs" and x: "block_ok len (k + bd_min_shift b) x" and new: "x \<notin> set (concat cs)"
  shows "\<exists>b'. buddy_push b k x = Ok b' \<and> rep len b' (cs[k := x # cs ! k]) \<and> same_shape b b'"
proof -
  let ?h = "bd_heads b ! k" and ?s = "k + bd_min_shift b" and ?ws = "bd_bitmaps b ! k"
  let ?i = "drop_bit ?s x"
  define m where "m = (bd_links b)(x := (NONE, ?h))"
  define b' where "b' = b \<lparr> bd_links := if ?h \<noteq> NONE then m(?h := (x, snd (m ?h))) else m,
     bd_heads := (bd_heads b)[k := x], bd_bitmaps := (bd_bitmaps b)[k := ?ws[?i div 64 := ?ws ! (?i div 64) OR push_bit (?i mod 64) 1]] \<rparr>"
  note r = repD [OF rep]
  have bm: "len div 2 ^ ?s \<le> 64 * length ?ws" "\<And>i. bit_at ?ws i \<longleftrightarrow> i * 2 ^ ?s \<in> set (cs ! k)"
    using r(9) [OF k] by (auto simp: bitmap_ok_def)
  note i = block_index [OF x bm(1)]
  have push: "buddy_push b k x = Ok b'"
    using k r(1,2) i(2) by (simp add: buddy_push_def set_links_def Let_def update_bitmap_Ok b'_def m_def)
  have dist: "distinct (concat (cs[k := x # cs ! k]))"
    using r(6) new unfolding concat_update [OF k] concat_parts [OF k] by auto
  have nx: "x \<notin> set (cs ! k)" "x \<noteq> NONE" "distinct (cs ! k)"
    using new r(5,6) block_ok_lt [OF x] unfolding concat_parts [OF k] by auto
  have "rep len b' (cs[k := x # cs ! k])"
  proof (rule rep_update [OF rep k, where h = x and ws = "bd_bitmaps b' ! k"])
    show "lseg (bd_links b') NONE x (x # cs ! k) NONE"
      using lseg_push [OF r(7) [OF k] nx] by (cases "?h = NONE") (simp_all add: b'_def m_def del: lseg.simps fun_upd_apply)
    have "?h \<in> set (cs ! k) \<or> ?h = NONE" using lseg_head [OF r(7) [OF k]] by (auto simp: first_def split: list.splits)
    then show "bd_links b' z = bd_links b z" if "z \<notin> set (cs ! k)" "z \<notin> set (x # cs ! k)" for z
      using that by (auto simp: b'_def m_def)
    have "j * 2 ^ ?s \<in> insert x (set (cs ! k)) \<longleftrightarrow> j * 2 ^ ?s \<in> set (cs ! k) \<or> j = ?i" for j
      using i(1) by (metis insert_iff mult_right_cancel power_not_zero zero_neq_numeral)
    then show "bitmap_ok len ?s (bd_bitmaps b' ! k) (set (x # cs ! k))"
      using bm k r(2) i(2) by (simp add: b'_def bitmap_ok_def bit_at_set del: push_bit_of_1)
  qed (use dist x r(8) [OF k] r(2) k in \<open>auto simp: b'_def\<close>)
  then show ?thesis using push by (simp add: same_shape_def b'_def)
qed

lemma buddy_unlink_rep:
  assumes rep: "rep len b cs" and k: "k < length cs" and split: "cs ! k = xs @ x # ys"
  shows "\<exists>b'. buddy_unlink b k x = Ok b' \<and> rep len b' (cs[k := xs @ ys]) \<and> same_shape b b'"
proof -
  let ?h = "bd_heads b ! k" and ?s = "k + bd_min_shift b" and ?ws = "bd_bitmaps b ! k" and ?m = "bd_links b"
  let ?i = "drop_bit ?s x" and ?prev = "last (NONE # xs)" and ?nxt = "first ys NONE"
  define m1 where "m1 = (if ?prev = NONE then ?m else ?m(?prev := (fst (?m ?prev), ?nxt)))"
  define m2 where "m2 = (if ?nxt \<noteq> NONE then m1(?nxt := (?prev, snd (m1 ?nxt))) else m1)"
  define h where "h = (if ?prev = NONE then ?nxt else ?h)"
  define b' where "b' = b \<lparr> bd_links := m2, bd_heads := (bd_heads b)[k := h],
     bd_bitmaps := (bd_bitmaps b)[k := ?ws[?i div 64 := ?ws ! (?i div 64) AND NOT (push_bit (?i mod 64) 1)]] \<rparr>"
  note r = repD [OF rep]
  have x: "block_ok len ?s x" using r(8) [OF k, of x] split by simp
  have bm: "len div 2 ^ ?s \<le> 64 * length ?ws" "\<And>i. bit_at ?ws i \<longleftrightarrow> i * 2 ^ ?s \<in> set (cs ! k)"
    using r(9) [OF k] by (auto simp: bitmap_ok_def)
  note i = block_index [OF x bm(1)]
  have d: "distinct (xs @ x # ys)" using r(6) unfolding concat_parts [OF k] split by auto
  have seg: "lseg ?m NONE ?h (xs @ x # ys) NONE" using r(7) [OF k] split by simp
  note u = lseg_unlink [OF seg d, folded m1_def m2_def h_def]
  have unlink: "buddy_unlink b k x = Ok b'"
    using k r(1,2) i(2) u(1) list_update_id [of "bd_heads b" k]
    by (simp add: buddy_unlink_def set_links_def Let_def update_bitmap_Ok b'_def m1_def m2_def h_def)
  have "rep len b' (cs[k := xs @ ys])"
  proof (rule rep_update [OF rep k, where h = h and ws = "bd_bitmaps b' ! k"])
    show "distinct (concat (cs[k := xs @ ys]))"
      using r(6) split unfolding concat_update [OF k] concat_parts [OF k] by auto
    show "lseg (bd_links b') NONE h (xs @ ys) NONE" using u(3) by (simp add: b'_def)
    show "bd_links b' z = bd_links b z" if "z \<notin> set (cs ! k)" "z \<notin> set (xs @ ys)" for z
      using u(4) that by (simp add: b'_def)
    have "j * 2 ^ ?s \<in> set (xs @ ys) \<longleftrightarrow> j * 2 ^ ?s \<in> set (cs ! k) \<and> j \<noteq> ?i" for j
      using i(1) d split by (auto simp: mult_right_cancel)
    then show "bitmap_ok len ?s (bd_bitmaps b' ! k) (set (xs @ ys))"
      using bm k r(2) i(2) by (simp add: b'_def bitmap_ok_def bit_at_clear del: push_bit_of_1)
  qed (use split r(8) [OF k] r(2) k in \<open>auto simp: b'_def\<close>)
  then show ?thesis using unlink by (simp add: same_shape_def b'_def)
qed

end
