(* ===== verification/Buddy_Heap.thy ===== *)
theory Buddy_Heap
  imports Buddy_Lists
begin

text \<open>
  The buddy allocator as a partition of the arena. The abstract view of its state is a multiset of
  bytes: those of the blocks on the free lists and of the parked blocks. Each operation is shown to
  return without a panic and to move exactly the bytes of one block between the allocator and its
  caller, so a block handed out never shares a byte with another, and nothing is lost.
\<close>

section \<open>Bytes of blocks\<close>

definition span :: "nat \<Rightarrow> nat \<Rightarrow> nat multiset" where
  "span x n = mset_set {x..<x + n}"

definition chain_bytes :: "nat \<Rightarrow> nat list \<Rightarrow> nat multiset" where
  "chain_bytes n xs = sum_list (map (\<lambda>x. span x n) xs)"

definition lists_bytes :: "nat \<Rightarrow> nat list list \<Rightarrow> nat multiset" where
  "lists_bytes s cs = (\<Sum>k<length cs. chain_bytes (2 ^ (k + s)) (cs ! k))"

lemma count_span: "count (span x n) a = of_bool (x \<le> a \<and> a < x + n)"
  by (simp add: span_def)

lemma span_join: "span x n + span (x + n) m = span x (n + m)"
  by (rule multiset_eqI) (auto simp: count_span)

lemma span_double: "span x (2 ^ s) + span (x + 2 ^ s) (2 ^ s) = span x (2 ^ Suc s)"
  by (simp add: span_join mult_2)

lemma chain_bytes_simps [simp]:
  "chain_bytes n [] = {#}" "chain_bytes n (x # xs) = span x n + chain_bytes n xs"
  "chain_bytes n (xs @ ys) = chain_bytes n xs + chain_bytes n ys"
  by (simp_all add: chain_bytes_def)

lemma chain_bytes_mem: "x \<in> set xs \<Longrightarrow> count (span x n) a \<le> count (chain_bytes n xs) a"
  by (induction xs) auto

lemma lists_bytes_update:
  assumes "k < length cs"
  shows "lists_bytes s (cs[k := c]) + chain_bytes (2 ^ (k + s)) (cs ! k) = lists_bytes s cs + chain_bytes (2 ^ (k + s)) c"
proof -
  have split: "lists_bytes s ds = chain_bytes (2 ^ (k + s)) (ds ! k) + (\<Sum>j\<in>{..<length cs} - {k}. chain_bytes (2 ^ (j + s)) (ds ! j))"
    if "length ds = length cs" for ds
    using assms that by (simp add: lists_bytes_def sum.remove [of _ k])
  have "(\<Sum>j\<in>{..<length cs} - {k}. chain_bytes (2 ^ (j + s)) (cs[k := c] ! j))
      = (\<Sum>j\<in>{..<length cs} - {k}. chain_bytes (2 ^ (j + s)) (cs ! j))"
    by (intro sum.cong) auto
  then show ?thesis using assms split [of cs] split [of "cs[k := c]"] by (simp add: ac_simps)
qed

lemma lists_bytes_mem:
  assumes "k < length cs" and "x \<in> set (cs ! k)"
  shows "count (span x (2 ^ (k + s))) a \<le> count (lists_bytes s cs) a"
proof -
  have "lists_bytes s (cs[k := []]) + chain_bytes (2 ^ (k + s)) (cs ! k) = lists_bytes s cs"
    using lists_bytes_update [OF assms(1), of s "[]"] by simp
  then have "count (chain_bytes (2 ^ (k + s)) (cs ! k)) a \<le> count (lists_bytes s cs) a"
    by (metis count_union le_add2)
  then show ?thesis using chain_bytes_mem [OF assms(2), of "2 ^ (k + s)" a] by simp
qed

definition unique_bytes :: "nat multiset \<Rightarrow> bool" where
  "unique_bytes M \<longleftrightarrow> (\<forall>a. count M a \<le> 1)"

lemma unique_bytes_sub: "unique_bytes (M + N) \<Longrightarrow> unique_bytes M"
  by (metis unique_bytes_def count_union add_leD1)

lemma unique_bytes_span: "unique_bytes (mset_set {a..<b})"
  by (auto simp: unique_bytes_def count_mset_set')

lemma new_block:
  assumes "unique_bytes (lists_bytes s cs + span x (2 ^ t))"
  shows "x \<notin> set (concat cs)"
proof
  assume "x \<in> set (concat cs)"
  then obtain k where k: "k < length cs" "x \<in> set (cs ! k)" by (metis UN_E in_set_conv_nth set_concat)
  have "1 \<le> count (lists_bytes s cs) x" using lists_bytes_mem [OF k, of s x] by (simp add: count_span)
  then have "2 \<le> count (lists_bytes s cs + span x (2 ^ t)) x" by (simp add: count_span)
  then show False using assms unfolding unique_bytes_def by (metis not_less_eq_eq numeral_2_eq_2 One_nat_def le_trans)
qed

section \<open>Buddies\<close>

lemma xor_low: "even (x div 2 ^ s) \<Longrightarrow> (x :: nat) XOR 2 ^ s = x + 2 ^ s"
  using flip_bit_eq_xor [of s x] by (simp add: flip_bit_eq_if set_bit_eq bit_iff_odd)

lemma xor_high:
  assumes "odd (x div 2 ^ s)"
  obtains y where "(x :: nat) XOR 2 ^ s = y" "x = y + 2 ^ s" "even (y div 2 ^ s)"
proof
  have "2 ^ s \<le> x" using assms by (metis div_less even_zero not_le)
  then show y: "x = (x - 2 ^ s) + 2 ^ s" by simp
  have "x div 2 ^ s = (x - 2 ^ s) div 2 ^ s + 1" using y by (metis div_add_self2 power_not_zero zero_neq_numeral)
  then show e: "even ((x - 2 ^ s) div 2 ^ s)" using assms by simp
  show "x XOR 2 ^ s = x - 2 ^ s" using xor_low [OF e] y by (metis xor.assoc xor_self_eq xor.right_neutral)
qed

lemma even_half: "2 ^ s dvd (x :: nat) \<Longrightarrow> even (x div 2 ^ s) \<Longrightarrow> 2 ^ Suc s dvd x"
  by (metis dvd_div_iff_mult mult.commute power_Suc power_not_zero zero_neq_numeral)

lemma buddy_pair:
  assumes "2 ^ s dvd (x :: nat)"
  obtains (low) "x XOR 2 ^ s = x + 2 ^ s" "min x (x XOR 2 ^ s) = x" "2 ^ Suc s dvd x"
  | (high) y where "x XOR 2 ^ s = y" "x = y + 2 ^ s" "min x (x XOR 2 ^ s) = y" "2 ^ Suc s dvd y"
proof (cases "odd (x div 2 ^ s)")
  case False
  then show ?thesis using low assms even_half by (simp add: xor_low)
next
  case True
  then obtain y where y: "x XOR 2 ^ s = y" "x = y + 2 ^ s" "even (y div 2 ^ s)" using xor_high by blast
  moreover have "2 ^ s dvd y" using assms y(2) by (metis dvd_add_left_iff dvd_refl)
  ultimately show ?thesis using high [of y] even_half [of s y] by simp
qed

lemma buddy_dvd: "2 ^ s dvd (x :: nat) \<Longrightarrow> 2 ^ s dvd x XOR 2 ^ s"
  by (erule buddy_pair) (auto intro: dvd_trans [OF le_imp_power_dvd])

lemma buddy_invol: "((x :: nat) XOR y) XOR y = x"
  by (simp add: xor.assoc)

lemma buddy_neq: "2 ^ s dvd (x :: nat) \<Longrightarrow> x XOR 2 ^ s \<noteq> x"
  by (erule buddy_pair) auto

definition merged :: "nat \<Rightarrow> nat list list \<Rightarrow> bool" where
  "merged s cs \<longleftrightarrow> (\<forall>k. Suc k < length cs \<longrightarrow> (\<forall>x \<in> set (cs ! k). x XOR 2 ^ (k + s) \<notin> set (cs ! k)))"

lemma merged_remove:
  assumes "merged s cs" and "set c \<subseteq> set (cs ! k)"
  shows "merged s (cs[k := c])"
  using assms by (cases "k < length cs") (auto simp: merged_def nth_list_update)

lemma merged_push:
  assumes "merged s cs" and "2 ^ (k + s) dvd x" and "Suc k < length cs \<longrightarrow> x XOR 2 ^ (k + s) \<notin> set (cs ! k)"
  shows "merged s (cs[k := x # cs ! k])"
proof -
  have "y XOR 2 ^ (k + s) \<noteq> x" if "Suc k < length cs" "y \<in> set (cs ! k)" for y
    using assms(3) that buddy_invol [of y "2 ^ (k + s)"] by metis
  then show ?thesis using assms buddy_neq [OF assms(2)]
    by (cases "k < length cs") (auto simp: merged_def nth_list_update split: if_splits)
qed

section \<open>Releasing\<close>

definition grows :: "nat \<Rightarrow> buddy \<Rightarrow> nat list list \<Rightarrow> nat multiset \<Rightarrow> buddy step \<Rightarrow> bool" where
  "grows len b cs N r \<longleftrightarrow> (\<exists>b' cs'. r = Ok b' \<and> rep len b' cs' \<and> merged (bd_min_shift b') cs' \<and> length cs' = length cs
     \<and> same_shape b b' \<and> lists_bytes (bd_min_shift b') cs' = lists_bytes (bd_min_shift b) cs + N)"

lemma push_adds:
  assumes "rep len b cs" and "merged (bd_min_shift b) cs" and "k < length cs" and "block_ok len (k + bd_min_shift b) x"
    and "unique_bytes (lists_bytes (bd_min_shift b) cs + span x (2 ^ (k + bd_min_shift b)))"
    and "Suc k < length cs \<longrightarrow> x XOR 2 ^ (k + bd_min_shift b) \<notin> set (cs ! k)"
  obtains b' where "buddy_push b k x = Ok b'" "rep len b' (cs[k := x # cs ! k])" "same_shape b b'"
    "merged (bd_min_shift b') (cs[k := x # cs ! k])"
    "lists_bytes (bd_min_shift b') (cs[k := x # cs ! k]) = lists_bytes (bd_min_shift b) cs + span x (2 ^ (k + bd_min_shift b))"
proof -
  obtain b' where b': "buddy_push b k x = Ok b'" "rep len b' (cs[k := x # cs ! k])" "same_shape b b'"
    using buddy_push_rep [OF assms(1,3,4) new_block [OF assms(5)]] by auto
  have "merged (bd_min_shift b') (cs[k := x # cs ! k])"
    using merged_push [OF assms(2) _ assms(6)] assms(4) b'(3) by (simp add: block_ok_def same_shape_def)
  moreover have "lists_bytes (bd_min_shift b') (cs[k := x # cs ! k]) = lists_bytes (bd_min_shift b) cs + span x (2 ^ (k + bd_min_shift b))"
    using lists_bytes_update [OF assms(3), of "bd_min_shift b" "x # cs ! k"] b'(3) by (simp add: same_shape_def)
  ultimately show ?thesis using b' that by blast
qed

lemma push_grows:
  assumes "rep len b cs" and "merged (bd_min_shift b) cs" and "k < length cs" and "block_ok len (k + bd_min_shift b) x"
    and "unique_bytes (lists_bytes (bd_min_shift b) cs + span x (2 ^ (k + bd_min_shift b)))"
    and "Suc k < length cs \<longrightarrow> x XOR 2 ^ (k + bd_min_shift b) \<notin> set (cs ! k)"
  shows "grows len b cs (span x (2 ^ (k + bd_min_shift b))) (buddy_push b k x)"
  by (rule push_adds [OF assms]) (auto simp: grows_def intro: exI [of _ "cs[k := x # cs ! k]"])

lemma unlink_shrinks:
  assumes "rep len b cs" and "merged (bd_min_shift b) cs" and "k < length cs" and "x \<in> set (cs ! k)"
  obtains b' cs' where "buddy_unlink b k x = Ok b'" "rep len b' cs'" "merged (bd_min_shift b') cs'" "length cs' = length cs"
    "same_shape b b'" "lists_bytes (bd_min_shift b') cs' + span x (2 ^ (k + bd_min_shift b)) = lists_bytes (bd_min_shift b) cs"
proof -
  obtain xs ys where split: "cs ! k = xs @ x # ys" using assms(4) by (auto simp: in_set_conv_decomp)
  obtain b' where b': "buddy_unlink b k x = Ok b'" "rep len b' (cs[k := xs @ ys])" "same_shape b b'"
    using buddy_unlink_rep [OF assms(1,3) split] by auto
  have "merged (bd_min_shift b') (cs[k := xs @ ys])"
    using merged_remove [OF assms(2), of "xs @ ys" k] split b'(3) by (auto simp: same_shape_def)
  moreover have "lists_bytes (bd_min_shift b') (cs[k := xs @ ys]) + span x (2 ^ (k + bd_min_shift b)) = lists_bytes (bd_min_shift b) cs"
    using lists_bytes_update [OF assms(3), of "bd_min_shift b" "xs @ ys"] b'(3) split by (simp add: same_shape_def ac_simps)
  ultimately show ?thesis using b' by (intro that [of b' "cs[k := xs @ ys]"]) auto
qed

lemma grows_trans:
  assumes "same_shape b b1" and "length cs1 = length cs" and "lists_bytes (bd_min_shift b1) cs1 + M = lists_bytes (bd_min_shift b) cs + N"
    and "grows len b1 cs1 M r"
  shows "grows len b cs N r"
  using assms by (fastforce simp: grows_def intro: same_shape_trans)

lemma buddy_bytes:
  assumes "2 ^ s dvd x"
  shows "span (x XOR 2 ^ s) (2 ^ s) + span x (2 ^ s) = span (min x (x XOR 2 ^ s)) (2 ^ Suc s)"
  using assms
proof (cases rule: buddy_pair)
  case low
  then show ?thesis using span_double [of x s] by (simp add: ac_simps)
next
  case (high y)
  then show ?thesis using span_double [of y s] by simp
qed

lemma buddy_block:
  assumes "block_ok len s x" and "block_ok len s (x XOR 2 ^ s)"
  shows "block_ok len (Suc s) (min x (x XOR 2 ^ s))"
proof -
  have "2 ^ s dvd x" using assms(1) by (simp add: block_ok_def)
  then show ?thesis using assms by (cases rule: buddy_pair) (auto simp: block_ok_def)
qed

lemma merge_up_grows:
  "rep len b cs \<Longrightarrow> merged (bd_min_shift b) cs \<Longrightarrow> length cs = Suc (k + n) \<Longrightarrow> block_ok len (k + bd_min_shift b) x
   \<Longrightarrow> unique_bytes (lists_bytes (bd_min_shift b) cs + span x (2 ^ (k + bd_min_shift b)))
   \<Longrightarrow> grows len b cs (span x (2 ^ (k + bd_min_shift b))) (merge_up b x k n)"
proof (induction b x k n arbitrary: cs rule: merge_up.induct)
  case (1 b x k)
  then show ?case using push_grows [of len b cs k x] by simp
next
  case (2 b x k n)
  let ?s = "k + bd_min_shift b"
  let ?y = "x XOR 2 ^ ?s"
  have k: "k < length cs" "Suc k < length cs" using 2 by auto
  have dvd: "2 ^ ?s dvd x" using 2 by (simp add: block_ok_def)
  have free: "is_free b k ?y = Ok (?y \<in> set (cs ! k))" using is_free_rep [OF 2(2) k(1) buddy_dvd [OF dvd]] .
  show ?case
  proof (cases "?y \<in> set (cs ! k)")
    case False
    then show ?thesis using push_grows [of len b cs k x] 2 k free by (simp add: buddy_size_def)
  next
    case True
    obtain b1 cs1 where u: "buddy_unlink b k ?y = Ok b1" "rep len b1 cs1" "merged (bd_min_shift b1) cs1" "length cs1 = length cs"
      "same_shape b b1" "lists_bytes (bd_min_shift b1) cs1 + span ?y (2 ^ ?s) = lists_bytes (bd_min_shift b) cs"
      using unlink_shrinks [OF 2(2,3) k(1) True] by metis
    have s: "bd_min_shift b1 = bd_min_shift b" using u(5) by (simp add: same_shape_def)
    have total: "lists_bytes (bd_min_shift b1) cs1 + span (min x ?y) (2 ^ Suc ?s) = lists_bytes (bd_min_shift b) cs + span x (2 ^ ?s)"
      unfolding u(6) [symmetric] buddy_bytes [OF dvd, symmetric] by (simp add: ac_simps)
    have "block_ok len (Suc ?s) (min x ?y)" using buddy_block [OF 2(5) repD(8) [OF 2(2) k(1) True]] .
    then have "grows len b1 cs1 (span (min x ?y) (2 ^ Suc ?s)) (merge_up b1 (min x ?y) (k + 1) n)"
      using 2(1) [of ?y True b1 cs1] free u(1-4) 2(4,6) True total by (simp add: buddy_size_def s)
    then show ?thesis using grows_trans [OF u(5,4) total] free True u(1) by (simp add: buddy_size_def)
  qed
qed

lemma release_eager_grows:
  assumes "rep len b cs" and "merged (bd_min_shift b) cs" and "k < length cs" and "block_ok len (k + bd_min_shift b) x"
    and "unique_bytes (lists_bytes (bd_min_shift b) cs + span x (2 ^ (k + bd_min_shift b)))"
  shows "grows len b cs (span x (2 ^ (k + bd_min_shift b))) (release_eager b x k)"
  using merge_up_grows [OF assms(1,2) _ assms(4,5)] assms(3) repD(1) [OF assms(1)] by (simp add: release_eager_def)

end
