(* ===== verification/Buddy_Alloc.thy ===== *)
theory Buddy_Alloc
  imports Buddy_Heap
begin

text \<open>
  The operations of the buddy allocator against the bytes it holds. \<open>heap_ok len b cs M\<close> is the invariant:
  the free lists are represented and fully merged, parked blocks are aligned blocks of the arena, and
  the free and parked blocks together hold exactly the bytes of \<open>M\<close>.
\<close>

definition heap_ok :: "nat \<Rightarrow> buddy \<Rightarrow> nat list list \<Rightarrow> nat multiset \<Rightarrow> bool" where
  "heap_ok len b cs M \<longleftrightarrow> rep len b cs \<and> merged (bd_min_shift b) cs
     \<and> (\<forall>k < length cs. \<forall>x \<in> set (bd_parked b ! k). block_ok len (k + bd_min_shift b) x)
     \<and> lists_bytes (bd_min_shift b) cs + lists_bytes (bd_min_shift b) (bd_parked b) = M"

lemma heap_okD:
  assumes "heap_ok len b cs M"
  shows "rep len b cs" "merged (bd_min_shift b) cs" "length (bd_parked b) = length cs" "length (bd_heads b) = length cs"
    "k < length cs \<Longrightarrow> x \<in> set (bd_parked b ! k) \<Longrightarrow> block_ok len (k + bd_min_shift b) x"
    "lists_bytes (bd_min_shift b) cs + lists_bytes (bd_min_shift b) (bd_parked b) = M"
  using assms repD(1,3) [of len b cs] by (auto simp: heap_ok_def)

lemma unique_drop: "unique_bytes (A + B + C) \<Longrightarrow> unique_bytes (A + C)"
  by (auto simp: unique_bytes_def) (metis add.assoc add.commute add_leD1)

definition fixed :: "buddy \<Rightarrow> buddy \<Rightarrow> bool" where
  "fixed b b' \<longleftrightarrow> bd_min_shift b' = bd_min_shift b \<and> bd_park_caps b' = bd_park_caps b
     \<and> length (bd_heads b') = length (bd_heads b)"

lemma fixed_refl [simp]: "fixed b b"
  by (simp add: fixed_def)

lemma fixed_trans: "fixed a b \<Longrightarrow> fixed b c \<Longrightarrow> fixed a c"
  by (simp add: fixed_def)

lemma heap_ok_grows:
  assumes st: "heap_ok len b cs M" and gr: "grows len b cs N r"
  obtains b' cs' where "r = Ok b'" "heap_ok len b' cs' (M + N)" "fixed b b'" "bd_parked b' = bd_parked b" "length cs' = length cs"
proof -
  obtain b' cs' where g: "r = Ok b'" "rep len b' cs'" "merged (bd_min_shift b') cs'" "length cs' = length cs" "same_shape b b'"
    "lists_bytes (bd_min_shift b') cs' = lists_bytes (bd_min_shift b) cs + N"
    using gr by (auto simp: grows_def)
  have "heap_ok len b' cs' (M + N)"
    using g(2-6) heap_okD(5,6) [OF st] by (auto simp: heap_ok_def same_shape_def ac_simps)
  moreover have "fixed b b'"
    using g(4,5) repD(1) [OF g(2)] heap_okD(4) [OF st] by (simp add: fixed_def same_shape_def)
  ultimately show ?thesis using g that by (simp add: same_shape_def)
qed

section \<open>Parked blocks\<close>

lemma heap_ok_park:
  assumes st: "heap_ok len b cs M" and k: "k < length cs" and x: "block_ok len (k + bd_min_shift b) x"
  shows "heap_ok len (b \<lparr> bd_parked := (bd_parked b)[k := bd_parked b ! k @ [x]] \<rparr>) cs (M + span x (2 ^ (k + bd_min_shift b)))"
proof -
  have "lists_bytes (bd_min_shift b) ((bd_parked b)[k := bd_parked b ! k @ [x]])
      = lists_bytes (bd_min_shift b) (bd_parked b) + span x (2 ^ (k + bd_min_shift b))"
    using lists_bytes_update [of k "bd_parked b" "bd_min_shift b" "bd_parked b ! k @ [x]"] k heap_okD(3) [OF st]
    by (simp add: ac_simps)
  then show ?thesis
    using heap_okD [OF st] x k by (auto simp: heap_ok_def rep_parked nth_list_update)
qed

lemma heap_ok_unpark:
  assumes st: "heap_ok len b cs M" and k: "k < length cs" and ne: "bd_parked b ! k \<noteq> []"
  obtains M' where "heap_ok len (b \<lparr> bd_parked := (bd_parked b)[k := butlast (bd_parked b ! k)] \<rparr>) cs M'"
    "M' + span (last (bd_parked b ! k)) (2 ^ (k + bd_min_shift b)) = M" "block_ok len (k + bd_min_shift b) (last (bd_parked b ! k))"
proof -
  let ?s = "bd_min_shift b" and ?c = "bd_parked b ! k"
  let ?ps = "(bd_parked b)[k := butlast ?c]"
  have "chain_bytes (2 ^ (k + ?s)) ?c = chain_bytes (2 ^ (k + ?s)) (butlast ?c) + span (last ?c) (2 ^ (k + ?s))"
    using append_butlast_last_id [OF ne] by (metis chain_bytes_simps add.right_neutral)
  then have "lists_bytes ?s ?ps + span (last ?c) (2 ^ (k + ?s)) = lists_bytes ?s (bd_parked b)"
    using lists_bytes_update [of k "bd_parked b" ?s "butlast ?c"] k heap_okD(3) [OF st]
    by (simp add: add.assoc [symmetric])
  then have "lists_bytes ?s cs + lists_bytes ?s ?ps + span (last ?c) (2 ^ (k + ?s)) = M"
    using heap_okD(6) [OF st] by (simp add: add.assoc)
  moreover have "heap_ok len (b \<lparr> bd_parked := ?ps \<rparr>) cs (lists_bytes ?s cs + lists_bytes ?s ?ps)"
    using heap_okD(1-5) [OF st] k by (auto simp: heap_ok_def rep_parked nth_list_update dest: in_set_butlastD)
  ultimately show ?thesis using that heap_okD(5) [OF st k] ne by simp
qed

lemma heap_ok_release:
  assumes st: "heap_ok len b cs M" and k: "k < length cs" and x: "block_ok len (k + bd_min_shift b) x"
    and un: "unique_bytes (M + span x (2 ^ (k + bd_min_shift b)))"
  obtains b' cs' where "release_eager b x k = Ok b'" "heap_ok len b' cs' (M + span x (2 ^ (k + bd_min_shift b)))" "fixed b b'"
    "bd_parked b' = bd_parked b" "length cs' = length cs"
proof -
  have "unique_bytes (lists_bytes (bd_min_shift b) cs + span x (2 ^ (k + bd_min_shift b)))"
    using un unfolding heap_okD(6) [OF st, symmetric] by (rule unique_drop)
  then show ?thesis using heap_ok_grows [OF st release_eager_grows [OF heap_okD(1,2) [OF st] k x]] that by blast
qed

lemma compact_order_ok:
  "heap_ok len b cs M \<Longrightarrow> unique_bytes M \<Longrightarrow> k < length cs \<Longrightarrow> n = length (bd_parked b ! k)
   \<Longrightarrow> \<exists>b' cs'. compact_order b k n = Ok b' \<and> heap_ok len b' cs' M \<and> fixed b b' \<and> length cs' = length cs
     \<and> bd_parked b' = (bd_parked b)[k := []]"
proof (induction n arbitrary: b cs M)
  case 0
  then have "(bd_parked b)[k := []] = bd_parked b" by (metis length_0_conv list_update_id)
  then show ?case using 0 by auto
next
  case (Suc n)
  let ?c = "bd_parked b ! k" and ?s = "bd_min_shift b"
  let ?b = "b \<lparr> bd_parked := (bd_parked b)[k := butlast ?c] \<rparr>"
  have ne: "?c \<noteq> []" using Suc(5) by auto
  have len: "length (bd_parked b) = length cs" using heap_okD(3) [OF Suc(2)] .
  obtain M' where M': "heap_ok len ?b cs M'" "M' + span (last ?c) (2 ^ (k + ?s)) = M" "block_ok len (k + ?s) (last ?c)"
    using heap_ok_unpark [OF Suc(2,4) ne] by metis
  obtain b1 cs1 where b1: "release_eager ?b (last ?c) k = Ok b1" "heap_ok len b1 cs1 M" "fixed ?b b1"
    "bd_parked b1 = bd_parked ?b" "length cs1 = length cs"
    using heap_ok_release [OF M'(1) Suc(4), of "last ?c"] M'(2,3) Suc(3) by auto
  have "n = length (bd_parked b1 ! k)" using b1(4) Suc(4,5) len by simp
  then obtain b' cs' where b': "compact_order b1 k n = Ok b'" "heap_ok len b' cs' M" "fixed b1 b'" "length cs' = length cs1"
    "bd_parked b' = (bd_parked b1)[k := []]"
    using Suc(1) [OF b1(2) Suc(3)] Suc(4) b1(5) by auto
  then have "fixed b b'" using b1(3) by (simp add: fixed_def)
  then show ?case using b' b1 ne Suc(4) len by auto
qed

lemma compact_orders_ok:
  "heap_ok len b cs M \<Longrightarrow> unique_bytes M \<Longrightarrow> \<forall>k\<in>set ks. k < length cs
   \<Longrightarrow> \<exists>b' cs'. compact_orders b ks = Ok b' \<and> heap_ok len b' cs' M \<and> fixed b b' \<and> length cs' = length cs
     \<and> bd_parked b' = fold (\<lambda>k ps. ps[k := []]) ks (bd_parked b)"
proof (induction ks arbitrary: b cs)
  case (Cons k ks)
  have k: "k < length (bd_parked b)" using Cons(2,4) heap_okD(3) by simp
  obtain b1 cs1 where b1: "compact_order b k (length (bd_parked b ! k)) = Ok b1" "heap_ok len b1 cs1 M" "fixed b b1"
    "length cs1 = length cs" "bd_parked b1 = (bd_parked b)[k := []]"
    using compact_order_ok [OF Cons(2,3), of k] Cons(4) by auto
  then show ?case using Cons(1) [OF b1(2) Cons(3)] Cons(4) k by (auto intro: fixed_trans)
qed auto

lemma clear_all: "n \<le> length ps \<Longrightarrow> fold (\<lambda>k ps. ps[k := []]) [0..<n] ps = replicate n [] @ drop n ps"
proof (induction n)
  case (Suc n)
  then show ?case by (simp add: list_update_append replicate_append_same [symmetric] upd_conv_take_nth_drop Cons_nth_drop_Suc [symmetric])
qed simp

lemma compact_ok:
  assumes st: "heap_ok len b cs M" and un: "unique_bytes M"
  obtains b' cs' where "compact b = Ok b'" "heap_ok len b' cs' M" "fixed b b'" "bd_parked b' = replicate (length cs) []" "length cs' = length cs"
  using compact_orders_ok [OF st un, of "[0..<length cs]"] clear_all [of "length cs" "bd_parked b"] heap_okD(3,4) [OF st]
  by (auto simp: compact_def)

section \<open>Allocation\<close>

lemma find_head_Some:
  assumes "rep len b cs" and "find_head b k = Some j"
  shows "k \<le> j" "j < length cs" "cs ! j \<noteq> []"
proof -
  show kj: "k \<le> j" "j < length cs"
    using assms(2) repD(1) [OF assms(1)] by (auto simp: find_head_def find_Some_iff)
  have "bd_heads b ! j \<noteq> NONE" using assms(2) by (auto simp: find_head_def find_Some_iff)
  then show "cs ! j \<noteq> []" using lseg_nonempty [OF repD(7) [OF assms(1) kj(2)]] by simp
qed

lemma find_head_None:
  assumes "rep len b cs" and "find_head b k = None" and "k \<le> j" and "j < length cs"
  shows "cs ! j = []"
proof -
  have "bd_heads b ! j = NONE" using assms(2-4) repD(1) [OF assms(1)] by (auto simp: find_head_def find_None_iff)
  then show ?thesis using lseg_nonempty [OF repD(7) [OF assms(1,4)]] by simp
qed

lemma xor_upper:
  assumes "2 ^ Suc s dvd (x :: nat)"
  shows "(x + 2 ^ s) XOR 2 ^ s = x"
proof -
  obtain q where "x = 2 ^ s * (2 * q)" using assms by (auto elim!: dvdE)
  then have "even (x div 2 ^ s)" by simp
  then show ?thesis using xor_low buddy_invol by metis
qed

lemma block_ok_mono:
  assumes "s \<le> t" and "block_ok len t x"
  shows "block_ok len s x"
proof -
  have "(2 :: nat) ^ s dvd 2 ^ t" and "(2 :: nat) ^ s \<le> 2 ^ t" using assms(1) by (simp_all add: le_imp_power_dvd)
  then show ?thesis using assms(2) dvd_trans unfolding block_ok_def by (meson add_le_cancel_left le_trans)
qed

lemma split_down_ok:
  "heap_ok len b cs M \<Longrightarrow> j \<le> d + j \<Longrightarrow> d + j < length cs \<Longrightarrow> block_ok len (d + j + bd_min_shift b) x
   \<Longrightarrow> unique_bytes (M + span x (2 ^ (d + j + bd_min_shift b)))
   \<Longrightarrow> \<exists>b' cs' M'. split_down b x (rev [j..<d + j]) = Ok b' \<and> heap_ok len b' cs' M' \<and> fixed b b' \<and> length cs' = length cs
     \<and> bd_parked b' = bd_parked b
     \<and> M' + span x (2 ^ (j + bd_min_shift b)) = M + span x (2 ^ (d + j + bd_min_shift b))"
proof (induction d arbitrary: b cs M)
  case (Suc d)
  let ?k = "d + j" and ?s = "d + j + bd_min_shift b"
  let ?y = "x + 2 ^ ?s"
  have x: "2 ^ Suc ?s dvd x" "2 ^ ?s dvd x" "x + 2 ^ Suc ?s \<le> len"
    using Suc(5) by (auto simp: block_ok_def intro: dvd_trans [OF le_imp_power_dvd])
  have y: "block_ok len ?s ?y" using x by (simp add: block_ok_def)
  have sum: "M + span ?y (2 ^ ?s) + span x (2 ^ ?s) = M + span x (2 ^ Suc ?s)"
    unfolding span_double [symmetric] by (simp add: ac_simps)
  then have un: "unique_bytes (M + span ?y (2 ^ ?s) + span x (2 ^ ?s))" using Suc(6) by (simp add: ac_simps)
  have xout: "x \<notin> set (concat cs)"
    using new_block [OF unique_drop [OF unique_drop [OF un [folded heap_okD(6) [OF Suc(2)]]]]] .
  have yout: "unique_bytes (lists_bytes (bd_min_shift b) cs + span ?y (2 ^ ?s))"
    using unique_drop [OF unique_bytes_sub [OF un [folded heap_okD(6) [OF Suc(2)]]]] .
  have xor: "?y XOR 2 ^ ?s = x"
    using xor_upper [OF x(1)] .
  have k: "?k < length cs" using Suc(4) by simp
  have "x \<notin> set (cs ! ?k)" using xout nth_mem [OF k] by auto
  then have "grows len b cs (span ?y (2 ^ ?s)) (buddy_push b ?k ?y)"
    using push_grows [OF heap_okD(1,2) [OF Suc(2)] k y yout] xor by simp
  then obtain b1 cs1 where b1: "buddy_push b ?k ?y = Ok b1" "heap_ok len b1 cs1 (M + span ?y (2 ^ ?s))" "fixed b b1"
    "bd_parked b1 = bd_parked b" "length cs1 = length cs"
    using heap_ok_grows [OF Suc(2)] by metis
  have s1: "bd_min_shift b1 = bd_min_shift b" using b1(3) by (simp add: fixed_def)
  have "block_ok len ?s x" using x by (simp add: block_ok_def)
  then obtain b' cs' M' where b': "split_down b1 x (rev [j..<d + j]) = Ok b'" "heap_ok len b' cs' M'" "fixed b1 b'" "length cs' = length cs1"
     "bd_parked b' = bd_parked b1" "M' + span x (2 ^ (j + bd_min_shift b)) = M + span ?y (2 ^ ?s) + span x (2 ^ ?s)"
    using Suc(1) [OF b1(2)] k b1(5) un by (auto simp: s1)
  have "rev [j..<Suc d + j] = ?k # rev [j..<d + j]" by simp
  then show ?case using b1 b' fixed_trans [OF b1(3) b'(3)] sum by (auto simp: buddy_size_def)
qed auto

lemma take_head_ok:
  assumes st: "heap_ok len b cs M" and un: "unique_bytes M" and fh: "find_head b k = Some j"
  obtains b' cs' M' x where "take_head b k j = Ok (Some x, b')" "heap_ok len b' cs' M'" "fixed b b'" "length cs' = length cs"
    "M' + span x (2 ^ (k + bd_min_shift b)) = M" "block_ok len (k + bd_min_shift b) x"
proof -
  let ?x = "bd_heads b ! j" and ?s = "bd_min_shift b"
  note fj = find_head_Some [OF heap_okD(1) [OF st] fh]
  have mem: "?x \<in> set (cs ! j)"
    using lseg_head [OF repD(7) [OF heap_okD(1) [OF st] fj(2)]] fj(3) by (auto simp: first_def split: list.splits)
  have bk: "block_ok len (j + ?s) ?x" using repD(8) [OF heap_okD(1) [OF st] fj(2) mem] .
  obtain b1 cs1 where b1: "buddy_unlink b j ?x = Ok b1" "rep len b1 cs1" "merged (bd_min_shift b1) cs1" "length cs1 = length cs"
    "same_shape b b1" "lists_bytes (bd_min_shift b1) cs1 + span ?x (2 ^ (j + ?s)) = lists_bytes ?s cs"
    using unlink_shrinks [OF heap_okD(1,2) [OF st] fj(2) mem] by metis
  define M1 where "M1 = lists_bytes (bd_min_shift b1) cs1 + lists_bytes ?s (bd_parked b)"
  have M1: "M1 + span ?x (2 ^ (j + ?s)) = M"
    unfolding M1_def heap_okD(6) [OF st, symmetric] b1(6) [symmetric] by (simp add: ac_simps)
  have s1: "bd_min_shift b1 = ?s" "bd_parked b1 = bd_parked b" "bd_park_caps b1 = bd_park_caps b" using b1(5) by (auto simp: same_shape_def)
  have st1: "heap_ok len b1 cs1 M1" using b1(2-4) heap_okD(5) [OF st] by (auto simp: heap_ok_def M1_def s1)
  have "\<exists>b' cs' M'. split_down b1 ?x (rev [k..<(j - k) + k]) = Ok b' \<and> heap_ok len b' cs' M' \<and> fixed b1 b' \<and> length cs' = length cs1
     \<and> bd_parked b' = bd_parked b1
     \<and> M' + span ?x (2 ^ (k + bd_min_shift b1)) = M1 + span ?x (2 ^ ((j - k) + k + bd_min_shift b1))"
    using fj bk un M1 b1(4) by (intro split_down_ok [OF st1]) (simp_all add: s1)
  then obtain b' cs' M' where b': "split_down b1 ?x (rev [k..<j]) = Ok b'" "heap_ok len b' cs' M'" "fixed b1 b'" "length cs' = length cs1"
    "M' + span ?x (2 ^ (k + ?s)) = M"
    using fj M1 by (auto simp: s1)
  have "fixed b b1" using heap_okD(4) [OF st] repD(1) [OF b1(2)] b1(4) by (simp add: fixed_def s1)
  moreover have "block_ok len (k + ?s) ?x"
    using block_ok_mono [OF _ bk] fj(1) by simp
  ultimately show ?thesis
    using that [of ?x b'] b' b1(1,4) fj heap_okD(4) [OF st] by (auto simp: take_head_def intro: fixed_trans)
qed

section \<open>When nothing is found\<close>

lemma aligned_gap:
  assumes "d dvd (p :: nat)" and "d dvd q" and "p < q"
  shows "p + d \<le> q"
  using dvd_imp_le [OF dvd_diff_nat [OF assms(2,1)]] assms(3) by simp

lemma aligned_same: "d dvd (p :: nat) \<Longrightarrow> d dvd q \<Longrightarrow> p < q + d \<Longrightarrow> q < p + d \<Longrightarrow> p = q"
  using aligned_gap [of d p q] aligned_gap [of d q p] by linarith

lemma chain_cover: "a \<in># chain_bytes n xs \<Longrightarrow> \<exists>x \<in> set xs. x \<le> a \<and> a < x + n"
  by (induction xs) (auto simp: span_def)

lemma lists_cover:
  assumes "a \<in># lists_bytes s cs"
  obtains j y where "j < length cs" "y \<in> set (cs ! j)" "y \<le> a" "a < y + 2 ^ (j + s)"
proof -
  obtain j where "j < length cs" "a \<in># chain_bytes (2 ^ (j + s)) (cs ! j)"
    using assms by (auto simp: lists_bytes_def set_mset_sum)
  then show ?thesis using chain_cover that by blast
qed

lemma lists_overlap:
  assumes "i < length cs" "j < length cs" "i \<noteq> j" "w \<in> set (cs ! i)" "y \<in> set (cs ! j)"
    and "w \<le> a" "a < w + 2 ^ (i + s)" "y \<le> a" "a < y + 2 ^ (j + s)"
  shows "\<not> unique_bytes (lists_bytes s cs)"
proof -
  have "lists_bytes s (cs[i := []]) + chain_bytes (2 ^ (i + s)) (cs ! i) = lists_bytes s cs"
    using lists_bytes_update [OF assms(1), of s "[]"] by simp
  moreover have "1 \<le> count (lists_bytes s (cs[i := []])) a"
    using lists_bytes_mem [of j "cs[i := []]" y s a] assms by (simp add: count_span)
  moreover have "1 \<le> count (chain_bytes (2 ^ (i + s)) (cs ! i)) a"
    using chain_bytes_mem [OF assms(4), of "2 ^ (i + s)" a] assms(6,7) by (simp add: count_span)
  ultimately have "2 \<le> count (lists_bytes s cs) a" by (metis add_mono count_union one_add_one)
  then show ?thesis unfolding unique_bytes_def by (metis not_less_eq_eq numeral_2_eq_2 One_nat_def le_trans)
qed

text \<open>The buddy of a block that lies in a larger aligned region lies in it too.\<close>

lemma buddy_inside:
  fixes x y :: nat
  assumes y: "2 ^ t dvd y" and x: "2 ^ Suc t dvd x" "2 ^ Suc t dvd x'" and inside: "x \<le> y" "y < x'"
  shows "x \<le> y XOR 2 ^ t" "y XOR 2 ^ t < x'"
    and "2 ^ Suc t dvd w \<Longrightarrow> w \<le> y XOR 2 ^ t \<Longrightarrow> w \<le> y" "2 ^ Suc t dvd w' \<Longrightarrow> y XOR 2 ^ t < w' \<Longrightarrow> y < w'"
proof -
  have "x \<le> y XOR 2 ^ t \<and> y XOR 2 ^ t < x' \<and> (\<forall>w. 2 ^ Suc t dvd w \<longrightarrow> w \<le> y XOR 2 ^ t \<longrightarrow> w \<le> y)
      \<and> (\<forall>w. 2 ^ Suc t dvd w \<longrightarrow> y XOR 2 ^ t < w \<longrightarrow> y < w)"
    using y
  proof (cases rule: buddy_pair)
    case low
    have "w \<le> y" if "2 ^ Suc t dvd w" "w \<le> y + 2 ^ t" for w
      using aligned_gap [OF low(3) that(1)] that(2) by (cases "w \<le> y") auto
    then show ?thesis using low inside aligned_gap [OF low(3) x(2) inside(2)] by auto
  next
    case (high z)
    have "y < w" if "2 ^ Suc t dvd w" "z < w" for w 
    proof -
      have "0 < (2 :: nat) ^ t" by simp
      then show ?thesis using aligned_gap [OF high(4) that] high(2) unfolding power_Suc by linarith
    qed
    moreover have "x \<le> z" using aligned_gap [OF high(4) x(1)] inside(1) high(2) by (cases "x \<le> z") auto
    ultimately show ?thesis using high inside by auto
  qed
  then show "x \<le> y XOR 2 ^ t" "y XOR 2 ^ t < x'" "2 ^ Suc t dvd w \<Longrightarrow> w \<le> y XOR 2 ^ t \<Longrightarrow> w \<le> y"
    "2 ^ Suc t dvd w' \<Longrightarrow> y XOR 2 ^ t < w' \<Longrightarrow> y < w'" by auto
qed

text \<open>Fully merged lists with no block of order \<open>k\<close> or above hold no whole aligned region of that order.\<close>

lemma no_free_region:
  assumes ok: "\<And>j y. j < length cs \<Longrightarrow> y \<in> set (cs ! j) \<Longrightarrow> 2 ^ (j + s) dvd y" and mg: "merged s cs"
    and un: "unique_bytes (lists_bytes s cs)" and k: "k < length cs" and none: "\<And>j. k \<le> j \<Longrightarrow> j < length cs \<Longrightarrow> cs ! j = []"
    and x: "2 ^ (k + s) dvd x"
  shows "\<exists>a. x \<le> a \<and> a < x + 2 ^ (k + s) \<and> a \<notin># lists_bytes s cs"
proof (rule ccontr)
  assume "\<not> ?thesis"
  then have all: "a \<in># lists_bytes s cs" if "x \<le> a" "a < x + 2 ^ (k + s)" for a using that by auto
  let ?x' = "x + 2 ^ (k + s)"
  define P where "P j \<longleftrightarrow> j < length cs \<and> (\<exists>y \<in> set (cs ! j). x \<le> y \<and> y < ?x')" for j
  have found: "\<exists>i w. w \<in> set (cs ! i) \<and> w \<le> a \<and> a < w + 2 ^ (i + s) \<and> P i \<and> i < k" if a: "x \<le> a" "a < ?x'" for a
  proof -
    obtain i w where w: "i < length cs" "w \<in> set (cs ! i)" "w \<le> a" "a < w + 2 ^ (i + s)" using lists_cover [OF all [OF a]] .
    have "i < k" using none [of i] w(1,2) by (cases "i < k") auto
    then have "(2 :: nat) ^ (i + s) dvd 2 ^ (k + s)" by (simp add: le_imp_power_dvd)
    then have "x \<le> w" using aligned_gap [OF ok [OF w(1,2)] dvd_trans [OF _ x]] w(4) a(1) by (cases "x \<le> w") auto
    moreover have "w < ?x'" using w(3) a(2) by simp
    ultimately have "P i" using w(1,2) by (auto simp: P_def)
    then show ?thesis using w \<open>i < k\<close> by blast
  qed
  obtain j where j: "P j" and least: "\<And>i. P i \<Longrightarrow> j \<le> i"
    using found [of x] exists_least_iff [of P] by (metis le_refl linorder_not_less pos_add_strict zero_less_numeral zero_less_power less_add_same_cancel1)
  obtain y where y: "y \<in> set (cs ! j)" "x \<le> y" "y < ?x'" and jl: "j < length cs" using j by (auto simp: P_def)
  have jk: "j < k" using none [of j] jl y(1) by (cases "j < k") auto
  let ?t = "j + s"
  have dvds: "2 ^ Suc ?t dvd x" "2 ^ Suc ?t dvd ?x'"
    using dvd_trans [OF le_imp_power_dvd [of "Suc ?t" "k + s" "2 :: nat"] x] jk by (auto simp: le_imp_power_dvd simp del: power_Suc)
  note z = buddy_inside [OF ok [OF jl y(1)] dvds y(2,3)]
  obtain i w where w: "w \<in> set (cs ! i)" "w \<le> y XOR 2 ^ ?t" "y XOR 2 ^ ?t < w + 2 ^ (i + s)" "P i" "i < k"
    using found [OF z(1,2)] by blast
  have il: "i < length cs" using w(4) by (simp add: P_def)
  show False
  proof (cases "i = j")
    case True
    have "w = y XOR 2 ^ ?t" using aligned_same [OF ok [OF il w(1)] ] w(2,3) buddy_dvd [OF ok [OF jl y(1)]] True by simp
    then show ?thesis using mg y(1) w(1) True jk k by (auto simp: merged_def)
  next
    case False
    then have "Suc j \<le> i" using least [OF w(4)] by simp
    then have "2 ^ Suc ?t dvd w" "2 ^ Suc ?t dvd w + 2 ^ (i + s)"
      using dvd_trans [OF le_imp_power_dvd [of "Suc ?t" "i + s" "2 :: nat"] ok [OF il w(1)]]
      by (auto simp: le_imp_power_dvd simp del: power_Suc)
    then have "w \<le> y" "y < w + 2 ^ (i + s)" using z(3,4) w(2,3) by blast+
    then show ?thesis using lists_overlap [OF il jl False w(1) y(1), of y s] un by simp
  qed
qed

end
