(* ===== verification/Buddy_Seed.thy ===== *)
theory Buddy_Seed
  imports Buddy_Alloc
begin

text \<open>
  The contract of the buddy allocator's public operations: construction covers the arena, allocation
  takes the bytes of one aligned block or reports that there is none, release gives them back.
\<close>

section \<open>Allocation and release\<close>

definition free_region :: "nat multiset \<Rightarrow> nat \<Rightarrow> nat \<Rightarrow> bool" where
  "free_region M x n \<longleftrightarrow> (\<forall>a. x \<le> a \<and> a < x + n \<longrightarrow> a \<in># M)"

definition alloc_ok :: "nat \<Rightarrow> buddy \<Rightarrow> nat \<Rightarrow> nat multiset \<Rightarrow> (nat option \<times> buddy) step \<Rightarrow> bool" where
  "alloc_ok len b k M r \<longleftrightarrow> (\<exists>res b' cs' M'. r = Ok (res, b') \<and> heap_ok len b' cs' M' \<and> fixed b b'
     \<and> (case res of
          None \<Rightarrow> M' = M \<and> (\<forall>x. 2 ^ (k + bd_min_shift b) dvd x \<longrightarrow> \<not> free_region M x (2 ^ (k + bd_min_shift b)))
        | Some x \<Rightarrow> M' + span x (2 ^ (k + bd_min_shift b)) = M \<and> block_ok len (k + bd_min_shift b) x))"

lemma take_head_alloc_ok:
  assumes "heap_ok len b1 cs1 M" and "unique_bytes M" and "fixed b b1" and "find_head b1 k = Some j"
  shows "alloc_ok len b k M (take_head b1 k j)"
proof -
  obtain b' cs' M' x where t: "take_head b1 k j = Ok (Some x, b')" "heap_ok len b' cs' M'" "fixed b1 b'"
    "M' + span x (2 ^ (k + bd_min_shift b1)) = M" "block_ok len (k + bd_min_shift b1) x"
    using take_head_ok [OF assms(1,2,4)] by metis
  then show ?thesis
    using fixed_trans [OF assms(3) t(3)] assms(3) by (auto simp: alloc_ok_def fixed_def)
qed

lemma lists_bytes_empty: "(\<And>k. k < length ps \<Longrightarrow> ps ! k = []) \<Longrightarrow> lists_bytes s ps = {#}"
  by (simp add: lists_bytes_def)

lemma none_alloc_ok:
  assumes st: "heap_ok len b1 cs1 M" and un: "unique_bytes M" and fx: "fixed b b1" and k: "k < length cs1"
    and empty: "\<And>j. j < length cs1 \<Longrightarrow> bd_parked b1 ! j = []" and none: "find_head b1 k = None"
  shows "alloc_ok len b k M (Ok (None, b1))"
proof -
  let ?s = "bd_min_shift b1"
  note d = heap_okD [OF st]
  have M: "lists_bytes ?s cs1 = M" using d(6) lists_bytes_empty [of "bd_parked b1" ?s] empty d(3) by simp
  have "\<not> free_region M x (2 ^ (k + ?s))" if x: "2 ^ (k + ?s) dvd x" for x
    using no_free_region [OF _ d(2) _ k find_head_None [OF d(1) none] x] repD(8) [OF d(1)] un
    by (auto simp: M free_region_def block_ok_def)
  then show ?thesis using st fx by (auto simp: alloc_ok_def fixed_def)
qed

lemma buddy_alloc_ok:
  assumes st: "heap_ok len b cs M" and un: "unique_bytes M" and k: "k < length cs"
  shows "alloc_ok len b k M (buddy_alloc b k)"
proof (cases "bd_parked b ! k = []")
  case False
  obtain M' where "heap_ok len (b \<lparr> bd_parked := (bd_parked b)[k := butlast (bd_parked b ! k)] \<rparr>) cs M'"
    "M' + span (last (bd_parked b ! k)) (2 ^ (k + bd_min_shift b)) = M" "block_ok len (k + bd_min_shift b) (last (bd_parked b ! k))"
    using heap_ok_unpark [OF st k False] by metis
  then show ?thesis using False k heap_okD(3) [OF st] by (auto simp: buddy_alloc_def alloc_ok_def fixed_def)
next
  case parked: True
  note len = heap_okD(3,4) [OF st]
  show ?thesis
  proof (cases "find_head b k")
    case (Some j)
    then show ?thesis using take_head_alloc_ok [OF st un fixed_refl Some] parked k len by (simp add: buddy_alloc_def)
  next
    case None
    obtain b1 cs1 where c: "compact b = Ok b1" "heap_ok len b1 cs1 M" "fixed b b1" "bd_parked b1 = replicate (length cs) []" "length cs1 = length cs"
      using compact_ok [OF st un] by metis
    show ?thesis
    proof (cases "list_all (\<lambda>s. s = []) (bd_parked b)")
      case True
      then have "\<And>j. j < length cs \<Longrightarrow> bd_parked b ! j = []" using len by (simp add: list_all_length)
      then show ?thesis using none_alloc_ok [OF st un fixed_refl k _ None] None parked k len True by (simp add: buddy_alloc_def)
    next
      case False
      then have alloc: "buddy_alloc b k = (case find_head b1 k of None \<Rightarrow> Ok (None, b1) | Some from \<Rightarrow> take_head b1 k from)"
        using None parked k len c(1) by (simp add: buddy_alloc_def)
      then show ?thesis
        using none_alloc_ok [OF c(2) un c(3)] take_head_alloc_ok [OF c(2) un c(3)] k c(4,5) by (cases "find_head b1 k") auto
    qed
  qed
qed

lemma buddy_release_ok:
  assumes st: "heap_ok len b cs M" and k: "k < length cs" and x: "block_ok len (k + bd_min_shift b) x"
    and un: "unique_bytes (M + span x (2 ^ (k + bd_min_shift b)))"
  obtains b' cs' where "buddy_release b x k = Ok b'" "heap_ok len b' cs' (M + span x (2 ^ (k + bd_min_shift b)))" "fixed b b'"
proof (cases "length (bd_parked b ! k) < bd_park_caps b ! k")
  case True
  then show ?thesis
    using that [OF _ heap_ok_park [OF st k x]] k heap_okD(3) [OF st] repD(4) [OF heap_okD(1) [OF st]]
    by (simp add: buddy_release_def fixed_def)
next
  case False
  then have "buddy_release b x k = release_eager b x k"
    using k heap_okD(3) [OF st] repD(4) [OF heap_okD(1) [OF st]] by (simp add: buddy_release_def)
  then show ?thesis using heap_ok_release [OF st k x un] that by metis
qed

section \<open>Construction\<close>

declare seed.simps [simp del]

definition seeded :: "nat \<Rightarrow> nat \<Rightarrow> nat list list \<Rightarrow> nat \<Rightarrow> nat \<Rightarrow> bool" where
  "seeded lo hi cs offset remaining \<longleftrightarrow> length cs = hi - lo + 1 \<and> lo \<le> hi
     \<and> (\<forall>j \<le> hi. 2 ^ j \<le> remaining \<longrightarrow> 2 ^ j dvd offset)
     \<and> (\<forall>j. Suc j < length cs \<longrightarrow> cs ! j \<noteq> [] \<longrightarrow> remaining < 2 ^ (j + lo))"

lemma seeded_step:
  assumes sd: "seeded lo hi cs offset remaining" and il: "2 ^ ilog2 remaining \<le> remaining \<and> remaining < 2 ^ Suc (ilog2 remaining)"
    and lo: "lo \<le> shift" "shift \<le> hi" and fits: "2 ^ shift \<le> remaining" and shift: "shift = min (ilog2 remaining) hi"
  shows "seeded lo hi (cs[shift - lo := offset # cs ! (shift - lo)]) (offset + 2 ^ shift) (remaining - 2 ^ shift)"
proof -
  have "2 ^ j dvd offset + 2 ^ shift" if j: "j \<le> hi" "2 ^ j \<le> remaining - 2 ^ shift" for j
  proof -
    have r: "2 ^ j \<le> remaining" using j(2) by simp
    then have "(2 :: nat) ^ j dvd 2 ^ shift" using ilog2_ge [OF r] j(1) shift by (simp add: le_imp_power_dvd)
    moreover have "2 ^ j dvd offset" using sd r j(1) by (auto simp: seeded_def)
    ultimately show ?thesis by simp
  qed
  moreover have "remaining - 2 ^ shift < 2 ^ (j + lo)" if j: "Suc j < length cs" "cs[shift - lo := offset # cs ! (shift - lo)] ! j \<noteq> []" for j
  proof (cases "j = shift - lo")
    case True
    then have "shift = ilog2 remaining" using sd j(1) lo shift by (auto simp: seeded_def)
    then show ?thesis using il True lo fits by (simp add: less_diff_conv2 mult_2)
  next
    case False
    then have "remaining < 2 ^ (j + lo)" using sd j by (simp add: seeded_def)
    then show ?thesis by simp
  qed
  ultimately show ?thesis using sd by (simp add: seeded_def)
qed

lemma seed_push:
  assumes sd: "seeded lo hi cs offset remaining" and st: "heap_ok len b cs (mset_set {0..<offset})" and s: "bd_min_shift b = lo"
    and big: "2 ^ lo \<le> remaining" and len: "offset + remaining = len"
  defines "shift \<equiv> min (ilog2 remaining) hi"
  obtains b' cs' where "buddy_push b (shift - lo) offset = Ok b'" "heap_ok len b' cs' (mset_set {0..<offset + 2 ^ shift})" "fixed b b'"
    "seeded lo hi cs' (offset + 2 ^ shift) (remaining - 2 ^ shift)" "bd_parked b' = bd_parked b" "lo \<le> shift" "2 ^ shift \<le> remaining"
proof -
  have pos: "0 < remaining" using big by (metis less_le_trans zero_less_numeral zero_less_power)
  note il = ilog2_bounds [OF pos]
  have lo: "lo \<le> shift" "shift \<le> hi" using sd ilog2_ge [OF big] by (auto simp: seeded_def shift_def)
  have "(2 :: nat) ^ shift \<le> 2 ^ ilog2 remaining" by (simp add: shift_def)
  then have fits: "2 ^ shift \<le> remaining" using il by linarith
  let ?k = "shift - lo"
  have k: "?k < length cs" "?k + lo = shift" using sd lo by (auto simp: seeded_def)
  have bk: "block_ok len (?k + bd_min_shift b) offset"
    using sd lo fits len unfolding block_ok_def s k(2) by (auto simp: seeded_def)
  have sum: "mset_set {0..<offset} + span offset (2 ^ shift) = mset_set {0..<offset + 2 ^ shift}"
    using span_join [of 0 offset "2 ^ shift"] by (simp add: span_def)
  have un: "unique_bytes (mset_set {0..<offset} + span offset (2 ^ (?k + bd_min_shift b)))"
    unfolding s k(2) sum by (rule unique_bytes_span)
  then have un': "unique_bytes (lists_bytes (bd_min_shift b) cs + span offset (2 ^ (?k + bd_min_shift b)))"
    unfolding heap_okD(6) [OF st, symmetric] by (rule unique_drop)
  have fresh: "cs ! ?k = []" if "Suc ?k < length cs"
  proof -
    have "\<not> remaining < 2 ^ (?k + lo)" using fits unfolding k(2) by simp
    then show ?thesis using sd that unfolding seeded_def by blast
  qed
  then have xor: "Suc ?k < length cs \<longrightarrow> offset XOR 2 ^ (?k + bd_min_shift b) \<notin> set (cs ! ?k)" by simp
  note st1 = heap_okD(1,2) [OF st]
  obtain b' where b': "buddy_push b ?k offset = Ok b'" "rep len b' (cs[?k := offset # cs ! ?k])" "same_shape b b'"
    "merged (bd_min_shift b') (cs[?k := offset # cs ! ?k])"
    "lists_bytes (bd_min_shift b') (cs[?k := offset # cs ! ?k]) = lists_bytes (bd_min_shift b) cs + span offset (2 ^ (?k + bd_min_shift b))"
    using push_adds [OF st1 k(1) bk un' xor] by metis
  have sh: "bd_min_shift b' = bd_min_shift b" "bd_parked b' = bd_parked b" "bd_park_caps b' = bd_park_caps b"
    using b'(3) by (auto simp: same_shape_def)
  have "heap_ok len b' (cs[?k := offset # cs ! ?k]) (mset_set {0..<offset} + span offset (2 ^ shift))"
    using b'(2,4,5) heap_okD(5) [OF st] unfolding heap_ok_def heap_okD(6) [OF st, symmetric] 
    by (simp add: sh s k(2) [simplified add.commute] ac_simps)
  moreover have "fixed b b'" using sh heap_okD(4) [OF st] repD(1) [OF b'(2)] by (simp add: fixed_def)
  moreover have "seeded lo hi (cs[?k := offset # cs ! ?k]) (offset + 2 ^ shift) (remaining - 2 ^ shift)"
    using seeded_step [OF sd il lo fits shift_def [THEN meta_eq_to_obj_eq]] .
  ultimately show ?thesis using that [OF b'(1)] lo(1) fits sh(2) unfolding sum by blast
qed

lemma seed_ok:
  "seeded lo hi cs offset remaining \<Longrightarrow> heap_ok len b cs (mset_set {0..<offset}) \<Longrightarrow> bd_min_shift b = lo \<Longrightarrow> offset + remaining = len
   \<Longrightarrow> \<exists>b' cs'. seed lo hi b offset remaining = Ok b' \<and> heap_ok len b' cs' (mset_set {0..<len - remaining mod 2 ^ lo}) \<and> fixed b b'"
proof (induction lo hi b offset remaining arbitrary: cs rule: seed.induct)
  case (1 lo hi b offset remaining)
  let ?shift = "min (ilog2 remaining) hi"
  show ?case
  proof (cases "2 ^ lo \<le> remaining")
    case True
    obtain b1 cs1 where b1: "buddy_push b (?shift - lo) offset = Ok b1" "heap_ok len b1 cs1 (mset_set {0..<offset + 2 ^ ?shift})" "fixed b b1"
      "seeded lo hi cs1 (offset + 2 ^ ?shift) (remaining - 2 ^ ?shift)" "lo \<le> ?shift" "2 ^ ?shift \<le> remaining"
      using seed_push [OF 1(2,3,4) True 1(5)] by metis
    have "bd_min_shift b1 = lo" using b1(3) 1(4) by (simp add: fixed_def)
    then obtain b' cs' where b': "seed lo hi b1 (offset + 2 ^ ?shift) (remaining - 2 ^ ?shift) = Ok b'"
       "heap_ok len b' cs' (mset_set {0..<len - (remaining - 2 ^ ?shift) mod 2 ^ lo})" "fixed b1 b'"
      using 1(1) [OF True refl b1(1) b1(4,2)] 1(5) b1(6) by auto
    have "(remaining - 2 ^ ?shift) mod 2 ^ lo = remaining mod 2 ^ lo"
      using b1(5,6) le_imp_power_dvd [OF b1(5), of "2 :: nat"] by (metis le_add_diff_inverse2 mod_add_right_eq mod_0_imp_dvd dvd_imp_mod_0 add.right_neutral)
    then show ?thesis using b' b1(1) True fixed_trans [OF b1(3) b'(3)] by (subst seed.simps) (auto simp: Let_def)
  next
    case False
    then show ?thesis using 1 by (subst seed.simps) auto
  qed
qed

lemma buddy_new_ok:
  assumes "lo \<le> hi" and "len < NONE"
  obtains b cs where "buddy_new reserve len lo hi memory = Ok b" "heap_ok len b cs (mset_set {0..<len - len mod 2 ^ lo})"
    "bd_min_shift b = lo" "length (bd_heads b) = hi - lo + 1"
proof -
  let ?b = "blank_buddy reserve len lo hi memory" and ?cs = "replicate (hi - lo + 1) []"
  have "bitmap_ok len s (replicate (max ((drop_bit s len + 63) div 64) 1) 0) {}" for s
    by (auto simp: bitmap_ok_def bit_at_def drop_bit_eq_div)
  then have "rep len ?b ?cs"
    using assms(2) by (auto simp: rep_def blank_buddy_def Let_def nth_append simp del: replicate_Suc upt_Suc)
  moreover have "lists_bytes lo ?cs = {#}" by (rule lists_bytes_empty) (simp del: replicate_Suc)
  ultimately have st: "heap_ok len ?b ?cs (mset_set {0..<0})"
    by (auto simp: heap_ok_def merged_def blank_buddy_def Let_def simp del: replicate_Suc)
  have sd: "seeded lo hi ?cs 0 len" using assms(1) by (auto simp: seeded_def simp del: replicate_Suc)
  have "bd_min_shift ?b = lo" "length (bd_heads ?b) = hi - lo + 1" by (simp_all add: blank_buddy_def Let_def)
  then show ?thesis
    using seed_ok [OF sd st] that by (auto simp: buddy_new_def fixed_def)
qed

end
