(* ===== verification/Arena.thy ===== *)
theory Arena
  imports Align
begin

text \<open>
  Memory arenas (\<^verbatim>\<open>moat-common/src/arena.rs\<close>): which mapping \<open>Arena::new\<close> ends up with and how long it
  is. The kernel is a parameter: for one call, whether \<open>mmap\<close> with given huge page flags succeeds and
  whether \<open>madvise\<close> does. The Linux build is modelled.
\<close>

definition HUGE_PAGE_2M :: nat where
  "HUGE_PAGE_2M = 2 * 2 ^ 20"

definition HUGE_PAGE_1G :: nat where
  "HUGE_PAGE_1G = 2 ^ 30"

datatype huge_pages = Disabled | Preferred | Required

datatype backing = Huge1G | Huge2M | Transparent | Plain

record arena =
  ar_len :: nat
  ar_backing :: backing

record kernel =
  kn_mmap :: "nat option \<Rightarrow> nat \<Rightarrow> bool"
  kn_madvise :: bool

text \<open>The loop over the huge page sizes; \<open>None\<close> falls through to plain pages.\<close>

fun map_huge :: "kernel \<Rightarrow> nat \<Rightarrow> nat list \<Rightarrow> arena option" where
  "map_huge K len [] = None"
| "map_huge K len (page # rest) =
     (let rounded = align_up len page in
      if rounded > 2 * len \<and> page = HUGE_PAGE_1G then map_huge K len rest
      else if kn_mmap K (Some page) rounded
      then Some \<lparr> ar_len = rounded, ar_backing = if page = HUGE_PAGE_1G then Huge1G else Huge2M \<rparr>
      else map_huge K len rest)"

definition map_plain :: "kernel \<Rightarrow> nat \<Rightarrow> huge_pages \<Rightarrow> (unit, arena) res" where
  "map_plain K len huge =
     (let rounded = align_up len PAGE_SIZE in
      if kn_mmap K None rounded
      then Ok \<lparr> ar_len = rounded, ar_backing = if huge \<noteq> Disabled \<and> kn_madvise K then Transparent else Plain \<rparr>
      else Err ())"

definition arena_new :: "kernel \<Rightarrow> nat \<Rightarrow> huge_pages \<Rightarrow> (unit, arena) res" where
  "arena_new K len huge =
     (if len = 0 then Panic
      else if huge = Disabled then map_plain K len huge
      else case map_huge K len [HUGE_PAGE_1G, HUGE_PAGE_2M] of
        Some a \<Rightarrow> Ok a
      | None \<Rightarrow> if huge = Required then Err () else map_plain K len huge)"

lemma arena_new_len:
  assumes "arena_new K len huge = Ok a"
  shows "len \<le> ar_len a" "PAGE_SIZE dvd ar_len a" "ar_len a \<le> max (2 * len) (len + HUGE_PAGE_2M)" "0 < len"
proof -
  have page: "len \<le> align_up len p" "align_up len p < len + p" "p dvd align_up len p" if "0 < p" for p
    using that align_up_ge [of p len] align_up_less [of p len] by (auto simp: align_up_def)
  have pos: "0 < HUGE_PAGE_2M" "0 < HUGE_PAGE_1G" "PAGE_SIZE dvd HUGE_PAGE_2M" "PAGE_SIZE dvd HUGE_PAGE_1G"
    "0 < PAGE_SIZE" "PAGE_SIZE < HUGE_PAGE_2M" "HUGE_PAGE_2M \<noteq> HUGE_PAGE_1G"
    by (simp_all add: HUGE_PAGE_2M_def HUGE_PAGE_1G_def PAGE_SIZE_def)
  show "0 < len" "len \<le> ar_len a" "PAGE_SIZE dvd ar_len a" "ar_len a \<le> max (2 * len) (len + HUGE_PAGE_2M)"
    using assms page [OF pos(1)] page [OF pos(2)] page [OF pos(5)] pos dvd_trans
    by (auto simp: arena_new_def map_plain_def Let_def split: if_splits option.splits)
qed

end
