(* ===== verification/Pool.thy ===== *)
theory Pool
  imports Buddy_Seed Arena
begin

text \<open>
  The buffer pool (\<^verbatim>\<open>moat-common/src/pool.rs\<close>, \<open>BufferPool\<close>): one buddy allocator per arena, used by the
  home thread only, and a lock-free stack of the blocks that other threads released. The address of a
  block is the pair of its arena and its offset, a null pointer is \<open>None\<close>. A node of the return stack
  is heap_ok at the start of the returned block; \<open>bp_nodes\<close> maps block addresses to the node read there.
  The steps of a foreign release are separate (\<open>release_begin\<close>, \<open>node_write\<close>, \<open>node_publish\<close>), since
  other threads run between them.
\<close>

section \<open>The state\<close>

type_synonym addr = "nat \<times> nat"

record pooled_buf =
  pb_arena :: nat
  pb_offset :: nat
  pb_len :: nat

record returned =
  rt_next :: "addr option"
  rt_arena :: nat
  rt_offset :: nat
  rt_len :: nat

record buffer_pool =
  bp_arenas :: "arena list"
  bp_min_shift :: nat
  bp_max_shift :: nat
  bp_buddies :: "buddy list"
  bp_home :: nat
  bp_returned :: "addr option"
  bp_nodes :: "addr \<Rightarrow> returned"
  bp_in_use :: nat

record pool_options =
  po_bytes :: nat
  po_max_class :: nat
  po_huge_pages :: huge_pages

definition ARENA_MAX :: nat where
  "ARENA_MAX = 2 ^ 30"

section \<open>Size classes\<close>

fun trailing_zeros :: "nat \<Rightarrow> nat" where
  "trailing_zeros n = (if n = 0 then 64 else if odd n then 0 else Suc (trailing_zeros (n div 2)))"

declare trailing_zeros.simps [simp del]

definition next_power_of_two :: "nat \<Rightarrow> nat" where
  "next_power_of_two n = (if n \<le> 1 then 1 else 2 ^ Suc (ilog2 (n - 1)))"

definition max_class :: "buffer_pool \<Rightarrow> nat" where
  "max_class p = 2 ^ bp_max_shift p"

definition pool_capacity :: "buffer_pool \<Rightarrow> nat" where
  "pool_capacity p = sum_list (map ar_len (bp_arenas p))"

definition class_size :: "buffer_pool \<Rightarrow> nat \<Rightarrow> nat" where
  "class_size p len = max (next_power_of_two (max len 1)) (2 ^ bp_min_shift p)"

definition pool_order :: "buffer_pool \<Rightarrow> nat \<Rightarrow> nat" where
  "pool_order p len = trailing_zeros len - bp_min_shift p"

section \<open>Construction\<close>

text \<open>The loop that maps the arenas. \<open>kernels i\<close> is how the kernel answers while the \<open>i\<close>-th is mapped.\<close>

function map_arenas :: "(nat \<Rightarrow> kernel) \<Rightarrow> huge_pages \<Rightarrow> nat \<Rightarrow> nat \<Rightarrow> (unit, arena list) res" where
  "map_arenas kernels huge i remaining =
     (if remaining > 0 then
        let len = min remaining ARENA_MAX in
        rbind (arena_new (kernels i) len huge) (\<lambda>a.
        rbind (map_arenas kernels huge (Suc i) (remaining - len)) (\<lambda>rest. Ok (a # rest)))
      else Ok [])"
  by pat_completeness auto
termination
  by (relation "measure (\<lambda>(_, _, _, remaining). remaining)") (auto simp: ARENA_MAX_def)

declare map_arenas.simps [simp del]

definition pool_new ::
  "(nat \<Rightarrow> kernel) \<Rightarrow> (nat \<Rightarrow> nat) \<Rightarrow> (nat \<Rightarrow> nat \<times> nat) \<Rightarrow> (addr \<Rightarrow> returned) \<Rightarrow> nat \<Rightarrow> pool_options \<Rightarrow> (unit, buffer_pool) res" where
  "pool_new kernels reserve memory nodes thread opts =
     (let min_shift = trailing_zeros PAGE_SIZE in
      if \<not> (is_power_of_two (po_max_class opts) \<and> PAGE_SIZE \<le> po_max_class opts) then Panic
      else if \<not> po_max_class opts \<le> ARENA_MAX then Panic
      else
        let max_shift = trailing_zeros (po_max_class opts);
            total = align_up (max (po_bytes opts) (po_max_class opts)) (po_max_class opts) in
        rbind (map_arenas kernels (po_huge_pages opts) 0 total) (\<lambda>arenas.
        rbind (traverse (\<lambda>a. buddy_new reserve (ar_len a) min_shift max_shift memory) arenas) (\<lambda>buddies.
          Ok \<lparr> bp_arenas = arenas, bp_min_shift = min_shift, bp_max_shift = max_shift, bp_buddies = buddies,
               bp_home = thread, bp_returned = None, bp_nodes = nodes, bp_in_use = 0 \<rparr>)))"

section \<open>Allocation\<close>

definition release_into :: "buffer_pool \<Rightarrow> buddy list \<Rightarrow> nat \<Rightarrow> nat \<Rightarrow> nat \<Rightarrow> buddy list step" where
  "release_into p bs a off len =
     rbind (index bs a) (\<lambda>b. rbind (buddy_release b off (pool_order p len)) (\<lambda>b. Ok (bs[a := b])))"

text \<open>The loop of \<open>drain_returned\<close>. A cyclic stack would make it run forever, the outcome \<open>None\<close>.\<close>

partial_function (option) drain_returned :: "buffer_pool \<Rightarrow> buddy list \<Rightarrow> addr option \<Rightarrow> buddy list step option" where
  "drain_returned p bs node =
     (case node of
        None \<Rightarrow> Some (Ok bs)
      | Some a \<Rightarrow>
          (case release_into p bs (rt_arena (bp_nodes p a)) (rt_offset (bp_nodes p a)) (rt_len (bp_nodes p a)) of
             Ok bs \<Rightarrow> drain_returned p bs (rt_next (bp_nodes p a))
           | Err e \<Rightarrow> Some (Err e)
           | Panic \<Rightarrow> Some Panic))"

text \<open>\<open>find_map\<close> over the allocators, generic in the allocator's \<open>alloc\<close>.\<close>

fun alloc_first :: "('b \<Rightarrow> nat \<Rightarrow> (nat option \<times> 'b) step) \<Rightarrow> 'b list \<Rightarrow> nat \<Rightarrow> nat \<Rightarrow> ((nat \<times> nat) option \<times> 'b list) step" where
  "alloc_first alloc [] order i = Ok (None, [])"
| "alloc_first alloc (b # bs) order i =
     rbind (alloc b order) (\<lambda>(r, b).
     case r of
       Some off \<Rightarrow> Ok (Some (i, off), b # bs)
     | None \<Rightarrow> rbind (alloc_first alloc bs order (Suc i)) (\<lambda>(r, bs). Ok (r, b # bs)))"

definition pool_alloc :: "nat \<Rightarrow> buffer_pool \<Rightarrow> nat \<Rightarrow> (pooled_buf option \<times> buffer_pool) step option" where
  "pool_alloc thread p len =
     (if len > max_class p then Some (Ok (None, p))
      else if thread \<noteq> bp_home p then Some Panic
      else
        let size = class_size p len; order = pool_order p size in
        map_option
          (\<lambda>drained. rbind drained (\<lambda>bs.
            rbind (alloc_first buddy_alloc bs order 0) (\<lambda>(r, bs).
            let p = p \<lparr> bp_buddies := bs, bp_returned := None \<rparr> in
            case r of
              None \<Rightarrow> Ok (None, p)
            | Some (i, off) \<Rightarrow>
                Ok (Some \<lparr> pb_arena = i, pb_offset = off, pb_len = size \<rparr>, p \<lparr> bp_in_use := bp_in_use p + size \<rparr>))))
          (drain_returned p (bp_buddies p) (bp_returned p)))"

section \<open>Release\<close>

definition release_home :: "buffer_pool \<Rightarrow> pooled_buf \<Rightarrow> buffer_pool step" where
  "release_home p buf =
     (let p = p \<lparr> bp_in_use := bp_in_use p - pb_len buf \<rparr> in
      rbind (release_into p (bp_buddies p) (pb_arena buf) (pb_offset buf) (pb_len buf)) (\<lambda>bs.
        Ok (p \<lparr> bp_buddies := bs \<rparr>)))"

text \<open>Where a foreign release stands: about to write its node, or about to publish it.\<close>

datatype phase = Writing "addr option" | Publishing "addr option"

definition buf_addr :: "pooled_buf \<Rightarrow> addr" where
  "buf_addr buf = (pb_arena buf, pb_offset buf)"

definition release_begin :: "buffer_pool \<Rightarrow> pooled_buf \<Rightarrow> buffer_pool \<times> phase" where
  "release_begin p buf = (p \<lparr> bp_in_use := bp_in_use p - pb_len buf \<rparr>, Writing (bp_returned p))"

definition node_of :: "addr option \<Rightarrow> pooled_buf \<Rightarrow> returned" where
  "node_of head buf = \<lparr> rt_next = head, rt_arena = pb_arena buf, rt_offset = pb_offset buf, rt_len = pb_len buf \<rparr>"

definition node_write :: "buffer_pool \<Rightarrow> pooled_buf \<Rightarrow> addr option \<Rightarrow> buffer_pool \<times> phase" where
  "node_write p buf head = (p \<lparr> bp_nodes := (bp_nodes p)(buf_addr buf := node_of head buf) \<rparr>, Publishing head)"

text \<open>\<open>compare_exchange_weak\<close> may fail spuriously, which the flag \<open>spurious\<close> says.\<close>

definition node_publish :: "bool \<Rightarrow> buffer_pool \<Rightarrow> pooled_buf \<Rightarrow> addr option \<Rightarrow> buffer_pool \<times> phase option" where
  "node_publish spurious p buf head =
     (if \<not> spurious \<and> bp_returned p = head then (p \<lparr> bp_returned := Some (buf_addr buf) \<rparr>, None)
      else (p, Some (Writing (bp_returned p))))"

end
