(* ===== verification/Pool_Arenas.thy ===== *)
theory Pool_Arenas
  imports Pool
begin

text \<open>
  What the pool relies on in its allocators, as the interface \<open>block_allocator\<close>, and what it makes of a
  list of them: searching the arenas in order, releasing into one of them. The buddy allocator provides
  the interface. The size classes of the pool are the orders of its allocators.
\<close>

section \<open>The interface\<close>

locale block_allocator =
  fixes holds :: "nat \<Rightarrow> 'b \<Rightarrow> nat multiset \<Rightarrow> bool"
    and shape :: "'b \<Rightarrow> nat \<times> nat"
    and alloc :: "'b \<Rightarrow> nat \<Rightarrow> (nat option \<times> 'b) step"
    and release :: "'b \<Rightarrow> nat \<Rightarrow> nat \<Rightarrow> 'b step"
  assumes alloc_law: "holds len b M \<Longrightarrow> unique_bytes M \<Longrightarrow> shape b = (s, n) \<Longrightarrow> k < n \<Longrightarrow>
      \<exists>r b' M'. alloc b k = Ok (r, b') \<and> holds len b' M' \<and> shape b' = (s, n)
        \<and> (case r of None \<Rightarrow> M' = M \<and> (\<forall>x. 2 ^ (k + s) dvd x \<longrightarrow> \<not> free_region M x (2 ^ (k + s)))
           | Some x \<Rightarrow> M' + span x (2 ^ (k + s)) = M \<and> block_ok len (k + s) x)"
    and release_law: "holds len b M \<Longrightarrow> shape b = (s, n) \<Longrightarrow> k < n \<Longrightarrow> block_ok len (k + s) x
      \<Longrightarrow> unique_bytes (M + span x (2 ^ (k + s)))
      \<Longrightarrow> \<exists>b'. release b x k = Ok b' \<and> holds len b' (M + span x (2 ^ (k + s))) \<and> shape b' = (s, n)"

fun family :: "(nat \<Rightarrow> 'b \<Rightarrow> nat multiset \<Rightarrow> bool) \<Rightarrow> ('b \<Rightarrow> nat \<times> nat) \<Rightarrow> nat \<times> nat \<Rightarrow> nat list \<Rightarrow> 'b list \<Rightarrow> nat multiset list \<Rightarrow> bool" where
  "family holds shape sn [] [] [] \<longleftrightarrow> True"
| "family holds shape sn (l # ls) (b # bs) (M # Ms) \<longleftrightarrow>
     holds l b M \<and> unique_bytes M \<and> shape b = sn \<and> family holds shape sn ls bs Ms"
| "family holds shape sn _ _ _ \<longleftrightarrow> False"

lemma family_iff: "family holds shape sn ls bs Ms \<longleftrightarrow> length ls = length bs \<and> length Ms = length bs
   \<and> (\<forall>i < length bs. holds (ls ! i) (bs ! i) (Ms ! i) \<and> unique_bytes (Ms ! i) \<and> shape (bs ! i) = sn)"
proof (induction holds shape sn ls bs Ms rule: family.induct)
  case (2 holds shape sn l ls b bs M Ms)
  then show ?case by (auto simp: nth_Cons split: nat.splits)
qed auto

definition taken :: "nat multiset list \<Rightarrow> nat \<Rightarrow> nat \<Rightarrow> nat \<Rightarrow> nat multiset list \<Rightarrow> bool" where
  "taken Ms i x n Ms' \<longleftrightarrow> i < length Ms \<and> Ms = Ms'[i := Ms' ! i + span x n] \<and> length Ms' = length Ms"

lemma taken_Cons: "taken (M # Ms) 0 x n (M' # Ms) \<longleftrightarrow> M = M' + span x n"
  "taken (M # Ms) (Suc i) x n (M # Ms') \<longleftrightarrow> taken Ms i x n Ms'"
  by (auto simp: taken_def)

context block_allocator
begin

lemma alloc_first_law:
  assumes "k < n"
  shows "family holds shape (s, n) ls bs Ms \<Longrightarrow>
    \<exists>r bs' Ms'. alloc_first alloc bs k i0 = Ok (r, bs') \<and> family holds shape (s, n) ls bs' Ms'
      \<and> (case r of None \<Rightarrow> Ms' = Ms \<and> (\<forall>M \<in> set Ms. \<forall>x. 2 ^ (k + s) dvd x \<longrightarrow> \<not> free_region M x (2 ^ (k + s)))
         | Some (j, x) \<Rightarrow> \<exists>i. j = i0 + i \<and> taken Ms i x (2 ^ (k + s)) Ms' \<and> block_ok (ls ! i) (k + s) x)"
proof (induction bs arbitrary: ls Ms i0)
  case Nil
  then show ?case by (cases ls; cases Ms) auto
next
  case (Cons b bs lls MMs)
  obtain l ls M Ms where shapes: "lls = l # ls" "MMs = M # Ms" using Cons(2) by (cases lls; cases MMs) auto
  have f: "holds l b M" "unique_bytes M" "shape b = (s, n)" "family holds shape (s, n) ls bs Ms" using Cons(2) by (auto simp: shapes)
  obtain r b' M' where a: "alloc b k = Ok (r, b')" "holds l b' M'" "shape b' = (s, n)"
    "case r of None \<Rightarrow> M' = M \<and> (\<forall>x. 2 ^ (k + s) dvd x \<longrightarrow> \<not> free_region M x (2 ^ (k + s)))
       | Some x \<Rightarrow> M' + span x (2 ^ (k + s)) = M \<and> block_ok l (k + s) x"
    using alloc_law [of l b M s n k, OF f(1-3) assms] by (elim exE conjE)
  show ?case
  proof (cases r)
    case (Some x)
    then have M: "M = M' + span x (2 ^ (k + s))" "block_ok l (k + s) x" using a(4) by auto
    then have "unique_bytes M'" using f(2) unique_bytes_sub by simp
    then have fam: "family holds shape (s, n) lls (b' # bs) (M' # Ms)" using f a(2,3) by (simp add: shapes)
    have "taken MMs 0 x (2 ^ (k + s)) (M' # Ms)" "block_ok (lls ! 0) (k + s) x" using M by (simp_all add: shapes taken_Cons)
    then have ex: "\<exists>i. i0 = i0 + i \<and> taken MMs i x (2 ^ (k + s)) (M' # Ms) \<and> block_ok (lls ! i) (k + s) x"
      by (intro exI [of _ 0]) simp
    have "alloc_first alloc (b # bs) k i0 = Ok (Some (i0, x), b' # bs)" using Some a(1) by simp
    then show ?thesis
      by (intro exI [of _ "Some (i0, x)"] exI [of _ "b' # bs"] exI [of _ "M' # Ms"]) (simp only: fam ex option.case prod.case simp_thms)
  next
    case None
    obtain r2 bs2 Ms2 where rec: "alloc_first alloc bs k (Suc i0) = Ok (r2, bs2)" "family holds shape (s, n) ls bs2 Ms2"
      "case r2 of None \<Rightarrow> Ms2 = Ms \<and> (\<forall>M \<in> set Ms. \<forall>x. 2 ^ (k + s) dvd x \<longrightarrow> \<not> free_region M x (2 ^ (k + s)))
         | Some (j, x) \<Rightarrow> \<exists>i. j = Suc i0 + i \<and> taken Ms i x (2 ^ (k + s)) Ms2 \<and> block_ok (ls ! i) (k + s) x"
      using Cons(1) [OF f(4), of "Suc i0"] by (elim exE conjE)
    have step: "alloc_first alloc (b # bs) k i0 = Ok (r2, b' # bs2)" "M' = M" using None a rec(1) by auto
    have fam': "family holds shape (s, n) lls (b' # bs2) (M # Ms2)" using f a(2,3) rec(2) step(2) by (simp add: shapes)
    show ?thesis
    proof (cases r2)
      case None
      then show ?thesis using step fam' rec(3) a(4) \<open>r = None\<close> by (auto simp: shapes)
    next
      case (Some jx)
      obtain i x where jx: "jx = (Suc i0 + i, x)" "taken Ms i x (2 ^ (k + s)) Ms2" "block_ok (ls ! i) (k + s) x"
        using rec(3) Some by (cases jx) auto
      then have "taken MMs (Suc i) x (2 ^ (k + s)) (M # Ms2)" "block_ok (lls ! Suc i) (k + s) x"
        by (simp_all add: shapes taken_Cons)
      then have ex: "\<exists>i'. Suc i0 + i = i0 + i' \<and> taken MMs i' x (2 ^ (k + s)) (M # Ms2) \<and> block_ok (lls ! i') (k + s) x"
        by (intro exI [of _ "Suc i"]) simp
      show ?thesis
        by (intro exI [of _ r2] exI [of _ "b' # bs2"] exI [of _ "M # Ms2"])
          (simp only: step(1) fam' ex jx(1) Some option.case prod.case simp_thms)
    qed
  qed
qed

end

section \<open>The buddy allocator provides it\<close>

definition buddy_holds :: "nat \<Rightarrow> buddy \<Rightarrow> nat multiset \<Rightarrow> bool" where
  "buddy_holds len b M \<longleftrightarrow> (\<exists>cs. heap_ok len b cs M)"

definition buddy_shape :: "buddy \<Rightarrow> nat \<times> nat" where
  "buddy_shape b = (bd_min_shift b, length (bd_heads b))"

lemma fixed_shape: "fixed b b' \<Longrightarrow> buddy_shape b' = buddy_shape b"
  by (simp add: fixed_def buddy_shape_def)

interpretation blocks: block_allocator buddy_holds buddy_shape buddy_alloc buddy_release
proof
  fix len b M s n k
  assume h: "buddy_holds len b M" and un: "unique_bytes M" and sh: "buddy_shape b = (s, n)" and k: "k < n"
  obtain cs where cs: "heap_ok len b cs M" using h by (auto simp: buddy_holds_def)
  have k': "k < length cs" using k sh heap_okD(4) [OF cs] by (simp add: buddy_shape_def)
  obtain r b' cs' M' where a: "buddy_alloc b k = Ok (r, b')" "heap_ok len b' cs' M'" "fixed b b'"
    "case r of None \<Rightarrow> M' = M \<and> (\<forall>x. 2 ^ (k + bd_min_shift b) dvd x \<longrightarrow> \<not> free_region M x (2 ^ (k + bd_min_shift b)))
        | Some x \<Rightarrow> M' + span x (2 ^ (k + bd_min_shift b)) = M \<and> block_ok len (k + bd_min_shift b) x"
    using buddy_alloc_ok [OF cs un k'] unfolding alloc_ok_def by (elim exE conjE)
  have "bd_min_shift b = s" using sh by (simp add: buddy_shape_def)
  then show "\<exists>r b' M'. buddy_alloc b k = Ok (r, b') \<and> buddy_holds len b' M' \<and> buddy_shape b' = (s, n)
        \<and> (case r of None \<Rightarrow> M' = M \<and> (\<forall>x. 2 ^ (k + s) dvd x \<longrightarrow> \<not> free_region M x (2 ^ (k + s)))
           | Some x \<Rightarrow> M' + span x (2 ^ (k + s)) = M \<and> block_ok len (k + s) x)"
    using a sh fixed_shape [OF a(3)]
    by (intro exI [of _ r] exI [of _ b'] exI [of _ M']) (auto simp: buddy_holds_def)
next
  fix len b M s n k x
  assume h: "buddy_holds len b M" and sh: "buddy_shape b = (s, n)" and k: "k < n" and x: "block_ok len (k + s) x"
    and un: "unique_bytes (M + span x (2 ^ (k + s)))"
  obtain cs where cs: "heap_ok len b cs M" using h by (auto simp: buddy_holds_def)
  have k': "k < length cs" and s: "bd_min_shift b = s" using k sh heap_okD(4) [OF cs] by (auto simp: buddy_shape_def)
  obtain b' cs' where "buddy_release b x k = Ok b'" "heap_ok len b' cs' (M + span x (2 ^ (k + s)))" "fixed b b'"
    using buddy_release_ok [OF cs k', unfolded s, OF x un] .
  then show "\<exists>b'. buddy_release b x k = Ok b' \<and> buddy_holds len b' (M + span x (2 ^ (k + s))) \<and> buddy_shape b' = (s, n)"
    using sh fixed_shape by (intro exI [of _ b']) (auto simp: buddy_holds_def)
qed

section \<open>Size classes\<close>

lemma trailing_zeros_power [simp]: "trailing_zeros (2 ^ n) = n"
  by (induction n) (simp_all add: trailing_zeros.simps [of "Suc 0"] trailing_zeros.simps [of "2 * _"])

lemma next_power_of_two_least:
  assumes "n \<le> 2 ^ j"
  shows "n \<le> next_power_of_two n" "next_power_of_two n \<le> 2 ^ j" "\<exists>i. next_power_of_two n = 2 ^ i"
proof -
  have "n \<le> next_power_of_two n \<and> next_power_of_two n \<le> 2 ^ j \<and> (\<exists>i. next_power_of_two n = 2 ^ i)"
  proof (cases "n \<le> 1")
    case True
    then show ?thesis by (auto simp: next_power_of_two_def intro: exI [of _ 0])
  next
    case False
    then have il: "2 ^ ilog2 (n - 1) \<le> n - 1" "n - 1 < 2 ^ Suc (ilog2 (n - 1))" using ilog2_bounds [of "n - 1"] by auto
    then have "(2 :: nat) ^ ilog2 (n - 1) < 2 ^ j" using assms False by linarith
    then have "Suc (ilog2 (n - 1)) \<le> j" using power_less_imp_less_exp [of "2 :: nat"] by (metis Suc_leI one_less_numeral_iff semiring_norm(76))
    then have "(2 :: nat) ^ Suc (ilog2 (n - 1)) \<le> 2 ^ j" by (rule power_increasing) simp
    then show ?thesis using il(2) False unfolding next_power_of_two_def by (auto intro: exI [of _ "Suc _"] simp del: power_Suc)
  qed
  then show "n \<le> next_power_of_two n" "next_power_of_two n \<le> 2 ^ j" "\<exists>i. next_power_of_two n = 2 ^ i" by auto
qed

text \<open>The class of a request is the smallest order of the allocator that fits it.\<close>

lemma class_size_order:
  assumes "len \<le> max_class p" and "bp_min_shift p \<le> bp_max_shift p"
  obtains k where "class_size p len = 2 ^ (k + bp_min_shift p)" "pool_order p (class_size p len) = k"
    "k \<le> bp_max_shift p - bp_min_shift p" "len \<le> class_size p len"
    "\<And>j. len \<le> 2 ^ (j + bp_min_shift p) \<Longrightarrow> class_size p len \<le> 2 ^ (j + bp_min_shift p)"
proof -
  let ?n = "max len 1" and ?s = "bp_min_shift p"
  have le: "?n \<le> 2 ^ bp_max_shift p" using assms(1) by (simp add: max_class_def)
  obtain i where i: "next_power_of_two ?n = 2 ^ i" using next_power_of_two_least(3) [OF le] by blast
  have "i \<le> bp_max_shift p" using next_power_of_two_least(2) [OF le] unfolding i by simp
  define k where "k = max i ?s - ?s"
  have size: "class_size p len = 2 ^ (k + ?s)" unfolding class_size_def i by (simp add: k_def max_def)
  moreover have "k \<le> bp_max_shift p - ?s" using \<open>i \<le> _\<close> assms(2) by (auto simp: k_def)
  moreover have "len \<le> class_size p len" using next_power_of_two_least(1) [OF le] by (simp add: class_size_def le_max_iff_disj)
  moreover have "class_size p len \<le> 2 ^ (j + ?s)" if "len \<le> 2 ^ (j + ?s)" for j
  proof -
    have "?n \<le> 2 ^ (j + ?s)" using that by simp
    then show ?thesis using next_power_of_two_least(2) [of ?n "j + ?s"] by (simp add: class_size_def)
  qed
  ultimately show ?thesis using that [of k] by (simp add: pool_order_def)
qed

end
