(* ===== verification/Pool_Books.thy ===== *)
theory Pool_Books
  imports Pool_Arenas
begin

text \<open>
  The books of the pool: every byte of every arena is either held by that arena's allocator or belongs
  to exactly one block in the hands of somebody else, a user or a pending release. Allocation, release
  and draining keep the books.
\<close>

section \<open>Blocks outside the allocators\<close>

definition inside :: "pooled_buf \<Rightarrow> addr \<Rightarrow> bool" where
  "inside buf a \<longleftrightarrow> pb_arena buf = fst a \<and> pb_offset buf \<le> snd a \<and> snd a < pb_offset buf + pb_len buf"

definition buf_bytes :: "nat \<Rightarrow> pooled_buf \<Rightarrow> nat multiset" where
  "buf_bytes i buf = (if pb_arena buf = i then span (pb_offset buf) (pb_len buf) else {#})"

definition arena_bytes :: "nat \<Rightarrow> pooled_buf multiset \<Rightarrow> nat multiset" where
  "arena_bytes i B = \<Sum>\<^sub># (image_mset (buf_bytes i) B)"

lemma arena_bytes_simps [simp]: "arena_bytes i {#} = {#}" "arena_bytes i (add_mset b B) = buf_bytes i b + arena_bytes i B"
  "arena_bytes i (A + B) = arena_bytes i A + arena_bytes i B"
  by (simp_all add: arena_bytes_def)

lemma count_buf_bytes: "count (buf_bytes i b) x = of_bool (inside b (i, x))"
  by (auto simp: buf_bytes_def inside_def count_span)

definition buf_ok :: "arena list \<Rightarrow> nat \<Rightarrow> nat \<Rightarrow> pooled_buf \<Rightarrow> bool" where
  "buf_ok arenas lo hi buf \<longleftrightarrow> pb_arena buf < length arenas
     \<and> (\<exists>k \<le> hi - lo. pb_len buf = 2 ^ (k + lo) \<and> block_ok (ar_len (arenas ! pb_arena buf)) (k + lo) (pb_offset buf))"

lemma buf_ok_inside: "buf_ok arenas lo hi b \<Longrightarrow> inside b (buf_addr b)"
  by (auto simp: buf_ok_def inside_def buf_addr_def)

definition balance :: "arena list \<Rightarrow> buddy list \<Rightarrow> nat \<Rightarrow> nat \<Rightarrow> nat multiset list \<Rightarrow> pooled_buf multiset \<Rightarrow> bool" where
  "balance arenas bs lo hi Ms B \<longleftrightarrow> lo \<le> hi
     \<and> family buddy_holds buddy_shape (lo, Suc (hi - lo)) (map ar_len arenas) bs Ms
     \<and> (\<forall>i < length bs. Ms ! i + arena_bytes i B = mset_set {0..<ar_len (arenas ! i)})
     \<and> (\<forall>b \<in># B. buf_ok arenas lo hi b)"

definition books :: "arena list \<Rightarrow> buddy list \<Rightarrow> nat \<Rightarrow> nat \<Rightarrow> pooled_buf multiset \<Rightarrow> bool" where
  "books arenas bs lo hi B \<longleftrightarrow> (\<exists>Ms. balance arenas bs lo hi Ms B)"

lemma balanceD:
  assumes "balance arenas bs lo hi Ms B"
  shows "lo \<le> hi" "length bs = length arenas" "length Ms = length bs"
    "i < length bs \<Longrightarrow> buddy_holds (ar_len (arenas ! i)) (bs ! i) (Ms ! i)" "i < length bs \<Longrightarrow> unique_bytes (Ms ! i)"
    "i < length bs \<Longrightarrow> buddy_shape (bs ! i) = (lo, Suc (hi - lo))"
    "i < length bs \<Longrightarrow> Ms ! i + arena_bytes i B = mset_set {0..<ar_len (arenas ! i)}"
    "b \<in># B \<Longrightarrow> buf_ok arenas lo hi b"
  using assms by (auto simp: balance_def family_iff)

lemma books_total:
  assumes "balance arenas bs lo hi Ms B" and "i < length bs"
  shows "count (Ms ! i) x + count (arena_bytes i B) x = of_bool (x < ar_len (arenas ! i))"
  using balanceD(7) [OF assms, THEN arg_cong, of "\<lambda>M. count M x"] by simp

lemma books_apart:
  assumes "books arenas bs lo hi (add_mset b (add_mset c B))" and "inside b a" and "inside c a"
  shows False
proof -
  obtain i x where a: "a = (i, x)" by (cases a)
  obtain Ms where bal: "balance arenas bs lo hi Ms (add_mset b (add_mset c B))" using assms(1) by (auto simp: books_def)
  have "i < length bs" using balanceD(8) [OF bal, of b] balanceD(2) [OF bal] assms(2) a by (simp add: buf_ok_def inside_def)
  then show False using books_total [OF bal, of i x] assms(2,3) a by (cases "x < ar_len (arenas ! i)") (simp_all add: count_buf_bytes)
qed

lemma books_inside:
  assumes "balance arenas bs lo hi Ms B" and "b \<in># B" and "inside b (i, x)"
  shows "i < length bs" "x \<notin># Ms ! i"
proof -
  show i: "i < length bs" using balanceD(8) [OF assms(1,2)] balanceD(2) [OF assms(1)] assms(3) by (simp add: buf_ok_def inside_def)
  obtain B' where "B = add_mset b B'" using assms(2) by (metis mset_add)
  then have "1 \<le> count (arena_bytes i B) x" using assms(3) by (simp add: count_buf_bytes)
  then have "count (Ms ! i) x = 0"
    using books_total [OF assms(1) i, of x] by (cases "x < ar_len (arenas ! i)"; (simp only: of_bool_eq)?; linarith)
  then show "x \<notin># Ms ! i" by (simp add: not_in_iff)
qed

section \<open>Release\<close>

lemma buf_order:
  assumes "buf_ok (bp_arenas p) (bp_min_shift p) (bp_max_shift p) b"
  shows "pb_len b = 2 ^ (pool_order p (pb_len b) + bp_min_shift p)"
    "pool_order p (pb_len b) < Suc (bp_max_shift p - bp_min_shift p)"
    "block_ok (ar_len (bp_arenas p ! pb_arena b)) (pool_order p (pb_len b) + bp_min_shift p) (pb_offset b)"
  using assms by (auto simp: buf_ok_def pool_order_def)

lemma release_into_books:
  assumes "books (bp_arenas p) bs (bp_min_shift p) (bp_max_shift p) (add_mset b B)"
  obtains bs' where "release_into p bs (pb_arena b) (pb_offset b) (pb_len b) = Ok bs'"
    "books (bp_arenas p) bs' (bp_min_shift p) (bp_max_shift p) B"
proof -
  let ?s = "bp_min_shift p" and ?n = "Suc (bp_max_shift p - bp_min_shift p)" and ?i = "pb_arena b" and ?k = "pool_order p (pb_len b)"
  obtain Ms where bal: "balance (bp_arenas p) bs ?s (bp_max_shift p) Ms (add_mset b B)" using assms by (auto simp: books_def)
  note d = balanceD [OF bal]
  have ok: "buf_ok (bp_arenas p) ?s (bp_max_shift p) b" using d(8) by simp
  have i: "?i < length bs" using ok d(2) by (simp add: buf_ok_def)
  note o = buf_order [OF ok]
  have sp: "buf_bytes ?i b = span (pb_offset b) (2 ^ (?k + ?s))" using o(1) by (simp add: buf_bytes_def)
  have "unique_bytes (Ms ! ?i + span (pb_offset b) (2 ^ (?k + ?s)) + arena_bytes ?i B)"
    using d(7) [OF i] unique_bytes_span [of 0] by (simp add: sp add.assoc)
  then have un: "unique_bytes (Ms ! ?i + span (pb_offset b) (2 ^ (?k + ?s)))" by (rule unique_bytes_sub)
  obtain b' where r: "buddy_release (bs ! ?i) (pb_offset b) ?k = Ok b'"
    "buddy_holds (ar_len (bp_arenas p ! ?i)) b' (Ms ! ?i + span (pb_offset b) (2 ^ (?k + ?s)))" "buddy_shape b' = (?s, ?n)"
    using blocks.release_law [OF d(4,6) [OF i] o(2,3) un] by (elim exE conjE)
  define Ms' where "Ms' = Ms[?i := Ms ! ?i + span (pb_offset b) (2 ^ (?k + ?s))]"
  have "family buddy_holds buddy_shape (?s, ?n) (map ar_len (bp_arenas p)) (bs[?i := b']) Ms'"
    using d(2-6) r(2,3) un i by (auto simp: family_iff Ms'_def nth_list_update)
  moreover have "Ms' ! j + arena_bytes j B = mset_set {0..<ar_len (bp_arenas p ! j)}" if "j < length bs" for j
    using d(7) [OF that] d(3) that sp by (cases "j = ?i") (auto simp: Ms'_def buf_bytes_def add.assoc)
  ultimately have "balance (bp_arenas p) (bs[?i := b']) ?s (bp_max_shift p) Ms' B"
    using d(1,8) by (simp add: balance_def)
  then show ?thesis using that [of "bs[?i := b']"] r(1) i by (auto simp: release_into_def books_def)
qed

fun linked :: "(addr \<Rightarrow> returned) \<Rightarrow> addr option \<Rightarrow> pooled_buf list \<Rightarrow> bool" where
  "linked nodes h [] \<longleftrightarrow> h = None"
| "linked nodes h (b # bs) \<longleftrightarrow> h = Some (buf_addr b) \<and> nodes (buf_addr b) = node_of (rt_next (nodes (buf_addr b))) b
     \<and> linked nodes (rt_next (nodes (buf_addr b))) bs"

lemma linked_cong: "(\<And>b. b \<in> set st \<Longrightarrow> nodes' (buf_addr b) = nodes (buf_addr b)) \<Longrightarrow> linked nodes' h st \<longleftrightarrow> linked nodes h st"
  by (induction st arbitrary: h) auto

lemma drain_books:
  "linked (bp_nodes p) h st \<Longrightarrow> books (bp_arenas p) bs (bp_min_shift p) (bp_max_shift p) (B + mset st)
   \<Longrightarrow> \<exists>bs'. drain_returned p bs h = Some (Ok bs') \<and> books (bp_arenas p) bs' (bp_min_shift p) (bp_max_shift p) B"
proof (induction st arbitrary: h bs)
  case Nil
  then show ?case by (auto simp: drain_returned.simps)
next
  case (Cons b st)
  let ?r = "bp_nodes p (buf_addr b)"
  have r: "?r = node_of (rt_next ?r) b" "h = Some (buf_addr b)" "linked (bp_nodes p) (rt_next ?r) st" using Cons(2) by auto
  have f: "rt_arena ?r = pb_arena b" "rt_offset ?r = pb_offset b" "rt_len ?r = pb_len b" by (subst r(1), simp add: node_of_def)+
  have "B + mset (b # st) = add_mset b (B + mset st)" by simp
  then obtain bs' where bs': "release_into p bs (pb_arena b) (pb_offset b) (pb_len b) = Ok bs'"
    "books (bp_arenas p) bs' (bp_min_shift p) (bp_max_shift p) (B + mset st)"
    using release_into_books [of p bs b "B + mset st"] Cons(3) by metis
  show ?case using Cons(1) [OF r(3) bs'(2)] bs'(1) by (subst drain_returned.simps) (simp add: r(2) f)
qed

section \<open>Allocation\<close>

lemma arena_bytes_inside: "x \<in># arena_bytes i B \<Longrightarrow> \<exists>b \<in># B. inside b (i, x)"
  by (induction B) (auto simp: buf_bytes_def inside_def span_def split: if_splits)

lemma none_free:
  assumes bal: "balance arenas bs lo hi Ms B" and i: "i < length bs" and fits: "x + n \<le> ar_len (arenas ! i)"
  shows "free_region (Ms ! i) x n \<or> (\<exists>b \<in># B. \<exists>a. inside b (i, a) \<and> x \<le> a \<and> a < x + n)"
proof (rule ccontr)
  assume neg: "\<not> ?thesis"
  have "a \<in># Ms ! i" if a: "x \<le> a" "a < x + n" for a
  proof -
    have "a \<notin># arena_bytes i B" using neg a arena_bytes_inside by blast
    then have "count (Ms ! i) a = 1" using books_total [OF bal i, of a] a fits by (simp add: not_in_iff)
    then show ?thesis by (metis count_greater_zero_iff zero_less_one)
  qed
  then show False using neg by (auto simp: free_region_def)
qed

lemma alloc_books:
  assumes bk: "books (bp_arenas p) bs (bp_min_shift p) (bp_max_shift p) B" and len: "len \<le> max_class p"
  obtains r bs' where "alloc_first buddy_alloc bs (pool_order p (class_size p len)) 0 = Ok (r, bs')"
    "case r of
       None \<Rightarrow> books (bp_arenas p) bs' (bp_min_shift p) (bp_max_shift p) B
         \<and> (\<forall>i < length bs. \<forall>x. class_size p len dvd x \<longrightarrow> x + class_size p len \<le> ar_len (bp_arenas p ! i)
              \<longrightarrow> (\<exists>b \<in># B. \<exists>a. inside b (i, a) \<and> x \<le> a \<and> a < x + class_size p len))
     | Some (i, x) \<Rightarrow> books (bp_arenas p) bs' (bp_min_shift p) (bp_max_shift p)
         (add_mset \<lparr> pb_arena = i, pb_offset = x, pb_len = class_size p len \<rparr> B)"
proof -
  let ?s = "bp_min_shift p" and ?n = "Suc (bp_max_shift p - bp_min_shift p)" and ?c = "class_size p len"
  obtain Ms where bal: "balance (bp_arenas p) bs ?s (bp_max_shift p) Ms B" using bk by (auto simp: books_def)
  note d = balanceD [OF bal]
  obtain k where k: "?c = 2 ^ (k + ?s)" "pool_order p ?c = k" "k < ?n"
    using class_size_order [OF len d(1)] by (metis less_Suc_eq_le)
  have fam: "family buddy_holds buddy_shape (?s, ?n) (map ar_len (bp_arenas p)) bs Ms" using bal by (simp add: balance_def)
  obtain r bs' Ms' where r: "alloc_first buddy_alloc bs k 0 = Ok (r, bs')"
    "family buddy_holds buddy_shape (?s, ?n) (map ar_len (bp_arenas p)) bs' Ms'"
    "case r of None \<Rightarrow> Ms' = Ms \<and> (\<forall>M \<in> set Ms. \<forall>x. 2 ^ (k + ?s) dvd x \<longrightarrow> \<not> free_region M x (2 ^ (k + ?s)))
       | Some (j, x) \<Rightarrow> \<exists>i. j = 0 + i \<and> taken Ms i x (2 ^ (k + ?s)) Ms' \<and> block_ok (map ar_len (bp_arenas p) ! i) (k + ?s) x"
    using blocks.alloc_first_law [OF k(3) fam, of 0] by (elim exE conjE)
  have bs': "length bs' = length bs" using r(2) d(2) by (simp add: family_iff)
  show ?thesis
  proof (cases r)
    case None
    have Ms': "Ms' = Ms" and none: "\<And>M x. M \<in> set Ms \<Longrightarrow> ?c dvd x \<Longrightarrow> \<not> free_region M x ?c" using r(3) None by (auto simp: k(1))
    have "balance (bp_arenas p) bs' ?s (bp_max_shift p) Ms B" using bal r(2) Ms' bs' by (simp add: balance_def)
    moreover have "\<exists>b \<in># B. \<exists>a. inside b (i, a) \<and> x \<le> a \<and> a < x + ?c"
      if i: "i < length bs" and x: "?c dvd x" "x + ?c \<le> ar_len (bp_arenas p ! i)" for i x
      using none_free [OF bal i x(2)] none [of "Ms ! i" x] x(1) i d(3) by simp
    ultimately show ?thesis using that [of None bs'] r(1) None k(2) by (auto simp: books_def)
  next
    case (Some ix)
    obtain i x where ix: "ix = (i, x)" "taken Ms i x ?c Ms'" "block_ok (map ar_len (bp_arenas p) ! i) (k + ?s) x"
      using r(3) Some by (cases ix) (auto simp: k(1))
    let ?b = "\<lparr> pb_arena = i, pb_offset = x, pb_len = ?c \<rparr>"
    have i: "i < length bs" using ix(2) d(3) by (simp add: taken_def)
    have "Ms' ! j + arena_bytes j (add_mset ?b B) = mset_set {0..<ar_len (bp_arenas p ! j)}" if j: "j < length bs" for j
    proof -
      have "Ms ! j = Ms' ! j + buf_bytes j ?b"
        using ix(2) j d(3) by (cases "j = i") (auto simp: taken_def buf_bytes_def nth_list_update dest: arg_cong [of _ _ "\<lambda>l. l ! j"])
      then show ?thesis using d(7) [OF j] by (simp add: add.assoc)
    qed
    moreover have "buf_ok (bp_arenas p) ?s (bp_max_shift p) ?b"
      using ix(3) i d(2) k by (auto simp: buf_ok_def)
    ultimately have "balance (bp_arenas p) bs' ?s (bp_max_shift p) Ms' (add_mset ?b B)"
      using r(2) d(1,8) bs' by (auto simp: balance_def)
    then show ?thesis using that [of "Some (i, x)" bs'] r(1) Some ix(1) k(2) by (auto simp: books_def)
  qed
qed

end
