(* ===== verification/Pool_Safety.thy ===== *)
theory Pool_Safety
  imports Pool_Books
begin

text \<open>
  The pool as a transition system. A state is the pool, the buffers in users' hands and the foreign
  releases under way, each at its own phase. A step is one operation of one thread; \<open>memory\<close> is a write
  of arbitrary bytes by whoever may write there: an owner to its buffer, or the allocator to a block it
  holds, whose links and return-stack node share storage.
\<close>

section \<open>Steps\<close>

record pool_sys =
  ps_pool :: buffer_pool
  ps_used :: "pooled_buf multiset"
  ps_flight :: "(pooled_buf \<times> phase) multiset"

definition on_list :: "buddy \<Rightarrow> nat \<Rightarrow> bool" where
  "on_list b x \<longleftrightarrow> (\<exists>k < length (bd_heads b). is_free b k x = Ok True)"

definition allocator_owns :: "buddy \<Rightarrow> nat \<Rightarrow> bool" where
  "allocator_owns b x \<longleftrightarrow> on_list b x \<or> (\<exists>ps \<in> set (bd_parked b). x \<in> set ps)"

definition may_write :: "pool_sys \<Rightarrow> addr \<Rightarrow> bool" where
  "may_write S a \<longleftrightarrow> (\<exists>b \<in># ps_used S. inside b a) \<or> (\<exists>b h. (b, Writing h) \<in># ps_flight S \<and> inside b a)
     \<or> fst a < length (bp_buddies (ps_pool S)) \<and> allocator_owns (bp_buddies (ps_pool S) ! fst a) (snd a)"

definition set_memory :: "buffer_pool \<Rightarrow> (addr \<Rightarrow> returned) \<Rightarrow> (nat \<Rightarrow> nat \<Rightarrow> nat \<times> nat) \<Rightarrow> buffer_pool" where
  "set_memory p nodes links = p \<lparr> bp_nodes := nodes,
     bp_buddies := map (\<lambda>i. (bp_buddies p ! i) \<lparr> bd_links := links i \<rparr>) [0..<length (bp_buddies p)] \<rparr>"

inductive pool_step :: "pool_sys \<Rightarrow> pool_sys \<Rightarrow> bool" where
  alloc: "pool_alloc (bp_home (ps_pool S)) (ps_pool S) len = Some (Ok (r, p')) \<Longrightarrow>
     pool_step S (S \<lparr> ps_pool := p', ps_used := ps_used S + (case r of None \<Rightarrow> {#} | Some buf \<Rightarrow> {#buf#}) \<rparr>)"
| drop_home: "buf \<in># ps_used S \<Longrightarrow> release_home (ps_pool S) buf = Ok p' \<Longrightarrow>
     pool_step S (S \<lparr> ps_pool := p', ps_used := ps_used S - {#buf#} \<rparr>)"
| drop_foreign: "buf \<in># ps_used S \<Longrightarrow> release_begin (ps_pool S) buf = (p', ph) \<Longrightarrow>
     pool_step S (S \<lparr> ps_pool := p', ps_used := ps_used S - {#buf#}, ps_flight := add_mset (buf, ph) (ps_flight S) \<rparr>)"
| write_node: "(buf, Writing h) \<in># ps_flight S \<Longrightarrow> node_write (ps_pool S) buf h = (p', ph) \<Longrightarrow>
     pool_step S (S \<lparr> ps_pool := p', ps_flight := add_mset (buf, ph) (ps_flight S - {#(buf, Writing h)#}) \<rparr>)"
| publish: "(buf, Publishing h) \<in># ps_flight S \<Longrightarrow> node_publish spurious (ps_pool S) buf h = (p', None) \<Longrightarrow>
     pool_step S (S \<lparr> ps_pool := p', ps_flight := ps_flight S - {#(buf, Publishing h)#} \<rparr>)"
| retry: "(buf, Publishing h) \<in># ps_flight S \<Longrightarrow> node_publish spurious (ps_pool S) buf h = (p', Some ph) \<Longrightarrow>
     pool_step S (S \<lparr> ps_pool := p', ps_flight := add_mset (buf, ph) (ps_flight S - {#(buf, Publishing h)#}) \<rparr>)"
| memory: "(\<And>a. \<not> may_write S a \<Longrightarrow> nodes a = bp_nodes (ps_pool S) a) \<Longrightarrow>
     (\<And>i x. i < length (bp_buddies (ps_pool S)) \<Longrightarrow> on_list (bp_buddies (ps_pool S) ! i) x
        \<Longrightarrow> links i x = bd_links (bp_buddies (ps_pool S) ! i) x) \<Longrightarrow>
     pool_step S (S \<lparr> ps_pool := set_memory (ps_pool S) nodes links \<rparr>)"

section \<open>The invariant\<close>

definition outstanding :: "pool_sys \<Rightarrow> pooled_buf multiset" where
  "outstanding S = ps_used S + image_mset fst (ps_flight S)"

definition pool_books :: "buffer_pool \<Rightarrow> pooled_buf multiset \<Rightarrow> bool" where
  "pool_books p B \<longleftrightarrow> books (bp_arenas p) (bp_buddies p) (bp_min_shift p) (bp_max_shift p) B"

definition written :: "buffer_pool \<Rightarrow> pooled_buf \<times> phase \<Rightarrow> bool" where
  "written p f \<longleftrightarrow> (case snd f of Writing _ \<Rightarrow> True | Publishing h \<Rightarrow> bp_nodes p (buf_addr (fst f)) = node_of h (fst f))"

definition pool_inv :: "pool_sys \<Rightarrow> pooled_buf list \<Rightarrow> bool" where
  "pool_inv S st \<longleftrightarrow> pool_books (ps_pool S) (outstanding S + mset st) \<and> linked (bp_nodes (ps_pool S)) (bp_returned (ps_pool S)) st
     \<and> (\<forall>f \<in># ps_flight S. written (ps_pool S) f) \<and> bp_in_use (ps_pool S) = \<Sum>\<^sub># (image_mset pb_len (ps_used S))"

lemma written_cong: "bp_nodes p' = bp_nodes p \<Longrightarrow> written p' f \<longleftrightarrow> written p f"
  by (simp add: written_def split: phase.splits)

lemma written_Writing [simp]: "written p (b, Writing h)"
  by (simp add: written_def)

lemma pool_invD:
  assumes "pool_inv S st"
  shows "pool_books (ps_pool S) (outstanding S + mset st)" "linked (bp_nodes (ps_pool S)) (bp_returned (ps_pool S)) st"
    "f \<in># ps_flight S \<Longrightarrow> written (ps_pool S) f" "bp_in_use (ps_pool S) = \<Sum>\<^sub># (image_mset pb_len (ps_used S))"
  using assms by (auto simp: pool_inv_def)

subsection \<open>Allocation\<close>

lemma pool_alloc_ok:
  assumes bk: "pool_books p (B + mset st)" and st: "linked (bp_nodes p) (bp_returned p) st" and len: "len \<le> max_class p"
  obtains r p' where "pool_alloc (bp_home p) p len = Some (Ok (r, p'))" "bp_returned p' = None" "bp_nodes p' = bp_nodes p"
    "bp_arenas p' = bp_arenas p" "bp_min_shift p' = bp_min_shift p" "bp_max_shift p' = bp_max_shift p" "bp_home p' = bp_home p"
    "case r of
       None \<Rightarrow> bp_in_use p' = bp_in_use p \<and> pool_books p' B
         \<and> (\<forall>i < length (bp_arenas p). \<forall>x. class_size p len dvd x \<longrightarrow> x + class_size p len \<le> ar_len (bp_arenas p ! i)
              \<longrightarrow> (\<exists>b \<in># B. \<exists>a. inside b (i, a) \<and> x \<le> a \<and> a < x + class_size p len))
     | Some buf \<Rightarrow> bp_in_use p' = bp_in_use p + pb_len buf \<and> pb_len buf = class_size p len \<and> pool_books p' (add_mset buf B)"
proof -
  obtain bs where bs: "drain_returned p (bp_buddies p) (bp_returned p) = Some (Ok bs)"
    "books (bp_arenas p) bs (bp_min_shift p) (bp_max_shift p) B"
    using drain_books [OF st] bk by (auto simp: pool_books_def)
  have n: "length bs = length (bp_arenas p)" using bs(2) balanceD(2) by (auto simp: books_def)
  obtain r bs' where r: "alloc_first buddy_alloc bs (pool_order p (class_size p len)) 0 = Ok (r, bs')"
    "case r of
       None \<Rightarrow> books (bp_arenas p) bs' (bp_min_shift p) (bp_max_shift p) B
         \<and> (\<forall>i < length bs. \<forall>x. class_size p len dvd x \<longrightarrow> x + class_size p len \<le> ar_len (bp_arenas p ! i)
              \<longrightarrow> (\<exists>b \<in># B. \<exists>a. inside b (i, a) \<and> x \<le> a \<and> a < x + class_size p len))
     | Some (i, x) \<Rightarrow> books (bp_arenas p) bs' (bp_min_shift p) (bp_max_shift p)
         (add_mset \<lparr> pb_arena = i, pb_offset = x, pb_len = class_size p len \<rparr> B)"
    using alloc_books [OF bs(2) len] .
  show ?thesis
  proof (cases r)
    case None
    then show ?thesis
      using r n len bs(1) that [of None "p \<lparr> bp_buddies := bs', bp_returned := None \<rparr>"]
      by (simp add: pool_alloc_def pool_books_def)
  next
    case (Some ix)
    obtain i x where ix: "ix = (i, x)" by (cases ix)
    let ?b = "\<lparr> pb_arena = i, pb_offset = x, pb_len = class_size p len \<rparr>"
    show ?thesis
      using r len bs(1) Some ix
        that [of "Some ?b" "p \<lparr> bp_buddies := bs', bp_returned := None, bp_in_use := bp_in_use p + class_size p len \<rparr>"]
      by (simp add: pool_alloc_def pool_books_def Let_def)
  qed
qed

subsection \<open>Memory\<close>

lemma on_list_block:
  assumes "rep len b cs" and "is_free b k x = Ok True" and k: "k < length cs"
  shows "drop_bit (k + bd_min_shift b) x * 2 ^ (k + bd_min_shift b) \<in> set (cs ! k)"
proof -
  let ?i = "drop_bit (k + bd_min_shift b) x"
  have "bit_at (bd_bitmaps b ! k) ?i"
    using assms(2) k repD(2) [OF assms(1)] and_bit_iff [of "?i mod 64"]
    by (auto simp: is_free_def bit_index_def Let_def bit_at_def)
  then show ?thesis using repD(9) [OF assms(1) k] by (simp add: bitmap_ok_def)
qed

lemma owns_bytes:
  assumes "buddy_holds len b M" and "allocator_owns b x"
  shows "x \<in># M"
proof -
  obtain cs where cs: "heap_ok len b cs M" using assms(1) by (auto simp: buddy_holds_def)
  note d = heap_okD [OF cs]
  let ?s = "bd_min_shift b"
  have "1 \<le> count (lists_bytes ?s cs) x \<or> 1 \<le> count (lists_bytes ?s (bd_parked b)) x"
  proof (cases "on_list b x")
    case True
    then obtain k where k: "k < length cs" "is_free b k x = Ok True" using d(4) by (auto simp: on_list_def)
    let ?y = "drop_bit (k + ?s) x * 2 ^ (k + ?s)"
    have "0 < (2 :: nat) ^ (k + ?s)" by simp
    then have "?y \<le> x" "x < ?y + 2 ^ (k + ?s)"
      using div_mult_mod_eq [of x "2 ^ (k + ?s)"] mod_less_divisor [of "2 ^ (k + ?s)" x] unfolding drop_bit_eq_div by linarith+
    then show ?thesis using lists_bytes_mem [OF k(1) on_list_block [OF d(1) k(2,1)], of ?s x] by (simp add: count_span)
  next
    case False
    then obtain k where k: "k < length (bd_parked b)" "x \<in> set (bd_parked b ! k)"
      using assms(2) unfolding allocator_owns_def by (metis in_set_conv_nth)
    then show ?thesis using lists_bytes_mem [OF k, of ?s x] by (simp add: count_span)
  qed
  then show ?thesis unfolding d(6) [symmetric] by (auto simp: count_eq_zero_iff)
qed

lemma holds_links:
  assumes "buddy_holds len b M" and links: "\<And>x. on_list b x \<Longrightarrow> l x = bd_links b x"
  shows "buddy_holds len (b \<lparr> bd_links := l \<rparr>) M"
proof -
  obtain cs where cs: "heap_ok len b cs M" using assms(1) by (auto simp: buddy_holds_def)
  note d = heap_okD [OF cs] and r = repD [OF heap_okD(1) [OF cs]]
  have "lseg l NONE (bd_heads b ! k) (cs ! k) NONE" if k: "k < length cs" for k
  proof -
    have "l x = bd_links b x" if x: "x \<in> set (cs ! k)" for x
      using is_free_rep [OF d(1) k, of x] r(8) [OF k x] x k d(4) by (intro links) (auto simp: on_list_def block_ok_def)
    then show ?thesis using lseg_frame [of "cs ! k" l "bd_links b"] r(7) [OF k] by simp
  qed
  then have "rep len (b \<lparr> bd_links := l \<rparr>) cs" using d(1) by (simp add: rep_def)
  then have "heap_ok len (b \<lparr> bd_links := l \<rparr>) cs M" using cs by (simp add: heap_ok_def)
  then show ?thesis by (auto simp: buddy_holds_def)
qed

lemma books_links:
  assumes "books arenas bs lo hi B" and "\<And>i x. i < length bs \<Longrightarrow> on_list (bs ! i) x \<Longrightarrow> links i x = bd_links (bs ! i) x"
  shows "books arenas (map (\<lambda>i. (bs ! i) \<lparr> bd_links := links i \<rparr>) [0..<length bs]) lo hi B"
proof -
  obtain Ms where bal: "balance arenas bs lo hi Ms B" using assms(1) by (auto simp: books_def)
  note d = balanceD [OF bal]
  have "balance arenas (map (\<lambda>i. (bs ! i) \<lparr> bd_links := links i \<rparr>) [0..<length bs]) lo hi Ms B"
    using d holds_links [OF d(4) assms(2)] by (auto simp: balance_def family_iff buddy_shape_def)
  then show ?thesis by (auto simp: books_def)
qed

lemma addr_not_writable:
  assumes bk: "pool_books (ps_pool S) (add_mset b B)" and out: "\<And>c. c \<in># ps_used S \<Longrightarrow> c \<in># B"
    "\<And>c h. (c, Writing h) \<in># ps_flight S \<Longrightarrow> c \<in># B"
  shows "\<not> may_write S (buf_addr b)"
proof
  assume mw: "may_write S (buf_addr b)"
  obtain Ms where bal: "balance (bp_arenas (ps_pool S)) (bp_buddies (ps_pool S)) (bp_min_shift (ps_pool S)) (bp_max_shift (ps_pool S)) Ms (add_mset b B)"
    using bk by (auto simp: pool_books_def books_def)
  have ib: "inside b (buf_addr b)" using buf_ok_inside [OF balanceD(8) [OF bal, of b]] by simp
  have "False" if "c \<in># B" "inside c (buf_addr b)" for c
    using books_apart [of _ _ _ _ b c "B - {#c#}"] bk that ib by (simp add: pool_books_def)
  then have "allocator_owns (bp_buddies (ps_pool S) ! fst (buf_addr b)) (snd (buf_addr b))"
    and i: "fst (buf_addr b) < length (bp_buddies (ps_pool S))"
    using mw out by (auto simp: may_write_def)
  then show False
    using owns_bytes [OF balanceD(4) [OF bal i]] books_inside(2) [OF bal, of b "fst (buf_addr b)" "snd (buf_addr b)"] ib by simp
qed

subsection \<open>Every step keeps it\<close>

lemma outstanding_drop: "buf \<in># ps_used S \<Longrightarrow> outstanding S = add_mset buf (ps_used S - {#buf#} + image_mset fst (ps_flight S))"
  by (simp add: outstanding_def)

lemma outstanding_flight:
  "(buf, ph) \<in># ps_flight S \<Longrightarrow> outstanding S = add_mset buf (ps_used S + image_mset fst (ps_flight S - {#(buf, ph)#}))"
  by (auto simp: outstanding_def dest!: multi_member_split)

lemma in_use_drop:
  "buf \<in># U \<Longrightarrow> \<Sum>\<^sub># (image_mset pb_len U) - pb_len buf = \<Sum>\<^sub># (image_mset pb_len (U - {#buf#}))"
  by (auto dest!: multi_member_split)

lemma step_alloc:
  assumes inv: "pool_inv S st" and al: "pool_alloc (bp_home (ps_pool S)) (ps_pool S) len = Some (Ok (r, p'))"
  shows "\<exists>st'. pool_inv (S \<lparr> ps_pool := p', ps_used := ps_used S + (case r of None \<Rightarrow> {#} | Some buf \<Rightarrow> {#buf#}) \<rparr>) st'"
proof (cases "len \<le> max_class (ps_pool S)")
  case False
  then have "r = None" "p' = ps_pool S" using al by (auto simp: pool_alloc_def)
  then show ?thesis using inv by (auto simp: pool_inv_def outstanding_def)
next
  case True
  note d = pool_invD [OF inv]
  obtain r1 p1 where p1: "pool_alloc (bp_home (ps_pool S)) (ps_pool S) len = Some (Ok (r1, p1))" "bp_returned p1 = None"
    "bp_nodes p1 = bp_nodes (ps_pool S)"
    "case r1 of None \<Rightarrow> bp_in_use p1 = bp_in_use (ps_pool S) \<and> pool_books p1 (outstanding S)
       | Some buf \<Rightarrow> bp_in_use p1 = bp_in_use (ps_pool S) + pb_len buf \<and> pool_books p1 (add_mset buf (outstanding S))"
    by (rule pool_alloc_ok [OF d(1,2) True]) (auto split: option.splits)
  have eqs: "r1 = r" "p1 = p'" using p1(1) al by auto
  have "written p' f" if "f \<in># ps_flight S" for f using d(3) [OF that] p1(3) eqs written_cong by metis
  then have "pool_inv (S \<lparr> ps_pool := p', ps_used := ps_used S + (case r of None \<Rightarrow> {#} | Some buf \<Rightarrow> {#buf#}) \<rparr>) []"
    using p1(2,4) d(4) by (auto simp: pool_inv_def outstanding_def eqs ac_simps split: option.splits)
  then show ?thesis by blast
qed

lemma step_drop_home:
  assumes inv: "pool_inv S st" and buf: "buf \<in># ps_used S" and rel: "release_home (ps_pool S) buf = Ok p'"
  shows "pool_inv (S \<lparr> ps_pool := p', ps_used := ps_used S - {#buf#} \<rparr>) st"
proof -
  let ?p = "ps_pool S" and ?B = "ps_used S - {#buf#} + image_mset fst (ps_flight S) + mset st"
  note d = pool_invD [OF inv]
  have "books (bp_arenas ?p) (bp_buddies ?p) (bp_min_shift ?p) (bp_max_shift ?p) (add_mset buf ?B)"
    using d(1) unfolding pool_books_def outstanding_drop [OF buf] by simp
  then obtain bs where bs: "release_into ?p (bp_buddies ?p) (pb_arena buf) (pb_offset buf) (pb_len buf) = Ok bs"
    "books (bp_arenas ?p) bs (bp_min_shift ?p) (bp_max_shift ?p) ?B" by (rule release_into_books)
  then have "p' = ?p \<lparr> bp_in_use := bp_in_use ?p - pb_len buf, bp_buddies := bs \<rparr>"
    using rel by (simp add: release_home_def release_into_def pool_order_def)
  then show ?thesis
    using d(2,3,4) bs(2) in_use_drop [OF buf] written_cong [of p' ?p] by (auto simp: pool_inv_def pool_books_def outstanding_def)
qed

lemma step_drop_foreign:
  assumes inv: "pool_inv S st" and buf: "buf \<in># ps_used S" and rel: "release_begin (ps_pool S) buf = (p', ph)"
  shows "pool_inv (S \<lparr> ps_pool := p', ps_used := ps_used S - {#buf#}, ps_flight := add_mset (buf, ph) (ps_flight S) \<rparr>) st"
proof -
  note d = pool_invD [OF inv]
  have p': "p' = ps_pool S \<lparr> bp_in_use := bp_in_use (ps_pool S) - pb_len buf \<rparr>" "ph = Writing (bp_returned (ps_pool S))"
    using rel by (auto simp: release_begin_def)
  have "pool_books p' (add_mset buf (ps_used S - {#buf#} + image_mset fst (ps_flight S) + mset st))"
    using d(1) unfolding outstanding_drop [OF buf] by (simp add: p' pool_books_def)
  then show ?thesis
    using d(2-4) in_use_drop [OF buf] written_cong [of p' "ps_pool S"] by (auto simp: pool_inv_def outstanding_def p')
qed

lemma step_write:
  assumes inv: "pool_inv S st" and buf: "(buf, Writing h) \<in># ps_flight S" and wr: "node_write (ps_pool S) buf h = (p', ph)"
  shows "pool_inv (S \<lparr> ps_pool := p', ps_flight := add_mset (buf, ph) (ps_flight S - {#(buf, Writing h)#}) \<rparr>) st"
proof -
  note d = pool_invD [OF inv]
  let ?F = "ps_flight S - {#(buf, Writing h)#}"
  have bk: "pool_books (ps_pool S) (add_mset buf (ps_used S + image_mset fst ?F + mset st))"
    using d(1) outstanding_flight [OF buf] by simp
  have apart: "buf_addr c \<noteq> buf_addr buf" if c: "c \<in># ps_used S + image_mset fst ?F + mset st" for c
  proof
    assume eq: "buf_addr c = buf_addr buf"
    obtain B where B: "ps_used S + image_mset fst ?F + mset st = add_mset c B" using multi_member_split [OF c] by blast
    have "inside buf (buf_addr buf)" "inside c (buf_addr c)"
      using bk balanceD(8) buf_ok_inside unfolding B pool_books_def books_def by (metis union_single_eq_member add_mset_add_single add_mset_commute)+
    then show False using books_apart [of _ _ _ _ buf c B "buf_addr buf"] bk eq unfolding B pool_books_def by simp
  qed
  have p': "p' = ps_pool S \<lparr> bp_nodes := (bp_nodes (ps_pool S))(buf_addr buf := node_of h buf) \<rparr>" "ph = Publishing h"
    using wr by (auto simp: node_write_def)
  have "written p' f" if f: "f \<in># ?F" for f
    using d(3) [of f] apart [of "fst f"] f in_diffD [OF f] by (auto simp: written_def p' split: phase.splits)
  moreover have "linked (bp_nodes p') (bp_returned (ps_pool S)) st"
    using d(2) linked_cong [of st "bp_nodes p'" "bp_nodes (ps_pool S)"] apart by (simp add: p')
  ultimately show ?thesis
    using bk d(4) by (auto simp: pool_inv_def pool_books_def outstanding_def p' written_def)
qed

lemma step_publish:
  assumes inv: "pool_inv S st" and buf: "(buf, Publishing h) \<in># ps_flight S" and pub: "node_publish spurious (ps_pool S) buf h = (p', None)"
  shows "pool_inv (S \<lparr> ps_pool := p', ps_flight := ps_flight S - {#(buf, Publishing h)#} \<rparr>) (buf # st)"
proof -
  note d = pool_invD [OF inv]
  have p': "p' = ps_pool S \<lparr> bp_returned := Some (buf_addr buf) \<rparr>" "bp_returned (ps_pool S) = h"
    using pub by (auto simp: node_publish_def split: if_splits)
  have "bp_nodes (ps_pool S) (buf_addr buf) = node_of h buf" using d(3) [OF buf] by (simp add: written_def)
  then have "linked (bp_nodes p') (bp_returned p') (buf # st)" using d(2) by (simp add: p' node_of_def)
  moreover have "written p' f" if "f \<in># ps_flight S - {#(buf, Publishing h)#}" for f
    using d(3) [OF in_diffD [OF that]] written_cong [of p' "ps_pool S"] by (simp add: p'(1))
  ultimately show ?thesis
    using d(1,4) outstanding_flight [OF buf] by (auto simp: pool_inv_def pool_books_def outstanding_def p'(1))
qed

lemma step_retry:
  assumes inv: "pool_inv S st" and buf: "(buf, Publishing h) \<in># ps_flight S" and pub: "node_publish spurious (ps_pool S) buf h = (p', Some ph)"
  shows "pool_inv (S \<lparr> ps_pool := p', ps_flight := add_mset (buf, ph) (ps_flight S - {#(buf, Publishing h)#}) \<rparr>) st"
proof -
  note d = pool_invD [OF inv]
  have p': "p' = ps_pool S" "ph = Writing (bp_returned (ps_pool S))"
    using pub by (auto simp: node_publish_def split: if_splits)
  have "written p' f" if "f \<in># ps_flight S - {#(buf, Publishing h)#}" for f using d(3) [OF in_diffD [OF that]] by (simp add: p')
  then show ?thesis
    using d(1,2,4) outstanding_flight [OF buf] by (auto simp: pool_inv_def pool_books_def outstanding_def p')
qed

lemma step_memory:
  assumes inv: "pool_inv S st" and nodes: "\<And>a. \<not> may_write S a \<Longrightarrow> nodes a = bp_nodes (ps_pool S) a"
    and links: "\<And>i x. i < length (bp_buddies (ps_pool S)) \<Longrightarrow> on_list (bp_buddies (ps_pool S) ! i) x
        \<Longrightarrow> links i x = bd_links (bp_buddies (ps_pool S) ! i) x"
  shows "pool_inv (S \<lparr> ps_pool := set_memory (ps_pool S) nodes links \<rparr>) st"
proof -
  note d = pool_invD [OF inv]
  have "pool_books (set_memory (ps_pool S) nodes links) (outstanding S + mset st)"
    using books_links [OF d(1) [unfolded pool_books_def], of links] links by (simp add: pool_books_def set_memory_def)
  moreover have "nodes (buf_addr b) = bp_nodes (ps_pool S) (buf_addr b)" if b: "b \<in> set st" for b
  proof -
    obtain T where "mset st = add_mset b T" using b by (metis mset_add set_mset_mset)
    then have "pool_books (ps_pool S) (add_mset b (outstanding S + T))" using d(1) by simp
    then show ?thesis by (intro nodes addr_not_writable [of S b "outstanding S + T"]) (force simp: outstanding_def)+
  qed
  moreover have pub: "nodes (buf_addr b) = bp_nodes (ps_pool S) (buf_addr b)" if b: "(b, Publishing h) \<in># ps_flight S" for b h
  proof -
    let ?B = "ps_used S + image_mset fst (ps_flight S - {#(b, Publishing h)#}) + mset st"
    have "pool_books (ps_pool S) (add_mset b ?B)" using d(1) outstanding_flight [OF b] by simp
    moreover have "c \<in># ?B" if "(c, Writing h') \<in># ps_flight S" for c h'
    proof -
      have "(c, Writing h') \<in># ps_flight S - {#(b, Publishing h)#}" using that by (simp add: in_diff_count)
      then have "c \<in># image_mset fst (ps_flight S - {#(b, Publishing h)#})" by force
      then show ?thesis by simp
    qed
    ultimately show ?thesis by (intro nodes addr_not_writable [of S b ?B]) auto
  qed
  moreover have "written (set_memory (ps_pool S) nodes links) f" if f: "f \<in># ps_flight S" for f
    using d(3) [OF f] f pub by (cases f; cases "snd f") (auto simp: written_def set_memory_def)
  ultimately show ?thesis
    using d(2,4) linked_cong [of st nodes "bp_nodes (ps_pool S)"] by (auto simp: pool_inv_def outstanding_def set_memory_def)
qed

definition geometry :: "buffer_pool \<Rightarrow> arena list \<times> nat \<times> nat \<times> nat" where
  "geometry p = (bp_arenas p, bp_min_shift p, bp_max_shift p, bp_home p)"

lemma pool_step_inv:
  assumes "pool_step S S'" and "pool_inv S st"
  shows "\<exists>st'. pool_inv S' st'"
  using assms
proof (cases rule: pool_step.cases)
  case (alloc len r p')
  then show ?thesis using step_alloc [OF assms(2)] by simp
next
  case (drop_home buf p')
  then show ?thesis using step_drop_home [OF assms(2)] by blast
next
  case (drop_foreign buf p' ph)
  then show ?thesis using step_drop_foreign [OF assms(2)] by blast
next
  case (write_node buf h p' ph)
  then show ?thesis using step_write [OF assms(2)] by blast
next
  case (publish buf h spurious p')
  then show ?thesis using step_publish [OF assms(2)] by blast
next
  case (retry buf h spurious p' ph)
  then show ?thesis using step_retry [OF assms(2)] by blast
next
  case (memory nodes links)
  then show ?thesis using step_memory [OF assms(2)] by blast
qed

lemma pool_step_geometry: "pool_step S S' \<Longrightarrow> geometry (ps_pool S') = geometry (ps_pool S)"
  by (induction rule: pool_step.induct)
    (auto simp: geometry_def pool_alloc_def release_home_def release_begin_def node_write_def node_publish_def set_memory_def
      Let_def rbind_Ok_iff split: if_splits option.splits prod.splits)

end
