(* ===== verification/Pool_Props.thy ===== *)
theory Pool_Props
  imports Pool_Safety
begin

text \<open>
  What the pool guarantees from construction on, in every state its threads can reach: buffers never
  overlap, allocation on the home thread always returns, and it fails only when no free region is left.
\<close>

section \<open>Construction\<close>

lemma PAGE_SIZE_power: "PAGE_SIZE = 2 ^ 12"
  by (simp add: PAGE_SIZE_def)

lemma PAGE_SIZE_shift: "trailing_zeros PAGE_SIZE = 12"
  unfolding PAGE_SIZE_power by (rule trailing_zeros_power)

lemma map_arenas_ok:
  "map_arenas K huge i remaining = Ok as \<Longrightarrow> (\<forall>a \<in> set as. PAGE_SIZE dvd ar_len a \<and> ar_len a < NONE)
     \<and> remaining \<le> sum_list (map ar_len as) \<and> (0 < remaining \<longrightarrow> as \<noteq> [] \<and> min remaining ARENA_MAX \<le> ar_len (hd as))"
proof (induction K huge i remaining arbitrary: as rule: map_arenas.induct)
  case (1 K huge i remaining)
  show ?case
  proof (cases "0 < remaining")
    case True
    let ?len = "min remaining ARENA_MAX"
    obtain a rest where a: "arena_new (K i) ?len huge = Ok a" "map_arenas K huge (Suc i) (remaining - ?len) = Ok rest" "as = a # rest"
      using 1(2) True by (subst (asm) map_arenas.simps) (auto simp: rbind_Ok_iff Let_def)
    note n = arena_new_len [OF a(1)]
    have "ar_len a \<le> 2 * ARENA_MAX + HUGE_PAGE_2M" using n(3) by linarith
    then have "ar_len a < NONE" by (simp add: NONE_def ARENA_MAX_def HUGE_PAGE_2M_def)
    then show ?thesis using 1(1) [OF True refl a(1,2)] n a(3) by auto
  next
    case False
    then show ?thesis using 1(2) by (subst (asm) map_arenas.simps) auto
  qed
qed

definition start :: "buffer_pool \<Rightarrow> pool_sys" where
  "start p = \<lparr> ps_pool = p, ps_used = {#}, ps_flight = {#} \<rparr>"

lemma family_new:
  assumes "lo \<le> hi" and as: "\<forall>a \<in> set as. 2 ^ lo dvd ar_len a \<and> ar_len a < NONE"
    and new: "map (\<lambda>a. buddy_new reserve (ar_len a) lo hi memory) as = map Ok bs"
  shows "family buddy_holds buddy_shape (lo, Suc (hi - lo)) (map ar_len as) bs (map (\<lambda>a. mset_set {0..<ar_len a}) as)"
proof -
  have n: "length bs = length as" using new by (metis length_map)
  have "buddy_holds (ar_len (as ! i)) (bs ! i) (mset_set {0..<ar_len (as ! i)}) \<and> buddy_shape (bs ! i) = (lo, Suc (hi - lo))"
    if i: "i < length as" for i
  proof -
    have eq: "buddy_new reserve (ar_len (as ! i)) lo hi memory = Ok (bs ! i)"
      using arg_cong [OF new, of "\<lambda>l. l ! i"] i n by simp
    have a: "2 ^ lo dvd ar_len (as ! i)" "ar_len (as ! i) < NONE" using as i by auto
    obtain b cs where "buddy_new reserve (ar_len (as ! i)) lo hi memory = Ok b"
      "heap_ok (ar_len (as ! i)) b cs (mset_set {0..<ar_len (as ! i) - ar_len (as ! i) mod 2 ^ lo})"
      "bd_min_shift b = lo" "length (bd_heads b) = hi - lo + 1"
      using buddy_new_ok [OF assms(1) a(2)] by metis
    then show ?thesis using eq a(1) by (auto simp: buddy_holds_def buddy_shape_def)
  qed
  then show ?thesis using n by (auto simp: family_iff intro: unique_bytes_span)
qed

lemma pool_new_ok:
  assumes "pool_new K reserve memory nodes thread opts = Ok p"
  shows "pool_inv (start p) []" "max_class p = po_max_class opts" "po_bytes opts \<le> pool_capacity p" "bp_home p = thread"
    "bp_arenas p \<noteq> []" "max_class p \<le> ar_len (hd (bp_arenas p))" "bp_min_shift p \<le> bp_max_shift p"
proof -
  let ?c = "po_max_class opts"
  let ?total = "align_up (max (po_bytes opts) ?c) ?c"
  have c: "is_power_of_two ?c" "PAGE_SIZE \<le> ?c" "?c \<le> ARENA_MAX" using assms by (auto simp: pool_new_def Let_def split: if_splits)
  define hi where "hi = ilog2 ?c"
  have hi: "?c = 2 ^ hi" using c(1) by (simp add: is_power_of_two_def hi_def)
  note page = PAGE_SIZE_power
  have "(2 :: nat) ^ 12 \<le> 2 ^ hi" using c(2) hi page by metis
  then have lo: "12 \<le> hi" using power_le_imp_le_exp [of "2 :: nat" 12 hi] by simp
  obtain as bs where ab: "map_arenas K (po_huge_pages opts) 0 ?total = Ok as"
    "map (\<lambda>a. buddy_new reserve (ar_len a) 12 hi memory) as = map Ok bs"
    and p: "p = \<lparr> bp_arenas = as, bp_min_shift = 12, bp_max_shift = hi, bp_buddies = bs, bp_home = thread, bp_returned = None, bp_nodes = nodes, bp_in_use = 0 \<rparr>"
    using assms c unfolding pool_new_def PAGE_SIZE_shift Let_def hi trailing_zeros_power
    by (auto simp: rbind_Ok_iff traverse_Ok_iff split: if_splits)
  note m = map_arenas_ok [OF ab(1)]
  have total: "max (po_bytes opts) ?c \<le> ?total" using c(2) by (intro align_up_ge) (simp add: PAGE_SIZE_def)
  have pos: "0 < ?total" using total c(2) by (simp add: PAGE_SIZE_def)
  show "max_class p = ?c" "bp_home p = thread" "bp_min_shift p \<le> bp_max_shift p" using hi lo by (simp_all add: p max_class_def)
  show "po_bytes opts \<le> pool_capacity p" using m total by (simp add: p pool_capacity_def)
  show "bp_arenas p \<noteq> []" using m pos by (simp add: p)
  have "?c \<le> min ?total ARENA_MAX" using total c(3) by simp
  then have "?c \<le> ar_len (hd as)" using m pos by (meson le_trans)
  then show "max_class p \<le> ar_len (hd (bp_arenas p))" using hi by (simp add: p max_class_def)
  have as: "\<forall>a \<in> set as. 2 ^ 12 dvd ar_len a \<and> ar_len a < NONE" using m unfolding page by blast
  have n: "length bs = length as" using ab(2) by (metis length_map)
  have "balance as bs 12 hi (map (\<lambda>a. mset_set {0..<ar_len a}) as) {#}"
    using family_new [OF lo as ab(2)] lo n by (simp add: balance_def)
  then show "pool_inv (start p) []"
    by (auto simp: pool_inv_def pool_books_def start_def outstanding_def books_def p)
qed

section \<open>Reachable states\<close>

definition pool_reach :: "buffer_pool \<Rightarrow> pool_sys \<Rightarrow> bool" where
  "pool_reach p S \<longleftrightarrow> pool_step\<^sup>*\<^sup>* (start p) S"

lemma pool_reach_inv:
  assumes "pool_new K reserve memory nodes thread opts = Ok p" and "pool_reach p S"
  obtains st where "pool_inv S st" "geometry (ps_pool S) = geometry p"
proof -
  have "(\<exists>st. pool_inv S st) \<and> geometry (ps_pool S) = geometry p"
    using assms(2) unfolding pool_reach_def
  proof (induction rule: rtranclp_induct)
    case base
    show ?case using pool_new_ok(1) [OF assms(1)] by (auto simp: start_def)
  next
    case (step T U)
    then show ?case using pool_step_inv pool_step_geometry by metis
  qed
  then show ?thesis using that by blast
qed

definition in_arena :: "buffer_pool \<Rightarrow> pooled_buf \<Rightarrow> bool" where
  "in_arena p b \<longleftrightarrow> pb_arena b < length (bp_arenas p) \<and> pb_offset b + pb_len b \<le> ar_len (bp_arenas p ! pb_arena b)
     \<and> pb_len b dvd pb_offset b \<and> PAGE_SIZE dvd pb_offset b"

text \<open>
  C4: Buffers of the pool never overlap. In every reachable state two different buffers that are in use
  or on their way back share no byte, each lies inside its arena at an offset that is a multiple of its
  length and of the page size, and the counter of bytes in use is the sum of the lengths of the
  buffers in use. States are reached by allocation, by release on the home thread and on others (with
  every interleaving of the lock-free push), and by arbitrary writes of the owners to their buffers.
\<close>

theorem pool_buffers_disjoint:
  assumes "pool_new K reserve memory nodes thread opts = Ok p" and "pool_reach p S"
  shows "(\<forall>b c B a. outstanding S = add_mset b (add_mset c B) \<longrightarrow> \<not> (inside b a \<and> inside c a))
    \<and> (\<forall>b \<in># outstanding S. in_arena p b)
    \<and> bp_in_use (ps_pool S) = \<Sum>\<^sub># (image_mset pb_len (ps_used S))"
proof -
  obtain st where inv: "pool_inv S st" and geo: "geometry (ps_pool S) = geometry p" using pool_reach_inv [OF assms] .
  note d = pool_invD [OF inv]
  have "\<not> (inside b a \<and> inside c a)" if "outstanding S = add_mset b (add_mset c B)" for b c B a
    using d(1) books_apart [of _ _ _ _ b c "B + mset st" a] that by (auto simp: pool_books_def)
  moreover have "in_arena p b" if "b \<in># outstanding S" for b
  proof -
    have "bp_min_shift p = 12" using assms(1) by (auto simp: pool_new_def Let_def rbind_Ok_iff PAGE_SIZE_shift split: if_splits)
    moreover have "buf_ok (bp_arenas p) (bp_min_shift p) (bp_max_shift p) b"
      using d(1) balanceD(8) that geo unfolding pool_books_def books_def geometry_def by (metis prod.inject union_iff)
    ultimately obtain k where k: "pb_arena b < length (bp_arenas p)" "pb_len b = 2 ^ (k + 12)"
      "block_ok (ar_len (bp_arenas p ! pb_arena b)) (k + 12) (pb_offset b)"
      by (auto simp: buf_ok_def)
    then show ?thesis
      using dvd_trans [OF le_imp_power_dvd [of 12 "k + 12" "2 :: nat"], of "pb_offset b"]
      by (simp add: in_arena_def block_ok_def PAGE_SIZE_power del: power_numeral)
  qed
  ultimately show ?thesis using d(4) by blast
qed

lemma reach_alloc:
  assumes "pool_new K reserve memory nodes thread opts = Ok p" and "pool_reach p S" and len: "len \<le> max_class p"
  obtains r p' where "pool_alloc thread (ps_pool S) len = Some (Ok (r, p'))"
    "case r of None \<Rightarrow> \<forall>i < length (bp_arenas p). \<forall>x. class_size p len dvd x \<longrightarrow> x + class_size p len \<le> ar_len (bp_arenas p ! i)
              \<longrightarrow> (\<exists>b \<in># outstanding S. \<exists>a. inside b (i, a) \<and> x \<le> a \<and> a < x + class_size p len)
       | Some buf \<Rightarrow> pb_len buf = class_size p len"
proof -
  obtain st where inv: "pool_inv S st" and geo: "geometry (ps_pool S) = geometry p" using pool_reach_inv [OF assms(1,2)] .
  note d = pool_invD [OF inv] and n = pool_new_ok [OF assms(1)]
  have same: "bp_arenas (ps_pool S) = bp_arenas p" "bp_home (ps_pool S) = thread" "max_class (ps_pool S) = max_class p"
    "class_size (ps_pool S) len = class_size p len"
    using geo n(4) by (auto simp: geometry_def max_class_def class_size_def)
  show ?thesis
    by (rule pool_alloc_ok [OF d(1,2), of len, unfolded same, OF len], rule that, assumption) (auto split: option.splits)
qed

text \<open>
  C16: Allocation on the home thread always returns: in every reachable state it terminates without a
  panic, however many blocks foreign threads have returned. It hands out a buffer of the smallest size
  class that fits, and it returns nothing only for a request above the largest class or when every
  aligned region of that class, in every arena, overlaps a buffer that is still outstanding.
\<close>

theorem pool_alloc_returns:
  assumes "pool_new K reserve memory nodes thread opts = Ok p" and "pool_reach p S"
  shows "\<exists>r p'. pool_alloc thread (ps_pool S) len = Some (Ok (r, p')) \<and>
    (case r of
       Some buf \<Rightarrow> len \<le> pb_len buf \<and> pb_len buf = class_size p len \<and> (\<forall>k. len \<le> 2 ^ k * PAGE_SIZE \<longrightarrow> pb_len buf \<le> 2 ^ k * PAGE_SIZE)
     | None \<Rightarrow> max_class p < len \<or>
         (\<forall>i < length (bp_arenas p). \<forall>x. class_size p len dvd x \<longrightarrow> x + class_size p len \<le> ar_len (bp_arenas p ! i)
            \<longrightarrow> (\<exists>b \<in># outstanding S. \<exists>a. inside b (i, a) \<and> x \<le> a \<and> a < x + class_size p len)))"
proof -
  note n = pool_new_ok [OF assms(1)]
  have lo: "bp_min_shift p = 12" using assms(1) by (auto simp: pool_new_def Let_def rbind_Ok_iff PAGE_SIZE_shift split: if_splits)
  show ?thesis
  proof (cases "len \<le> max_class p")
    case False
    moreover obtain st where "geometry (ps_pool S) = geometry p" using pool_reach_inv [OF assms] .
    ultimately show ?thesis by (simp add: pool_alloc_def geometry_def max_class_def)
  next
    case True
    obtain k where k: "len \<le> class_size p len" "\<And>j. len \<le> 2 ^ (j + 12) \<Longrightarrow> class_size p len \<le> 2 ^ (j + 12)"
      using class_size_order [OF True n(7)] lo by metis
    obtain r p' where r: "pool_alloc thread (ps_pool S) len = Some (Ok (r, p'))"
      "case r of None \<Rightarrow> \<forall>i < length (bp_arenas p). \<forall>x. class_size p len dvd x \<longrightarrow> x + class_size p len \<le> ar_len (bp_arenas p ! i)
              \<longrightarrow> (\<exists>b \<in># outstanding S. \<exists>a. inside b (i, a) \<and> x \<le> a \<and> a < x + class_size p len)
       | Some buf \<Rightarrow> pb_len buf = class_size p len"
      using reach_alloc [OF assms True] .
    show ?thesis
      using r k by (intro exI [of _ r] exI [of _ p']) (auto simp: PAGE_SIZE_power power_add split: option.splits simp del: power_numeral)
  qed
qed

text \<open>
  C25: The pool recovers. Whatever has happened, once no buffer is in use and no release is under way,
  every request up to the largest class is served: nothing has leaked and fragmentation is gone.
\<close>

theorem pool_recovers:
  assumes "pool_new K reserve memory nodes thread opts = Ok p" and "pool_reach p S" and "outstanding S = {#}" and "len \<le> po_max_class opts"
  shows "\<exists>buf p'. pool_alloc thread (ps_pool S) len = Some (Ok (Some buf, p')) \<and> len \<le> pb_len buf"
proof -
  note n = pool_new_ok [OF assms(1)]
  have len: "len \<le> max_class p" using assms(4) n(2) by simp
  have fits: "len \<le> class_size p len" "class_size p len \<le> max_class p"
    using class_size_order [OF len n(7)] n(7) len
    by (metis, metis add.commute le_add_diff_inverse2 max_class_def)
  have free_region: "0 < length (bp_arenas p)" "0 + class_size p len \<le> ar_len (bp_arenas p ! 0)"
    using n(5,6) fits(2) by (auto simp: hd_conv_nth)
  obtain r p' where r: "pool_alloc thread (ps_pool S) len = Some (Ok (r, p'))"
    "case r of None \<Rightarrow> \<forall>i < length (bp_arenas p). \<forall>x. class_size p len dvd x \<longrightarrow> x + class_size p len \<le> ar_len (bp_arenas p ! i)
              \<longrightarrow> (\<exists>b \<in># outstanding S. \<exists>a. inside b (i, a) \<and> x \<le> a \<and> a < x + class_size p len)
       | Some buf \<Rightarrow> pb_len buf = class_size p len"
    using reach_alloc [OF assms(1,2) len] .
  have "r \<noteq> None" using r(2) free_region assms(3) by (cases r) (auto dest!: spec [of _ "0 :: nat"])
  then show ?thesis using r fits(1) by auto
qed

section \<open>An example\<close>

definition sample_new :: "(unit, buffer_pool) res" where
  "sample_new = pool_new (\<lambda>_. \<lparr> kn_mmap = \<lambda>_ _. True, kn_madvise = True \<rparr>) (\<lambda>n. n) (\<lambda>_. (0, 0))
     (\<lambda>_. \<lparr> rt_next = None, rt_arena = 0, rt_offset = 0, rt_len = 0 \<rparr>) 7
     \<lparr> po_bytes = 8192, po_max_class = 8192, po_huge_pages = Disabled \<rparr>"

definition sample_pool :: buffer_pool where
  "sample_pool = \<lparr> bp_arenas = [\<lparr> ar_len = 8192, ar_backing = Plain \<rparr>], bp_min_shift = 12, bp_max_shift = 13,
     bp_buddies = [\<lparr> bd_min_shift = 12, bd_heads = [NONE, 0], bd_parked = [[], []], bd_park_caps = [2048, 1024],
       bd_bitmaps = [[0], [1]], bd_links = (\<lambda>_. (0, 0))(0 := (NONE, NONE)) \<rparr>],
     bp_home = 7, bp_returned = None, bp_nodes = \<lambda>_. \<lparr> rt_next = None, rt_arena = 0, rt_offset = 0, rt_len = 0 \<rparr>, bp_in_use = 0 \<rparr>"

lemmas sample_eval = ilog2.simps trailing_zeros.simps update_bitmap_def bit_index_def set_links_def index_def index_put_def Let_def
  buddy_push_def drop_bit_eq_div

lemma sample_new_eq: "sample_new = Ok sample_pool"
  by (simp add: sample_new_def sample_pool_def pool_new_def PAGE_SIZE_def is_power_of_two_def ARENA_MAX_def align_up_def
    map_arenas.simps arena_new_def map_plain_def buddy_new_def blank_buddy_def seed.simps LAZY_BYTES_PER_ORDER_def sample_eval)

lemma NONE_neq [simp]: "NONE \<noteq> 0" "0 \<noteq> NONE" "NONE \<noteq> 4096" "4096 \<noteq> NONE"
  by (simp_all add: NONE_def)

lemma drain_None [simp]: "drain_returned p bs None = Some (Ok bs)"
  by (subst drain_returned.simps) simp

definition sample_buddy :: "nat list \<Rightarrow> u64 list list \<Rightarrow> buddy" where
  "sample_buddy heads bitmaps = \<lparr> bd_min_shift = 12, bd_heads = heads, bd_parked = [[], []], bd_park_caps = [2048, 1024],
     bd_bitmaps = bitmaps, bd_links = (\<lambda>_. (0, 0))(0 := (NONE, NONE), 4096 := (NONE, NONE)) \<rparr>"

definition sample_pool1 :: buffer_pool where
  "sample_pool1 = sample_pool \<lparr> bp_buddies := [sample_buddy [4096, NONE] [[2], [0]]], bp_in_use := 4096 \<rparr>"

definition sample_pool2 :: buffer_pool where
  "sample_pool2 = sample_pool \<lparr> bp_buddies := [sample_buddy [NONE, NONE] [[0], [0]]], bp_in_use := 8192 \<rparr>"

definition sample_buf :: "nat \<Rightarrow> pooled_buf" where
  "sample_buf x = \<lparr> pb_arena = 0, pb_offset = x, pb_len = 4096 \<rparr>"

lemma sample_class:
  "class_size sample_pool 1 = 4096" "class_size sample_pool1 4096 = 4096" "pool_order sample_pool 4096 = 0" "pool_order sample_pool1 4096 = 0"
  "max_class sample_pool = 8192" "max_class sample_pool1 = 8192"
  by (simp_all add: sample_pool_def sample_pool1_def class_size_def next_power_of_two_def pool_order_def max_class_def ilog2.simps trailing_zeros.simps)

lemma sample_buddy_alloc:
  "buddy_alloc (bp_buddies sample_pool ! 0) 0 = Ok (Some 0, sample_buddy [4096, NONE] [[2], [0]])"
  "buddy_alloc (sample_buddy [4096, NONE] [[2], [0]]) 0 = Ok (Some 4096, sample_buddy [NONE, NONE] [[0], [0]])"
  by (simp_all add: sample_pool_def sample_buddy_def buddy_alloc_def find_head_def take_head_def buddy_unlink_def buddy_size_def sample_eval)

lemma sample_alloc:
  "pool_alloc 7 sample_pool 1 = Some (Ok (Some (sample_buf 0), sample_pool1))"
  "pool_alloc 7 sample_pool1 4096 = Some (Ok (Some (sample_buf 4096), sample_pool2))"
proof -
  have b: "bp_buddies sample_pool = [bp_buddies sample_pool ! 0]" "bp_returned sample_pool = None" "bp_home sample_pool = 7"
    "bp_in_use sample_pool = 0" by (simp_all add: sample_pool_def)
  show "pool_alloc 7 sample_pool 1 = Some (Ok (Some (sample_buf 0), sample_pool1))"
    unfolding pool_alloc_def Let_def sample_class
    by (subst b(1)) (simp add: b(2-4) sample_buddy_alloc sample_pool1_def sample_buf_def)
  show "pool_alloc 7 sample_pool1 4096 = Some (Ok (Some (sample_buf 4096), sample_pool2))"
    unfolding pool_alloc_def Let_def sample_class
    by (simp add: b(2-4) sample_buddy_alloc sample_pool1_def sample_pool2_def sample_buf_def)
qed

definition sample_sys :: pool_sys where
  "sample_sys = \<lparr> ps_pool = sample_pool2, ps_used = {#sample_buf 0, sample_buf 4096#}, ps_flight = {#} \<rparr>"

lemma sample_reach: "pool_reach sample_pool sample_sys"
proof -
  let ?S1 = "\<lparr> ps_pool = sample_pool1, ps_used = {#sample_buf 0#}, ps_flight = {#} \<rparr>"
  have home: "bp_home sample_pool = 7" "bp_home sample_pool1 = 7" by (simp_all add: sample_pool_def sample_pool1_def)
  have "pool_step (start sample_pool) ?S1"
    using pool_step.alloc [of "start sample_pool" 1 "Some (sample_buf 0)" sample_pool1] sample_alloc(1) home by (simp add: start_def)
  moreover have "pool_step ?S1 sample_sys"
    using pool_step.alloc [of ?S1 4096 "Some (sample_buf 4096)" sample_pool2] sample_alloc(2) home by (simp add: sample_sys_def add_mset_commute)
  ultimately show ?thesis by (simp add: pool_reach_def)
qed

lemmas sample_made = sample_new_eq [unfolded sample_new_def]

theorem pool_buffers_disjoint_witness:
  "pool_reach sample_pool sample_sys \<and> outstanding sample_sys = {#sample_buf 0, sample_buf 4096#}
     \<and> \<not> (inside (sample_buf 0) (0, 5000) \<and> inside (sample_buf 4096) (0, 5000)) \<and> bp_in_use (ps_pool sample_sys) = 8192"
proof -
  have out: "outstanding sample_sys = {#sample_buf 0, sample_buf 4096#}" by (simp add: outstanding_def sample_sys_def)
  then show ?thesis
    using pool_buffers_disjoint [OF sample_made sample_reach] sample_reach
    by (simp add: sample_sys_def sample_buf_def)
qed

theorem pool_alloc_returns_witness:
  "pool_reach sample_pool sample_sys \<and> (\<exists>r p'. pool_alloc 7 (ps_pool sample_sys) 100 = Some (Ok (r, p')))"
  using pool_alloc_returns [OF sample_made sample_reach, of 100] sample_reach by blast

theorem pool_recovers_witness:
  "\<exists>buf p'. pool_alloc 7 sample_pool 8192 = Some (Ok (Some buf, p')) \<and> 8192 \<le> pb_len buf"
proof -
  have "pool_reach sample_pool (start sample_pool)" by (simp add: pool_reach_def)
  then show ?thesis
    using pool_recovers [OF sample_made, of "start sample_pool" 8192] by (simp add: start_def outstanding_def)
qed

end
