(* ===== verification/Mem_Policy.thy ===== *)
theory Mem_Policy
  imports Prelude "HOL-Library.Monad_Syntax"
begin

text \<open>
  The replacement policies of the memory cache (\<^verbatim>\<open>moat-cache-memory/src/policy.rs\<close>). The slab of nodes
  is a partial map from indices to nodes; a missing index, an arithmetic underflow and a failed debug
  assertion are panics, and a loop may run forever: both are the outcome \<open>None\<close>. An atomic of the
  source is a field, since a shard is used under its lock; \<open>usize\<close> values are natural numbers.
\<close>

unbundle bit_operations_syntax

section \<open>Configuration\<close>

datatype priority = Normal | High

record lru_config =
  lc_high_priority_percent :: nat

record lfu_config =
  lf_window_percent :: nat
  lf_protected_percent :: nat
  lf_sketch_width :: nat

record s3fifo_config =
  s3_small_percent :: nat
  s3_ghost_entries :: nat

datatype policy = Fifo | Lru lru_config | Lfu lfu_config | S3Fifo s3fifo_config | Sieve

fun validate :: "policy \<Rightarrow> (string, unit) res" where
  "validate (Lru c) =
     (if lc_high_priority_percent c > 100 then Err ''LRU priority percentage exceeds 100'' else Ok ())"
| "validate (Lfu c) =
     (if lf_window_percent c = 0 \<or> lf_protected_percent c = 0 \<or> lf_window_percent c + lf_protected_percent c \<ge> 100
      then Err ''TinyLFU requires positive window/protected percentages summing to less than 100''
      else if \<not> is_power_of_two (lf_sketch_width c) \<or> lf_sketch_width c > 2 ^ 24
      then Err ''TinyLFU sketch width must be a power of two no larger than 2^24'' else Ok ())"
| "validate (S3Fifo c) =
     (if s3_small_percent c = 0 \<or> s3_small_percent c \<ge> 100
      then Err ''S3FIFO small percentage must be between 1 and 99'' else Ok ())"
| "validate Fifo = Ok ()"
| "validate Sieve = Ok ()"

definition lru_default :: lru_config where
  "lru_default = \<lparr> lc_high_priority_percent = 80 \<rparr>"

definition lfu_default :: lfu_config where
  "lfu_default = \<lparr> lf_window_percent = 10, lf_protected_percent = 80, lf_sketch_width = 2048 \<rparr>"

definition s3fifo_default :: s3fifo_config where
  "s3fifo_default = \<lparr> s3_small_percent = 10, s3_ghost_entries = 4096 \<rparr>"

fun mutable_hits :: "policy \<Rightarrow> bool" where
  "mutable_hits (Lru _) = True"
| "mutable_hits (Lfu _) = True"
| "mutable_hits _ = False"

definition portion :: "nat \<Rightarrow> nat \<Rightarrow> nat" where
  "portion capacity percent = capacity div 100 * percent + capacity mod 100 * percent div 100"

section \<open>Nodes and lists\<close>

record ('k, 'v, 'p) mem_record =
  mr_id :: nat
  mr_key :: 'k
  mr_value :: 'v
  mr_properties :: 'p
  mr_hash :: u64
  mr_weight :: nat
  mr_priority :: priority

record ('k, 'v, 'p) mem_node =
  nd_record :: "('k, 'v, 'p) mem_record"
  nd_prev :: "nat option"
  nd_next :: "nat option"
  nd_queue :: "nat option"
  nd_frequency :: nat

type_synonym ('k, 'v, 'p) nodes = "nat \<rightharpoonup> ('k, 'v, 'p) mem_node"

record queue_list =
  ls_head :: "nat option"
  ls_tail :: "nat option"
  ls_weight :: nat

definition checked_sub :: "nat \<Rightarrow> nat \<Rightarrow> nat option" where
  "checked_sub a b = (if b \<le> a then Some (a - b) else None)"

definition nth_opt :: "'a list \<Rightarrow> nat \<Rightarrow> 'a option" where
  "nth_opt xs i = (if i < length xs then Some (xs ! i) else None)"

section \<open>Ghosts\<close>

record ghost =
  gh_queue :: "(u64 \<times> nat) list"
  gh_counts :: "u64 \<rightharpoonup> nat"
  gh_weight :: nat
  gh_capacity :: nat
  gh_limit :: nat

definition ghost_new :: "nat \<Rightarrow> nat \<Rightarrow> ghost" where
  "ghost_new limit capacity = \<lparr> gh_queue = [], gh_counts = Map.empty, gh_weight = 0, gh_capacity = capacity, gh_limit = limit \<rparr>"

definition ghost_contains :: "ghost \<Rightarrow> u64 \<Rightarrow> bool" where
  "ghost_contains g hash \<longleftrightarrow> gh_counts g hash \<noteq> None"

definition ghost_pop :: "ghost \<Rightarrow> ghost option" where
  "ghost_pop g =
     (case gh_queue g of
        [] \<Rightarrow> Some g
      | (hash, weight) # rest \<Rightarrow>
          do { w \<leftarrow> checked_sub (gh_weight g) weight;
               count \<leftarrow> gh_counts g hash;
               count \<leftarrow> checked_sub count 1;
               Some (g \<lparr> gh_queue := rest, gh_weight := w,
                 gh_counts := if count = 0 then (gh_counts g)(hash := None) else (gh_counts g)(hash \<mapsto> count) \<rparr>) })"

partial_function (option) ghost_make_room :: "ghost \<Rightarrow> nat \<Rightarrow> ghost option" where
  "ghost_make_room g weight =
     (if gh_weight g > gh_capacity g - weight \<or> length (gh_queue g) \<ge> gh_limit g
      then do { g \<leftarrow> ghost_pop g; ghost_make_room g weight }
      else Some g)"

definition ghost_push :: "ghost \<Rightarrow> u64 \<Rightarrow> nat \<Rightarrow> ghost option" where
  "ghost_push g hash weight =
     (if gh_limit g = 0 \<or> weight > gh_capacity g then Some g else
      do { g \<leftarrow> ghost_make_room g weight;
           Some (g \<lparr> gh_queue := gh_queue g @ [(hash, weight)],
             gh_counts := (gh_counts g)(hash \<mapsto> (case gh_counts g hash of None \<Rightarrow> 0 | Some n \<Rightarrow> n) + 1),
             gh_weight := gh_weight g + weight \<rparr>) })"

partial_function (option) ghost_trim :: "ghost \<Rightarrow> ghost option" where
  "ghost_trim g =
     (if gh_weight g > gh_capacity g \<or> length (gh_queue g) > gh_limit g
      then do { g \<leftarrow> ghost_pop g; ghost_trim g }
      else Some g)"

section \<open>The frequency sketch\<close>

record sketch =
  sk_counters :: "byte list"
  sk_width :: nat
  sk_samples :: nat

definition sketch_new :: "nat \<Rightarrow> sketch" where
  "sketch_new width = \<lparr> sk_counters = replicate (width * 4) 0, sk_width = width, sk_samples = 0 \<rparr>"

definition sketch_index :: "sketch \<Rightarrow> u64 \<Rightarrow> nat \<Rightarrow> nat" where
  "sketch_index s hash row =
     (let h = hash + of_nat row * 0x9e3779b97f4a7c15;
          h = (h XOR drop_bit 30 h) * 0xbf58476d1ce4e5b9;
          h = (h XOR drop_bit 27 h) * 0x94d049bb133111eb in
      (unat (h XOR drop_bit 31 h) AND (sk_width s - 1)) OR (row * sk_width s))"

definition saturating_inc :: "byte \<Rightarrow> byte" where
  "saturating_inc b = (if b = 255 then 255 else b + 1)"

fun bump_rows :: "sketch \<Rightarrow> u64 \<Rightarrow> nat list \<Rightarrow> byte list \<Rightarrow> byte list option" where
  "bump_rows s hash [] counters = Some counters"
| "bump_rows s hash (row # rows) counters =
     do { c \<leftarrow> nth_opt counters (sketch_index s hash row);
          bump_rows s hash rows (counters[sketch_index s hash row := saturating_inc c]) }"

definition sketch_record :: "sketch \<Rightarrow> u64 \<Rightarrow> sketch option" where
  "sketch_record s hash =
     do { counters \<leftarrow> bump_rows s hash [0..<4] (sk_counters s);
          let samples = sk_samples s + 1;
          Some (if samples \<ge> sk_width s * 10
            then s \<lparr> sk_counters := map (drop_bit 1) counters, sk_samples := samples div 2 \<rparr>
            else s \<lparr> sk_counters := counters, sk_samples := samples \<rparr>) }"

definition sketch_estimate :: "sketch \<Rightarrow> u64 \<Rightarrow> byte option" where
  "sketch_estimate s hash =
     do { a \<leftarrow> nth_opt (sk_counters s) (sketch_index s hash 0);
          b \<leftarrow> nth_opt (sk_counters s) (sketch_index s hash 1);
          c \<leftarrow> nth_opt (sk_counters s) (sketch_index s hash 2);
          d \<leftarrow> nth_opt (sk_counters s) (sketch_index s hash 3);
          Some (min (min (min a b) c) d) }"

section \<open>The state of a policy\<close>

record policy_state =
  st_policy :: policy
  st_lists :: "queue_list list"
  st_capacity :: nat
  st_hand :: "nat option"
  st_ghost :: ghost
  st_sketch :: "sketch option"

definition empty_list :: queue_list where
  "empty_list = \<lparr> ls_head = None, ls_tail = None, ls_weight = 0 \<rparr>"

definition state_new :: "policy \<Rightarrow> nat \<Rightarrow> policy_state" where
  "state_new policy capacity =
     \<lparr> st_policy = policy, st_lists = replicate 3 empty_list, st_capacity = capacity, st_hand = None,
       st_ghost = ghost_new (case policy of S3Fifo c \<Rightarrow> s3_ghost_entries c | _ \<Rightarrow> 0) capacity,
       st_sketch = (case policy of Lfu c \<Rightarrow> Some (sketch_new (lf_sketch_width c)) | _ \<Rightarrow> None) \<rparr>"

type_synonym ('k, 'v, 'p) pstate = "policy_state \<times> ('k, 'v, 'p) nodes"

definition list_of :: "policy_state \<Rightarrow> nat \<Rightarrow> queue_list" where
  "list_of st q = st_lists st ! q"

definition update_node :: "('k, 'v, 'p) nodes \<Rightarrow> nat option \<Rightarrow> (('k, 'v, 'p) mem_node \<Rightarrow> ('k, 'v, 'p) mem_node) \<Rightarrow> ('k, 'v, 'p) nodes option" where
  "update_node nodes at f = (case at of None \<Rightarrow> Some nodes | Some i \<Rightarrow> do { n \<leftarrow> nodes i; Some (nodes(i \<mapsto> f n)) })"

definition state_push :: "nat \<Rightarrow> nat \<Rightarrow> ('k, 'v, 'p) pstate \<Rightarrow> ('k, 'v, 'p) pstate option" where
  "state_push nid queue = (\<lambda>(st, nodes).
     do { n \<leftarrow> nodes nid;
          _ \<leftarrow> (if nd_queue n = None then Some () else None);
          list \<leftarrow> nth_opt (st_lists st) queue;
          nodes \<leftarrow> update_node nodes (ls_tail list) (\<lambda>m. m \<lparr> nd_next := Some nid \<rparr>);
          n \<leftarrow> nodes nid;
          let nodes = nodes(nid \<mapsto> n \<lparr> nd_prev := ls_tail list, nd_next := None, nd_queue := Some queue \<rparr>);
          Some (st \<lparr> st_lists := (st_lists st)[queue :=
                  \<lparr> ls_head = (if ls_tail list = None then Some nid else ls_head list), ls_tail = Some nid,
                    ls_weight = ls_weight list + mr_weight (nd_record n) \<rparr>] \<rparr>, nodes) })"

definition state_remove :: "nat \<Rightarrow> ('k, 'v, 'p) pstate \<Rightarrow> ('k, 'v, 'p) pstate option" where
  "state_remove nid = (\<lambda>(st, nodes).
     do { n \<leftarrow> nodes nid;
          case nd_queue n of
            None \<Rightarrow> Some (st, nodes)
          | Some queue \<Rightarrow>
              do { let st = (if st_hand st = Some nid then st \<lparr> st_hand := nd_next n \<rparr> else st);
                   list \<leftarrow> nth_opt (st_lists st) queue;
                   nodes \<leftarrow> update_node nodes (nd_prev n) (\<lambda>m. m \<lparr> nd_next := nd_next n \<rparr>);
                   nodes \<leftarrow> update_node nodes (nd_next n) (\<lambda>m. m \<lparr> nd_prev := nd_prev n \<rparr>);
                   w \<leftarrow> checked_sub (ls_weight list) (mr_weight (nd_record n));
                   m \<leftarrow> nodes nid;
                   Some (st \<lparr> st_lists := (st_lists st)[queue :=
                           \<lparr> ls_head = (if nd_prev n = None then nd_next n else ls_head list),
                             ls_tail = (if nd_next n = None then nd_prev n else ls_tail list), ls_weight = w \<rparr>] \<rparr>,
                         nodes(nid \<mapsto> m \<lparr> nd_prev := None, nd_next := None, nd_queue := None \<rparr>)) } })"

definition move_to :: "nat \<Rightarrow> nat \<Rightarrow> ('k, 'v, 'p) pstate \<Rightarrow> ('k, 'v, 'p) pstate option" where
  "move_to nid queue s = do { s \<leftarrow> state_remove nid s; state_push nid queue s }"

definition total_weight :: "policy_state \<Rightarrow> nat" where
  "total_weight st = sum_list (map ls_weight (st_lists st))"

partial_function (option) demote :: "nat \<Rightarrow> nat \<Rightarrow> nat \<Rightarrow> ('k, 'v, 'p) pstate \<Rightarrow> ('k, 'v, 'p) pstate option" where
  "demote from to limit s =
     (if ls_weight (list_of (fst s) from) > limit then
        (case ls_head (list_of (fst s) from) of
           None \<Rightarrow> Some s
         | Some nid \<Rightarrow> do { s \<leftarrow> move_to nid to s; demote from to limit s })
      else Some s)"

text \<open>The loop of \<open>insert\<close> that moves the overflow of the admission window while the cache warms up.\<close>

partial_function (option) fill_main :: "nat \<Rightarrow> ('k, 'v, 'p) pstate \<Rightarrow> ('k, 'v, 'p) pstate option" where
  "fill_main window s =
     (if total_weight (fst s) \<le> st_capacity (fst s) \<and> ls_weight (list_of (fst s) 0) > window then
        (case ls_head (list_of (fst s) 0) of
           None \<Rightarrow> Some s
         | Some nid \<Rightarrow> do { s \<leftarrow> move_to nid 1 s; fill_main window s })
      else Some s)"

definition state_insert :: "nat \<Rightarrow> ('k, 'v, 'p) pstate \<Rightarrow> ('k, 'v, 'p) pstate option" where
  "state_insert nid = (\<lambda>(st, nodes).
     do { n \<leftarrow> nodes nid;
          let hash = mr_hash (nd_record n);
          let queue = (case st_policy st of Lru _ \<Rightarrow> 2 | S3Fifo _ \<Rightarrow> (if ghost_contains (st_ghost st) hash then 1 else 0) | _ \<Rightarrow> 0);
          st \<leftarrow> (case st_sketch st of
                   None \<Rightarrow> Some st
                 | Some sk \<Rightarrow> do { sk \<leftarrow> sketch_record sk hash; Some (st \<lparr> st_sketch := Some sk \<rparr>) });
          s \<leftarrow> state_push nid queue (st, nodes);
          case st_policy st of
            Lfu c \<Rightarrow> fill_main (portion (st_capacity st) (lf_window_percent c)) s
          | _ \<Rightarrow> Some s })"

definition access_shared :: "nat \<Rightarrow> ('k, 'v, 'p) pstate \<Rightarrow> ('k, 'v, 'p) pstate option" where
  "access_shared nid = (\<lambda>(st, nodes).
     do { n \<leftarrow> nodes nid;
          case st_policy st of
            Sieve \<Rightarrow> Some (st, nodes(nid \<mapsto> n \<lparr> nd_frequency := 1 \<rparr>))
          | S3Fifo _ \<Rightarrow> Some (st, nodes(nid \<mapsto> n \<lparr> nd_frequency := min (nd_frequency n + 1) 3 \<rparr>))
          | Fifo \<Rightarrow> Some (st, nodes)
          | _ \<Rightarrow> None })"

definition state_access :: "nat \<Rightarrow> ('k, 'v, 'p) pstate \<Rightarrow> ('k, 'v, 'p) pstate option" where
  "state_access nid = (\<lambda>(st, nodes).
     do { n \<leftarrow> nodes nid;
          case st_policy st of
            Lru _ \<Rightarrow> if nd_queue n \<noteq> Some 2 then move_to nid 2 (st, nodes) else Some (st, nodes)
          | Lfu c \<Rightarrow>
              do { sk \<leftarrow> st_sketch st;
                   sk \<leftarrow> sketch_record sk (mr_hash (nd_record n));
                   s \<leftarrow> move_to nid (if nd_queue n = Some 0 then 0 else 2) (st \<lparr> st_sketch := Some sk \<rparr>, nodes);
                   demote 2 1 (portion (st_capacity st) (lf_protected_percent c)) s }
          | _ \<Rightarrow> None })"

definition state_release :: "nat \<Rightarrow> ('k, 'v, 'p) pstate \<Rightarrow> ('k, 'v, 'p) pstate option" where
  "state_release nid = (\<lambda>(st, nodes).
     case st_policy st of
       Lru c \<Rightarrow>
         do { n \<leftarrow> nodes nid;
              if nd_queue n \<noteq> Some 2 then Some (st, nodes) else
              do { s \<leftarrow> move_to nid (if mr_priority (nd_record n) = High then 1 else 0) (st, nodes);
                   demote 1 0 (portion (st_capacity st) (lc_high_priority_percent c)) s } }
     | _ \<Rightarrow> Some (st, nodes))"

section \<open>Choosing a victim\<close>

definition or_else :: "'a option \<Rightarrow> 'a option \<Rightarrow> 'a option" where
  "or_else a b = (case a of None \<Rightarrow> b | Some _ \<Rightarrow> a)"

partial_function (option) sieve_victim :: "('k, 'v, 'p) pstate \<Rightarrow> (nat option \<times> ('k, 'v, 'p) pstate) option" where
  "sieve_victim s =
     (case or_else (st_hand (fst s)) (ls_head (list_of (fst s) 0)) of
        None \<Rightarrow> Some (None, s)
      | Some nid \<Rightarrow>
          do { n \<leftarrow> snd s nid;
               let s' = (fst s \<lparr> st_hand := nd_next n \<rparr>, (snd s)(nid \<mapsto> n \<lparr> nd_frequency := 0 \<rparr>));
               if nd_frequency n = 0 then Some (Some nid, s') else sieve_victim s' })"

definition lfu_victim :: "lfu_config \<Rightarrow> ('k, 'v, 'p) pstate \<Rightarrow> (nat option \<times> ('k, 'v, 'p) pstate) option" where
  "lfu_victim c = (\<lambda>(st, nodes).
     let fallback = Some (or_else (or_else (ls_head (list_of st 1)) (ls_head (list_of st 2))) (ls_head (list_of st 0)), (st, nodes)) in
     if ls_weight (list_of st 0) > portion (st_capacity st) (lf_window_percent c) then
       (case ls_head (list_of st 0) of
          None \<Rightarrow> fallback
        | Some candidate \<Rightarrow>
            (case ls_head (list_of st 1) of
               None \<Rightarrow> Some (Some candidate, (st, nodes))
             | Some victim \<Rightarrow>
                 do { sk \<leftarrow> st_sketch st;
                      cn \<leftarrow> nodes candidate;
                      vn \<leftarrow> nodes victim;
                      a \<leftarrow> sketch_estimate sk (mr_hash (nd_record cn));
                      b \<leftarrow> sketch_estimate sk (mr_hash (nd_record vn));
                      if a > b then do { s \<leftarrow> move_to candidate 1 (st, nodes); Some (Some victim, s) }
                      else Some (Some candidate, (st, nodes)) }))
     else fallback)"

partial_function (option) s3fifo_victim :: "nat \<Rightarrow> ('k, 'v, 'p) pstate \<Rightarrow> (nat option \<times> ('k, 'v, 'p) pstate) option" where
  "s3fifo_victim small s =
     (case (if ls_weight (list_of (fst s) 0) > small \<or> ls_head (list_of (fst s) 1) = None then ls_head (list_of (fst s) 0) else None) of
        Some nid \<Rightarrow>
          do { n \<leftarrow> snd s nid;
               let nodes = (snd s)(nid \<mapsto> n \<lparr> nd_frequency := 0 \<rparr>);
               if nd_frequency n > 1 then do { s \<leftarrow> move_to nid 1 (fst s, nodes); s3fifo_victim small s }
               else do { g \<leftarrow> ghost_push (st_ghost (fst s)) (mr_hash (nd_record n)) (mr_weight (nd_record n));
                         Some (Some nid, (fst s \<lparr> st_ghost := g \<rparr>, nodes)) } }
      | None \<Rightarrow>
          (case ls_head (list_of (fst s) 1) of
             None \<Rightarrow> Some (None, s)
           | Some nid \<Rightarrow>
               do { n \<leftarrow> snd s nid;
                    if nd_frequency n = 0 then Some (Some nid, s) else
                    do { s \<leftarrow> move_to nid 1 (fst s, (snd s)(nid \<mapsto> n \<lparr> nd_frequency := nd_frequency n - 1 \<rparr>));
                         s3fifo_victim small s } }))"

definition state_victim :: "('k, 'v, 'p) pstate \<Rightarrow> (nat option \<times> ('k, 'v, 'p) pstate) option" where
  "state_victim s =
     (case st_policy (fst s) of
        Fifo \<Rightarrow> Some (ls_head (list_of (fst s) 0), s)
      | Lru _ \<Rightarrow> Some (or_else (ls_head (list_of (fst s) 0)) (ls_head (list_of (fst s) 1)), s)
      | Sieve \<Rightarrow> sieve_victim s
      | Lfu c \<Rightarrow> lfu_victim c s
      | S3Fifo c \<Rightarrow> s3fifo_victim (portion (st_capacity (fst s)) (s3_small_percent c)) s)"

section \<open>Resizing and clearing\<close>

definition state_resize :: "nat \<Rightarrow> ('k, 'v, 'p) pstate \<Rightarrow> ('k, 'v, 'p) pstate option" where
  "state_resize capacity = (\<lambda>(st, nodes).
     do { g \<leftarrow> ghost_trim (st_ghost st \<lparr> gh_capacity := capacity \<rparr>);
          let st = st \<lparr> st_capacity := capacity, st_ghost := g \<rparr>;
          case st_policy st of
            Lru c \<Rightarrow> demote 1 0 (portion capacity (lc_high_priority_percent c)) (st, nodes)
          | Lfu c \<Rightarrow> demote 2 1 (portion capacity (lf_protected_percent c)) (st, nodes)
          | _ \<Rightarrow> Some (st, nodes) })"

definition clear_history :: "policy_state \<Rightarrow> policy_state" where
  "clear_history st = st \<lparr> st_hand := None,
     st_ghost := st_ghost st \<lparr> gh_queue := [], gh_counts := Map.empty, gh_weight := 0 \<rparr>,
     st_sketch := map_option (\<lambda>sk. sk \<lparr> sk_counters := map (\<lambda>_. 0) (sk_counters sk), sk_samples := 0 \<rparr>) (st_sketch st) \<rparr>"

end
