(* ===== verification/Mem_Queues.thy ===== *)
theory Mem_Queues
  imports Mem_Policy "HOL-Library.Multiset"
begin

text \<open>
  The intrusive queues of a policy represent lists of slab indices: \<open>queues st nodes qs\<close>. Pushing
  appends to a list, removing deletes from it, and neither panics; records and hit counters stay.
\<close>

section \<open>Doubly linked segments\<close>

definition front :: "nat list \<Rightarrow> nat option \<Rightarrow> nat option" where
  "front xs t = (case xs of [] \<Rightarrow> t | x # _ \<Rightarrow> Some x)"

definition rear :: "nat option \<Rightarrow> nat list \<Rightarrow> nat option" where
  "rear p xs = (if xs = [] then p else Some (last xs))"

lemma front_simps [simp]: "front [] t = t" "front (x # xs) t = Some x" "front (xs @ ys) t = front xs (front ys t)"
  by (simp_all add: front_def split: list.split)

lemma rear_simps [simp]: "rear p [] = p" "rear p (x # xs) = rear (Some x) xs" "rear p (xs @ ys) = rear (rear p xs) ys" "rear p (xs @ [x]) = Some x"
  by (auto simp: rear_def)

lemma front_None [simp]: "front xs None = None \<longleftrightarrow> xs = []"
  by (cases xs) auto

lemma rear_None [simp]: "rear None xs = None \<longleftrightarrow> xs = []" "rear (Some a) xs \<noteq> None"
  by (simp_all add: rear_def)

lemma front_mem: "front xs None = Some x \<Longrightarrow> x \<in> set xs"
  by (cases xs) auto

lemma rear_mem: "rear None xs = Some x \<Longrightarrow> x \<in> set xs"
  by (auto simp: rear_def split: if_splits)

fun dll :: "('k, 'v, 'p) nodes \<Rightarrow> nat \<Rightarrow> nat option \<Rightarrow> nat list \<Rightarrow> nat option \<Rightarrow> bool" where
  "dll m q p [] t \<longleftrightarrow> True"
| "dll m q p (x # xs) t \<longleftrightarrow>
     (\<exists>n. m x = Some n \<and> nd_prev n = p \<and> nd_queue n = Some q \<and> nd_next n = front xs t \<and> dll m q (Some x) xs t)"

lemma dll_append: "dll m q p (xs @ ys) t \<longleftrightarrow> dll m q p xs (front ys t) \<and> dll m q (rear p xs) ys t"
  by (induction xs arbitrary: p) auto

lemma dll_frame: "(\<And>x. x \<in> set xs \<Longrightarrow> m' x = m x) \<Longrightarrow> dll m' q p xs t \<longleftrightarrow> dll m q p xs t"
  by (induction xs arbitrary: p) auto

lemma dll_node: "dll m q p xs t \<Longrightarrow> x \<in> set xs \<Longrightarrow> \<exists>n. m x = Some n \<and> nd_queue n = Some q"
  by (induction xs arbitrary: p) auto

lemma dll_at:
  assumes "dll m q None (xs @ x # ys) None"
  obtains n where "m x = Some n" "nd_prev n = rear None xs" "nd_next n = front ys None" "nd_queue n = Some q"
  using assms by (auto simp: dll_append)

text \<open>Changing the successor of the last node, and the predecessor of the first.\<close>

lemma dll_set_next:
  assumes "dll m q p xs t" and "distinct xs"
  shows "\<exists>m'. update_node m (rear None xs) (\<lambda>n. n \<lparr> nd_next := t' \<rparr>) = Some m' \<and> dll m' q p xs t'
    \<and> (\<forall>z. z \<notin> set xs \<longrightarrow> m' z = m z)"
proof (cases xs rule: rev_cases)
  case Nil
  then show ?thesis by (simp add: update_node_def)
next
  case (snoc zs a)
  then obtain n where n: "m a = Some n" "nd_prev n = rear p zs" "nd_queue n = Some q" and zs: "dll m q p zs (Some a)"
    using assms(1) by (auto simp: dll_append)
  have "dll (m(a \<mapsto> n\<lparr>nd_next := t'\<rparr>)) q p zs (Some a)" using zs assms(2) snoc by (subst dll_frame) auto
  then show ?thesis using n snoc by (auto simp: update_node_def dll_append)
qed

lemma dll_set_prev:
  assumes "dll m q p ys None" and "distinct ys"
  shows "\<exists>m'. update_node m (front ys None) (\<lambda>n. n \<lparr> nd_prev := p' \<rparr>) = Some m' \<and> dll m' q p' ys None
    \<and> (\<forall>z. z \<notin> set ys \<longrightarrow> m' z = m z)"
proof (cases ys)
  case Nil
  then show ?thesis by (simp add: update_node_def)
next
  case (Cons y zs)
  then obtain n where n: "m y = Some n" "nd_queue n = Some q" "nd_next n = front zs None" and zs: "dll m q (Some y) zs None"
    using assms(1) by auto
  have "dll (m(y \<mapsto> n\<lparr>nd_prev := p'\<rparr>)) q (Some y) zs None" using zs assms(2) Cons by (subst dll_frame) auto
  then show ?thesis using n Cons by (auto simp: update_node_def)
qed

section \<open>What linking leaves alone\<close>

definition content :: "('k, 'v, 'p) nodes \<Rightarrow> nat \<Rightarrow> (('k, 'v, 'p) mem_record \<times> nat) option" where
  "content m x = map_option (\<lambda>n. (nd_record n, nd_frequency n)) (m x)"

definition config :: "policy_state \<Rightarrow> policy \<times> nat \<times> ghost \<times> sketch option" where
  "config st = (st_policy st, st_capacity st, st_ghost st, st_sketch st)"

definition wt :: "('k, 'v, 'p) nodes \<Rightarrow> nat \<Rightarrow> nat" where
  "wt m x = (case content m x of None \<Rightarrow> 0 | Some (r, _) \<Rightarrow> mr_weight r)"

lemma content_update:
  assumes "update_node m at f = Some m'" and "\<And>n. nd_record (f n) = nd_record n" and "\<And>n. nd_frequency (f n) = nd_frequency n"
  shows "content m' = content m"
  using assms by (auto simp: update_node_def content_def bind_eq_Some_conv split: option.splits intro!: ext)

lemma wt_cong: "content m' = content m \<Longrightarrow> wt m' = wt m"
  by (simp add: wt_def fun_eq_iff)

lemma wt_Some [simp]: "m x = Some n \<Longrightarrow> wt m x = mr_weight (nd_record n)"
  by (simp add: wt_def content_def)

lemma content_None: "content m x = None \<longleftrightarrow> m x = None"
  by (simp add: content_def)

lemma content_dom: "content m' = content m \<Longrightarrow> dom m' = dom m"
  by (simp add: dom_def flip: content_None)

section \<open>The representation\<close>

definition queue_ok :: "('k, 'v, 'p) nodes \<Rightarrow> nat \<Rightarrow> queue_list \<Rightarrow> nat list \<Rightarrow> bool" where
  "queue_ok m q l xs \<longleftrightarrow> dll m q None xs None \<and> ls_head l = front xs None \<and> ls_tail l = rear None xs
     \<and> ls_weight l = sum_list (map (wt m) xs)"

definition queues :: "policy_state \<Rightarrow> ('k, 'v, 'p) nodes \<Rightarrow> nat list list \<Rightarrow> bool" where
  "queues st m qs \<longleftrightarrow> length qs = 3 \<and> length (st_lists st) = 3 \<and> distinct (concat qs)
     \<and> (\<forall>q < 3. queue_ok m q (st_lists st ! q) (qs ! q))
     \<and> (\<forall>x n. m x = Some n \<longrightarrow> x \<notin> set (concat qs) \<longrightarrow> nd_queue n = None)
     \<and> (\<forall>h. st_hand st = Some h \<longrightarrow> h \<in> set (qs ! 0))"

lemma queuesD:
  assumes "queues st m qs"
  shows "length qs = 3" "length (st_lists st) = 3" "distinct (concat qs)" "q < 3 \<Longrightarrow> queue_ok m q (st_lists st ! q) (qs ! q)"
    "m x = Some n \<Longrightarrow> x \<notin> set (concat qs) \<Longrightarrow> nd_queue n = None" "st_hand st = Some h \<Longrightarrow> h \<in> set (qs ! 0)"
  using assms by (auto simp: queues_def)

lemma concat_split: "k < length cs \<Longrightarrow> concat cs = concat (take k cs) @ cs ! k @ concat (drop (Suc k) cs)"
  by (metis append.assoc concat.simps(2) concat_append id_take_nth_drop)

lemma concat_upd: "k < length cs \<Longrightarrow> concat (cs[k := c]) = concat (take k cs) @ c @ concat (drop (Suc k) cs)"
  by (simp add: upd_conv_take_nth_drop)

lemma lists_apart:
  assumes "distinct (concat cs)" and "i < length cs" and "j < length cs" and "i \<noteq> j"
  shows "set (cs ! i) \<inter> set (cs ! j) = {}"
proof (cases "i < j")
  case True
  have "cs ! i \<in> set (take j cs)" using True assms(2,3) by (metis in_set_conv_nth length_take min_less_iff_conj nth_take)
  then show ?thesis using assms(1) concat_split [OF assms(3)] by auto
next
  case False
  then have "j < i" using assms(4) by simp
  then have "cs ! j \<in> set (take i cs)" using assms(2,3) by (metis in_set_conv_nth length_take min_less_iff_conj nth_take)
  then show ?thesis using assms(1) concat_split [OF assms(2)] by auto
qed

lemma queues_update:
  assumes qs: "queues st m qs" and q: "q < 3" and eqs: "st_lists st' = (st_lists st)[q := l]"
    and ok: "queue_ok m' q l xs" and con: "content m' = content m" and frame: "\<And>z. z \<notin> set (qs ! q) \<Longrightarrow> z \<notin> set xs \<Longrightarrow> z \<noteq> x \<Longrightarrow> m' z = m z"
    and x: "\<And>n. x \<notin> set xs \<Longrightarrow> m' x = Some n \<Longrightarrow> nd_queue n = None" "x \<in> set (qs ! q) \<or> x \<in> set xs"
    and out: "set (qs ! q) \<subseteq> insert x (set xs)" "distinct (concat (qs[q := xs]))"
    and hand: "\<And>h. st_hand st' = Some h \<Longrightarrow> h \<in> set ((qs[q := xs]) ! 0)"
  shows "queues st' m' (qs[q := xs])"
proof -
  note d = queuesD [OF qs]
  have cat: "set (concat (qs[q := xs])) = (set (concat qs) - set (qs ! q)) \<union> set xs"
    using d(1,3) q unfolding concat_upd [of q qs xs, unfolded d(1), OF q] concat_split [of q qs, unfolded d(1), OF q] by auto
  have "queue_ok m' j (st_lists st' ! j) (qs[q := xs] ! j)" if j: "j < 3" for j
  proof (cases "j = q")
    case True
    then show ?thesis using ok q d(1,2) by (simp add: eqs)
  next
    case False
    have "set (qs ! j) \<inter> set (qs ! q) = {}" using lists_apart [OF d(3)] j q False d(1) by simp
    moreover have "set (qs ! j) \<inter> set xs = {}" using lists_apart [OF out(2), of j q] j q False d(1) by simp
    ultimately have "dll m' j None (qs ! j) None \<longleftrightarrow> dll m j None (qs ! j) None" using x(2) by (intro dll_frame frame) auto
    then show ?thesis using d(4) [OF j] False wt_cong [OF con] by (simp add: eqs queue_ok_def)
  qed
  moreover have "nd_queue n = None" if "m' z = Some n" "z \<notin> set (concat (qs[q := xs]))" for z n
  proof (cases "z = x")
    case False
    then have "z \<notin> set (qs ! q)" "z \<notin> set xs" using that(2) out(1) cat by auto
    then show ?thesis using d(5) [of z n] that frame [of z] False cat by auto
  qed (use x(1) that cat in auto)
  ultimately show ?thesis using d(1,2) out(2) hand by (simp add: queues_def eqs)
qed

section \<open>Pushing and removing\<close>

lemma content_relink:
  assumes "m x = Some n"
  shows "content (m(x \<mapsto> n \<lparr> nd_prev := p, nd_next := t, nd_queue := q \<rparr>)) = content m"
  using assms by (auto simp: content_def intro!: ext)

lemma push_queues:
  assumes qs: "queues st m qs" and q: "q < 3" and x: "m x = Some n" "x \<notin> set (concat qs)"
  obtains st' m' where "state_push x q (st, m) = Some (st', m')" "queues st' m' (qs[q := qs ! q @ [x]])" "content m' = content m"
    "config st' = config st" "st_hand st = None \<longrightarrow> st_hand st' = None"
proof -
  let ?l = "st_lists st ! q" and ?xs = "qs ! q"
  note d = queuesD [OF qs]
  have ok: "queue_ok m q ?l ?xs" using d(4) [OF q] .
  have nin: "x \<notin> set ?xs" "distinct ?xs" "nth_opt (st_lists st) q = Some ?l" "nd_queue n = None"
    using x d(1-3,5) q concat_split [of q qs] by (auto simp: nth_opt_def)
  obtain m1 where m1: "update_node m (rear None ?xs) (\<lambda>k. k \<lparr> nd_next := Some x \<rparr>) = Some m1" "dll m1 q None ?xs (Some x)"
    "\<forall>z. z \<notin> set ?xs \<longrightarrow> m1 z = m z"
    using dll_set_next [of m q None ?xs None "Some x"] ok nin by (auto simp: queue_ok_def)
  have c1: "content m1 = content m" using content_update [OF m1(1)] by simp
  let ?n = "n \<lparr> nd_prev := rear None ?xs, nd_next := None, nd_queue := Some q \<rparr>"
  define m' where "m' = m1(x \<mapsto> ?n)"
  define st' where "st' = st \<lparr> st_lists := (st_lists st)[q := \<lparr> ls_head = (if ls_tail ?l = None then Some x else ls_head ?l),
     ls_tail = Some x, ls_weight = ls_weight ?l + mr_weight (nd_record n) \<rparr>] \<rparr>"
  have m1x: "m1 x = Some n" using m1(3) nin(1) x(1) by simp
  have push: "state_push x q (st, m) = Some (st', m')"
    using x(1) nin m1(1) m1x ok by (simp add: state_push_def st'_def m'_def queue_ok_def Let_def)
  have c: "content m' = content m" using content_relink [of m1 x n, OF m1x] c1 by (simp add: m'_def)
  have "dll m' q None ?xs (Some x)" using m1(2) nin(1) by (subst dll_frame [of ?xs m' m1]) (auto simp: m'_def)
  then have "dll m' q None (?xs @ [x]) None" by (simp add: dll_append m'_def)
  moreover have "wt m' x = mr_weight (nd_record n)" using wt_cong [OF c] x(1) by simp
  ultimately have okx: "queue_ok m' q (st_lists st' ! q) (?xs @ [x])"
    using ok q d(2) wt_cong [OF c] by (cases ?xs) (auto simp: queue_ok_def st'_def)
  have "queues st' m' (qs[q := ?xs @ [x]])"
  proof (rule queues_update [OF qs q _ okx c, of st' x])
    show "distinct (concat (qs[q := ?xs @ [x]]))"
      using d(1,3) q x(2) unfolding concat_upd [of q qs, unfolded d(1), OF q] concat_split [of q qs, unfolded d(1), OF q] by auto
    show "h \<in> set (qs[q := ?xs @ [x]] ! 0)" if "st_hand st' = Some h" for h
      using d(1,6) that by (cases "q = 0") (auto simp: st'_def)
  qed (use m1(3) q d(2) in \<open>auto simp: m'_def st'_def\<close>)
  then show ?thesis using that push c by (simp add: st'_def config_def)
qed

lemma remove_queues:
  assumes qs: "queues st m qs" and q: "q < 3" and split: "qs ! q = xs @ x # ys"
  obtains st' m' where "state_remove x (st, m) = Some (st', m')" "queues st' m' (qs[q := xs @ ys])" "content m' = content m"
    "config st' = config st" "st_hand st = None \<longrightarrow> st_hand st' = None"
proof -
  let ?l = "st_lists st ! q"
  note d = queuesD [OF qs]
  have ok: "queue_ok m q ?l (xs @ x # ys)" using d(4) [OF q] split by simp
  have dist: "distinct (xs @ x # ys)" using d(1,3) q concat_split [of q qs] split by auto
  obtain n where n: "m x = Some n" "nd_prev n = rear None xs" "nd_next n = front ys None" "nd_queue n = Some q"
    using ok dll_at [of m q xs x ys] by (auto simp: queue_ok_def)
  have segs: "dll m q None xs (Some x)" "dll m q (Some x) ys None" using ok by (auto simp: queue_ok_def dll_append)
  obtain m1 where m1: "update_node m (rear None xs) (\<lambda>k. k \<lparr> nd_next := front ys None \<rparr>) = Some m1" "dll m1 q None xs (front ys None)"
    "\<forall>z. z \<notin> set xs \<longrightarrow> m1 z = m z"
    using dll_set_next [OF segs(1), of "front ys None"] dist by auto
  have "dll m1 q (Some x) ys None" using segs(2) m1(3) dist by (subst dll_frame [of ys m1 m]) auto
  then obtain m2 where m2: "update_node m1 (front ys None) (\<lambda>k. k \<lparr> nd_prev := rear None xs \<rparr>) = Some m2" "dll m2 q (rear None xs) ys None"
    "\<forall>z. z \<notin> set ys \<longrightarrow> m2 z = m1 z"
    using dll_set_prev dist by (metis distinct_append distinct.simps(2))
  have m2x: "m2 x = Some n" using m1(3) m2(3) n(1) dist by simp
  define m' where "m' = m2(x \<mapsto> n \<lparr> nd_prev := None, nd_next := None, nd_queue := None \<rparr>)"
  have c: "content m' = content m"
    using content_relink [of m2 x n, OF m2x] content_update [OF m1(1)] content_update [OF m2(1)] by (simp add: m'_def)
  define l where "l = \<lparr> ls_head = (if rear None xs = None then front ys None else ls_head ?l),
     ls_tail = (if front ys None = None then rear None xs else ls_tail ?l), ls_weight = ls_weight ?l - mr_weight (nd_record n) \<rparr>"
  define st' where "st' = (if st_hand st = Some x then st \<lparr> st_hand := front ys None \<rparr> else st) \<lparr> st_lists := (st_lists st)[q := l] \<rparr>"
  have le: "mr_weight (nd_record n) \<le> ls_weight ?l" using ok n(1) by (simp add: queue_ok_def)
  have rem: "state_remove x (st, m) = Some (st', m')"
    using n m1(1) m2(1) m2x q d(2) le
    by (auto simp: state_remove_def st'_def m'_def l_def nth_opt_def checked_sub_def Let_def)
  have fr: "dll m' q p zs t \<longleftrightarrow> dll m2 q p zs t" if "x \<notin> set zs" for p zs t using that by (intro dll_frame) (auto simp: m'_def)
  have "dll m2 q None xs (front ys None)" using m1(2) m2(3) dist by (subst dll_frame [of xs m2 m1]) auto
  then have okx: "queue_ok m' q l (xs @ ys)"
    using m2(2) fr dist ok n(1) wt_cong [OF c] by (auto simp: queue_ok_def l_def dll_append) (cases xs; cases ys; auto)+
  have "queues st' m' (qs[q := xs @ ys])"
  proof (rule queues_update [OF qs q _ okx c, of st' x])
    show "distinct (concat (qs[q := xs @ ys]))"
      using d(1,3) q split unfolding concat_upd [of q qs, unfolded d(1), OF q] concat_split [of q qs, unfolded d(1), OF q] by auto
    show "h \<in> set (qs[q := xs @ ys] ! 0)" if "st_hand st' = Some h" for h
    proof (cases "st_hand st = Some x")
      case True
      then have "x \<in> set (qs ! 0)" using d(6) by simp
      then have "q = 0" using lists_apart [OF d(3), of q 0] q d(1) split by auto
      then show ?thesis using that True front_mem [of ys h] d(1) by (auto simp: st'_def)
    next
      case False
      then have "h \<in> set (qs ! 0)" "h \<noteq> x" using that d(6) by (auto simp: st'_def)
      then show ?thesis using split d(1) by (cases "q = 0") auto
    qed
  qed (use m1(3) m2(3) dist split in \<open>auto simp: m'_def st'_def\<close>)
  then show ?thesis using that rem c by (simp add: st'_def config_def)
qed

section \<open>Moving\<close>

lemma in_queue:
  assumes "queues st m qs" and "x \<in> set (concat qs)"
  obtains q xs ys n where "q < 3" "qs ! q = xs @ x # ys" "m x = Some n" "nd_queue n = Some q"
proof -
  obtain q where q: "q < 3" "x \<in> set (qs ! q)" using assms(2) queuesD(1) [OF assms(1)] by (metis UN_E in_set_conv_nth set_concat)
  then obtain xs ys where "qs ! q = xs @ x # ys" by (meson split_list)
  then show ?thesis using that q queuesD(4) [OF assms(1) q(1)] dll_node [of m q None "qs ! q" None x] by (auto simp: queue_ok_def)
qed

lemma mset_concat_update:
  assumes "q < length qs" and "mset c + A = mset (qs ! q) + B"
  shows "mset (concat (qs[q := c])) + A = mset (concat qs) + B"
  unfolding concat_upd [OF assms(1)] concat_split [OF assms(1)] using assms(2) by (simp add: add.assoc)

lemma move_queues:
  assumes qs: "queues st m qs" and q: "q < 3" "qs ! q = xs @ x # ys" and r: "r < 3"
  obtains st' m' qs' where "move_to x r (st, m) = Some (st', m')" "queues st' m' qs'" "content m' = content m"
    "config st' = config st" "qs' = (qs[q := xs @ ys])[r := (qs[q := xs @ ys]) ! r @ [x]]" "mset (concat qs') = mset (concat qs)"
    "st_hand st = None \<longrightarrow> st_hand st' = None"
proof -
  note d = queuesD [OF qs]
  obtain st1 m1 where s1: "state_remove x (st, m) = Some (st1, m1)" "queues st1 m1 (qs[q := xs @ ys])" "content m1 = content m"
    "config st1 = config st" "st_hand st = None \<longrightarrow> st_hand st1 = None" using remove_queues [OF qs q] .
  have x: "x \<in> dom m" using queuesD(4) [OF qs q(1)] q(2) dll_node [of m q None "qs ! q" None x] by (auto simp: queue_ok_def)
  then obtain n where n: "m1 x = Some n" using content_dom [OF s1(3)] by auto
  have m: "mset (concat (qs[q := xs @ ys])) + {#x#} = mset (concat qs)"
    using mset_concat_update [of q qs "xs @ ys" "{#x#}" "{#}"] q d(1) by simp
  have nin: "x \<notin> set (concat (qs[q := xs @ ys]))"
    using d(1,3) q unfolding concat_upd [of q qs, unfolded d(1), OF q(1)] concat_split [of q qs, unfolded d(1), OF q(1)] by auto
  obtain st2 m2 where s2: "state_push x r (st1, m1) = Some (st2, m2)"
    "queues st2 m2 ((qs[q := xs @ ys])[r := (qs[q := xs @ ys]) ! r @ [x]])" "content m2 = content m1" "config st2 = config st1"
    "st_hand st1 = None \<longrightarrow> st_hand st2 = None"
    using push_queues [OF s1(2) r n nin] .
  have "mset (concat ((qs[q := xs @ ys])[r := (qs[q := xs @ ys]) ! r @ [x]])) = mset (concat qs)"
    using mset_concat_update [of r "qs[q := xs @ ys]" "(qs[q := xs @ ys]) ! r @ [x]" "{#}" "{#x#}"] r d(1) m by simp
  then show ?thesis using that s1 s2 by (simp add: move_to_def)
qed

lemma move_head:
  assumes qs: "queues st m qs" and q: "q < 3" and head: "ls_head (list_of st q) = Some x" and r: "r < 3"
  obtains ys st' m' qs' where "qs ! q = x # ys" "move_to x r (st, m) = Some (st', m')" "queues st' m' qs'" "content m' = content m"
    "config st' = config st" "qs' = (qs[q := ys])[r := (qs[q := ys]) ! r @ [x]]" "mset (concat qs') = mset (concat qs)"
    "st_hand st = None \<longrightarrow> st_hand st' = None"
proof -
  have "front (qs ! q) None = Some x" using queuesD(4) [OF qs q] head by (simp add: queue_ok_def list_of_def)
  then obtain ys where "qs ! q = [] @ x # ys" by (cases "qs ! q") auto
  then show ?thesis using move_queues [OF qs q, of "[]" x ys r] r that by (metis append_Nil)
qed

end
