(* ===== verification/Mem_History.thy ===== *)
theory Mem_History
  imports Mem_Policy
begin

text \<open>
  The nonresident history of the policies: the ghost queue of S3FIFO stays within its two bounds and
  drops only its oldest records, and the sketch of TinyLFU never underestimates.
\<close>

section \<open>Ghosts\<close>

fun tally :: "(u64 \<times> nat) list \<Rightarrow> u64 \<Rightarrow> nat" where
  "tally [] h = 0"
| "tally (e # q) h = (if fst e = h then 1 else 0) + tally q h"

lemma tally_append [simp]: "tally (p @ q) h = tally p h + tally q h"
  by (induction p) auto

lemma tally_pos: "0 < tally q h \<longleftrightarrow> h \<in> fst ` set q"
  by (induction q) auto

definition ghost_books :: "ghost \<Rightarrow> bool" where
  "ghost_books g \<longleftrightarrow> gh_weight g = sum_list (map snd (gh_queue g))
     \<and> gh_counts g = (\<lambda>h. if tally (gh_queue g) h = 0 then None else Some (tally (gh_queue g) h))"

definition ghost_fits :: "nat \<Rightarrow> nat \<Rightarrow> (u64 \<times> nat) list \<Rightarrow> bool" where
  "ghost_fits capacity limit q \<longleftrightarrow> sum_list (map snd q) \<le> capacity \<and> length q \<le> limit"

definition ghost_ok :: "ghost \<Rightarrow> bool" where
  "ghost_ok g \<longleftrightarrow> ghost_books g \<and> ghost_fits (gh_capacity g) (gh_limit g) (gh_queue g)"

lemma ghost_ok_new [simp]: "ghost_ok (ghost_new limit capacity)"
  by (simp add: ghost_ok_def ghost_books_def ghost_fits_def ghost_new_def fun_eq_iff)

lemma ghost_contains_iff: "ghost_books g \<Longrightarrow> ghost_contains g h \<longleftrightarrow> h \<in> fst ` set (gh_queue g)"
  by (simp add: ghost_books_def ghost_contains_def flip: tally_pos)

lemma ghost_pop_books:
  assumes "ghost_books g"
  obtains g' where "ghost_pop g = Some g'" "ghost_books g'" "gh_queue g' = tl (gh_queue g)"
    "gh_capacity g' = gh_capacity g" "gh_limit g' = gh_limit g"
proof (cases "gh_queue g")
  case Nil
  then show ?thesis using that [of g] assms by (simp add: ghost_pop_def)
next
  case (Cons e rest)
  obtain h w where e: "e = (h, w)" by (cases e)
  let ?c = "tally rest h"
  have counts: "gh_counts g h = Some (Suc ?c)" and wt: "gh_weight g = w + sum_list (map snd rest)"
    using assms Cons e by (simp_all add: ghost_books_def)
  define g' where "g' = g \<lparr> gh_queue := rest, gh_weight := sum_list (map snd rest),
    gh_counts := if ?c = 0 then (gh_counts g)(h := None) else (gh_counts g)(h \<mapsto> ?c) \<rparr>"
  have "ghost_pop g = Some g'" using Cons e counts wt by (simp add: ghost_pop_def checked_sub_def g'_def)
  moreover have "ghost_books g'"
    using assms Cons e by (auto simp: ghost_books_def g'_def fun_eq_iff)
  ultimately show ?thesis using that Cons by (simp add: g'_def)
qed

text \<open>What a popping loop reaches: the longest suffix that satisfies its exit condition.\<close>

definition popped :: "ghost \<Rightarrow> nat \<Rightarrow> ghost \<Rightarrow> bool" where
  "popped g k g' \<longleftrightarrow> ghost_books g' \<and> gh_queue g' = drop k (gh_queue g) \<and> gh_capacity g' = gh_capacity g \<and> gh_limit g' = gh_limit g"

lemma popped_step: "popped g 0 g" if "ghost_books g"
  using that by (simp add: popped_def)

lemma ghost_make_room_ok:
  assumes "ghost_books g" and "weight \<le> gh_capacity g" and "0 < gh_limit g"
  shows "\<exists>k g'. ghost_make_room g weight = Some g' \<and> popped g k g' \<and> ghost_fits (gh_capacity g) (gh_limit g) (gh_queue g' @ [(h, weight)])
    \<and> (\<forall>j < k. \<not> ghost_fits (gh_capacity g) (gh_limit g) (drop j (gh_queue g) @ [(h, weight)]))"
  using assms
proof (induction "length (gh_queue g)" arbitrary: g)
  case 0
  then have "\<not> (gh_weight g > gh_capacity g - weight \<or> length (gh_queue g) \<ge> gh_limit g)" by (auto simp: ghost_books_def)
  then show ?case using 0 by (subst ghost_make_room.simps) (auto simp: popped_def ghost_fits_def ghost_books_def)
next
  case (Suc n)
  have fits: "gh_weight g > gh_capacity g - weight \<or> length (gh_queue g) \<ge> gh_limit g
    \<longleftrightarrow> \<not> ghost_fits (gh_capacity g) (gh_limit g) (gh_queue g @ [(h, weight)])"
    using Suc(3,4) by (auto simp: ghost_fits_def ghost_books_def)
  show ?case
  proof (cases "ghost_fits (gh_capacity g) (gh_limit g) (gh_queue g @ [(h, weight)])")
    case True
    then show ?thesis using Suc(3) fits by (subst ghost_make_room.simps) (auto simp: popped_def intro: exI [of _ 0])
  next
    case False
    obtain g1 where g1: "ghost_pop g = Some g1" "ghost_books g1" "gh_queue g1 = tl (gh_queue g)" "gh_capacity g1 = gh_capacity g" "gh_limit g1 = gh_limit g"
      using ghost_pop_books [OF Suc(3)] .
    obtain k g' where k: "ghost_make_room g1 weight = Some g'" "popped g1 k g'" "ghost_fits (gh_capacity g1) (gh_limit g1) (gh_queue g' @ [(h, weight)])"
      "\<forall>j < k. \<not> ghost_fits (gh_capacity g1) (gh_limit g1) (drop j (gh_queue g1) @ [(h, weight)])"
      using Suc(1) [of g1] Suc(2) [symmetric] Suc(4,5) g1 by auto
    have "popped g (Suc k) g'" using k(2) g1 by (simp add: popped_def drop_Suc)
    moreover have "\<not> ghost_fits (gh_capacity g) (gh_limit g) (drop j (gh_queue g) @ [(h, weight)])" if "j < Suc k" for j
      using that k(4) g1 False by (cases j) (auto simp: drop_Suc)
    ultimately show ?thesis
      using k(1,3) g1 False fits by (subst ghost_make_room.simps) (auto intro!: exI [of _ "Suc k"])
  qed
qed

lemma ghost_trim_ok:
  assumes "ghost_books g"
  shows "\<exists>k g'. ghost_trim g = Some g' \<and> popped g k g' \<and> ghost_ok g'"
  using assms
proof (induction "length (gh_queue g)" arbitrary: g)
  case 0
  then show ?case by (subst ghost_trim.simps) (auto simp: popped_def ghost_ok_def ghost_fits_def ghost_books_def)
next
  case (Suc n)
  show ?case
  proof (cases "ghost_ok g")
    case True
    then show ?thesis by (subst ghost_trim.simps) (auto simp: popped_def ghost_ok_def ghost_fits_def ghost_books_def intro: exI [of _ 0])
  next
    case False
    obtain g1 where g1: "ghost_pop g = Some g1" "ghost_books g1" "gh_queue g1 = tl (gh_queue g)" "gh_capacity g1 = gh_capacity g" "gh_limit g1 = gh_limit g"
      using ghost_pop_books [OF Suc(3)] .
    obtain k g' where k: "ghost_trim g1 = Some g'" "popped g1 k g'" "ghost_ok g'" using Suc(1) [of g1] Suc(2) [symmetric] g1 by auto
    have "popped g (Suc k) g'" using k(2) g1 by (simp add: popped_def drop_Suc)
    moreover have "gh_weight g > gh_capacity g \<or> length (gh_queue g) > gh_limit g"
      using False Suc(3) by (auto simp: ghost_ok_def ghost_fits_def ghost_books_def)
    ultimately show ?thesis using k(1,3) g1 by (subst ghost_trim.simps) auto
  qed
qed

lemma ghost_push_ok:
  assumes "ghost_ok g" and "0 < gh_limit g" and "weight \<le> gh_capacity g"
  obtains g' k where "ghost_push g h weight = Some g'" "ghost_ok g'" "gh_queue g' = drop k (gh_queue g) @ [(h, weight)]"
    "gh_capacity g' = gh_capacity g" "gh_limit g' = gh_limit g"
    "\<And>j. j < k \<Longrightarrow> \<not> ghost_fits (gh_capacity g) (gh_limit g) (drop j (gh_queue g) @ [(h, weight)])"
proof -
  have books: "ghost_books g" using assms(1) by (simp add: ghost_ok_def)
  obtain k g1 where k: "ghost_make_room g weight = Some g1" "popped g k g1" "ghost_fits (gh_capacity g) (gh_limit g) (gh_queue g1 @ [(h, weight)])"
    "\<forall>j < k. \<not> ghost_fits (gh_capacity g) (gh_limit g) (drop j (gh_queue g) @ [(h, weight)])"
    using ghost_make_room_ok [OF books assms(3,2), of h] by blast
  define g' where "g' = g1 \<lparr> gh_queue := gh_queue g1 @ [(h, weight)],
    gh_counts := (gh_counts g1)(h \<mapsto> (case gh_counts g1 h of None \<Rightarrow> 0 | Some n \<Rightarrow> n) + 1), gh_weight := gh_weight g1 + weight \<rparr>"
  have "ghost_push g h weight = Some g'" using k(1) assms(2,3) by (simp add: ghost_push_def g'_def)
  moreover have "ghost_books g'"
    using k(2) by (auto simp: popped_def ghost_books_def g'_def fun_eq_iff)
  ultimately show ?thesis
    using that [of g' k] k(2-4) by (simp add: popped_def ghost_ok_def g'_def)
qed

lemma ghost_push_total:
  assumes "ghost_ok g"
  obtains g' where "ghost_push g h weight = Some g'" "ghost_ok g'" "gh_capacity g' = gh_capacity g" "gh_limit g' = gh_limit g"
proof (cases "gh_limit g = 0 \<or> weight > gh_capacity g")
  case True
  then show ?thesis using that [of g] assms by (simp add: ghost_push_def)
next
  case False
  then show ?thesis using ghost_push_ok [OF assms, of weight h] that by auto
qed

section \<open>The frequency sketch\<close>

definition sketch_ok :: "sketch \<Rightarrow> bool" where
  "sketch_ok s \<longleftrightarrow> is_power_of_two (sk_width s) \<and> length (sk_counters s) = sk_width s * 4"

lemma sketch_ok_new [simp]: "is_power_of_two w \<Longrightarrow> sketch_ok (sketch_new w)"
  by (simp add: sketch_ok_def sketch_new_def)

lemma or_row: "((a :: nat) AND (2 ^ k - 1)) OR (row * 2 ^ k) = a mod 2 ^ k + row * 2 ^ k"
proof -
  have "a AND (2 ^ k - 1) = take_bit k a" by (metis and.commute mask_eq_exp_minus_1 take_bit_eq_mask and.commute)
  moreover have "row * 2 ^ k = push_bit k row" by (simp add: push_bit_eq_mult)
  moreover have "take_bit k a OR push_bit k row = take_bit k a + push_bit k row"
    by (rule disjunctive_add_eq_or [symmetric]) (auto intro!: bit_eqI simp: bit_simps)
  ultimately show ?thesis by (simp add: take_bit_eq_mod)
qed

lemma sketch_index_row:
  assumes "is_power_of_two (sk_width s)"
  shows "row * sk_width s \<le> sketch_index s h row" "sketch_index s h row < Suc row * sk_width s"
proof -
  obtain k where "sk_width s = 2 ^ k" using assms by (auto simp: is_power_of_two_iff)
  then have "\<exists>a. sketch_index s h row = a mod sk_width s + row * sk_width s"
    using or_row by (auto simp: sketch_index_def Let_def)
  moreover have "0 < sk_width s" using assms by (simp add: is_power_of_two_def)
  ultimately show "row * sk_width s \<le> sketch_index s h row" "sketch_index s h row < Suc row * sk_width s"
    by auto
qed

lemma sketch_index_bound:
  assumes "sketch_ok s" and "row < 4"
  shows "sketch_index s h row < length (sk_counters s)"
proof -
  have "sketch_index s h row < Suc row * sk_width s" using sketch_index_row assms(1) by (simp add: sketch_ok_def)
  also have "\<dots> \<le> 4 * sk_width s" using assms(2) by (intro mult_le_mono1) simp
  finally show ?thesis using assms(1) by (simp add: sketch_ok_def mult.commute)
qed

lemma sketch_index_cong: "sk_width s' = sk_width s \<Longrightarrow> sketch_index s' = sketch_index s"
  by (intro ext) (simp add: sketch_index_def)

lemma byte_less: "unat (b :: byte) \<le> 255"
  using unsigned_less [of b, where 'a = nat] by simp

lemma unat_saturating_inc: "unat (saturating_inc b) = min 255 (Suc (unat b))"
proof -
  have "unat b \<le> 255" by (rule byte_less)
  moreover have "b = 255 \<longleftrightarrow> unat b = 255" by (simp add: word_unat_eq_iff)
  ultimately show ?thesis by (auto simp: saturating_inc_def unat_word_ariths)
qed

lemma saturating_inc_ge: "unat b \<le> unat (saturating_inc b)"
  using byte_less [of b] unfolding unat_saturating_inc by linarith

text \<open>Counters at least as high as another vector of counters.\<close>

definition above :: "byte list \<Rightarrow> byte list \<Rightarrow> bool" where
  "above cs ds \<longleftrightarrow> length cs = length ds \<and> (\<forall>i < length ds. unat (ds ! i) \<le> unat (cs ! i))"

lemma bump_rows_ok:
  assumes "\<And>row. row \<in> set rows \<Longrightarrow> sketch_index s h row < length cs"
  shows "\<exists>ds. bump_rows s h rows cs = Some ds \<and> above ds cs
    \<and> (\<forall>row \<in> set rows. min 255 (Suc (unat (cs ! sketch_index s h row))) \<le> unat (ds ! sketch_index s h row))"
  using assms
proof (induction rows arbitrary: cs)
  case Nil
  then show ?case by (simp add: above_def)
next
  case (Cons row rows)
  let ?i = "sketch_index s h row"
  let ?cs = "cs[?i := saturating_inc (cs ! ?i)]"
  have i: "?i < length cs" using Cons(2) by simp
  have up: "above ?cs cs" using i by (auto simp: above_def nth_list_update saturating_inc_ge)
  obtain ds where ds: "bump_rows s h rows ?cs = Some ds" "above ds ?cs"
    "\<forall>row \<in> set rows. min 255 (Suc (unat (?cs ! sketch_index s h row))) \<le> unat (ds ! sketch_index s h row)"
    using Cons(1) [of ?cs] Cons(2) by auto
  have "min 255 (Suc (unat (cs ! ?i))) \<le> unat (ds ! ?i)"
    using ds(2) i unat_saturating_inc [of "cs ! ?i"] by (auto simp: above_def)
  moreover have "min 255 (Suc (unat (cs ! sketch_index s h r))) \<le> unat (ds ! sketch_index s h r)" if "r \<in> set rows" for r
  proof -
    have "unat (cs ! sketch_index s h r) \<le> unat (?cs ! sketch_index s h r)" using up Cons(2) [of r] that by (simp add: above_def)
    then show ?thesis using ds(3) that by (meson Suc_le_mono le_trans min.mono order_refl)
  qed
  ultimately show ?case
    using ds(1,2) up i by (auto simp: nth_opt_def above_def intro: le_trans)
qed

lemma sketch_record_ok:
  assumes "sketch_ok s"
  obtains s' where "sketch_record s h = Some s'" "sketch_ok s'" "sk_width s' = sk_width s"
    "Suc (sk_samples s) < sk_width s * 10 \<Longrightarrow> sk_samples s' = Suc (sk_samples s) \<and> above (sk_counters s') (sk_counters s)
       \<and> (\<forall>row < 4. min 255 (Suc (unat (sk_counters s ! sketch_index s h row))) \<le> unat (sk_counters s' ! sketch_index s h row))"
proof -
  obtain ds where ds: "bump_rows s h [0..<4] (sk_counters s) = Some ds" "above ds (sk_counters s)"
    "\<forall>row < 4. min 255 (Suc (unat (sk_counters s ! sketch_index s h row))) \<le> unat (ds ! sketch_index s h row)"
    using bump_rows_ok [of "[0..<4]" s h "sk_counters s"] sketch_index_bound [OF assms] by (auto simp del: upt_Suc)
  define s' where "s' = (if Suc (sk_samples s) \<ge> sk_width s * 10
     then s \<lparr> sk_counters := map (drop_bit 1) ds, sk_samples := Suc (sk_samples s) div 2 \<rparr>
     else s \<lparr> sk_counters := ds, sk_samples := Suc (sk_samples s) \<rparr>)"
  have "sketch_record s h = Some s'" using ds(1) by (simp add: sketch_record_def s'_def Let_def del: upt_Suc)
  moreover have "sketch_ok s'" using assms ds(2) by (auto simp: sketch_ok_def s'_def above_def)
  ultimately show ?thesis using that [of s'] ds(2,3) by (auto simp: s'_def)
qed

lemma sketch_estimate_ok:
  assumes "sketch_ok s"
  obtains e where "sketch_estimate s h = Some e" "\<And>b. (\<And>row. row < 4 \<Longrightarrow> b \<le> unat (sk_counters s ! sketch_index s h row)) \<Longrightarrow> b \<le> unat e"
proof -
  let ?c = "\<lambda>row. sk_counters s ! sketch_index s h row"
  have "nth_opt (sk_counters s) (sketch_index s h row) = Some (?c row)" if "row < 4" for row
    using sketch_index_bound [OF assms that] by (simp add: nth_opt_def)
  then have "sketch_estimate s h = Some (min (min (min (?c 0) (?c 1)) (?c 2)) (?c 3))" by (simp add: sketch_estimate_def)
  moreover have "b \<le> unat (min (min (min (?c 0) (?c 1)) (?c 2)) (?c 3))" if "\<And>row. row < 4 \<Longrightarrow> b \<le> unat (?c row)" for b
    using that [of 0] that [of 1] that [of 2] that [of 3] by (simp add: min_def)
  ultimately show ?thesis using that by blast
qed

fun record_all :: "sketch \<Rightarrow> u64 list \<Rightarrow> sketch option" where
  "record_all s [] = Some s"
| "record_all s (h # hs) = do { s \<leftarrow> sketch_record s h; record_all s hs }"

lemma record_all_counts:
  "sketch_ok s \<Longrightarrow> sk_samples s + length hs < sk_width s * 10 \<Longrightarrow>
   \<exists>s'. record_all s hs = Some s' \<and> sketch_ok s' \<and> sk_width s' = sk_width s \<and>
     (\<forall>row < 4. min 255 (unat (sk_counters s ! sketch_index s g row) + count_list hs g) \<le> unat (sk_counters s' ! sketch_index s g row))"
proof (induction hs arbitrary: s)
  case Nil
  then show ?case by simp
next
  case (Cons h hs)
  obtain s1 where s1: "sketch_record s h = Some s1" "sketch_ok s1" "sk_width s1 = sk_width s"
    "sk_samples s1 = Suc (sk_samples s)" "above (sk_counters s1) (sk_counters s)"
    "\<forall>row < 4. min 255 (Suc (unat (sk_counters s ! sketch_index s h row))) \<le> unat (sk_counters s1 ! sketch_index s h row)"
    using sketch_record_ok [OF Cons(2), of h] Cons(3) by auto
  obtain s' where s': "record_all s1 hs = Some s'" "sketch_ok s'" "sk_width s' = sk_width s1"
    "\<forall>row < 4. min 255 (unat (sk_counters s1 ! sketch_index s1 g row) + count_list hs g) \<le> unat (sk_counters s' ! sketch_index s1 g row)"
    using Cons(1) [OF s1(2)] s1(3,4) Cons(3) by auto
  have "min 255 (unat (sk_counters s ! sketch_index s g row) + count_list (h # hs) g) \<le> unat (sk_counters s' ! sketch_index s g row)"
    if row: "row < 4" for row
  proof -
    have "unat (sk_counters s ! sketch_index s g row) \<le> unat (sk_counters s1 ! sketch_index s g row)"
      using s1(5) sketch_index_bound [OF Cons(2) row] by (simp add: above_def)
    then have "min 255 (unat (sk_counters s ! sketch_index s g row) + (if h = g then 1 else 0)) \<le> unat (sk_counters s1 ! sketch_index s g row)"
      using s1(6) row by (cases "h = g") auto
    moreover have "min 255 (unat (sk_counters s1 ! sketch_index s g row) + count_list hs g) \<le> unat (sk_counters s' ! sketch_index s g row)"
      using s'(4) row sketch_index_cong [OF s1(3)] by simp
    ultimately have "min 255 (unat (sk_counters s ! sketch_index s g row) + (if h = g then 1 else 0) + count_list hs g)
      \<le> unat (sk_counters s' ! sketch_index s g row)" by linarith
    then show ?thesis by (cases "h = g") simp_all
  qed
  then show ?case using s1 s' by auto
qed



text \<open>
  C40: The ghost queue of S3FIFO is the longest recent history that fits. Recording a ghost returns, keeps
  the counters of the fingerprints exact and both bounds, and drops the fewest oldest records
  that make room for the new one; fingerprints that are too heavy, or a zero limit, change nothing.
\<close>

theorem ghost_push_exact:
  assumes "ghost_ok g"
  shows "\<exists>g'. ghost_push g h w = Some g' \<and> ghost_ok g' \<and> gh_capacity g' = gh_capacity g \<and> gh_limit g' = gh_limit g
    \<and> (if gh_limit g = 0 \<or> gh_capacity g < w then g' = g
       else ghost_contains g' h \<and> (\<exists>k. gh_queue g' = drop k (gh_queue g) @ [(h, w)]
         \<and> (\<forall>j < k. \<not> ghost_fits (gh_capacity g) (gh_limit g) (drop j (gh_queue g) @ [(h, w)]))))"
proof (cases "gh_limit g = 0 \<or> gh_capacity g < w")
  case True
  then show ?thesis using assms by (simp add: ghost_push_def)
next
  case False
  obtain g' k where g': "ghost_push g h w = Some g'" "ghost_ok g'" "gh_queue g' = drop k (gh_queue g) @ [(h, w)]"
    "gh_capacity g' = gh_capacity g" "gh_limit g' = gh_limit g"
    "\<And>j. j < k \<Longrightarrow> \<not> ghost_fits (gh_capacity g) (gh_limit g) (drop j (gh_queue g) @ [(h, w)])"
    using ghost_push_ok [OF assms, of w h] False by auto
  have "ghost_contains g' h" using ghost_contains_iff g'(2,3) by (simp add: ghost_ok_def)
  then show ?thesis using g' False by auto
qed

theorem ghost_push_exact_witness:
  "\<exists>g'. ghost_push (ghost_new 2 10) 5 3 = Some g' \<and> ghost_ok g' \<and> ghost_contains g' 5"
proof -
  have "\<not> (gh_limit (ghost_new 2 10) = 0 \<or> gh_capacity (ghost_new 2 10) < 3)" by (simp add: ghost_new_def)
  then show ?thesis using ghost_push_exact [OF ghost_ok_new, of 2 10 5 3] by auto
qed

end
