(* ===== verification/Mem_Victim.thy ===== *)
theory Mem_Victim
  imports Mem_Queues Mem_History
begin

text \<open>
  The loops of the replacement policies end: moving overflow between queues, and the search for a
  victim under each policy. The invariant \<open>state_ok\<close> collects what the policies rely on.
\<close>

section \<open>Rearranging queues\<close>

definition arranged ::
  "policy_state \<Rightarrow> ('k, 'v, 'p) nodes \<Rightarrow> nat list list \<Rightarrow> policy_state \<Rightarrow> ('k, 'v, 'p) nodes \<Rightarrow> nat list list \<Rightarrow> bool" where
  "arranged st m qs st' m' qs' \<longleftrightarrow> queues st' m' qs' \<and> content m' = content m \<and> config st' = config st
     \<and> mset (concat qs') = mset (concat qs) \<and> (st_hand st = None \<longrightarrow> st_hand st' = None)"

lemma arranged_refl: "queues st m qs \<Longrightarrow> arranged st m qs st m qs"
  by (simp add: arranged_def)

lemma arranged_trans: "arranged st m qs st1 m1 qs1 \<Longrightarrow> arranged st1 m1 qs1 st2 m2 qs2 \<Longrightarrow> arranged st m qs st2 m2 qs2"
  by (simp add: arranged_def)

lemma three: "(j :: nat) < 3 \<longleftrightarrow> j = 0 \<or> j = 1 \<or> j = 2"
  by auto

lemma move_head_arranged:
  assumes "queues st m qs" and "q < 3" and "ls_head (list_of st q) = Some x" and "r < 3" and "q \<noteq> r"
  obtains st' m' qs' where "move_to x r (st, m) = Some (st', m')" "arranged st m qs st' m' qs'"
    "length (qs' ! q) < length (qs ! q)" "\<forall>j < 3. j \<noteq> q \<longrightarrow> j \<noteq> r \<longrightarrow> qs' ! j = qs ! j" "qs ! q = x # qs' ! q" "qs' ! r = qs ! r @ [x]"
proof -
  obtain ys st' m' qs' where mv: "qs ! q = x # ys" "move_to x r (st, m) = Some (st', m')" "queues st' m' qs'" "content m' = content m"
    "config st' = config st" "qs' = (qs[q := ys])[r := (qs[q := ys]) ! r @ [x]]" "mset (concat qs') = mset (concat qs)"
    "st_hand st = None \<longrightarrow> st_hand st' = None"
    using move_head [OF assms(1-4)] .
  then show ?thesis
    using that [of st' m' qs'] assms(2,4,5) queuesD(1) [OF assms(1)] by (simp add: arranged_def)
qed

lemma demote_ok:
  assumes "from < 3" and "to < 3" and "from \<noteq> to"
  shows "queues st m qs \<Longrightarrow> \<exists>st' m' qs'. demote from to limit (st, m) = Some (st', m') \<and> arranged st m qs st' m' qs'
    \<and> (\<forall>j < 3. j \<noteq> from \<longrightarrow> j \<noteq> to \<longrightarrow> qs' ! j = qs ! j)"
proof (induction "length (qs ! from)" arbitrary: st m qs rule: less_induct)
  case less
  show ?case
  proof (cases "ls_weight (list_of st from) > limit \<and> ls_head (list_of st from) \<noteq> None")
    case False
    then show ?thesis using arranged_refl [OF less(2)] by (subst demote.simps) (auto split: option.splits)
  next
    case True
    then obtain x where x: "ls_head (list_of st from) = Some x" by auto
    obtain st1 m1 qs1 where s1: "move_to x to (st, m) = Some (st1, m1)" "arranged st m qs st1 m1 qs1"
      "length (qs1 ! from) < length (qs ! from)" "\<forall>j < 3. j \<noteq> from \<longrightarrow> j \<noteq> to \<longrightarrow> qs1 ! j = qs ! j"
      using move_head_arranged [OF less(2) assms(1) x assms(2,3)] by metis
    have "queues st1 m1 qs1" using s1(2) by (simp add: arranged_def)
    then obtain st2 m2 qs2 where s2: "demote from to limit (st1, m1) = Some (st2, m2)" "arranged st1 m1 qs1 st2 m2 qs2"
      "\<forall>j < 3. j \<noteq> from \<longrightarrow> j \<noteq> to \<longrightarrow> qs2 ! j = qs1 ! j"
      using less(1) [OF s1(3)] by blast
    have "demote from to limit (st, m) = Some (st2, m2)" using True x s1(1) s2(1) by (subst demote.simps) simp
    then show ?thesis using arranged_trans [OF s1(2) s2(2)] s1(4) s2(3) by auto
  qed
qed

lemma fill_main_ok:
  "queues st m qs \<Longrightarrow> \<exists>st' m' qs'. fill_main window (st, m) = Some (st', m') \<and> arranged st m qs st' m' qs'"
proof (induction "length (qs ! 0)" arbitrary: st m qs rule: less_induct)
  case less
  show ?case
  proof (cases "total_weight st \<le> st_capacity st \<and> ls_weight (list_of st 0) > window \<and> ls_head (list_of st 0) \<noteq> None")
    case False
    then show ?thesis using arranged_refl [OF less(2)] by (subst fill_main.simps) (auto split: option.splits)
  next
    case True
    then obtain x where x: "ls_head (list_of st 0) = Some x" by auto
    obtain st1 m1 qs1 where s1: "move_to x 1 (st, m) = Some (st1, m1)" "arranged st m qs st1 m1 qs1" "length (qs1 ! 0) < length (qs ! 0)"
      using move_head_arranged [OF less(2) _ x, of 1] by (metis One_nat_def less_numeral_extra(1) zero_less_numeral one_less_numeral_iff semiring_norm(77) zero_neq_one)
    have "queues st1 m1 qs1" using s1(2) by (simp add: arranged_def)
    then obtain st2 m2 qs2 where s2: "fill_main window (st1, m1) = Some (st2, m2)" "arranged st1 m1 qs1 st2 m2 qs2"
      using less(1) [OF s1(3)] by blast
    have "fill_main window (st, m) = Some (st2, m2)" using True x s1(1) s2(1) by (subst fill_main.simps) simp
    then show ?thesis using arranged_trans [OF s1(2) s2(2)] by auto
  qed
qed

section \<open>The invariant of a policy\<close>

fun shape_ok :: "policy \<Rightarrow> nat list list \<Rightarrow> bool" where
  "shape_ok Fifo qs \<longleftrightarrow> qs ! 1 = [] \<and> qs ! 2 = []"
| "shape_ok Sieve qs \<longleftrightarrow> qs ! 1 = [] \<and> qs ! 2 = []"
| "shape_ok (S3Fifo c) qs \<longleftrightarrow> qs ! 2 = []"
| "shape_ok _ qs \<longleftrightarrow> True"

fun sketch_fits :: "policy \<Rightarrow> sketch option \<Rightarrow> bool" where
  "sketch_fits (Lfu c) sk \<longleftrightarrow> (\<exists>s. sk = Some s \<and> sketch_ok s)"
| "sketch_fits _ sk \<longleftrightarrow> sk = None"

definition state_ok :: "policy_state \<Rightarrow> ('k, 'v, 'p) nodes \<Rightarrow> nat list list \<Rightarrow> bool" where
  "state_ok st m qs \<longleftrightarrow> queues st m qs \<and> ghost_ok (st_ghost st) \<and> sketch_fits (st_policy st) (st_sketch st)
     \<and> shape_ok (st_policy st) qs \<and> (st_policy st \<noteq> Sieve \<longrightarrow> st_hand st = None)"

lemma state_okD:
  assumes "state_ok st m qs"
  shows "queues st m qs" "ghost_ok (st_ghost st)" "sketch_fits (st_policy st) (st_sketch st)" "shape_ok (st_policy st) qs"
    "st_policy st \<noteq> Sieve \<Longrightarrow> st_hand st = None"
  using assms by (auto simp: state_ok_def)

lemma state_ok_arranged:
  assumes "state_ok st m qs" and "arranged st m qs st' m' qs'" and "shape_ok (st_policy st) qs'"
  shows "state_ok st' m' qs'"
  using assms by (auto simp: state_ok_def arranged_def config_def)

text \<open>Changing a hit counter and the hand.\<close>

definition recs :: "('k, 'v, 'p) nodes \<Rightarrow> nat \<Rightarrow> ('k, 'v, 'p) mem_record option" where
  "recs m x = map_option nd_record (m x)"

definition freq :: "('k, 'v, 'p) nodes \<Rightarrow> nat \<Rightarrow> nat" where
  "freq m x = (case m x of None \<Rightarrow> 0 | Some n \<Rightarrow> nd_frequency n)"

lemma recs_alt: "recs m = (\<lambda>x. map_option fst (content m x))"
  by (intro ext) (simp add: recs_def content_def option.map_comp comp_def)

lemma recs_content: "content m' = content m \<Longrightarrow> recs m' = recs m"
  by (simp add: recs_alt)

lemma freq_alt: "freq m = (\<lambda>x. case content m x of None \<Rightarrow> 0 | Some (r, f) \<Rightarrow> f)"
  by (intro ext) (simp add: freq_def content_def split: option.splits)

lemma freq_content: "content m' = content m \<Longrightarrow> freq m' = freq m"
  by (simp add: freq_alt)

lemma dom_recs: "dom m = {x. recs m x \<noteq> None}"
  by (auto simp: recs_def)

lemma recs_dom: "recs m' = recs m \<Longrightarrow> dom m' = dom m"
  by (simp add: dom_recs)

lemma dll_touch: "m x = Some n \<Longrightarrow> dll (m(x \<mapsto> n \<lparr> nd_frequency := f \<rparr>)) q p xs t \<longleftrightarrow> dll m q p xs t"
  by (induction xs arbitrary: p) auto

lemma touch_recs: "m x = Some n \<Longrightarrow> recs (m(x \<mapsto> n \<lparr> nd_frequency := f \<rparr>)) = recs m"
  by (auto simp: recs_def)

lemma touch_freq: "m x = Some n \<Longrightarrow> freq (m(x \<mapsto> n \<lparr> nd_frequency := f \<rparr>)) = (freq m)(x := f)"
  by (auto simp: freq_def)

lemma touch_wt: "m x = Some n \<Longrightarrow> wt (m(x \<mapsto> n \<lparr> nd_frequency := f \<rparr>)) = wt m"
  by (auto simp: wt_def content_def)

lemma touch_queues:
  assumes "queues st m qs" and "m x = Some n" and "\<And>h. hand = Some h \<Longrightarrow> h \<in> set (qs ! 0)"
  shows "queues (st \<lparr> st_hand := hand \<rparr>) (m(x \<mapsto> n \<lparr> nd_frequency := f \<rparr>)) qs"
  using assms dll_touch [of m x n, OF assms(2)] touch_wt [of m x n, OF assms(2)] by (auto simp: queues_def queue_ok_def)

lemma touch_queues':
  assumes "queues st m qs" and "m x = Some n"
  shows "queues st (m(x \<mapsto> n \<lparr> nd_frequency := f \<rparr>)) qs"
  using touch_queues [of st m qs x n, OF assms, of "st_hand st"] queuesD(6) [OF assms(1)] by simp

section \<open>Choosing a victim\<close>

lemma head_front: "queues st m qs \<Longrightarrow> q < 3 \<Longrightarrow> ls_head (list_of st q) = front (qs ! q) None"
  using queuesD(4) [of st m qs q] by (simp add: queue_ok_def list_of_def)

lemma head_empty: "queues st m qs \<Longrightarrow> q < 3 \<Longrightarrow> ls_head (list_of st q) = None \<longleftrightarrow> qs ! q = []"
  by (simp add: head_front)

lemma dll_succ: "dll m q p xs t \<Longrightarrow> x \<in> set xs \<Longrightarrow> m x = Some n \<Longrightarrow> nd_next n = Some y \<Longrightarrow> y \<in> set xs \<or> t = Some y"
proof (induction xs arbitrary: p)
  case (Cons a xs)
  then show ?case by (cases xs) auto
qed simp

lemma queues_concat: "queues st m qs \<Longrightarrow> concat qs = qs ! 0 @ qs ! 1 @ qs ! 2"
  using queuesD(1) [of st m qs] by (auto simp: length_Suc_conv numeral_3_eq_3)

lemma queued: "queues st m qs \<Longrightarrow> q < 3 \<Longrightarrow> x \<in> set (qs ! q) \<Longrightarrow> \<exists>n. m x = Some n \<and> nd_queue n = Some q"
  using queuesD(4) [of st m qs q] dll_node [of m q None "qs ! q" None x] by (simp add: queue_ok_def)

lemma head_in:
  assumes "queues st m qs" and "q < 3" and "ls_head (list_of st q) = Some x"
  shows "x \<in> set (qs ! q)" "x \<in> set (concat qs)"
proof -
  show "x \<in> set (qs ! q)" using head_front [OF assms(1,2)] assms(3) front_mem by simp
  then show "x \<in> set (concat qs)" using queuesD(1) [OF assms(1)] assms(2) by (metis UN_I nth_mem set_concat)
qed

text \<open>
  What an operation of a policy keeps: the invariant, the records of the nodes, the set of queued
  nodes, the policy and its capacity.
\<close>

definition kept ::
  "policy_state \<Rightarrow> ('k, 'v, 'p) nodes \<Rightarrow> nat list list \<Rightarrow> policy_state \<Rightarrow> ('k, 'v, 'p) nodes \<Rightarrow> nat list list \<Rightarrow> bool" where
  "kept st m qs st' m' qs' \<longleftrightarrow> state_ok st' m' qs' \<and> recs m' = recs m \<and> mset (concat qs') = mset (concat qs)
     \<and> st_policy st' = st_policy st \<and> st_capacity st' = st_capacity st"

lemma kept_refl: "state_ok st m qs \<Longrightarrow> kept st m qs st m qs"
  by (simp add: kept_def)

lemma kept_trans: "kept st m qs st1 m1 qs1 \<Longrightarrow> kept st1 m1 qs1 st2 m2 qs2 \<Longrightarrow> kept st m qs st2 m2 qs2"
  by (simp add: kept_def)

lemma kept_arranged:
  "state_ok st m qs \<Longrightarrow> arranged st m qs st' m' qs' \<Longrightarrow> shape_ok (st_policy st) qs' \<Longrightarrow> kept st m qs st' m' qs'"
  using state_ok_arranged [of st m qs st' m' qs'] recs_content [of m' m] by (simp add: kept_def arranged_def config_def)

lemma touch_kept:
  assumes "state_ok st m qs" and "m x = Some n"
  shows "kept st m qs st (m(x \<mapsto> n \<lparr> nd_frequency := f \<rparr>)) qs"
  using assms touch_queues' [of st m qs x n] touch_recs [of m x n] by (simp add: kept_def state_ok_def)

fun victim_ok :: "policy \<Rightarrow> nat list list \<Rightarrow> nat option \<Rightarrow> bool" where
  "victim_ok (Lru c) qs v \<longleftrightarrow> (case v of None \<Rightarrow> qs ! 0 = [] \<and> qs ! 1 = [] | Some x \<Rightarrow> x \<in> set (qs ! 0) \<or> x \<in> set (qs ! 1))"
| "victim_ok _ qs v \<longleftrightarrow> (case v of None \<Rightarrow> concat qs = [] | Some x \<Rightarrow> x \<in> set (concat qs))"

lemma sieve_victim_ok:
  assumes "state_ok st m qs" and "st_policy st = Sieve"
  shows "\<exists>v st' m'. sieve_victim (st, m) = Some (v, st', m') \<and> kept st m qs st' m' qs \<and> victim_ok Sieve qs v"
  using assms
proof (induction "card {x \<in> set (qs ! 0). freq m x \<noteq> 0}" arbitrary: st m rule: less_induct)
  case less
  note q = state_okD(1) [OF less(2)]
  have rest: "qs ! 1 = []" "qs ! 2 = []" using state_okD(4) [OF less(2)] less(3) by simp_all
  show ?case
  proof (cases "or_else (st_hand st) (ls_head (list_of st 0))")
    case None
    then have "qs ! 0 = []" using head_front [OF q, of 0] by (auto simp: or_else_def split: option.splits)
    then show ?thesis using None kept_refl [OF less(2)] rest queues_concat [OF q] by (subst sieve_victim.simps) auto
  next
    case (Some x)
    then have x: "x \<in> set (qs ! 0)"
      using queuesD(6) [OF q] head_front [OF q, of 0] front_mem by (auto simp: or_else_def split: option.splits)
    then obtain n where n: "m x = Some n" using queued [OF q, of 0] by auto
    let ?st = "st \<lparr> st_hand := nd_next n \<rparr>" and ?m = "m(x \<mapsto> n \<lparr> nd_frequency := 0 \<rparr>)"
    have "h \<in> set (qs ! 0)" if "nd_next n = Some h" for h
      using queuesD(4) [OF q, of 0] dll_succ [of m 0 None "qs ! 0" None x n h] x n that by (simp add: queue_ok_def)
    then have "queues ?st ?m qs" using touch_queues [of st m qs x n "nd_next n" 0, OF q n] by blast
    then have step: "kept st m qs ?st ?m qs"
      using less(2,3) touch_recs [of m x n 0, OF n] by (simp add: kept_def state_ok_def)
    show ?thesis
    proof (cases "nd_frequency n = 0")
      case True
      then show ?thesis using Some n step x queues_concat [OF q] by (subst sieve_victim.simps) auto
    next
      case False
      have "freq m x \<noteq> 0" using False n by (simp add: freq_def)
      then have "{y \<in> set (qs ! 0). freq ?m y \<noteq> 0} \<subset> {y \<in> set (qs ! 0). freq m y \<noteq> 0}"
        using x touch_freq [of m x n 0, OF n] by auto
      then have "card {y \<in> set (qs ! 0). freq ?m y \<noteq> 0} < card {y \<in> set (qs ! 0). freq m y \<noteq> 0}" by (intro psubset_card_mono) auto
      then obtain v st' m' where r: "sieve_victim (?st, ?m) = Some (v, st', m')" "kept ?st ?m qs st' m' qs" "victim_ok Sieve qs v"
        using less(1) [of ?m ?st] step less(3) by (auto simp: kept_def)
      have "sieve_victim (st, m) = Some (v, st', m')" using Some n False r(1) by (subst sieve_victim.simps) simp
      then show ?thesis using kept_trans [OF step r(2)] r(3) by blast
    qed
  qed
qed

lemma lfu_victim_ok:
  assumes "state_ok st m qs" and "st_policy st = Lfu c"
  shows "\<exists>v st' m' qs'. lfu_victim c (st, m) = Some (v, st', m') \<and> kept st m qs st' m' qs' \<and> victim_ok (Lfu c) qs' v"
proof -
  note q = state_okD(1) [OF assms(1)]
  obtain sk where sk: "st_sketch st = Some sk" "sketch_ok sk" using state_okD(3) [OF assms(1)] assms(2) by auto
  have heads: "ls_head (list_of st k) = front (qs ! k) None" if "k < 3" for k using head_front [OF q that] .
  let ?fallback = "or_else (or_else (ls_head (list_of st 1)) (ls_head (list_of st 2))) (ls_head (list_of st 0))"
  have fallback: "victim_ok (Lfu c) qs ?fallback"
    using queues_concat [OF q] heads by (auto simp: or_else_def dest!: front_mem split: option.splits)
  show ?thesis
  proof (cases "ls_weight (list_of st 0) > portion (st_capacity st) (lf_window_percent c) \<and> ls_head (list_of st 0) \<noteq> None")
    case False
    then have "lfu_victim c (st, m) = Some (?fallback, st, m)" by (simp add: lfu_victim_def Let_def split: option.splits)
    then show ?thesis using fallback kept_refl [OF assms(1)] by (intro exI conjI)
  next
    case True
    then obtain x where x: "ls_head (list_of st 0) = Some x" by auto
    have xin: "x \<in> set (concat qs)" "x \<in> set (qs ! 0)" using head_in [OF q _ x] by simp_all
    show ?thesis
    proof (cases "ls_head (list_of st 1)")
      case None
      then have "lfu_victim c (st, m) = Some (Some x, st, m)" using True x by (simp add: lfu_victim_def)
      moreover have "victim_ok (Lfu c) qs (Some x)" using xin(1) by simp
      ultimately show ?thesis using kept_refl [OF assms(1)] by (intro exI conjI)
    next
      case (Some y)
      have yin: "y \<in> set (concat qs)" "y \<in> set (qs ! 1)" using head_in [OF q _ Some] by simp_all
      obtain nx ny where n: "m x = Some nx" "m y = Some ny" using queued [OF q, of 0 x] queued [OF q, of 1 y] xin yin by auto
      obtain a b where e: "sketch_estimate sk (mr_hash (nd_record nx)) = Some a" "sketch_estimate sk (mr_hash (nd_record ny)) = Some b"
        using sketch_estimate_ok [OF sk(2)] by metis
      obtain st' m' qs' where mv: "move_to x 1 (st, m) = Some (st', m')" "arranged st m qs st' m' qs'"
        using move_head_arranged [OF q _ x, of 1] by (metis zero_less_numeral one_less_numeral_iff semiring_norm(77) zero_neq_one)
      have k: "kept st m qs st' m' qs'" using kept_arranged [OF assms(1) mv(2)] assms(2) by simp
      then have "y \<in> set (concat qs')" using yin by (metis kept_def mset_eq_setD)
      then have "a > b \<Longrightarrow> ?thesis" using True x Some sk(1) n e mv(1) k
        by (intro exI [of _ "Some y"] exI [of _ st'] exI [of _ m'] exI [of _ qs']) (simp add: lfu_victim_def)
      moreover have "\<not> a > b \<Longrightarrow> ?thesis" using True x Some sk(1) n e xin(1) kept_refl [OF assms(1)]
        by (intro exI [of _ "Some x"] exI [of _ st] exI [of _ m] exI [of _ qs]) (simp add: lfu_victim_def)
      ultimately show ?thesis by blast
    qed
  qed
qed

text \<open>S3-FIFO: every round shortens the small queue or lowers a counter of the main queue.\<close>

definition s3_rounds :: "('k, 'v, 'p) nodes \<Rightarrow> nat list list \<Rightarrow> nat" where
  "s3_rounds m qs = length (qs ! 0) + sum_list (map (freq m) (qs ! 1))"

lemma move_main:
  assumes "queues st m qs" and "ls_head (list_of st 1) = Some x"
  obtains ys st' m' qs' where "qs ! 1 = x # ys" "move_to x 1 (st, m) = Some (st', m')" "arranged st m qs st' m' qs'"
    "qs' ! 0 = qs ! 0" "qs' ! 1 = ys @ [x]" "qs' ! 2 = qs ! 2"
proof -
  obtain ys st' m' qs' where mv: "qs ! 1 = x # ys" "move_to x 1 (st, m) = Some (st', m')" "queues st' m' qs'" "content m' = content m"
    "config st' = config st" "qs' = (qs[1 := ys])[1 := (qs[1 := ys]) ! 1 @ [x]]" "mset (concat qs') = mset (concat qs)"
    "st_hand st = None \<longrightarrow> st_hand st' = None"
    using move_head [OF assms(1) _ assms(2), of 1] by (metis one_less_numeral_iff semiring_norm(77))
  then show ?thesis using that [of ys st' m' qs'] queuesD(1) [OF assms(1)] by (simp add: arranged_def)
qed

lemma s3_small_round:
  assumes "state_ok st m qs" and "st_policy st = S3Fifo c" and "ls_head (list_of st 0) = Some x" and "m x = Some n"
  obtains st' m' qs' where "move_to x 1 (st, m(x \<mapsto> n \<lparr> nd_frequency := 0 \<rparr>)) = Some (st', m')" "kept st m qs st' m' qs'"
    "s3_rounds m' qs' < s3_rounds m qs"
proof -
  let ?m = "m(x \<mapsto> n \<lparr> nd_frequency := 0 \<rparr>)"
  have t: "kept st m qs st ?m qs" using touch_kept [of st m qs x n 0] assms(1,4) by blast
  then have ok: "state_ok st ?m qs" by (simp add: kept_def)
  obtain st' m' qs' where mv: "move_to x 1 (st, ?m) = Some (st', m')" "arranged st ?m qs st' m' qs'"
    "\<forall>j < 3. j \<noteq> 0 \<longrightarrow> j \<noteq> 1 \<longrightarrow> qs' ! j = qs ! j" "qs ! 0 = x # qs' ! 0" "qs' ! 1 = qs ! 1 @ [x]"
    using move_head_arranged [OF state_okD(1) [OF ok] _ assms(3), of 1]
    by (metis zero_less_numeral one_less_numeral_iff semiring_norm(77) zero_neq_one)
  have k: "kept st m qs st' m' qs'" using kept_trans [OF t] kept_arranged [OF ok mv(2)] mv(3) assms(2) state_okD(4) [OF ok] by simp
  have "freq m' = (freq m)(x := 0)" using freq_content [of m' ?m] mv(2) touch_freq [of m x n 0] assms(4) by (simp add: arranged_def)
  then have "sum_list (map (freq m') (qs' ! 1)) \<le> sum_list (map (freq m) (qs ! 1))"
    using mv(5) by (auto intro!: sum_list_mono)
  then show ?thesis using that [OF mv(1) k] mv(4) by (simp add: s3_rounds_def)
qed

lemma s3_main_round:
  assumes "state_ok st m qs" and "st_policy st = S3Fifo c" and "ls_head (list_of st 1) = Some x" and "m x = Some n" and "nd_frequency n \<noteq> 0"
  obtains st' m' qs' where "move_to x 1 (st, m(x \<mapsto> n \<lparr> nd_frequency := nd_frequency n - 1 \<rparr>)) = Some (st', m')" "kept st m qs st' m' qs'"
    "s3_rounds m' qs' < s3_rounds m qs"
proof -
  let ?m = "m(x \<mapsto> n \<lparr> nd_frequency := nd_frequency n - 1 \<rparr>)"
  have t: "kept st m qs st ?m qs" using touch_kept [of st m qs x n "nd_frequency n - 1"] assms(1,4) by blast
  then have ok: "state_ok st ?m qs" by (simp add: kept_def)
  obtain ys st' m' qs' where mv: "qs ! 1 = x # ys" "move_to x 1 (st, ?m) = Some (st', m')" "arranged st ?m qs st' m' qs'"
    "qs' ! 0 = qs ! 0" "qs' ! 1 = ys @ [x]" "qs' ! 2 = qs ! 2"
    using move_main [OF state_okD(1) [OF ok] assms(3)] by blast
  have k: "kept st m qs st' m' qs'" using kept_trans [OF t] kept_arranged [OF ok mv(3)] mv(6) assms(2) state_okD(4) [OF ok] by simp
  have f: "freq m' = (freq m)(x := nd_frequency n - 1)"
    using freq_content [of m' ?m] mv(3) touch_freq [of m x n "nd_frequency n - 1"] assms(4) by (simp add: arranged_def)
  have "sum_list (map (freq m') ys) \<le> sum_list (map (freq m) ys)"
    using f assms(4) by (auto intro!: sum_list_mono simp: freq_def)
  moreover have "freq m x = nd_frequency n" using assms(4) by (simp add: freq_def)
  ultimately show ?thesis using that [OF mv(2) k] mv(1,4,5) f assms(5) by (simp add: s3_rounds_def)
qed

lemma s3fifo_victim_ok:
  assumes "state_ok st m qs" and "st_policy st = S3Fifo c"
  shows "\<exists>v st' m' qs'. s3fifo_victim small (st, m) = Some (v, st', m') \<and> kept st m qs st' m' qs' \<and> victim_ok (S3Fifo c) qs' v"
  using assms
proof (induction "s3_rounds m qs" arbitrary: st m qs rule: less_induct)
  case less
  note q = state_okD(1) [OF less(2)]
  have again: ?case if step: "s3fifo_victim small (st, m) = s3fifo_victim small (st1, m1)" "kept st m qs st1 m1 qs1" "s3_rounds m1 qs1 < s3_rounds m qs"
    for st1 m1 qs1
  proof -
    have "state_ok st1 m1 qs1" "st_policy st1 = S3Fifo c" using step(2) less(3) by (auto simp: kept_def)
    then obtain v st' m' qs' where r: "s3fifo_victim small (st1, m1) = Some (v, st', m')" "kept st1 m1 qs1 st' m' qs'" "victim_ok (S3Fifo c) qs' v"
      using less(1) [OF step(3)] by blast
    show ?thesis unfolding step(1) using r kept_trans [OF step(2) r(2)] by blast
  qed
  show ?case
  proof (cases "if ls_weight (list_of st 0) > small \<or> ls_head (list_of st 1) = None then ls_head (list_of st 0) else None")
    case (Some x)
    then have small: "ls_weight (list_of st 0) > small \<or> ls_head (list_of st 1) = None" and hx: "ls_head (list_of st 0) = Some x"
      by (simp_all split: if_splits)
    have x: "x \<in> set (qs ! 0)" "x \<in> set (concat qs)" using head_in [OF q _ hx] by simp_all
    obtain n where n: "m x = Some n" using queued [OF q _ x(1)] by auto
    let ?m = "m(x \<mapsto> n \<lparr> nd_frequency := 0 \<rparr>)"
    show ?thesis
    proof (cases "nd_frequency n > 1")
      case True
      obtain st1 m1 qs1 where r: "move_to x 1 (st, ?m) = Some (st1, m1)" "kept st m qs st1 m1 qs1" "s3_rounds m1 qs1 < s3_rounds m qs"
        using s3_small_round [OF less(2,3) hx n] by blast
      have "s3fifo_victim small (st, m) = s3fifo_victim small (st1, m1)" using small hx n True r(1) by (subst s3fifo_victim.simps) simp
      then show ?thesis using again r(2,3) by blast
    next
      case False
      obtain g where g: "ghost_push (st_ghost st) (mr_hash (nd_record n)) (mr_weight (nd_record n)) = Some g" "ghost_ok g"
        using ghost_push_total [OF state_okD(2) [OF less(2)]] by blast
      have "s3fifo_victim small (st, m) = Some (Some x, st \<lparr> st_ghost := g \<rparr>, ?m)" using small hx n False g(1) by (subst s3fifo_victim.simps) simp
      moreover have "kept st m qs (st \<lparr> st_ghost := g \<rparr>) ?m qs"
        using touch_kept [of st m qs x n 0] less(2) n g(2) by (simp add: kept_def state_ok_def queues_def)
      moreover have "victim_ok (S3Fifo c) qs (Some x)" using x(2) by simp
      ultimately show ?thesis by (intro exI conjI)
    qed
  next
    case None
    show ?thesis
    proof (cases "ls_head (list_of st 1)")
      case None': None
      then have hx: "ls_head (list_of st 0) = None" using None by simp
      then have "victim_ok (S3Fifo c) qs None"
        using None' head_empty [OF q, of 0] head_empty [OF q, of 1] queues_concat [OF q] state_okD(4) [OF less(2)] less(3) by simp
      moreover have "s3fifo_victim small (st, m) = Some (None, st, m)" using hx None' by (subst s3fifo_victim.simps) simp
      ultimately show ?thesis using kept_refl [OF less(2)] by (intro exI conjI)
    next
      case (Some x)
      have x: "x \<in> set (qs ! 1)" "x \<in> set (concat qs)" using head_in [OF q _ Some] by simp_all
      obtain n where n: "m x = Some n" using queued [OF q _ x(1)] by auto
      show ?thesis
      proof (cases "nd_frequency n = 0")
        case True
        then have "s3fifo_victim small (st, m) = Some (Some x, st, m)" using None Some n
          by (subst s3fifo_victim.simps) (cases "ls_weight (list_of st 0) > small"; simp)
        moreover have "victim_ok (S3Fifo c) qs (Some x)" using x(2) by simp
        ultimately show ?thesis using kept_refl [OF less(2)] by (intro exI conjI)
      next
        case False
        obtain st1 m1 qs1 where r: "move_to x 1 (st, m(x \<mapsto> n \<lparr> nd_frequency := nd_frequency n - 1 \<rparr>)) = Some (st1, m1)"
          "kept st m qs st1 m1 qs1" "s3_rounds m1 qs1 < s3_rounds m qs"
          using s3_main_round [OF less(2,3) Some n False] by blast
        have "s3fifo_victim small (st, m) = s3fifo_victim small (st1, m1)" using None Some n False r(1)
          by (subst s3fifo_victim.simps) (cases "ls_weight (list_of st 0) > small"; simp)
        then show ?thesis using again r(2,3) by blast
      qed
    qed
  qed
qed

lemma state_victim_ok:
  assumes "state_ok st m qs"
  obtains v st' m' qs' where "state_victim (st, m) = Some (v, st', m')" "kept st m qs st' m' qs'" "victim_ok (st_policy st) qs' v"
    "\<forall>c. st_policy st = Lru c \<longrightarrow> qs' = qs"
proof -
  note q = state_okD(1) [OF assms]
  have heads: "ls_head (list_of st k) = front (qs ! k) None" if "k < 3" for k using head_front [OF q that] .
  have "\<exists>v st' m' qs'. state_victim (st, m) = Some (v, st', m') \<and> kept st m qs st' m' qs' \<and> victim_ok (st_policy st) qs' v
    \<and> (\<forall>c. st_policy st = Lru c \<longrightarrow> qs' = qs)"
  proof (cases "st_policy st")
    case Fifo
    then have "victim_ok Fifo qs (ls_head (list_of st 0))"
      using heads queues_concat [OF q] state_okD(4) [OF assms] by (auto dest: front_mem split: option.splits)
    then show ?thesis unfolding state_victim_def Fifo using Fifo kept_refl [OF assms] by auto
  next
    case (Lru c)
    then have "victim_ok (Lru c) qs (or_else (ls_head (list_of st 0)) (ls_head (list_of st 1)))"
      using heads by (auto simp: or_else_def dest: front_mem split: option.splits)
    then show ?thesis unfolding state_victim_def Lru using Lru kept_refl [OF assms] by (intro exI conjI) auto
  next
    case (Lfu c)
    then show ?thesis using lfu_victim_ok [OF assms Lfu] by (simp add: state_victim_def)
  next
    case (S3Fifo c)
    then show ?thesis using s3fifo_victim_ok [OF assms S3Fifo] by (simp add: state_victim_def)
  next
    case Sieve
    obtain v st' m' where r: "sieve_victim (st, m) = Some (v, st', m')" "kept st m qs st' m' qs" "victim_ok Sieve qs v"
      using sieve_victim_ok [OF assms Sieve] by blast
    then have "state_victim (st, m) = Some (v, st', m')" using Sieve by (simp add: state_victim_def)
    then show ?thesis unfolding Sieve using r(2,3) by (intro exI conjI) auto
  qed
  then show ?thesis using that by blast
qed

section \<open>The other operations\<close>

lemma queues_fields:
  "st_lists st' = st_lists st \<Longrightarrow> st_hand st' = st_hand st \<Longrightarrow> queues st' m qs \<longleftrightarrow> queues st m qs"
  by (simp add: queues_def)

lemma state_new_ok:
  assumes "validate policy = Ok ()"
  shows "state_ok (state_new policy capacity) Map.empty [[], [], []]"
proof -
  have "queues (state_new policy capacity) Map.empty [[], [], []]"
    by (simp add: queues_def queue_ok_def state_new_def empty_list_def less_Suc_eq numeral_3_eq_3)
  moreover have "sketch_fits policy (st_sketch (state_new policy capacity))"
    using assms by (cases policy) (auto simp: state_new_def split: if_splits)
  ultimately show ?thesis by (cases policy) (simp_all add: state_ok_def state_new_def)
qed

text \<open>Adding a node: the queued nodes gain it, and a new node of an LRU cache starts pinned.\<close>

definition gained ::
  "nat \<Rightarrow> policy_state \<Rightarrow> ('k, 'v, 'p) nodes \<Rightarrow> nat list list \<Rightarrow> policy_state \<Rightarrow> ('k, 'v, 'p) nodes \<Rightarrow> nat list list \<Rightarrow> bool" where
  "gained x st m qs st' m' qs' \<longleftrightarrow> state_ok st' m' qs' \<and> recs m' = recs m \<and> mset (concat qs') = add_mset x (mset (concat qs))
     \<and> st_policy st' = st_policy st \<and> st_capacity st' = st_capacity st"

lemma push_gained:
  assumes "state_ok st m qs" and "m x = Some n" and "x \<notin> set (concat qs)" and "q < 3" and "shape_ok (st_policy st) (qs[q := qs ! q @ [x]])"
  obtains st' m' qs' where "state_push x q (st, m) = Some (st', m')" "gained x st m qs st' m' qs'" "qs' = qs[q := qs ! q @ [x]]"
proof -
  obtain st' m' where p: "state_push x q (st, m) = Some (st', m')" "queues st' m' (qs[q := qs ! q @ [x]])" "content m' = content m"
    "config st' = config st" "st_hand st = None \<longrightarrow> st_hand st' = None"
    using push_queues [OF state_okD(1) [OF assms(1)] assms(4,2,3)] .
  have "mset (concat (qs[q := qs ! q @ [x]])) = add_mset x (mset (concat qs))"
    using mset_concat_update [of q qs "qs ! q @ [x]" "{#}" "{#x#}"] queuesD(1) [OF state_okD(1) [OF assms(1)]] assms(4) by simp
  then have "gained x st m qs st' m' (qs[q := qs ! q @ [x]])"
    using p recs_content [of m' m] assms(1,5) by (auto simp: gained_def state_ok_def config_def)
  then show ?thesis using that p(1) by blast
qed

lemma gained_kept: "gained x st m qs st1 m1 qs1 \<Longrightarrow> kept st1 m1 qs1 st2 m2 qs2 \<Longrightarrow> gained x st m qs st2 m2 qs2"
  by (simp add: gained_def kept_def)

lemma kept_gained: "kept st m qs st1 m1 qs1 \<Longrightarrow> gained x st1 m1 qs1 st2 m2 qs2 \<Longrightarrow> gained x st m qs st2 m2 qs2"
  by (simp add: gained_def kept_def)

lemma sketch_kept:
  assumes "state_ok st m qs" and "st_policy st = Lfu c" and "sketch_ok sk"
  shows "kept st m qs (st \<lparr> st_sketch := Some sk \<rparr>) m qs"
  using assms queues_fields [of "st \<lparr> st_sketch := Some sk \<rparr>" st m qs] by (simp add: kept_def state_ok_def)

lemma state_insert_ok:
  assumes "state_ok st m qs" and "m x = Some n" and "x \<notin> set (concat qs)"
  obtains st' m' qs' where "state_insert x (st, m) = Some (st', m')" "gained x st m qs st' m' qs'"
    "\<forall>c. st_policy st = Lru c \<longrightarrow> qs' = qs[2 := qs ! 2 @ [x]]"
proof (cases "\<exists>c. st_policy st = Lfu c")
  case True
  then obtain c where c: "st_policy st = Lfu c" by blast
  obtain sk where sk: "st_sketch st = Some sk" "sketch_ok sk" using state_okD(3) [OF assms(1)] c by auto
  obtain sk' where sk': "sketch_record sk (mr_hash (nd_record n)) = Some sk'" "sketch_ok sk'" using sketch_record_ok [OF sk(2)] by metis
  let ?st = "st \<lparr> st_sketch := Some sk' \<rparr>"
  have k: "kept st m qs ?st m qs" using sketch_kept [OF assms(1) c sk'(2)] .
  then have "state_ok ?st m qs" "shape_ok (st_policy ?st) (qs[0 := qs ! 0 @ [x]])" using c by (auto simp: kept_def)
  then obtain st1 m1 qs1 where p: "state_push x 0 (?st, m) = Some (st1, m1)" "gained x ?st m qs st1 m1 qs1"
    using push_gained [of ?st m qs x n 0] assms(2,3) by (metis zero_less_numeral)
  then have ok: "state_ok st1 m1 qs1" "st_policy st1 = Lfu c" using c by (auto simp: gained_def)
  obtain st' m' qs' where f: "fill_main (portion (st_capacity st) (lf_window_percent c)) (st1, m1) = Some (st', m')" "arranged st1 m1 qs1 st' m' qs'"
    using fill_main_ok [OF state_okD(1) [OF ok(1)]] by blast
  have "kept st1 m1 qs1 st' m' qs'" using kept_arranged [OF ok(1) f(2)] ok(2) by simp
  then have "gained x st m qs st' m' qs'" using kept_gained [OF k gained_kept [OF p(2)]] by blast
  moreover have "state_insert x (st, m) = Some (st', m')" using assms(2) c sk(1) sk'(1) p(1) f(1) by (simp add: state_insert_def)
  ultimately show ?thesis using that c by auto
next
  case False
  then have sk: "st_sketch st = None" using state_okD(3) [OF assms(1)] by (cases "st_policy st") auto
  let ?q = "case st_policy st of Lru _ \<Rightarrow> 2 | S3Fifo _ \<Rightarrow> (if ghost_contains (st_ghost st) (mr_hash (nd_record n)) then 1 else 0) | _ \<Rightarrow> (0 :: nat)"
  have "?q < 3" "shape_ok (st_policy st) (qs[?q := qs ! ?q @ [x]])"
    using state_okD(4) [OF assms(1)] by (auto split: policy.splits)
  then obtain st' m' qs' where p: "state_push x ?q (st, m) = Some (st', m')" "gained x st m qs st' m' qs'" "qs' = qs[?q := qs ! ?q @ [x]]"
    using push_gained [OF assms] by blast
  have "state_insert x (st, m) = Some (st', m')" using assms(2) False sk p(1) by (cases "st_policy st") (simp_all add: state_insert_def Let_def)
  moreover have "\<forall>c. st_policy st = Lru c \<longrightarrow> qs' = qs[2 := qs ! 2 @ [x]]" using p(3) by simp
  ultimately show ?thesis using that p(2) by blast
qed

lemma demote_kept:
  assumes "state_ok st m qs" and "from < 3" and "to < 3" and "from \<noteq> to" and "\<And>qs'. shape_ok (st_policy st) qs'"
  shows "\<exists>st' m' qs'. demote from to limit (st, m) = Some (st', m') \<and> kept st m qs st' m' qs'
    \<and> (\<forall>j < 3. j \<noteq> from \<longrightarrow> j \<noteq> to \<longrightarrow> qs' ! j = qs ! j)"
  using demote_ok [OF assms(2-4) state_okD(1) [OF assms(1)], of limit] kept_arranged [OF assms(1) _ assms(5)] by metis

lemma unlinked_queue:
  assumes q: "queues st m qs" and s: "k < 3" "qs ! k = xs @ x # ys" and "j < 3"
  shows "set ((qs[k := xs @ ys]) ! j) = set (qs ! j) - {x}"
proof (cases "j = k")
  case True
  have "distinct (qs ! k)" using queuesD(1,3) [OF q] s(1) by (simp add: distinct_concat_iff)
  then show ?thesis using True s queuesD(1) [OF q] by auto
next
  case False
  have "x \<notin> set (qs ! j)"
  proof
    assume "x \<in> set (qs ! j)"
    then obtain n where "m x = Some n" "nd_queue n = Some j" using queued [OF q assms(4)] by blast
    moreover obtain n' where "m x = Some n'" "nd_queue n' = Some k" using queued [OF q s(1), of x] s(2) by auto
    ultimately show False using False by simp
  qed
  then show ?thesis using False by simp
qed

lemma move_kept:
  assumes "state_ok st m qs" and "x \<in> set (concat qs)" and "r < 3" and "\<And>qs'. shape_ok (st_policy st) qs'"
  obtains st' m' qs' where "move_to x r (st, m) = Some (st', m')" "kept st m qs st' m' qs'"
    "set (qs' ! 2) = (if r = 2 then insert x (set (qs ! 2)) else set (qs ! 2) - {x})"
proof -
  note q = state_okD(1) [OF assms(1)]
  obtain k xs ys where s: "k < 3" "qs ! k = xs @ x # ys" using in_queue [OF q assms(2)] by metis
  obtain st' m' qs' where mv: "move_to x r (st, m) = Some (st', m')" "queues st' m' qs'" "content m' = content m" "config st' = config st"
    "qs' = (qs[k := xs @ ys])[r := (qs[k := xs @ ys]) ! r @ [x]]" "mset (concat qs') = mset (concat qs)" "st_hand st = None \<longrightarrow> st_hand st' = None"
    using move_queues [OF q s assms(3)] by metis
  have "set ((qs[k := xs @ ys]) ! 2) = set (qs ! 2) - {x}" using unlinked_queue [OF q s, of 2] by simp
  then have "set (qs' ! 2) = (if r = 2 then insert x (set (qs ! 2)) else set (qs ! 2) - {x})"
    using mv(5) queuesD(1) [OF q] by auto
  then show ?thesis using that [OF mv(1) kept_arranged [OF assms(1) _ assms(4), of st' m' qs']] mv by (simp add: arranged_def)
qed

lemma access_shared_ok:
  assumes "state_ok st m qs" and "\<not> mutable_hits (st_policy st)" and "m x = Some n"
  obtains st' m' where "access_shared x (st, m) = Some (st', m')" "kept st m qs st' m' qs"
proof -
  have "\<exists>st' m'. access_shared x (st, m) = Some (st', m') \<and> kept st m qs st' m' qs"
    using assms touch_kept [of st m qs x n] kept_refl [OF assms(1)] by (cases "st_policy st") (simp_all add: access_shared_def)
  then show ?thesis using that by blast
qed

lemma state_access_ok:
  assumes "state_ok st m qs" and "mutable_hits (st_policy st)" and "x \<in> set (concat qs)"
  obtains st' m' qs' where "state_access x (st, m) = Some (st', m')" "kept st m qs st' m' qs'"
    "\<forall>c. st_policy st = Lru c \<longrightarrow> set (qs' ! 2) = insert x (set (qs ! 2))"
proof -
  note q = state_okD(1) [OF assms(1)]
  obtain k n where n: "m x = Some n" "nd_queue n = Some k" "x \<in> set (qs ! k)" using in_queue [OF q assms(3)] by (metis in_set_conv_decomp)
  have "\<exists>st' m' qs'. state_access x (st, m) = Some (st', m') \<and> kept st m qs st' m' qs'
    \<and> (\<forall>c. st_policy st = Lru c \<longrightarrow> set (qs' ! 2) = insert x (set (qs ! 2)))"
  proof (cases "st_policy st")
    case (Lru c)
    obtain st' m' qs' where r: "move_to x 2 (st, m) = Some (st', m')" "kept st m qs st' m' qs'" "set (qs' ! 2) = insert x (set (qs ! 2))"
      using move_kept [OF assms(1,3), of 2] Lru by auto
    show ?thesis
    proof (cases "nd_queue n = Some 2")
      case True
      then have "state_access x (st, m) = Some (st, m)" "insert x (set (qs ! 2)) = set (qs ! 2)" using n Lru by (auto simp: state_access_def)
      then show ?thesis using kept_refl [OF assms(1)] by metis
    next
      case False
      then have "state_access x (st, m) = Some (st', m')" using n(1) Lru r(1) by (simp add: state_access_def)
      then show ?thesis using r(2,3) by blast
    qed
  next
    case (Lfu c)
    obtain sk where sk: "st_sketch st = Some sk" "sketch_ok sk" using state_okD(3) [OF assms(1)] Lfu by auto
    obtain sk' where sk': "sketch_record sk (mr_hash (nd_record n)) = Some sk'" "sketch_ok sk'" using sketch_record_ok [OF sk(2)] by metis
    let ?st = "st \<lparr> st_sketch := Some sk' \<rparr>" and ?r = "if nd_queue n = Some 0 then 0 else 2 :: nat"
    have k: "kept st m qs ?st m qs" using sketch_kept [OF assms(1) Lfu sk'(2)] .
    have sh: "state_ok ?st m qs" "?r < 3" "\<And>qs'. shape_ok (st_policy ?st) qs'" using k Lfu by (simp_all add: kept_def)
    obtain st1 m1 qs1 where r1: "move_to x ?r (?st, m) = Some (st1, m1)" "kept ?st m qs st1 m1 qs1"
      by (rule move_kept [OF sh(1) assms(3) sh(2,3)])
    have ok: "state_ok st1 m1 qs1" "st_policy st1 = Lfu c" using r1(2) Lfu by (auto simp: kept_def)
    obtain st' m' qs' where r2: "demote 2 1 (portion (st_capacity st) (lf_protected_percent c)) (st1, m1) = Some (st', m')" "kept st1 m1 qs1 st' m' qs'"
      using demote_kept [OF ok(1), of 2 1 "portion (st_capacity st) (lf_protected_percent c)"] ok(2) by auto
    have "state_access x (st, m) = Some (st', m')" using n Lfu sk(1) sk'(1) r1(1) r2(1) by (simp add: state_access_def)
    then show ?thesis using kept_trans [OF k kept_trans [OF r1(2) r2(2)]] Lfu by auto
  qed (use assms(2) in auto)
  then show ?thesis using that by blast
qed

lemma state_release_ok:
  assumes "state_ok st m qs" and "x \<in> set (concat qs)"
  obtains st' m' qs' where "state_release x (st, m) = Some (st', m')" "kept st m qs st' m' qs'"
    "\<forall>c. st_policy st = Lru c \<longrightarrow> set (qs' ! 2) = set (qs ! 2) - {x}"
proof (cases "\<exists>c n. st_policy st = Lru c \<and> m x = Some n \<and> nd_queue n = Some 2")
  case True
  then obtain c n where c: "st_policy st = Lru c" "m x = Some n" "nd_queue n = Some 2" by blast
  let ?r = "if mr_priority (nd_record n) = High then 1 else 0 :: nat"
  have "?r < 3" "\<And>qs'. shape_ok (st_policy st) qs'" using c(1) by simp_all
  then obtain st1 m1 qs1 where r1: "move_to x ?r (st, m) = Some (st1, m1)" "kept st m qs st1 m1 qs1"
    "set (qs1 ! 2) = (if ?r = 2 then insert x (set (qs ! 2)) else set (qs ! 2) - {x})"
    using move_kept [OF assms, of ?r] by blast
  have ok: "state_ok st1 m1 qs1" "st_policy st1 = Lru c" using r1(2) c(1) by (auto simp: kept_def)
  obtain st' m' qs' where r2: "demote 1 0 (portion (st_capacity st) (lc_high_priority_percent c)) (st1, m1) = Some (st', m')" "kept st1 m1 qs1 st' m' qs'"
    "qs' ! 2 = qs1 ! 2"
    using demote_kept [OF ok(1), of 1 0 "portion (st_capacity st) (lc_high_priority_percent c)"] ok(2) by auto
  have "state_release x (st, m) = Some (st', m')" using c r1(1) r2(1) by (simp add: state_release_def)
  then show ?thesis using that kept_trans [OF r1(2) r2(2)] r1(3) r2(3) by auto
next
  case False
  obtain n where n: "m x = Some n" using in_queue [OF state_okD(1) [OF assms(1)] assms(2)] by blast
  then have "state_release x (st, m) = Some (st, m)" using False by (auto simp: state_release_def split: policy.splits)
  moreover have "x \<notin> set (qs ! 2)" if "st_policy st = Lru c" for c
    using False that queued [OF state_okD(1) [OF assms(1)], of 2 x] by auto
  ultimately show ?thesis using that [OF _ kept_refl [OF assms(1)]] by blast
qed

lemma state_resize_ok:
  assumes "state_ok st m qs"
  obtains st' m' qs' where "state_resize capacity (st, m) = Some (st', m')" "state_ok st' m' qs'" "recs m' = recs m"
    "mset (concat qs') = mset (concat qs)" "st_policy st' = st_policy st" "st_capacity st' = capacity"
    "\<forall>c. st_policy st = Lru c \<longrightarrow> qs' ! 2 = qs ! 2"
proof -
  have "ghost_books (st_ghost st \<lparr> gh_capacity := capacity \<rparr>)" using state_okD(2) [OF assms] by (simp add: ghost_ok_def ghost_books_def fun_eq_iff)
  then obtain g where g: "ghost_trim (st_ghost st \<lparr> gh_capacity := capacity \<rparr>) = Some g" "ghost_ok g" using ghost_trim_ok by blast
  let ?st = "st \<lparr> st_capacity := capacity, st_ghost := g \<rparr>"
  have ok: "state_ok ?st m qs" using assms g(2) queues_fields [of ?st st m qs] by (simp add: state_ok_def)
  have "\<exists>st' m' qs'. state_resize capacity (st, m) = Some (st', m') \<and> kept ?st m qs st' m' qs' \<and> (\<forall>c. st_policy st = Lru c \<longrightarrow> qs' ! 2 = qs ! 2)"
  proof (cases "st_policy st")
    case (Lru c)
    then obtain st' m' qs' where "demote 1 0 (portion capacity (lc_high_priority_percent c)) (?st, m) = Some (st', m')" "kept ?st m qs st' m' qs'"
      "\<forall>j < 3. j \<noteq> 1 \<longrightarrow> j \<noteq> 0 \<longrightarrow> qs' ! j = qs ! j"
      using demote_kept [OF ok, of 1 0 "portion capacity (lc_high_priority_percent c)"] by auto
    then show ?thesis using Lru g(1) by (intro exI [of _ st'] exI [of _ m'] exI [of _ qs']) (simp add: state_resize_def)
  next
    case (Lfu c)
    then obtain st' m' qs' where "demote 2 1 (portion capacity (lf_protected_percent c)) (?st, m) = Some (st', m')" "kept ?st m qs st' m' qs'"
      using demote_kept [OF ok, of 2 1 "portion capacity (lf_protected_percent c)"] by auto
    then show ?thesis using Lfu g(1) by (intro exI [of _ st'] exI [of _ m'] exI [of _ qs']) (simp add: state_resize_def)
  qed (use g(1) kept_refl [OF ok] in \<open>auto simp: state_resize_def\<close>)
  then obtain st' m' qs' where "state_resize capacity (st, m) = Some (st', m')" "kept ?st m qs st' m' qs'"
    "\<forall>c. st_policy st = Lru c \<longrightarrow> qs' ! 2 = qs ! 2"
    by blast
  then show ?thesis using that [of st' m' qs'] by (simp add: kept_def)
qed

lemma clear_history_ok: "state_ok st m qs \<Longrightarrow> kept st m qs (clear_history st) m qs"
proof -
  assume ok: "state_ok st m qs"
  have "queues (clear_history st) m qs" using state_okD(1) [OF ok] by (simp add: queues_def clear_history_def)
  moreover have "sketch_fits (st_policy st) (st_sketch (clear_history st))"
    using state_okD(3) [OF ok] by (cases "st_policy st") (auto simp: clear_history_def sketch_ok_def)
  ultimately show ?thesis
    using ok by (simp add: kept_def state_ok_def clear_history_def ghost_ok_def ghost_books_def ghost_fits_def fun_eq_iff)
qed

text \<open>Unlinking a queued node leaves the others queued.\<close>

lemma shape_shrink:
  assumes "shape_ok p qs" and "length qs = 3" and "qs ! k = xs @ x # ys"
  shows "shape_ok p (qs[k := xs @ ys])"
  using assms by (cases p; cases "k = 0"; cases "k = 1"; cases "k = 2"; simp)

lemma state_remove_ok:
  assumes "state_ok st m qs" and "x \<in> set (concat qs)"
  obtains st' m' qs' where "state_remove x (st, m) = Some (st', m')" "state_ok st' m' qs'" "recs m' = recs m"
    "mset (concat qs) = add_mset x (mset (concat qs'))" "st_policy st' = st_policy st" "st_capacity st' = st_capacity st"
    "set (qs' ! 2) = set (qs ! 2) - {x}"
proof -
  note q = state_okD(1) [OF assms(1)]
  obtain k xs ys where s: "k < 3" "qs ! k = xs @ x # ys" using in_queue [OF q assms(2)] by metis
  obtain st' m' where r: "state_remove x (st, m) = Some (st', m')" "queues st' m' (qs[k := xs @ ys])" "content m' = content m"
    "config st' = config st" "st_hand st = None \<longrightarrow> st_hand st' = None"
    using remove_queues [OF q s] .
  have "mset (concat qs) = add_mset x (mset (concat (qs[k := xs @ ys])))"
    using mset_concat_update [of k qs "xs @ ys" "{#x#}" "{#}"] s queuesD(1) [OF q] by simp
  moreover have "state_ok st' m' (qs[k := xs @ ys])"
    using r assms(1) shape_shrink [OF state_okD(4) [OF assms(1)] queuesD(1) [OF q] s(2)] by (auto simp: state_ok_def config_def)
  ultimately show ?thesis using that r recs_content [of m' m] unlinked_queue [OF q s, of 2] by (simp add: config_def)
qed

end
