(* ===== verification/Mem_Cache.thy ===== *)
theory Mem_Cache
  imports Mem_Victim
begin

text \<open>
  The sharded memory cache of moat-cache-memory (cache.rs, entry.rs): shards, lookups, prepared
  insertions, removals, clearing, resizing and the release of handles. An operation takes effect
  under its shard's lock, so it is one function of the state. \<open>None\<close> is a panic. A record is named
  by its address \<open>mr_id\<close>; its atomic cells are in \<open>cells\<close>. Counters of type usize wrap, so they
  are words. The crates hashbrown and slab are the parameter \<open>cache_lib\<close>; the hash builder, the
  weigher and the admission filter are the parameter \<open>callbacks\<close>. Notifications are the list
  \<open>mc_events\<close>, in the order in which the listener is called.
\<close>

section \<open>Libraries and callbacks\<close>

record ('t, 's) cache_lib =
  tb_new :: 't
  tb_probe :: "'t \<Rightarrow> u64 \<Rightarrow> nat list"
  tb_insert :: "'t \<Rightarrow> u64 \<Rightarrow> nat \<Rightarrow> (nat \<Rightarrow> u64 option) \<Rightarrow> 't"
  tb_remove :: "'t \<Rightarrow> u64 \<Rightarrow> nat \<Rightarrow> 't"
  sl_new :: 's
  sl_insert :: "'s \<Rightarrow> nat \<times> 's"
  sl_remove :: "'s \<Rightarrow> nat \<Rightarrow> 's"
  sl_iter :: "'s \<Rightarrow> nat list"

record ('k, 'v, 'p) callbacks =
  cb_hash :: "'k \<Rightarrow> u64"
  cb_weigher :: "'k \<Rightarrow> 'v \<Rightarrow> 'p \<Rightarrow> nat"
  cb_admission :: "'k \<Rightarrow> 'v \<Rightarrow> 'p \<Rightarrow> bool"

section \<open>State\<close>

datatype removal_reason = Evicted | Replaced | Removed | Cleared | Rejected

type_synonym ('k, 'v, 'p) removed = "(('k, 'v, 'p) mem_record \<times> removal_reason) list"

record counters =
  cc_insertions :: "u64 list"
  cc_rejections :: "u64 list"
  cc_evictions :: u64
  cc_entries :: u64
  cc_resident :: u64

definition counters_new :: "nat \<Rightarrow> counters" where
  "counters_new shards = \<lparr> cc_insertions = replicate shards 0, cc_rejections = replicate shards 0,
     cc_evictions = 0, cc_entries = 0, cc_resident = 0 \<rparr>"

record cells =
  cl_resident :: "nat \<Rightarrow> bool"
  cl_references :: "nat \<Rightarrow> nat"

record ('k, 'v, 'p, 't, 's) mem_shard =
  sd_index :: 't
  sd_slab :: 's
  sd_nodes :: "('k, 'v, 'p) nodes"
  sd_state :: policy_state
  sd_weight :: nat
  sd_capacity :: nat
  sd_hits :: u64
  sd_misses :: u64

type_synonym ('k, 'v, 'p, 't, 's) work = "('k, 'v, 'p, 't, 's) mem_shard \<times> cells \<times> counters"

record ('k, 'v, 'p) mem_entry =
  en_record :: "('k, 'v, 'p) mem_record"
  en_release :: bool

definition entry_acquire :: "('k, 'v, 'p) mem_record \<Rightarrow> bool \<Rightarrow> cells \<Rightarrow> ('k, 'v, 'p) mem_entry \<times> cells" where
  "entry_acquire r release cl =
     (\<lparr> en_record = r, en_release = release \<rparr>, cl \<lparr> cl_references := (cl_references cl)(mr_id r := cl_references cl (mr_id r) + 1) \<rparr>)"

section \<open>Shards\<close>

text \<open>The search of a table: the closure runs on the probed entries until one of them matches.\<close>

fun find_by :: "(nat \<Rightarrow> bool option) \<Rightarrow> nat list \<Rightarrow> nat option option" where
  "find_by p [] = Some None"
| "find_by p (i # is) = do { b \<leftarrow> p i; if b then Some (Some i) else find_by p is }"

definition shard_find :: "('t, 's) cache_lib \<Rightarrow> ('k, 'v, 'p, 't, 's) mem_shard \<Rightarrow> u64 \<Rightarrow> ('k \<Rightarrow> bool) \<Rightarrow> nat option option" where
  "shard_find lib sh hash equivalent =
     find_by (\<lambda>i. map_option (\<lambda>n. equivalent (mr_key (nd_record n))) (sd_nodes sh i)) (tb_probe lib (sd_index sh) hash)"

definition shard_detach ::
  "('t, 's) cache_lib \<Rightarrow> nat \<Rightarrow> ('k, 'v, 'p, 't, 's) work \<Rightarrow> (('k, 'v, 'p) mem_record \<times> ('k, 'v, 'p, 't, 's) work) option" where
  "shard_detach lib nid = (\<lambda>(sh, cl, cc).
     do { (st, nodes) \<leftarrow> state_remove nid (sd_state sh, sd_nodes sh);
          n \<leftarrow> nodes nid;
          let r = nd_record n;
          found \<leftarrow> find_by (\<lambda>other. Some (other = nid)) (tb_probe lib (sd_index sh) (mr_hash r));
          i \<leftarrow> found;
          w \<leftarrow> checked_sub (sd_weight sh) (mr_weight r);
          Some (r,
            sh \<lparr> sd_index := tb_remove lib (sd_index sh) (mr_hash r) i, sd_slab := sl_remove lib (sd_slab sh) nid,
                 sd_nodes := nodes(nid := None), sd_state := st, sd_weight := w \<rparr>,
            cl \<lparr> cl_resident := (cl_resident cl)(mr_id r := False) \<rparr>,
            cc \<lparr> cc_resident := cc_resident cc - of_nat (mr_weight r), cc_entries := cc_entries cc - 1 \<rparr>) })"

partial_function (option) shard_trim ::
  "('t, 's) cache_lib \<Rightarrow> ('k, 'v, 'p, 't, 's) work \<Rightarrow> ('k, 'v, 'p) removed
     \<Rightarrow> (('k, 'v, 'p) removed \<times> ('k, 'v, 'p, 't, 's) work) option" where
  "shard_trim lib w removed =
     (if sd_weight (fst w) > sd_capacity (fst w) then
        do { (victim, st, nodes) \<leftarrow> state_victim (sd_state (fst w), sd_nodes (fst w));
             let w = ((fst w) \<lparr> sd_state := st, sd_nodes := nodes \<rparr>, snd w);
             case victim of
               None \<Rightarrow> Some (removed, w)
             | Some nid \<Rightarrow> do { (r, w) \<leftarrow> shard_detach lib nid w; shard_trim lib w (removed @ [(r, Evicted)]) } }
      else Some (removed, w))"

section \<open>The cache\<close>

record ('k, 'v, 'p, 't, 's) mem_cache =
  mc_shards :: "('k, 'v, 'p, 't, 's) mem_shard list"
  mc_cells :: cells
  mc_counters :: counters
  mc_capacity :: nat
  mc_mutable_hits :: bool
  mc_release :: bool
  mc_listener :: bool
  mc_events :: "('k, 'v, 'p) removed"
  mc_next :: nat

definition partition_capacity :: "nat \<Rightarrow> nat \<Rightarrow> nat \<Rightarrow> nat" where
  "partition_capacity capacity shards i = capacity div shards + (if i < capacity mod shards then 1 else 0)"

record builder =
  bd_capacity :: nat
  bd_shards :: nat
  bd_policy :: policy
  bd_listener :: bool

definition builder_new :: "nat \<Rightarrow> builder" where
  "builder_new capacity = \<lparr> bd_capacity = capacity, bd_shards = max 1 (min capacity 16), bd_policy = Sieve, bd_listener = False \<rparr>"

definition shard_new :: "('t, 's) cache_lib \<Rightarrow> policy \<Rightarrow> nat \<Rightarrow> ('k, 'v, 'p, 't, 's) mem_shard" where
  "shard_new lib policy capacity =
     \<lparr> sd_index = tb_new lib, sd_slab = sl_new lib, sd_nodes = Map.empty, sd_state = state_new policy capacity,
       sd_weight = 0, sd_capacity = capacity, sd_hits = 0, sd_misses = 0 \<rparr>"

definition cache_build :: "('t, 's) cache_lib \<Rightarrow> builder \<Rightarrow> (string, ('k, 'v, 'p, 't, 's) mem_cache) res" where
  "cache_build lib b =
     (if bd_shards b = 0 then Err ''shards must be nonzero'' else
      rbind (validate (bd_policy b)) (\<lambda>_.
        Ok \<lparr> mc_shards = map (\<lambda>i. shard_new lib (bd_policy b) (partition_capacity (bd_capacity b) (bd_shards b) i)) [0..<bd_shards b],
             mc_cells = \<lparr> cl_resident = \<lambda>_. False, cl_references = \<lambda>_. 0 \<rparr>,
             mc_counters = counters_new (bd_shards b), mc_capacity = bd_capacity b,
             mc_mutable_hits = mutable_hits (bd_policy b),
             mc_release = (case bd_policy b of Lru _ \<Rightarrow> True | _ \<Rightarrow> False),
             mc_listener = bd_listener b, mc_events = [], mc_next = 0 \<rparr>))"

definition mc_shard :: "('k, 'v, 'p, 't, 's) mem_cache \<Rightarrow> u64 \<Rightarrow> nat" where
  "mc_shard c hash = unat hash mod length (mc_shards c)"

text \<open>An operation on the shard at an index, under its lock.\<close>

definition on_shard ::
  "('k, 'v, 'p, 't, 's) mem_cache \<Rightarrow> nat \<Rightarrow> (('k, 'v, 'p, 't, 's) work \<Rightarrow> ('a \<times> ('k, 'v, 'p, 't, 's) work) option)
     \<Rightarrow> ('a \<times> ('k, 'v, 'p, 't, 's) mem_cache) option" where
  "on_shard c i f =
     do { sh \<leftarrow> nth_opt (mc_shards c) i;
          (a, sh, cl, cc) \<leftarrow> f (sh, mc_cells c, mc_counters c);
          Some (a, c \<lparr> mc_shards := (mc_shards c)[i := sh], mc_cells := cl, mc_counters := cc \<rparr>) }"

fun dispatch :: "('k, 'v, 'p) removed \<Rightarrow> ('k, 'v, 'p, 't, 's) mem_cache \<Rightarrow> ('k, 'v, 'p, 't, 's) mem_cache option" where
  "dispatch [] c = Some c"
| "dispatch ((r, reason) # rest) c =
     do { cc \<leftarrow> (case reason of
                    Evicted \<Rightarrow> Some (mc_counters c \<lparr> cc_evictions := cc_evictions (mc_counters c) + 1 \<rparr>)
                  | Rejected \<Rightarrow>
                      do { k \<leftarrow> nth_opt (cc_rejections (mc_counters c)) (mc_shard c (mr_hash r));
                           Some (mc_counters c \<lparr> cc_rejections := (cc_rejections (mc_counters c))[mc_shard c (mr_hash r) := k + 1] \<rparr>) }
                  | _ \<Rightarrow> Some (mc_counters c));
          dispatch rest
            (if mc_listener c
             then c \<lparr> mc_counters := cc, mc_cells := snd (entry_acquire r False (mc_cells c)), mc_events := mc_events c @ [(r, reason)] \<rparr>
             else c \<lparr> mc_counters := cc \<rparr>) }"

section \<open>Handles\<close>

definition shard_release ::
  "('t, 's) cache_lib \<Rightarrow> ('k, 'v, 'p) mem_record \<Rightarrow> ('k, 'v, 'p, 't, 's) work \<Rightarrow> (('k, 'v, 'p) removed \<times> ('k, 'v, 'p, 't, 's) work) option" where
  "shard_release lib r = (\<lambda>(sh, cl, cc).
     if cl_references cl (mr_id r) \<noteq> 0 then Some ([], (sh, cl, cc)) else
     do { found \<leftarrow> find_by (\<lambda>i. map_option (\<lambda>n. mr_id (nd_record n) = mr_id r) (sd_nodes sh i)) (tb_probe lib (sd_index sh) (mr_hash r));
          case found of
            None \<Rightarrow> Some ([], (sh, cl, cc))
          | Some nid \<Rightarrow>
              do { (st, nodes) \<leftarrow> state_release nid (sd_state sh, sd_nodes sh);
                   shard_trim lib (sh \<lparr> sd_state := st, sd_nodes := nodes \<rparr>, cl, cc) [] } })"

definition mc_release_record ::
  "('t, 's) cache_lib \<Rightarrow> ('k, 'v, 'p) mem_record \<Rightarrow> ('k, 'v, 'p, 't, 's) mem_cache \<Rightarrow> ('k, 'v, 'p, 't, 's) mem_cache option" where
  "mc_release_record lib r c =
     do { (removed, c) \<leftarrow> on_shard c (mc_shard c (mr_hash r)) (shard_release lib r);
          dispatch removed c }"

definition entry_clone :: "('k, 'v, 'p) mem_entry \<Rightarrow> cells \<Rightarrow> ('k, 'v, 'p) mem_entry \<times> cells" where
  "entry_clone e = entry_acquire (en_record e) (en_release e)"

definition entry_drop ::
  "('t, 's) cache_lib \<Rightarrow> ('k, 'v, 'p) mem_entry \<Rightarrow> ('k, 'v, 'p, 't, 's) mem_cache \<Rightarrow> ('k, 'v, 'p, 't, 's) mem_cache option" where
  "entry_drop lib e c =
     (let a = mr_id (en_record e); old = cl_references (mc_cells c) a;
          c = c \<lparr> mc_cells := mc_cells c \<lparr> cl_references := (cl_references (mc_cells c))(a := old - 1) \<rparr> \<rparr> in
      if old = 1 \<and> cl_resident (mc_cells c) a \<and> en_release e then mc_release_record lib (en_record e) c else Some c)"

section \<open>Lookups\<close>

record 'k probe =
  pb_hash :: u64
  pb_equivalent :: "'k \<Rightarrow> bool"

definition shard_lookup ::
  "('t, 's) cache_lib \<Rightarrow> bool \<Rightarrow> bool \<Rightarrow> 'k probe \<Rightarrow> ('k, 'v, 'p, 't, 's) work
     \<Rightarrow> (('k, 'v, 'p) mem_entry option \<times> ('k, 'v, 'p, 't, 's) work) option" where
  "shard_lookup lib mutable release q = (\<lambda>(sh, cl, cc).
     do { found \<leftarrow> shard_find lib sh (pb_hash q) (pb_equivalent q);
          case found of
            None \<Rightarrow> Some (None, sh \<lparr> sd_misses := sd_misses sh + 1 \<rparr>, cl, cc)
          | Some nid \<Rightarrow>
              do { n \<leftarrow> sd_nodes sh nid;
                   let (e, cl) = entry_acquire (nd_record n) (mutable \<and> release) cl;
                   (st, nodes) \<leftarrow> (if mutable then state_access nid (sd_state sh, sd_nodes sh)
                                   else access_shared nid (sd_state sh, sd_nodes sh));
                   Some (Some e, sh \<lparr> sd_hits := sd_hits sh + 1, sd_state := st, sd_nodes := nodes \<rparr>, cl, cc) } })"

definition get_hashed ::
  "('t, 's) cache_lib \<Rightarrow> 'k probe \<Rightarrow> ('k, 'v, 'p, 't, 's) mem_cache
     \<Rightarrow> (('k, 'v, 'p) mem_entry option \<times> ('k, 'v, 'p, 't, 's) mem_cache) option" where
  "get_hashed lib q c = on_shard c (mc_shard c (pb_hash q)) (shard_lookup lib (mc_mutable_hits c) (mc_release c) q)"

definition cache_contains :: "('t, 's) cache_lib \<Rightarrow> 'k probe \<Rightarrow> ('k, 'v, 'p, 't, 's) mem_cache \<Rightarrow> bool option" where
  "cache_contains lib q c =
     do { sh \<leftarrow> nth_opt (mc_shards c) (mc_shard c (pb_hash q));
          found \<leftarrow> shard_find lib sh (pb_hash q) (pb_equivalent q);
          Some (found \<noteq> None) }"

section \<open>Insertions\<close>

record ('k, 'v, 'p) prepared =
  pr_entry :: "('k, 'v, 'p) mem_entry"
  pr_admitted :: bool

record ('k, 'v, 'p) change =
  ch_entry :: "('k, 'v, 'p) mem_entry option"
  ch_removed :: "('k, 'v, 'p) removed"
  ch_rejected :: "('k, 'v, 'p) mem_record option"

definition prepare_hashed ::
  "('k, 'v, 'p) callbacks \<Rightarrow> 'k \<Rightarrow> 'v \<Rightarrow> 'p \<Rightarrow> priority \<Rightarrow> u64 \<Rightarrow> ('k, 'v, 'p, 't, 's) mem_cache
     \<Rightarrow> (('k, 'v, 'p) prepared \<times> ('k, 'v, 'p, 't, 's) mem_cache) option" where
  "prepare_hashed cb key val props prio hash c =
     do { let weight = max (cb_weigher cb key val props) 1;
          let admitted = cb_admission cb key val props;
          let i = mc_shard c hash;
          k \<leftarrow> nth_opt (cc_insertions (mc_counters c)) i;
          let r = \<lparr> mr_id = mc_next c, mr_key = key, mr_value = val, mr_properties = props, mr_hash = hash,
                    mr_weight = weight, mr_priority = prio \<rparr>;
          let cl = mc_cells c \<lparr> cl_resident := (cl_resident (mc_cells c))(mc_next c := False),
                                cl_references := (cl_references (mc_cells c))(mc_next c := 0) \<rparr>;
          let (e, cl) = entry_acquire r (mc_release c) cl;
          Some (\<lparr> pr_entry = e, pr_admitted = admitted \<rparr>,
            c \<lparr> mc_counters := mc_counters c \<lparr> cc_insertions := (cc_insertions (mc_counters c))[i := k + 1] \<rparr>,
                mc_cells := cl, mc_next := mc_next c + 1 \<rparr>) }"

definition cache_prepare ::
  "('k, 'v, 'p) callbacks \<Rightarrow> 'k \<Rightarrow> 'v \<Rightarrow> 'p \<Rightarrow> priority \<Rightarrow> ('k, 'v, 'p, 't, 's) mem_cache
     \<Rightarrow> (('k, 'v, 'p) prepared \<times> ('k, 'v, 'p, 't, 's) mem_cache) option" where
  "cache_prepare cb key val props prio = prepare_hashed cb key val props prio (cb_hash cb key)"

definition probe_prepare ::
  "('k, 'v, 'p) callbacks \<Rightarrow> 'k probe \<Rightarrow> 'k \<Rightarrow> 'v \<Rightarrow> 'p \<Rightarrow> priority \<Rightarrow> ('k, 'v, 'p, 't, 's) mem_cache
     \<Rightarrow> (('k, 'v, 'p) prepared option \<times> ('k, 'v, 'p, 't, 's) mem_cache) option" where
  "probe_prepare cb q key val props prio c =
     (if pb_equivalent q key
      then do { (p, c) \<leftarrow> prepare_hashed cb key val props prio (pb_hash q) c; Some (Some p, c) }
      else Some (None, c))"

definition reject_residency :: "('k, 'v, 'p) prepared \<Rightarrow> ('k, 'v, 'p) prepared" where
  "reject_residency p = p \<lparr> pr_admitted := False \<rparr>"

text \<open>The branch of \<open>commit_entry\<close> that makes the version resident, and the one that detaches its predecessor.\<close>

definition shard_admit ::
  "('t, 's) cache_lib \<Rightarrow> ('k, 'v, 'p) mem_record \<Rightarrow> ('k, 'v, 'p) removed \<Rightarrow> ('k, 'v, 'p, 't, 's) work
     \<Rightarrow> (('k, 'v, 'p) removed \<times> ('k, 'v, 'p, 't, 's) work) option" where
  "shard_admit lib r removed = (\<lambda>(sh, cl, cc).
     do { let (nid, slab) = sl_insert lib (sd_slab sh);
          let nodes = (sd_nodes sh)(nid \<mapsto> \<lparr> nd_record = r, nd_prev = None, nd_next = None, nd_queue = None, nd_frequency = 0 \<rparr>);
          let table = tb_insert lib (sd_index sh) (mr_hash r) nid (\<lambda>i. map_option (\<lambda>n. mr_hash (nd_record n)) (nodes i));
          (st, nodes) \<leftarrow> state_insert nid (sd_state sh, nodes);
          (removed, sh, cl, cc) \<leftarrow> shard_trim lib
            (sh \<lparr> sd_index := table, sd_slab := slab, sd_nodes := nodes, sd_state := st, sd_weight := sd_weight sh + mr_weight r \<rparr>,
             cl \<lparr> cl_resident := (cl_resident cl)(mr_id r := True) \<rparr>,
             cc \<lparr> cc_resident := cc_resident cc + of_nat (mr_weight r), cc_entries := cc_entries cc + 1 \<rparr>) removed;
          if sd_weight sh > sd_capacity sh \<and> cl_resident cl (mr_id r)
          then do { (r, w) \<leftarrow> shard_detach lib nid (sh, cl, cc); Some (removed @ [(r, Rejected)], w) }
          else Some (removed, sh, cl, cc) })"

definition shard_replace ::
  "('t, 's) cache_lib \<Rightarrow> ('k, 'v, 'p) mem_record \<Rightarrow> ('k, 'v, 'p, 't, 's) work \<Rightarrow> (('k, 'v, 'p) removed \<times> ('k, 'v, 'p, 't, 's) work) option" where
  "shard_replace lib r w =
     do { found \<leftarrow> shard_find lib (fst w) (mr_hash r) (\<lambda>k. mr_key r = k);
          case found of
            None \<Rightarrow> Some ([], w)
          | Some nid \<Rightarrow> do { (old, w) \<leftarrow> shard_detach lib nid w; Some ([(old, Replaced)], w) } }"

definition shard_commit ::
  "('t, 's) cache_lib \<Rightarrow> ('k, 'v, 'p) mem_record \<Rightarrow> bool \<Rightarrow> ('k, 'v, 'p, 't, 's) work
     \<Rightarrow> (('k, 'v, 'p) removed \<times> ('k, 'v, 'p, 't, 's) work) option" where
  "shard_commit lib r admitted w =
     do { (removed, w) \<leftarrow> shard_replace lib r w;
          if admitted \<and> mr_weight r \<le> sd_capacity (fst w) \<and> sd_weight (fst w) + mr_weight r < 2 ^ 64
          then shard_admit lib r removed w
          else Some (removed @ [(r, Rejected)], w) }"

definition commit_entry ::
  "('t, 's) cache_lib \<Rightarrow> ('k, 'v, 'p) mem_entry \<Rightarrow> bool \<Rightarrow> ('k, 'v, 'p, 't, 's) mem_cache
     \<Rightarrow> (('k, 'v, 'p) change \<times> ('k, 'v, 'p, 't, 's) mem_cache) option" where
  "commit_entry lib e admitted c =
     do { (removed, c) \<leftarrow> on_shard c (mc_shard c (mr_hash (en_record e))) (shard_commit lib (en_record e) admitted);
          Some (\<lparr> ch_entry = Some e, ch_removed = removed, ch_rejected = None \<rparr>, c) }"

definition prepared_commit ::
  "('t, 's) cache_lib \<Rightarrow> ('k, 'v, 'p) prepared \<Rightarrow> ('k, 'v, 'p, 't, 's) mem_cache
     \<Rightarrow> (('k, 'v, 'p) change \<times> ('k, 'v, 'p, 't, 's) mem_cache) option" where
  "prepared_commit lib p = commit_entry lib (pr_entry p) (pr_admitted p)"

definition prepared_promote ::
  "('t, 's) cache_lib \<Rightarrow> ('k, 'v, 'p) prepared \<Rightarrow> ('k, 'v, 'p, 't, 's) mem_cache
     \<Rightarrow> (('k, 'v, 'p) change \<times> ('k, 'v, 'p, 't, 's) mem_cache) option" where
  "prepared_promote lib p c =
     (if pr_admitted p then prepared_commit lib p c
      else Some (\<lparr> ch_entry = Some (pr_entry p), ch_removed = [], ch_rejected = Some (en_record (pr_entry p)) \<rparr>, c))"

definition change_notify ::
  "('k, 'v, 'p) change \<Rightarrow> ('k, 'v, 'p, 't, 's) mem_cache \<Rightarrow> (('k, 'v, 'p) change \<times> ('k, 'v, 'p, 't, 's) mem_cache) option" where
  "change_notify ch c =
     do { c \<leftarrow> dispatch (ch_removed ch @ (case ch_rejected ch of None \<Rightarrow> [] | Some r \<Rightarrow> [(r, Rejected)])) c;
          Some (ch \<lparr> ch_removed := [], ch_rejected := None \<rparr>, c) }"

definition change_finish ::
  "('k, 'v, 'p) change \<Rightarrow> ('k, 'v, 'p, 't, 's) mem_cache \<Rightarrow> (('k, 'v, 'p) mem_entry option \<times> ('k, 'v, 'p, 't, 's) mem_cache) option" where
  "change_finish ch c = do { (ch, c) \<leftarrow> change_notify ch c; Some (ch_entry ch, c) }"

definition insert_with ::
  "('t, 's) cache_lib \<Rightarrow> ('k, 'v, 'p) callbacks \<Rightarrow> 'k \<Rightarrow> 'v \<Rightarrow> 'p \<Rightarrow> priority \<Rightarrow> ('k, 'v, 'p, 't, 's) mem_cache
     \<Rightarrow> (('k, 'v, 'p) mem_entry \<times> ('k, 'v, 'p, 't, 's) mem_cache) option" where
  "insert_with lib cb key val props prio c =
     do { (p, c) \<leftarrow> cache_prepare cb key val props prio c;
          (ch, c) \<leftarrow> prepared_commit lib p c;
          (e, c) \<leftarrow> change_finish ch c;
          e \<leftarrow> e;
          Some (e, c) }"

section \<open>Removals\<close>

definition shard_take ::
  "('t, 's) cache_lib \<Rightarrow> 'k probe \<Rightarrow> ('k, 'v, 'p, 't, 's) work \<Rightarrow> (('k, 'v, 'p) mem_record option \<times> ('k, 'v, 'p, 't, 's) work) option" where
  "shard_take lib q w =
     do { found \<leftarrow> shard_find lib (fst w) (pb_hash q) (pb_equivalent q);
          case found of
            None \<Rightarrow> Some (None, w)
          | Some nid \<Rightarrow> do { (r, w) \<leftarrow> shard_detach lib nid w; Some (Some r, w) } }"

definition remove_deferred ::
  "('t, 's) cache_lib \<Rightarrow> 'k probe \<Rightarrow> ('k, 'v, 'p, 't, 's) mem_cache
     \<Rightarrow> (('k, 'v, 'p) change \<times> ('k, 'v, 'p, 't, 's) mem_cache) option" where
  "remove_deferred lib q c =
     do { (r, c) \<leftarrow> on_shard c (mc_shard c (pb_hash q)) (shard_take lib q);
          case r of
            None \<Rightarrow> Some (\<lparr> ch_entry = None, ch_removed = [], ch_rejected = None \<rparr>, c)
          | Some r \<Rightarrow>
              do { let (e, cl) = entry_acquire r False (mc_cells c);
                   Some (\<lparr> ch_entry = Some e, ch_removed = [(r, Removed)], ch_rejected = None \<rparr>, c \<lparr> mc_cells := cl \<rparr>) } }"

definition cache_remove ::
  "('t, 's) cache_lib \<Rightarrow> 'k probe \<Rightarrow> ('k, 'v, 'p, 't, 's) mem_cache
     \<Rightarrow> (('k, 'v, 'p) mem_entry option \<times> ('k, 'v, 'p, 't, 's) mem_cache) option" where
  "cache_remove lib q c = do { (ch, c) \<leftarrow> remove_deferred lib q c; change_finish ch c }"

fun detach_all ::
  "('t, 's) cache_lib \<Rightarrow> nat list \<Rightarrow> ('k, 'v, 'p) removed \<Rightarrow> ('k, 'v, 'p, 't, 's) work
     \<Rightarrow> (('k, 'v, 'p) removed \<times> ('k, 'v, 'p, 't, 's) work) option" where
  "detach_all lib [] removed w = Some (removed, w)"
| "detach_all lib (i # is) removed w =
     do { (r, w) \<leftarrow> shard_detach lib i w; detach_all lib is (removed @ [(r, Cleared)]) w }"

definition shard_clear ::
  "('t, 's) cache_lib \<Rightarrow> ('k, 'v, 'p, 't, 's) work \<Rightarrow> (('k, 'v, 'p) removed \<times> ('k, 'v, 'p, 't, 's) work) option" where
  "shard_clear lib w =
     do { (removed, sh, rest) \<leftarrow> detach_all lib (sl_iter lib (sd_slab (fst w))) [] w;
          Some (removed, sh \<lparr> sd_state := clear_history (sd_state sh) \<rparr>, rest) }"

fun clear_shards ::
  "('t, 's) cache_lib \<Rightarrow> nat list \<Rightarrow> ('k, 'v, 'p, 't, 's) mem_cache \<Rightarrow> ('k, 'v, 'p, 't, 's) mem_cache option" where
  "clear_shards lib [] c = Some c"
| "clear_shards lib (i # is) c =
     do { (removed, c) \<leftarrow> on_shard c i (shard_clear lib); c \<leftarrow> dispatch removed c; clear_shards lib is c }"

definition cache_clear :: "('t, 's) cache_lib \<Rightarrow> ('k, 'v, 'p, 't, 's) mem_cache \<Rightarrow> ('k, 'v, 'p, 't, 's) mem_cache option" where
  "cache_clear lib c = clear_shards lib [0..<length (mc_shards c)] c"

section \<open>Resizing\<close>

definition shard_resize ::
  "('t, 's) cache_lib \<Rightarrow> nat \<Rightarrow> ('k, 'v, 'p) removed \<Rightarrow> ('k, 'v, 'p, 't, 's) work
     \<Rightarrow> (('k, 'v, 'p) removed \<times> ('k, 'v, 'p, 't, 's) work) option" where
  "shard_resize lib capacity removed = (\<lambda>(sh, rest).
     do { (st, nodes) \<leftarrow> state_resize capacity (sd_state sh, sd_nodes sh);
          shard_trim lib (sh \<lparr> sd_capacity := capacity, sd_state := st, sd_nodes := nodes \<rparr>, rest) removed })"

fun resize_shards ::
  "('t, 's) cache_lib \<Rightarrow> nat \<Rightarrow> nat list \<Rightarrow> ('k, 'v, 'p) removed \<Rightarrow> ('k, 'v, 'p, 't, 's) mem_cache
     \<Rightarrow> (('k, 'v, 'p) removed \<times> ('k, 'v, 'p, 't, 's) mem_cache) option" where
  "resize_shards lib capacity [] removed c = Some (removed, c)"
| "resize_shards lib capacity (i # is) removed c =
     do { (removed, c) \<leftarrow> on_shard c i (shard_resize lib (partition_capacity capacity (length (mc_shards c)) i) removed);
          resize_shards lib capacity is removed c }"

definition cache_resize :: "('t, 's) cache_lib \<Rightarrow> nat \<Rightarrow> ('k, 'v, 'p, 't, 's) mem_cache \<Rightarrow> ('k, 'v, 'p, 't, 's) mem_cache option" where
  "cache_resize lib capacity c =
     do { (removed, c) \<leftarrow> resize_shards lib capacity [0..<length (mc_shards c)] [] c;
          dispatch removed (c \<lparr> mc_capacity := capacity \<rparr>) }"

section \<open>Observations\<close>

record statistics =
  ss_hits :: u64
  ss_misses :: u64
  ss_insertions :: u64
  ss_evictions :: u64
  ss_rejections :: u64
  ss_entries :: u64
  ss_resident_weight :: u64

definition cache_statistics :: "('k, 'v, 'p, 't, 's) mem_cache \<Rightarrow> statistics" where
  "cache_statistics c =
     (let cc = mc_counters c; (hits, misses) = foldl (\<lambda>(hits, misses) sh. (hits + sd_hits sh, misses + sd_misses sh)) (0, 0) (mc_shards c) in
      \<lparr> ss_hits = hits, ss_misses = misses, ss_insertions = foldl (+) 0 (cc_insertions cc), ss_evictions = cc_evictions cc,
        ss_rejections = foldl (+) 0 (cc_rejections cc), ss_entries = cc_entries cc, ss_resident_weight = cc_resident cc \<rparr>)"

definition cache_len :: "('k, 'v, 'p, 't, 's) mem_cache \<Rightarrow> u64" where
  "cache_len c = cc_entries (mc_counters c)"

definition cache_is_empty :: "('k, 'v, 'p, 't, 's) mem_cache \<Rightarrow> bool" where
  "cache_is_empty c \<longleftrightarrow> cache_len c = 0"

text \<open>Dropping the cache marks every resident version nonresident.\<close>

fun drop_nodes :: "('k, 'v, 'p) nodes \<Rightarrow> nat list \<Rightarrow> cells \<Rightarrow> cells option" where
  "drop_nodes nodes [] cl = Some cl"
| "drop_nodes nodes (i # is) cl =
     do { n \<leftarrow> nodes i; drop_nodes nodes is (cl \<lparr> cl_resident := (cl_resident cl)(mr_id (nd_record n) := False) \<rparr>) }"

fun drop_shards :: "('t, 's) cache_lib \<Rightarrow> ('k, 'v, 'p, 't, 's) mem_shard list \<Rightarrow> cells \<Rightarrow> cells option" where
  "drop_shards lib [] cl = Some cl"
| "drop_shards lib (sh # shards) cl =
     do { cl \<leftarrow> drop_nodes (sd_nodes sh) (sl_iter lib (sd_slab sh)) cl; drop_shards lib shards cl }"

end
