(* ===== verification/Mem_Shard.thy ===== *)
theory Mem_Shard
  imports Mem_Cache
begin

text \<open>
  One shard of the memory cache: the contract of the table and slab crates, the invariant that ties
  index, slab, queues, weights and pins together, and what detaching, trimming and committing do to
  the set of versions the shard holds.
\<close>

section \<open>The contract of the libraries\<close>

locale cache_libraries =
  fixes lib :: "('t, 's) cache_lib" and items :: "'t \<Rightarrow> (u64 \<times> nat) set" and keys :: "'s \<Rightarrow> nat set"
  assumes items_new: "items (tb_new lib) = {}"
    and probe_complete: "(h, x) \<in> items t \<Longrightarrow> x \<in> set (tb_probe lib t h)"
    and probe_sound: "x \<in> set (tb_probe lib t h) \<Longrightarrow> \<exists>h'. (h', x) \<in> items t"
    and items_insert: "(h, x) \<notin> items t \<Longrightarrow> (\<And>h' y. (h', y) \<in> items t \<Longrightarrow> hasher y = Some h')
      \<Longrightarrow> items (tb_insert lib t h x hasher) = insert (h, x) (items t)"
    and items_remove: "(h, x) \<in> items t \<Longrightarrow> items (tb_remove lib t h x) = items t - {(h, x)}"
    and keys_new: "keys (sl_new lib) = {}"
    and keys_insert: "sl_insert lib s = (x, s') \<Longrightarrow> x \<notin> keys s \<and> keys s' = insert x (keys s)"
    and keys_remove: "x \<in> keys s \<Longrightarrow> keys (sl_remove lib s x) = keys s - {x}"
    and keys_iter: "set (sl_iter lib s) = keys s" "distinct (sl_iter lib s)"

section \<open>The invariant of a shard\<close>

definition held :: "('k, 'v, 'p) nodes \<Rightarrow> ('k, 'v, 'p) mem_record multiset" where
  "held m = image_mset (\<lambda>x. the (recs m x)) (mset_set (dom m))"

definition wsum :: "('k, 'v, 'p) mem_record multiset \<Rightarrow> nat" where
  "wsum R = \<Sum>\<^sub># (image_mset mr_weight R)"

definition is_lru :: "policy \<Rightarrow> bool" where
  "is_lru p \<longleftrightarrow> (case p of Lru _ \<Rightarrow> True | _ \<Rightarrow> False)"

definition entries :: "('k, 'v, 'p) nodes \<Rightarrow> (u64 \<times> nat) set" where
  "entries m = {(mr_hash r, x) | x r. recs m x = Some r}"

definition unique_keys :: "('k, 'v, 'p) nodes \<Rightarrow> bool" where
  "unique_keys m \<longleftrightarrow> (\<forall>x y r s. recs m x = Some r \<longrightarrow> recs m y = Some s \<longrightarrow> (mr_key r = mr_key s \<or> mr_id r = mr_id s) \<longrightarrow> x = y)"

definition shard_ok ::
  "('t \<Rightarrow> (u64 \<times> nat) set) \<Rightarrow> ('s \<Rightarrow> nat set) \<Rightarrow> (('k, 'v, 'p) mem_record \<Rightarrow> bool) \<Rightarrow> (nat \<Rightarrow> nat)
     \<Rightarrow> ('k, 'v, 'p, 't, 's) mem_shard \<Rightarrow> nat list list \<Rightarrow> bool" where
  "shard_ok items keys good refs sh qs \<longleftrightarrow>
     state_ok (sd_state sh) (sd_nodes sh) qs \<and> mset (concat qs) = mset_set (dom (sd_nodes sh)) \<and> finite (dom (sd_nodes sh))
     \<and> keys (sd_slab sh) = dom (sd_nodes sh) \<and> items (sd_index sh) = entries (sd_nodes sh) \<and> unique_keys (sd_nodes sh)
     \<and> sd_weight sh = wsum (held (sd_nodes sh)) \<and> st_capacity (sd_state sh) = sd_capacity sh
     \<and> (\<forall>r \<in># held (sd_nodes sh). good r)
     \<and> (is_lru (st_policy (sd_state sh)) \<longrightarrow> (\<forall>x r. recs (sd_nodes sh) x = Some r \<longrightarrow> (x \<in> set (qs ! 2) \<longleftrightarrow> refs (mr_id r) \<noteq> 0)))"

lemma shard_okD:
  assumes "shard_ok items keys good refs sh qs"
  shows "state_ok (sd_state sh) (sd_nodes sh) qs" "mset (concat qs) = mset_set (dom (sd_nodes sh))" "finite (dom (sd_nodes sh))"
    "keys (sd_slab sh) = dom (sd_nodes sh)" "items (sd_index sh) = entries (sd_nodes sh)" "unique_keys (sd_nodes sh)"
    "sd_weight sh = wsum (held (sd_nodes sh))" "st_capacity (sd_state sh) = sd_capacity sh"
    "r \<in># held (sd_nodes sh) \<Longrightarrow> good r"
    "is_lru (st_policy (sd_state sh)) \<Longrightarrow> recs (sd_nodes sh) x = Some r \<Longrightarrow> x \<in> set (qs ! 2) \<longleftrightarrow> refs (mr_id r) \<noteq> 0"
  using assms by (auto simp: shard_ok_def)

lemma is_lru_iff: "is_lru p \<longleftrightarrow> (\<exists>c. p = Lru c)"
  by (simp add: is_lru_def split: policy.splits)

lemma held_cong: "recs m' = recs m \<Longrightarrow> held m' = held m"
  using recs_dom [of m' m] by (simp add: held_def)

lemma entries_cong: "recs m' = recs m \<Longrightarrow> entries m' = entries m"
  by (simp add: entries_def)

lemma unique_keys_cong: "recs m' = recs m \<Longrightarrow> unique_keys m' = unique_keys m"
  by (simp add: unique_keys_def)

lemma recs_upd: "recs (m(x \<mapsto> n)) = (recs m)(x \<mapsto> nd_record n)" "recs (m(x := None)) = (recs m)(x := None)"
  by (auto simp: recs_def)

lemma held_iff: "finite (dom m) \<Longrightarrow> r \<in># held m \<longleftrightarrow> (\<exists>x. recs m x = Some r)"
  by (force simp: held_def recs_def)

lemma held_remove:
  assumes "finite (dom m)" and "recs m x = Some r"
  shows "held m = add_mset r (held (m(x := None)))"
proof -
  have x: "x \<in> dom m" using assms(2) by (auto simp: recs_def)
  have "held (m(x := None)) = image_mset (\<lambda>y. the (recs m y)) (mset_set (dom m - {x}))"
    unfolding held_def recs_upd using assms(1) by (auto intro!: image_mset_cong)
  then show ?thesis unfolding held_def using mset_set.remove [OF assms(1) x] assms(2) by simp
qed

lemma held_insert:
  assumes "finite (dom m)" and "m x = None"
  shows "held (m(x \<mapsto> n)) = add_mset (nd_record n) (held m)"
proof -
  have "finite (dom (m(x \<mapsto> n)))" using assms(1) by simp
  from held_remove [OF this, of x "nd_record n"] have "held (m(x \<mapsto> n)) = add_mset (nd_record n) (held (m(x := None)))"
    by (simp add: recs_upd)
  moreover have "m(x := None) = m" using assms(2) by auto
  ultimately show ?thesis by simp
qed

lemma wsum_simps [simp]: "wsum {#} = 0" "wsum (add_mset r R) = mr_weight r + wsum R" "wsum (R + S) = wsum R + wsum S"
  by (simp_all add: wsum_def)

lemma shard_ok_kept:
  assumes ok: "shard_ok items keys good refs sh qs" and k: "kept (sd_state sh) (sd_nodes sh) qs st m qs'"
    and pins: "is_lru (st_policy (sd_state sh)) \<Longrightarrow> \<forall>x r. recs (sd_nodes sh) x = Some r \<longrightarrow> (x \<in> set (qs' ! 2) \<longleftrightarrow> refs' (mr_id r) \<noteq> 0)"
  shows "shard_ok items keys good refs' (sh \<lparr> sd_state := st, sd_nodes := m \<rparr>) qs'"
proof -
  have r: "recs m = recs (sd_nodes sh)" using k by (simp add: kept_def)
  have d: "dom m = dom (sd_nodes sh)" using recs_dom [OF r] .
  show ?thesis
    using ok k pins d held_cong [OF r] entries_cong [OF r] unique_keys_cong [OF r] unfolding shard_ok_def kept_def by simp
qed

lemma multiset_parts:
  assumes "M + N = mset_set A" and "a \<in># M"
  shows "a \<notin># N"
proof
  assume "a \<in># N"
  then have "0 < count N a" "0 < count M a" using assms(2) by simp_all
  then have "2 \<le> count (M + N) a" unfolding count_union by linarith
  then show False using assms(1) by (simp split: if_splits add: count_mset_set')
qed

lemma held_parts:
  assumes u: "unique_keys m" and fin: "finite (dom m)" and split: "held m = M + N" and in_parts: "s \<in># M" "t \<in># N"
  shows "mr_id s \<noteq> mr_id t" "mr_key s \<noteq> mr_key t" "s \<noteq> t"
proof -
  have rec: "\<exists>r. recs m x = Some r" if "x \<in> dom m" for x using that by (auto simp: recs_def)
  have "inj_on (\<lambda>x. mr_id (the (recs m x))) (dom m)"
    by (intro inj_onI) (use u rec in \<open>unfold unique_keys_def, metis option.sel\<close>)
  moreover have "image_mset mr_id M + image_mset mr_id N = image_mset (\<lambda>x. mr_id (the (recs m x))) (mset_set (dom m))"
    unfolding image_mset_union [symmetric] split [symmetric] by (simp add: held_def image_mset.compositionality comp_def)
  ultimately have "image_mset mr_id M + image_mset mr_id N = mset_set ((\<lambda>x. mr_id (the (recs m x))) ` dom m)"
    by (simp add: image_mset_mset_set)
  then show "mr_id s \<noteq> mr_id t" using multiset_parts [of _ _ _ "mr_id s"] in_parts by (metis imageI set_image_mset)
  have "inj_on (\<lambda>x. mr_key (the (recs m x))) (dom m)"
    by (intro inj_onI) (use u rec in \<open>unfold unique_keys_def, metis option.sel\<close>)
  moreover have "image_mset mr_key M + image_mset mr_key N = image_mset (\<lambda>x. mr_key (the (recs m x))) (mset_set (dom m))"
    unfolding image_mset_union [symmetric] split [symmetric] by (simp add: held_def image_mset.compositionality comp_def)
  ultimately have "image_mset mr_key M + image_mset mr_key N = mset_set ((\<lambda>x. mr_key (the (recs m x))) ` dom m)"
    by (simp add: image_mset_mset_set)
  then show "mr_key s \<noteq> mr_key t" using multiset_parts [of _ _ _ "mr_key s"] in_parts by (metis imageI set_image_mset)
  then show "s \<noteq> t" by blast
qed

text \<open>The shard, the cells and the counters after the versions \<open>E\<close> have left.\<close>

definition lost :: "('k, 'v, 'p, 't, 's) work \<Rightarrow> ('k, 'v, 'p) mem_record list \<Rightarrow> ('k, 'v, 'p, 't, 's) work \<Rightarrow> bool" where
  "lost w E w' \<longleftrightarrow> (case (w, w') of ((sh, cl, cc), (sh', cl', cc')) \<Rightarrow>
     held (sd_nodes sh) = held (sd_nodes sh') + mset E
     \<and> cl' = cl \<lparr> cl_resident := \<lambda>a. cl_resident cl a \<and> a \<notin> mr_id ` set E \<rparr>
     \<and> cc' = cc \<lparr> cc_resident := cc_resident cc - of_nat (wsum (mset E)), cc_entries := cc_entries cc - of_nat (length E) \<rparr>
     \<and> sd_capacity sh' = sd_capacity sh \<and> sd_hits sh' = sd_hits sh \<and> sd_misses sh' = sd_misses sh
     \<and> st_policy (sd_state sh') = st_policy (sd_state sh))"

lemma lost_refl: "lost w [] w"
  by (cases w) (simp add: lost_def)

lemma lost_trans: "lost w E w1 \<Longrightarrow> lost w1 F w2 \<Longrightarrow> lost w (E @ F) w2"
  by (cases w; cases w1; cases w2) (auto simp: lost_def image_Un)

lemma lost_kept:
  "kept (sd_state sh) (sd_nodes sh) qs st m qs' \<Longrightarrow> lost (sh, cl, cc) [] (sh \<lparr> sd_state := st, sd_nodes := m \<rparr>, cl, cc)"
  using held_cong [of m "sd_nodes sh"] by (simp add: lost_def kept_def)

section \<open>Finding and detaching\<close>

lemma find_by_total: "(\<And>i. i \<in> set is \<Longrightarrow> \<exists>b. p i = Some b) \<Longrightarrow> \<exists>y. find_by p is = Some y"
  by (induction "is") fastforce+

lemma find_by_Some: "find_by p is = Some (Some i) \<Longrightarrow> i \<in> set is \<and> p i = Some True"
  by (induction "is") (auto simp: bind_eq_Some_conv split: if_splits)

lemma find_by_None: "find_by p is = Some None \<Longrightarrow> i \<in> set is \<Longrightarrow> p i = Some False"
  by (induction "is") (auto simp: bind_eq_Some_conv split: if_splits)

lemma entries_remove:
  assumes "recs m x = Some r"
  shows "entries (m(x := None)) = entries m - {(mr_hash r, x)}"
proof (intro set_eqI)
  fix a
  show "a \<in> entries (m(x := None)) \<longleftrightarrow> a \<in> entries m - {(mr_hash r, x)}"
    using assms by (cases "snd a = x") (auto simp: entries_def recs_upd)
qed

lemma state_ok_outside:
  assumes "state_ok st m qs" and "x \<notin> set (concat qs)" and "\<And>y. y \<noteq> x \<Longrightarrow> m' y = m y" and "\<And>n. m' x = Some n \<Longrightarrow> nd_queue n = None"
  shows "state_ok st m' qs"
proof -
  note q = state_okD(1) [OF assms(1)]
  have out: "x \<notin> set (qs ! k)" if "k < 3" for k using assms(2) queuesD(1) [OF q] that by (metis UN_I nth_mem set_concat)
  have "queue_ok m' k l (qs ! k) = queue_ok m k l (qs ! k)" if k: "k < 3" for k l
  proof -
    have same: "m' y = m y" if "y \<in> set (qs ! k)" for y using out [OF k] assms(3) that by metis
    have "map (wt m') (qs ! k) = map (wt m) (qs ! k)" using same by (simp add: wt_def content_def)
    then have "sum_list (map (wt m') (qs ! k)) = sum_list (map (wt m) (qs ! k))" by (rule arg_cong)
    then show ?thesis using dll_frame [of "qs ! k" m' m, OF same] unfolding queue_ok_def by metis
  qed
  moreover have "nd_queue n = None" if "m' y = Some n" "y \<notin> set (concat qs)" for y n
    using that assms(3,4) queuesD(5) [OF q] by (cases "y = x") auto
  ultimately have "queues st m' qs" using q unfolding queues_def by blast
  then show ?thesis using assms(1) by (simp add: state_ok_def)
qed

lemma mset_remove:
  assumes "mset (concat qs) = add_mset x (mset (concat qs'))" and "mset (concat qs) = mset_set D" and "finite D"
  shows "mset (concat qs') = mset_set (D - {x})"
proof -
  have "x \<in># mset_set D" using assms(1,2) by (metis union_single_eq_member)
  then have "mset_set D = add_mset x (mset_set (D - {x}))" using assms(3) by (simp add: mset_set.remove)
  then show ?thesis using assms(1,2) by simp
qed

text \<open>
  What trimming does: versions leave while the shard is over its budget, never a pinned one, and
  the loop ends within the budget or with pinned versions only.
\<close>

definition trimmed ::
  "(nat \<Rightarrow> nat) \<Rightarrow> ('k, 'v, 'p, 't, 's) work \<Rightarrow> ('k, 'v, 'p) mem_record list \<Rightarrow> ('k, 'v, 'p, 't, 's) work \<Rightarrow> bool" where
  "trimmed refs w E w' \<longleftrightarrow> lost w E w' \<and> recs (sd_nodes (fst w')) \<subseteq>\<^sub>m recs (sd_nodes (fst w))
     \<and> sd_weight (fst w) = sd_weight (fst w') + wsum (mset E)
     \<and> (sd_weight (fst w') \<le> sd_capacity (fst w')
        \<or> is_lru (st_policy (sd_state (fst w'))) \<and> (\<forall>r \<in># held (sd_nodes (fst w')). refs (mr_id r) \<noteq> 0))
     \<and> (is_lru (st_policy (sd_state (fst w))) \<longrightarrow> (\<forall>r \<in> set E. refs (mr_id r) = 0))
     \<and> (E \<noteq> [] \<longrightarrow> sd_capacity (fst w') < sd_weight (fst w') + mr_weight (last E))"

lemma lostD:
  assumes "lost w E w'"
  shows "held (sd_nodes (fst w)) = held (sd_nodes (fst w')) + mset E" "sd_capacity (fst w') = sd_capacity (fst w)"
    "st_policy (sd_state (fst w')) = st_policy (sd_state (fst w))" "cl_references (fst (snd w')) = cl_references (fst (snd w))"
  using assms by (auto simp: lost_def)

lemma trimmed_lost: "trimmed refs w E w' \<Longrightarrow> lost w E w'"
  by (simp add: trimmed_def)

lemma trimmed_step:
  assumes l: "lost w [r] w1" and t: "trimmed refs w1 E w2" and le: "recs (sd_nodes (fst w1)) \<subseteq>\<^sub>m recs (sd_nodes (fst w))"
    and weight: "sd_weight (fst w) = sd_weight (fst w1) + mr_weight r" and over: "sd_capacity (fst w) < sd_weight (fst w)"
    and pin: "is_lru (st_policy (sd_state (fst w))) \<longrightarrow> refs (mr_id r) = 0"
  shows "trimmed refs w (r # E) w2"
proof -
  have l2: "lost w1 E w2" using t by (simp add: trimmed_def)
  have "lost w (r # E) w2" using lost_trans [OF l l2] by simp
  moreover have "recs (sd_nodes (fst w2)) \<subseteq>\<^sub>m recs (sd_nodes (fst w))" using t le map_le_trans by (simp add: trimmed_def) blast
  ultimately show ?thesis using t over weight pin lostD(2,3) [OF l] lostD(2,3) [OF l2] by (cases "E = []") (simp_all add: trimmed_def)
qed

context cache_libraries
begin

lemma probed_node:
  assumes "shard_ok items keys good refs sh qs" and "x \<in> set (tb_probe lib (sd_index sh) h)"
  obtains n where "sd_nodes sh x = Some n"
  using probe_sound [OF assms(2)] shard_okD(5) [OF assms(1)] that by (auto simp: entries_def recs_def)

lemma queued_node:
  assumes "shard_ok items keys good refs sh qs"
  shows "x \<in> set (concat qs) \<longleftrightarrow> x \<in> dom (sd_nodes sh)"
  using shard_okD(2,3) [OF assms] by (metis finite_set_mset_mset_set set_mset_mset)

text \<open>The search finds a version the closure accepts if the shard holds one with the hash.\<close>

lemma search_ok:
  assumes ok: "shard_ok items keys good refs sh qs" and only: "\<And>r. r \<in># held (sd_nodes sh) \<Longrightarrow> acc r \<Longrightarrow> mr_hash r = h"
  obtains "find_by (\<lambda>i. map_option (\<lambda>n. acc (nd_record n)) (sd_nodes sh i)) (tb_probe lib (sd_index sh) h) = Some None"
      "\<forall>r \<in># held (sd_nodes sh). \<not> acc r"
  | x r where "find_by (\<lambda>i. map_option (\<lambda>n. acc (nd_record n)) (sd_nodes sh i)) (tb_probe lib (sd_index sh) h) = Some (Some x)"
      "recs (sd_nodes sh) x = Some r" "acc r" "r \<in># held (sd_nodes sh)"
proof -
  let ?p = "\<lambda>i. map_option (\<lambda>n. acc (nd_record n)) (sd_nodes sh i)" and ?is = "tb_probe lib (sd_index sh) h"
  note held = held_iff [OF shard_okD(3) [OF ok]]
  have "\<exists>b. ?p i = Some b" if "i \<in> set ?is" for i by (rule probed_node [OF ok that]) simp
  then obtain y where y: "find_by ?p ?is = Some y" using find_by_total [of ?is ?p] by metis
  show ?thesis
  proof (cases y)
    case None
    have "\<not> acc r" if r: "r \<in># held (sd_nodes sh)" for r
    proof
      assume acc: "acc r"
      obtain x where x: "recs (sd_nodes sh) x = Some r" using held r by blast
      then have "(h, x) \<in> items (sd_index sh)" using shard_okD(5) [OF ok] only [OF r acc] by (auto simp: entries_def)
      then have "?p x = Some False" using find_by_None [of ?p ?is x] y None probe_complete by simp
      then show False using x acc by (auto simp: recs_def)
    qed
    then show ?thesis using that(1) y None by blast
  next
    case (Some x)
    then obtain n where n: "sd_nodes sh x = Some n" "acc (nd_record n)" using find_by_Some [of ?p ?is x] y by auto
    then have "recs (sd_nodes sh) x = Some (nd_record n)" by (simp add: recs_def)
    then show ?thesis using that(2) y Some n(2) held by blast
  qed
qed

lemma detach_ok:
  assumes ok: "shard_ok items keys good refs sh qs" and x: "recs (sd_nodes sh) x = Some r"
  obtains sh' cl' cc' qs' where "shard_detach lib x (sh, cl, cc) = Some (r, sh', cl', cc')" "shard_ok items keys good refs sh' qs'"
    "lost (sh, cl, cc) [r] (sh', cl', cc')" "recs (sd_nodes sh') = (recs (sd_nodes sh))(x := None)"
proof -
  note d = shard_okD [OF ok]
  have dom: "x \<in> dom (sd_nodes sh)" using x by (auto simp: recs_def)
  then have "x \<in> set (concat qs)" using queued_node [OF ok] by simp
  then obtain st m qs' where rm: "state_remove x (sd_state sh, sd_nodes sh) = Some (st, m)" "state_ok st m qs'" "recs m = recs (sd_nodes sh)"
    "mset (concat qs) = add_mset x (mset (concat qs'))" "st_policy st = st_policy (sd_state sh)" "st_capacity st = st_capacity (sd_state sh)"
    "set (qs' ! 2) = set (qs ! 2) - {x}"
    using state_remove_ok [OF d(1)] by metis
  obtain n where n: "m x = Some n" "nd_record n = r" using x rm(3) by (auto simp: recs_def fun_eq_iff) (metis map_option_eq_Some)
  have item: "(mr_hash r, x) \<in> items (sd_index sh)" using d(5) x by (auto simp: entries_def)
  let ?is = "tb_probe lib (sd_index sh) (mr_hash r)" and ?p = "\<lambda>other. Some (other = x)"
  obtain y where y: "find_by ?p ?is = Some y" using find_by_total [of ?is ?p] by auto
  then have "y \<noteq> None" using find_by_None [of ?p ?is x] probe_complete [OF item] by auto
  then have y: "find_by ?p ?is = Some (Some x)" using y find_by_Some [of ?p ?is] by (cases y) auto
  have dm: "dom m = dom (sd_nodes sh)" using recs_dom [OF rm(3)] .
  have h: "held (sd_nodes sh) = add_mset r (held (m(x := None)))"
    using held_remove [of m x r] held_cong [OF rm(3)] x rm(3) dm d(3) by simp
  let ?sh = "sh \<lparr> sd_index := tb_remove lib (sd_index sh) (mr_hash r) x, sd_slab := sl_remove lib (sd_slab sh) x,
    sd_nodes := m(x := None), sd_state := st, sd_weight := sd_weight sh - mr_weight r \<rparr>"
  let ?cl = "cl \<lparr> cl_resident := (cl_resident cl)(mr_id r := False) \<rparr>"
  let ?cc = "cc \<lparr> cc_resident := cc_resident cc - of_nat (mr_weight r), cc_entries := cc_entries cc - 1 \<rparr>"
  have run: "shard_detach lib x (sh, cl, cc) = Some (r, ?sh, ?cl, ?cc)"
    using rm(1) n y d(7) h by (simp add: shard_detach_def checked_sub_def)
  have q': "mset (concat qs') = mset_set (dom (sd_nodes sh) - {x})" using mset_remove [OF rm(4) d(2,3)] .
  then have "x \<notin> set (concat qs')" using d(3) by (metis Diff_iff finite_Diff finite_set_mset_mset_set insertI1 set_mset_mset)
  then have st: "state_ok st (m(x := None)) qs'" using state_ok_outside [OF rm(2), of x "m(x := None)"] by simp
  have "items (tb_remove lib (sd_index sh) (mr_hash r) x) = entries (m(x := None))"
    using items_remove [OF item] d(5) entries_remove [of m x r] entries_cong [OF rm(3)] x rm(3) by simp
  moreover have "unique_keys (m(x := None))" using d(6) rm(3) by (auto simp: unique_keys_def recs_upd split: if_splits)
  moreover have "\<forall>y s. recs (m(x := None)) y = Some s \<longrightarrow> (y \<in> set (qs' ! 2) \<longleftrightarrow> refs (mr_id s) \<noteq> 0)" if "is_lru (st_policy st)"
    using d(10) that rm(3,5,7) by (auto simp: recs_upd split: if_splits)
  ultimately have "shard_ok items keys good refs ?sh qs'"
    using st q' d(3,4,7,8,9) h rm(6) keys_remove [of x "sd_slab sh"] dom dm by (simp add: shard_ok_def)
  moreover have "lost (sh, cl, cc) [r] (?sh, ?cl, ?cc)" using h rm(5) by (simp add: lost_def fun_upd_def if_bool_eq_conj conj_commute cong: conj_cong)
  ultimately show ?thesis using that run rm(3) by (simp add: recs_upd)
qed

lemma no_victim:
  assumes ok: "shard_ok items keys good refs sh qs" and v: "victim_ok (st_policy (sd_state sh)) qs None"
  shows "sd_weight sh \<le> sd_capacity sh \<or> is_lru (st_policy (sd_state sh)) \<and> (\<forall>r \<in># held (sd_nodes sh). refs (mr_id r) \<noteq> 0)"
proof (cases "is_lru (st_policy (sd_state sh))")
  case True
  have q: "concat qs = qs ! 2" using queues_concat [OF state_okD(1) [OF shard_okD(1) [OF ok]]] v True by (auto simp: is_lru_iff)
  have "refs (mr_id r) \<noteq> 0" if r: "r \<in># held (sd_nodes sh)" for r
  proof -
    obtain x where x: "recs (sd_nodes sh) x = Some r" using r held_iff [OF shard_okD(3) [OF ok], of r] by blast
    then have "x \<in> set (qs ! 2)" using queued_node [OF ok, of x] q by (auto simp: recs_def)
    then show ?thesis using shard_okD(10) [OF ok True x] by simp
  qed
  then show ?thesis using True by blast
next
  case False
  then have "concat qs = []" using v by (cases "st_policy (sd_state sh)") (simp_all add: is_lru_def)
  then have "mset_set (dom (sd_nodes sh)) = {#}" using shard_okD(2) [OF ok] by (metis mset_zero_iff)
  then have "held (sd_nodes sh) = {#}" by (simp add: held_def)
  then show ?thesis using shard_okD(7) [OF ok] by simp
qed

lemma a_victim:
  assumes ok: "shard_ok items keys good refs sh qs" and v: "victim_ok (st_policy (sd_state sh)) qs (Some x)"
  obtains r where "recs (sd_nodes sh) x = Some r" "r \<in># held (sd_nodes sh)" "is_lru (st_policy (sd_state sh)) \<longrightarrow> refs (mr_id r) = 0"
proof -
  note q = state_okD(1) [OF shard_okD(1) [OF ok]]
  have x: "x \<in> set (concat qs)" using v queues_concat [OF q] by (cases "st_policy (sd_state sh)") auto
  then obtain r where r: "recs (sd_nodes sh) x = Some r" using queued_node [OF ok] by (auto simp: recs_def)
  have "refs (mr_id r) = 0" if l: "is_lru (st_policy (sd_state sh))"
  proof -
    have "x \<in> set (qs ! 0) \<or> x \<in> set (qs ! 1)" using v l by (auto simp: is_lru_iff)
    then obtain k where "k < 2" "x \<in> set (qs ! k)" by (metis one_less_numeral_iff semiring_norm(76) zero_less_numeral)
    then obtain n where "sd_nodes sh x = Some n" "nd_queue n = Some k" using queued [OF q, of k x] by auto
    then have "x \<notin> set (qs ! 2)" using queued [OF q, of 2 x] \<open>k < 2\<close> by auto
    then show ?thesis using shard_okD(10) [OF ok l r] by simp
  qed
  then show ?thesis using that r held_iff [OF shard_okD(3) [OF ok]] by blast
qed

lemma trim_ok:
  assumes "shard_ok items keys good refs sh qs"
  shows "\<exists>E sh' cl' cc' qs'. shard_trim lib (sh, cl, cc) removed = Some (removed @ map (\<lambda>r. (r, Evicted)) E, sh', cl', cc')
    \<and> shard_ok items keys good refs sh' qs' \<and> trimmed refs (sh, cl, cc) E (sh', cl', cc')"
  using assms
proof (induction "size (held (sd_nodes sh))" arbitrary: sh qs cl cc removed rule: less_induct)
  case less
  show ?case
  proof (cases "sd_weight sh > sd_capacity sh")
    case False
    then have "shard_trim lib (sh, cl, cc) removed = Some (removed @ map (\<lambda>r. (r, Evicted)) [], sh, cl, cc)" by (subst shard_trim.simps) simp
    moreover have "trimmed refs (sh, cl, cc) [] (sh, cl, cc)" using False lost_refl by (simp add: trimmed_def)
    ultimately show ?thesis using less(2) by blast
  next
    case over: True
    note d = shard_okD [OF less(2)]
    let ?p = "st_policy (sd_state sh)"
    obtain v st m qs1 where v: "state_victim (sd_state sh, sd_nodes sh) = Some (v, st, m)" "kept (sd_state sh) (sd_nodes sh) qs st m qs1"
      "victim_ok ?p qs1 v" "\<forall>c. ?p = Lru c \<longrightarrow> qs1 = qs"
      using state_victim_ok [OF d(1)] by blast
    let ?sh = "sh \<lparr> sd_state := st, sd_nodes := m \<rparr>"
    have r: "recs m = recs (sd_nodes sh)" and p: "st_policy st = ?p" using v(2) by (simp_all add: kept_def)
    have ok1: "shard_ok items keys good refs ?sh qs1"
      by (rule shard_ok_kept [OF less(2) v(2)]) (use d(10) v(4) in \<open>auto simp: is_lru_iff\<close>)
    note d1 = shard_okD [OF ok1]
    have l1: "lost (sh, cl, cc) [] (?sh, cl, cc)" using lost_kept [OF v(2)] .
    show ?thesis
    proof (cases v)
      case None
      have "trimmed refs (sh, cl, cc) [] (?sh, cl, cc)" using l1 r p no_victim [OF ok1] v(3) None by (simp add: trimmed_def)
      moreover have "shard_trim lib (sh, cl, cc) removed = Some (removed @ map (\<lambda>r. (r, Evicted)) [], ?sh, cl, cc)"
        using over v(1) None by (subst shard_trim.simps) simp
      ultimately show ?thesis using ok1 by blast
    next
      case (Some x)
      have "victim_ok (st_policy (sd_state ?sh)) qs1 (Some x)" using v(3) p Some by simp
      then obtain rx where rx: "recs (sd_nodes ?sh) x = Some rx" "is_lru (st_policy (sd_state ?sh)) \<longrightarrow> refs (mr_id rx) = 0"
        by (rule a_victim [OF ok1])
      obtain sh2 cl2 cc2 qs2 where dt: "shard_detach lib x (?sh, cl, cc) = Some (rx, sh2, cl2, cc2)" "shard_ok items keys good refs sh2 qs2"
        "lost (?sh, cl, cc) [rx] (sh2, cl2, cc2)" "recs (sd_nodes sh2) = (recs (sd_nodes ?sh))(x := None)"
        by (rule detach_ok [OF ok1 rx(1)])
      have h2: "held (sd_nodes sh) = add_mset rx (held (sd_nodes sh2))" using lost_trans [OF l1 dt(3)] by (simp add: lost_def)
      then have "size (held (sd_nodes sh2)) < size (held (sd_nodes sh))" by simp
      then obtain E sh' cl' cc' qs' where IH: "shard_trim lib (sh2, cl2, cc2) (removed @ [(rx, Evicted)]) = Some ((removed @ [(rx, Evicted)]) @ map (\<lambda>r. (r, Evicted)) E, sh', cl', cc')"
        "shard_ok items keys good refs sh' qs'" "trimmed refs (sh2, cl2, cc2) E (sh', cl', cc')"
        using less(1) [OF _ dt(2)] by blast
      have "shard_trim lib (sh, cl, cc) removed = Some (removed @ map (\<lambda>r. (r, Evicted)) (rx # E), sh', cl', cc')"
        using over v(1) Some dt(1) IH(1) by (subst shard_trim.simps) simp
      moreover have "trimmed refs (sh, cl, cc) (rx # E) (sh', cl', cc')"
        using trimmed_step [of "(sh, cl, cc)" rx "(sh2, cl2, cc2)" refs E "(sh', cl', cc')"] lost_trans [OF l1 dt(3)] IH(3) dt(4) r rx(2) p
          over h2 d(7) shard_okD(7) [OF dt(2)] by simp
      ultimately show ?thesis using IH(2) by blast
    qed
  qed
qed

end

section \<open>Committing a version\<close>

text \<open>The shard, the cells and the counters after the versions \<open>R\<close> came and the versions \<open>E\<close> left.\<close>

definition moved ::
  "('k, 'v, 'p, 't, 's) work \<Rightarrow> ('k, 'v, 'p) mem_record list \<Rightarrow> ('k, 'v, 'p) mem_record list \<Rightarrow> ('k, 'v, 'p, 't, 's) work \<Rightarrow> bool" where
  "moved w R E w' \<longleftrightarrow> (case (w, w') of ((sh, cl, cc), (sh', cl', cc')) \<Rightarrow>
     held (sd_nodes sh) + mset R = held (sd_nodes sh') + mset E
     \<and> cl' = cl \<lparr> cl_resident := \<lambda>a. (cl_resident cl a \<or> a \<in> mr_id ` set R) \<and> a \<notin> mr_id ` set E \<rparr>
     \<and> cc' = cc \<lparr> cc_resident := cc_resident cc + of_nat (wsum (mset R)) - of_nat (wsum (mset E)),
                  cc_entries := cc_entries cc + of_nat (length R) - of_nat (length E) \<rparr>
     \<and> sd_capacity sh' = sd_capacity sh \<and> sd_hits sh' = sd_hits sh \<and> sd_misses sh' = sd_misses sh
     \<and> st_policy (sd_state sh') = st_policy (sd_state sh))"

lemma moved_lost: "moved w R E w1 \<Longrightarrow> lost w1 F w2 \<Longrightarrow> moved w R (E @ F) w2"
  by (cases w; cases w1; cases w2) (auto simp: moved_def lost_def image_Un ac_simps)

lemma lost_moved:
  assumes "lost w E w1" and "moved w1 R F w2" and "mr_id ` set E \<inter> mr_id ` set R = {}"
  shows "moved w R (E @ F) w2"
proof -
  have "(\<lambda>a. (cl a \<and> a \<notin> mr_id ` set E \<or> a \<in> mr_id ` set R) \<and> a \<notin> mr_id ` set F)
    = (\<lambda>a. (cl a \<or> a \<in> mr_id ` set R) \<and> a \<notin> mr_id ` set (E @ F))" for cl :: "nat \<Rightarrow> bool"
    using assms(3) by (intro ext) (auto simp: image_Un)
  then show ?thesis using assms(1,2) by (cases w; cases w1; cases w2) (auto simp: moved_def lost_def ac_simps)
qed

lemma moved_none: "lost w E w' \<Longrightarrow> moved w [] E w'"
  by (cases w; cases w') (simp add: moved_def lost_def)

lemma lost_none: "moved w [] E w' \<Longrightarrow> lost w E w'"
  by (cases w; cases w') (simp add: moved_def lost_def)

lemma moved_same: "\<not> cl_resident (fst (snd w)) (mr_id r) \<Longrightarrow> moved w [r] [r] w"
proof (cases w)
  case (fields sh cl cc)
  assume "\<not> cl_resident (fst (snd w)) (mr_id r)"
  then have "(\<lambda>a. (cl_resident cl a \<or> a = mr_id r) \<and> a \<noteq> mr_id r) = cl_resident cl" using fields by (intro ext) auto
  then show ?thesis using fields by (simp add: moved_def)
qed

lemma weight_back:
  assumes "H + {#r#} = H' + M" and "r \<notin># H'"
  shows "wsum H' \<le> wsum H"
proof -
  have "r \<in># M" using assms by (metis union_iff union_single_eq_member add_mset_add_single)
  then obtain N where "M = add_mset r N" by (metis mset_add)
  then have "H = H' + N" using assms(1) by simp
  then show ?thesis by simp
qed

lemma unique_keys_insert:
  assumes "unique_keys m" and "\<And>y s. recs m y = Some s \<Longrightarrow> mr_key s \<noteq> mr_key r \<and> mr_id s \<noteq> mr_id r" and "nd_record n = r"
  shows "unique_keys (m(x \<mapsto> n))"
  unfolding unique_keys_def recs_upd assms(3)
proof (intro allI impI)
  fix y z s t
  assume a: "((recs m)(x \<mapsto> r)) y = Some s" "((recs m)(x \<mapsto> r)) z = Some t" "mr_key s = mr_key t \<or> mr_id s = mr_id t"
  show "y = z"
  proof (cases "y = x \<or> z = x")
    case True
    then show ?thesis using a assms(2) by (metis fun_upd_apply option.inject)
  next
    case False
    then show ?thesis using a assms(1) unfolding unique_keys_def by (metis fun_upd_apply)
  qed
qed

lemma entries_insert:
  assumes "m x = None"
  shows "entries (m(x \<mapsto> n)) = insert (mr_hash (nd_record n), x) (entries m)"
proof (intro set_eqI)
  fix a
  have "recs m x = None" using assms by (simp add: recs_def)
  then show "a \<in> entries (m(x \<mapsto> n)) \<longleftrightarrow> a \<in> insert (mr_hash (nd_record n), x) (entries m)"
    by (cases "snd a = x") (auto simp: entries_def recs_upd)
qed

text \<open>
  The outcome of a commit: the version is admitted or reported as rejected, the version it replaces
  is reported as replaced, every eviction is reported, no other version of the key stays, and the
  shard is within its budget or left with pinned versions, the new one not among them.
\<close>

fun fair :: "(nat \<Rightarrow> nat) \<Rightarrow> bool \<Rightarrow> ('k, 'v, 'p) mem_record \<Rightarrow> ('k, 'v, 'p) mem_record \<times> removal_reason \<Rightarrow> bool" where
  "fair refs lru r (s, Evicted) \<longleftrightarrow> (lru \<longrightarrow> refs (mr_id s) = 0)"
| "fair refs lru r (s, Replaced) \<longleftrightarrow> mr_key s = mr_key r \<and> mr_id s \<noteq> mr_id r"
| "fair refs lru r (s, Rejected) \<longleftrightarrow> s = r"
| "fair refs lru r (s, _) \<longleftrightarrow> False"

definition committed ::
  "(nat \<Rightarrow> nat) \<Rightarrow> ('k, 'v, 'p) mem_record \<Rightarrow> ('k, 'v, 'p, 't, 's) work \<Rightarrow> ('k, 'v, 'p) removed \<Rightarrow> ('k, 'v, 'p, 't, 's) work \<Rightarrow> bool" where
  "committed refs r w removed w' \<longleftrightarrow> moved w [r] (map fst removed) w'
     \<and> (\<forall>x \<in> set removed. fair refs (is_lru (st_policy (sd_state (fst w)))) r x)
     \<and> (\<forall>s \<in># held (sd_nodes (fst w')). mr_key s = mr_key r \<longrightarrow> s = r)
     \<and> (sd_weight (fst w') \<le> sd_capacity (fst w)
        \<or> is_lru (st_policy (sd_state (fst w))) \<and> r \<notin># held (sd_nodes (fst w')) \<and> sd_weight (fst w') \<le> sd_weight (fst w))"

context cache_libraries
begin

lemma enter_ok:
  assumes ok: "shard_ok items keys good refs sh qs" and r: "good r" "is_lru (st_policy (sd_state sh)) \<longrightarrow> refs (mr_id r) \<noteq> 0"
    and new: "\<forall>s \<in># held (sd_nodes sh). mr_key s \<noteq> mr_key r \<and> mr_id s \<noteq> mr_id r"
    and x: "sl_insert lib (sd_slab sh) = (x, slab)"
    and m: "m = (sd_nodes sh)(x \<mapsto> \<lparr> nd_record = r, nd_prev = None, nd_next = None, nd_queue = None, nd_frequency = 0 \<rparr>)"
    and t: "t = tb_insert lib (sd_index sh) (mr_hash r) x (\<lambda>i. map_option (\<lambda>n. mr_hash (nd_record n)) (m i))"
  obtains st m' qs' where "state_insert x (sd_state sh, m) = Some (st, m')" "recs m' = (recs (sd_nodes sh))(x \<mapsto> r)"
    "shard_ok items keys good refs (sh \<lparr> sd_index := t, sd_slab := slab, sd_nodes := m', sd_state := st, sd_weight := sd_weight sh + mr_weight r \<rparr>) qs'"
    "held m' = add_mset r (held (sd_nodes sh))" "st_policy st = st_policy (sd_state sh)"
proof -
  note d = shard_okD [OF ok]
  let ?n = "\<lparr> nd_record = r, nd_prev = None, nd_next = None, nd_queue = None, nd_frequency = 0 \<rparr>"
  have xk: "x \<notin> dom (sd_nodes sh)" and keys: "keys slab = insert x (dom (sd_nodes sh))" using keys_insert [OF x] d(4) by auto
  then have free: "sd_nodes sh x = None" by auto
  have xq: "x \<notin> set (concat qs)" using queued_node [OF ok] xk by simp
  have st0: "state_ok (sd_state sh) m qs" using state_ok_outside [OF d(1) xq, of m] m by simp
  obtain st m' qs' where ins: "state_insert x (sd_state sh, m) = Some (st, m')" "gained x (sd_state sh) m qs st m' qs'"
    "\<forall>c. st_policy (sd_state sh) = Lru c \<longrightarrow> qs' = qs[2 := qs ! 2 @ [x]]"
    using state_insert_ok [OF st0 _ xq, of ?n] m by auto
  have g: "state_ok st m' qs'" "recs m' = recs m" "mset (concat qs') = add_mset x (mset (concat qs))" "st_policy st = st_policy (sd_state sh)"
    "st_capacity st = st_capacity (sd_state sh)" using ins(2) by (simp_all add: gained_def)
  have rm: "recs m' = (recs (sd_nodes sh))(x \<mapsto> r)" using g(2) m by (simp add: recs_upd)
  have dm: "dom m' = insert x (dom (sd_nodes sh))" using recs_dom [OF g(2)] m by simp
  have h: "held m' = add_mset r (held (sd_nodes sh))" using held_cong [OF g(2)] held_insert [of "sd_nodes sh" x ?n, OF d(3) free] m by simp
  have "(mr_hash r, x) \<notin> items (sd_index sh)" using d(5) free by (auto simp: entries_def recs_def)
  moreover have "map_option (\<lambda>n. mr_hash (nd_record n)) (m y) = Some h'" if "(h', y) \<in> items (sd_index sh)" for h' y
    using that d(5) free m by (auto simp: entries_def recs_def)
  ultimately have "items t = insert (mr_hash r, x) (entries (sd_nodes sh))" unfolding t d(5) [symmetric] by (rule items_insert)
  then have it: "items t = entries m'" using entries_cong [OF g(2)] entries_insert [of "sd_nodes sh" x ?n, OF free] m by simp
  have u: "unique_keys m'"
    using unique_keys_cong [OF g(2)] unique_keys_insert [OF d(6), of r ?n x] new held_iff [OF d(3)] m by auto
  have q: "mset (concat qs') = mset_set (dom m')" using g(3) d(2,3) dm xk by simp
  have pins: "y \<in> set (qs' ! 2) \<longleftrightarrow> refs (mr_id s) \<noteq> 0" if lru: "is_lru (st_policy st)" and y: "recs m' y = Some s" for y s
  proof -
    have l: "is_lru (st_policy (sd_state sh))" using lru g(4) by simp
    then have "set (qs' ! 2) = insert x (set (qs ! 2))" using ins(3) queuesD(1) [OF state_okD(1) [OF d(1)]] by (auto simp: is_lru_iff)
    then show ?thesis using y rm d(10) [OF l, of y s] r(2) l by (cases "y = x") auto
  qed
  show ?thesis
    by (rule that [OF ins(1) rm _ h g(4)]) (use g(1,5) q dm keys it u d(3,7,8,9) h r(1) pins in \<open>auto simp: shard_ok_def\<close>)
qed

lemma within_after:
  assumes "trimmed refs w1 E w2" and "sd_weight (fst w1) = sd_weight (fst w) + mr_weight r" and "r \<in> set E"
  shows "sd_weight (fst w2) \<le> sd_weight (fst w)"
proof -
  obtain F where "mset E = add_mset r F" using assms(3) by (metis in_multiset_in_set mset_add)
  then show ?thesis using assms(1,2) by (auto simp: trimmed_def)
qed

lemma admit_ok:
  assumes ok: "shard_ok items keys good refs sh qs" and r: "good r" "is_lru (st_policy (sd_state sh)) \<longrightarrow> refs (mr_id r) \<noteq> 0"
    and new: "\<forall>s \<in># held (sd_nodes sh). mr_key s \<noteq> mr_key r \<and> mr_id s \<noteq> mr_id r"
  obtains E rej sh' cl' cc' qs' where "shard_admit lib r removed (sh, cl, cc) = Some (removed @ map (\<lambda>s. (s, Evicted)) E @ rej, sh', cl', cc')"
    "shard_ok items keys good refs sh' qs'" "moved (sh, cl, cc) [r] (E @ map fst rej) (sh', cl', cc')" "rej = [] \<or> rej = [(r, Rejected)]"
    "is_lru (st_policy (sd_state sh)) \<longrightarrow> (\<forall>s \<in> set E. refs (mr_id s) = 0)"
    "sd_weight sh' \<le> sd_capacity sh \<or> is_lru (st_policy (sd_state sh)) \<and> r \<notin># held (sd_nodes sh') \<and> (\<forall>s \<in># held (sd_nodes sh'). refs (mr_id s) \<noteq> 0)"
proof -
  obtain x slab where x: "sl_insert lib (sd_slab sh) = (x, slab)" by force
  define m where "m = (sd_nodes sh)(x \<mapsto> \<lparr> nd_record = r, nd_prev = None, nd_next = None, nd_queue = None, nd_frequency = 0 \<rparr>)"
  define t where "t = tb_insert lib (sd_index sh) (mr_hash r) x (\<lambda>i. map_option (\<lambda>n. mr_hash (nd_record n)) (m i))"
  obtain st m' qs1 where en: "state_insert x (sd_state sh, m) = Some (st, m')" "recs m' = (recs (sd_nodes sh))(x \<mapsto> r)"
    "shard_ok items keys good refs (sh \<lparr> sd_index := t, sd_slab := slab, sd_nodes := m', sd_state := st, sd_weight := sd_weight sh + mr_weight r \<rparr>) qs1"
    "held m' = add_mset r (held (sd_nodes sh))" "st_policy st = st_policy (sd_state sh)"
    by (rule enter_ok [OF ok r new x m_def t_def])
  let ?sh = "sh \<lparr> sd_index := t, sd_slab := slab, sd_nodes := m', sd_state := st, sd_weight := sd_weight sh + mr_weight r \<rparr>"
  let ?cl = "cl \<lparr> cl_resident := (cl_resident cl)(mr_id r := True) \<rparr>"
  let ?cc = "cc \<lparr> cc_resident := cc_resident cc + of_nat (mr_weight r), cc_entries := cc_entries cc + 1 \<rparr>"
  have mv: "moved (sh, cl, cc) [r] [] (?sh, ?cl, ?cc)"
    using en(4,5) by (simp add: moved_def fun_upd_def disj_commute cong: if_cong) (metis (mono_tags))
  obtain E sh2 cl2 cc2 qs2 where tr: "shard_trim lib (?sh, ?cl, ?cc) removed = Some (removed @ map (\<lambda>r. (r, Evicted)) E, sh2, cl2, cc2)"
    "shard_ok items keys good refs sh2 qs2" "trimmed refs (?sh, ?cl, ?cc) E (sh2, cl2, cc2)"
    using trim_ok [OF en(3)] by blast
  have mv2: "moved (sh, cl, cc) [r] E (sh2, cl2, cc2)" using moved_lost [OF mv trimmed_lost [OF tr(3)]] by simp
  have pinE: "is_lru (st_policy (sd_state sh)) \<longrightarrow> (\<forall>s \<in> set E. refs (mr_id s) = 0)" using tr(3) en(5) by (simp add: trimmed_def)
  have fit: "sd_weight sh2 \<le> sd_capacity sh \<or> is_lru (st_policy (sd_state sh)) \<and> (\<forall>s \<in># held (sd_nodes sh2). refs (mr_id s) \<noteq> 0)"
    using tr(3) mv2 by (simp add: trimmed_def moved_def)
  have cap2: "sd_capacity sh2 = sd_capacity sh" using mv2 by (simp add: moved_def)
  have res: "cl_resident cl2 (mr_id r) \<longleftrightarrow> mr_id r \<notin> mr_id ` set E" using mv2 by (simp add: moved_def)
  note d1 = shard_okD [OF en(3), simplified]
  have h2: "held m' = held (sd_nodes sh2) + mset E" using mv2 en(4) by (simp add: moved_def)
  note parts = held_parts [OF d1(6,3) h2]
  have out: "r \<notin># held (sd_nodes sh2)" if e: "mr_id r \<in> mr_id ` set E" using parts(1) e by fastforce
  have run: "shard_admit lib r removed (sh, cl, cc) =
    do { (removed, sh, cl, cc) \<leftarrow> shard_trim lib (?sh, ?cl, ?cc) removed;
         if sd_weight sh > sd_capacity sh \<and> cl_resident cl (mr_id r)
         then do { (r, w) \<leftarrow> shard_detach lib x (sh, cl, cc); Some (removed @ [(r, Rejected)], w) }
         else Some (removed, sh, cl, cc) }"
    unfolding shard_admit_def prod.case x Let_def m_def [symmetric] t_def [symmetric] en(1) bind.bind_lunit by (rule refl)
  show ?thesis
  proof (cases "sd_weight sh2 > sd_capacity sh2 \<and> cl_resident cl2 (mr_id r)")
    case True
    then have "r \<in># held (sd_nodes sh2)" using h2 en(4) res by (metis image_eqI set_mset_mset union_iff union_single_eq_member)
    then obtain y where y: "recs (sd_nodes sh2) y = Some r" using held_iff [OF shard_okD(3) [OF tr(2)]] by blast
    then have "recs m' y = Some r" using tr(3) by (auto simp: trimmed_def map_le_def dom_def)
    then have "y = x" using d1(6) en(2) unfolding unique_keys_def by (metis fun_upd_same)
    then have rx: "recs (sd_nodes sh2) x = Some r" using y by simp
    obtain sh' cl' cc' qs' where dt: "shard_detach lib x (sh2, cl2, cc2) = Some (r, sh', cl', cc')" "shard_ok items keys good refs sh' qs'"
      "lost (sh2, cl2, cc2) [r] (sh', cl', cc')"
      by (rule detach_ok [OF tr(2) rx])
    have "shard_admit lib r removed (sh, cl, cc) = Some (removed @ map (\<lambda>s. (s, Evicted)) E @ [(r, Rejected)], sh', cl', cc')"
      unfolding run tr(1) using True dt(1) by simp
    moreover have "moved (sh, cl, cc) [r] (E @ map fst [(r, Rejected)]) (sh', cl', cc')" using moved_lost [OF mv2 dt(3)] by simp
    moreover have "sd_weight sh' \<le> sd_capacity sh \<or> is_lru (st_policy (sd_state sh)) \<and> r \<notin># held (sd_nodes sh') \<and> (\<forall>s \<in># held (sd_nodes sh'). refs (mr_id s) \<noteq> 0)"
    proof -
      have h3: "held (sd_nodes sh2) = held (sd_nodes sh') + mset [r]" using lostD(1) [OF dt(3)] by simp
      have "r \<notin># held (sd_nodes sh')" using held_parts(3) [OF shard_okD(6,3) [OF tr(2)] h3, of r r] by auto
      then show ?thesis using fit True cap2 h3 by auto
    qed
    ultimately show ?thesis using that dt(2) pinE by blast
  next
    case False
    have "shard_admit lib r removed (sh, cl, cc) = Some (removed @ map (\<lambda>s. (s, Evicted)) E @ [], sh2, cl2, cc2)"
      unfolding run tr(1) using False by auto
    moreover have "moved (sh, cl, cc) [r] (E @ map fst []) (sh2, cl2, cc2)" using mv2 by simp
    moreover have "sd_weight sh2 \<le> sd_capacity sh \<or> is_lru (st_policy (sd_state sh)) \<and> r \<notin># held (sd_nodes sh2) \<and> (\<forall>s \<in># held (sd_nodes sh2). refs (mr_id s) \<noteq> 0)"
      using False fit cap2 res out by auto
    ultimately show ?thesis using that tr(2) pinE by blast
  qed
qed

lemma replace_ok:
  assumes ok: "shard_ok items keys good refs sh qs" and hash: "\<And>s. good s \<Longrightarrow> mr_key s = mr_key r \<Longrightarrow> mr_hash s = mr_hash r"
    and fresh: "\<forall>s \<in># held (sd_nodes sh). mr_id s \<noteq> mr_id r"
  obtains E sh1 cl1 cc1 qs1 where
    "shard_replace lib r (sh, cl, cc) = Some (map (\<lambda>s. (s, Replaced)) E, sh1, cl1, cc1)"
    "shard_ok items keys good refs sh1 qs1" "lost (sh, cl, cc) E (sh1, cl1, cc1)" "\<forall>s \<in> set E. mr_key s = mr_key r \<and> mr_id s \<noteq> mr_id r"
    "\<forall>s \<in># held (sd_nodes sh1). mr_key s \<noteq> mr_key r"
proof -
  have only: "mr_hash s = mr_hash r" if "s \<in># held (sd_nodes sh)" "mr_key r = mr_key s" for s
    using hash [of s] shard_okD(9) [OF ok that(1)] that(2) by simp
  show ?thesis
  proof (rule search_ok [OF ok, where acc = "\<lambda>s. mr_key r = mr_key s" and h = "mr_hash r", OF only])
    assume f: "find_by (\<lambda>i. map_option (\<lambda>n. mr_key r = mr_key (nd_record n)) (sd_nodes sh i)) (tb_probe lib (sd_index sh) (mr_hash r)) = Some None"
      "\<forall>s \<in># held (sd_nodes sh). mr_key r \<noteq> mr_key s"
    have "shard_replace lib r (sh, cl, cc) = Some (map (\<lambda>s. (s, Replaced)) [], sh, cl, cc)" using f(1) by (simp add: shard_replace_def shard_find_def)
    moreover have "\<forall>s \<in># held (sd_nodes sh). mr_key s \<noteq> mr_key r" using f(2) by (metis (full_types))
    ultimately show ?thesis using that [OF _ ok lost_refl] by simp
  next
    fix x old
    assume f: "find_by (\<lambda>i. map_option (\<lambda>n. mr_key r = mr_key (nd_record n)) (sd_nodes sh i)) (tb_probe lib (sd_index sh) (mr_hash r)) = Some (Some x)"
      "recs (sd_nodes sh) x = Some old" "mr_key r = mr_key old" "old \<in># held (sd_nodes sh)"
    obtain sh1 cl1 cc1 qs1 where dt: "shard_detach lib x (sh, cl, cc) = Some (old, sh1, cl1, cc1)" "shard_ok items keys good refs sh1 qs1"
      "lost (sh, cl, cc) [old] (sh1, cl1, cc1)"
      by (rule detach_ok [OF ok f(2)])
    have h: "held (sd_nodes sh) = held (sd_nodes sh1) + mset [old]" using lostD(1) [OF dt(3)] by simp
    have "mr_key s \<noteq> mr_key r" if s: "s \<in># held (sd_nodes sh1)" for s
      using held_parts(2) [OF shard_okD(6,3) [OF ok] h s, of old] f(3) by simp
    then have keys: "\<forall>s \<in># held (sd_nodes sh1). mr_key s \<noteq> mr_key r" by blast
    have "shard_replace lib r (sh, cl, cc) = Some (map (\<lambda>s. (s, Replaced)) [old], sh1, cl1, cc1)"
      using f(1) dt(1) by (simp add: shard_replace_def shard_find_def)
    moreover have "\<forall>s \<in> set [old]. mr_key s = mr_key r \<and> mr_id s \<noteq> mr_id r" using f(3,4) fresh by simp
    ultimately show ?thesis using that [OF _ dt(2,3) _ keys] by blast
  qed
qed

lemma commit_ok:
  assumes ok: "shard_ok items keys good refs sh qs" and hash: "\<And>s. good s \<Longrightarrow> mr_key s = mr_key r \<Longrightarrow> mr_hash s = mr_hash r"
    and r: "good r" "is_lru (st_policy (sd_state sh)) \<longrightarrow> refs (mr_id r) \<noteq> 0"
    and fresh: "\<forall>s \<in># held (sd_nodes sh). mr_id s \<noteq> mr_id r" "\<not> cl_resident cl (mr_id r)"
    and within: "is_lru (st_policy (sd_state sh)) \<or> sd_weight sh \<le> sd_capacity sh"
  obtains removed w' qs' where "shard_commit lib r admitted (sh, cl, cc) = Some (removed, w')" "shard_ok items keys good refs (fst w') qs'"
    "committed refs r (sh, cl, cc) removed w'"
proof -
  let ?lru = "is_lru (st_policy (sd_state sh))"
  obtain E sh1 cl1 cc1 qs1 where re: "shard_replace lib r (sh, cl, cc) = Some (map (\<lambda>s. (s, Replaced)) E, sh1, cl1, cc1)"
    "shard_ok items keys good refs sh1 qs1" "lost (sh, cl, cc) E (sh1, cl1, cc1)" "\<forall>s \<in> set E. mr_key s = mr_key r \<and> mr_id s \<noteq> mr_id r"
    "\<forall>s \<in># held (sd_nodes sh1). mr_key s \<noteq> mr_key r"
    by (rule replace_ok [OF ok hash fresh(1)])
  have run: "shard_commit lib r admitted (sh, cl, cc) =
    (if admitted \<and> mr_weight r \<le> sd_capacity sh1 \<and> sd_weight sh1 + mr_weight r < 2 ^ 64
     then shard_admit lib r (map (\<lambda>s. (s, Replaced)) E) (sh1, cl1, cc1)
     else Some (map (\<lambda>s. (s, Replaced)) E @ [(r, Rejected)], sh1, cl1, cc1))"
    using re(1) by (simp add: shard_commit_def)
  have ids: "mr_id ` set E \<inter> mr_id ` set [r] = {}" using re(4) by auto
  have p1: "st_policy (sd_state sh1) = st_policy (sd_state sh)" "sd_capacity sh1 = sd_capacity sh" using lostD(2,3) [OF re(3)] by simp_all
  have h1: "held (sd_nodes sh) = held (sd_nodes sh1) + mset E" using lostD(1) [OF re(3)] by simp
  have w1: "sd_weight sh1 \<le> sd_weight sh" using h1 shard_okD(7) [OF ok] shard_okD(7) [OF re(2)] by simp
  show ?thesis
  proof (cases "admitted \<and> mr_weight r \<le> sd_capacity sh1 \<and> sd_weight sh1 + mr_weight r < 2 ^ 64")
    case False
    have "moved (sh1, cl1, cc1) [r] [r] (sh1, cl1, cc1)" using re(3) fresh(2) by (intro moved_same) (simp add: lost_def)
    then have "moved (sh, cl, cc) [r] (E @ [r]) (sh1, cl1, cc1)" by (rule lost_moved [OF re(3) _ ids])
    moreover have "sd_weight sh1 \<le> sd_capacity sh \<or> ?lru \<and> r \<notin># held (sd_nodes sh1) \<and> sd_weight sh1 \<le> sd_weight sh"
      using within w1 re(5) by auto
    ultimately have "committed refs r (sh, cl, cc) (map (\<lambda>s. (s, Replaced)) E @ [(r, Rejected)]) (sh1, cl1, cc1)"
      using re(4,5) by (auto simp: committed_def comp_def)
    then show ?thesis using that run False re(2) by auto
  next
    case True
    have r1: "is_lru (st_policy (sd_state sh1)) \<longrightarrow> refs (mr_id r) \<noteq> 0" using r(2) p1 by simp
    have new: "\<forall>s \<in># held (sd_nodes sh1). mr_key s \<noteq> mr_key r \<and> mr_id s \<noteq> mr_id r" using re(5) fresh(1) h1 by auto
    obtain F rej sh' cl' cc' qs' where ad: "shard_admit lib r (map (\<lambda>s. (s, Replaced)) E) (sh1, cl1, cc1) = Some (map (\<lambda>s. (s, Replaced)) E @ map (\<lambda>s. (s, Evicted)) F @ rej, sh', cl', cc')"
      "shard_ok items keys good refs sh' qs'" "moved (sh1, cl1, cc1) [r] (F @ map fst rej) (sh', cl', cc')" "rej = [] \<or> rej = [(r, Rejected)]"
      "is_lru (st_policy (sd_state sh1)) \<longrightarrow> (\<forall>s \<in> set F. refs (mr_id s) = 0)"
      "sd_weight sh' \<le> sd_capacity sh1 \<or> is_lru (st_policy (sd_state sh1)) \<and> r \<notin># held (sd_nodes sh') \<and> (\<forall>s \<in># held (sd_nodes sh'). refs (mr_id s) \<noteq> 0)"
      by (rule admit_ok [OF re(2) r(1) r1 new])
    have mv: "moved (sh, cl, cc) [r] (E @ F @ map fst rej) (sh', cl', cc')" by (rule lost_moved [OF re(3) ad(3) ids])
    have h: "held (sd_nodes sh1) + {#r#} = held (sd_nodes sh') + mset (F @ map fst rej)" using ad(3) by (simp add: moved_def)
    have sub: "s \<in># held (sd_nodes sh') \<Longrightarrow> s = r \<or> s \<in># held (sd_nodes sh1)" for s using h by (metis add_mset_add_single insert_iff set_mset_add_mset_insert union_iff)
    have "sd_weight sh' \<le> sd_weight sh" if "r \<notin># held (sd_nodes sh')"
      using weight_back [OF h that] w1 shard_okD(7) [OF re(2)] shard_okD(7) [OF ad(2)] by simp
    then have w: "sd_weight sh' \<le> sd_capacity sh \<or> ?lru \<and> r \<notin># held (sd_nodes sh') \<and> sd_weight sh' \<le> sd_weight sh"
      using ad(6) p1 by auto
    have "committed refs r (sh, cl, cc) (map (\<lambda>s. (s, Replaced)) E @ map (\<lambda>s. (s, Evicted)) F @ rej) (sh', cl', cc')"
      unfolding committed_def using mv w re(4) ad(4,5) p1 sub re(5) by (auto simp: comp_def)
    then show ?thesis using that [of _ "(sh', cl', cc')" qs'] run True ad(1,2) by simp
  qed
qed

end

end
