(* ===== verification/Mem_Store.thy ===== *)
theory Mem_Store
  imports Mem_Shard
begin

text \<open>
  The whole memory cache: the invariant over all shards, the multiset of versions it holds, and
  how every operation moves versions in and out of it.
\<close>

section \<open>The versions a cache holds\<close>

definition versions :: "('k, 'v, 'p, 't, 's) mem_cache \<Rightarrow> ('k, 'v, 'p) mem_record multiset" where
  "versions c = (\<Sum>sh \<leftarrow> mc_shards c. held (sd_nodes sh))"

definition unique_ids :: "('k, 'v, 'p) mem_record multiset \<Rightarrow> bool" where
  "unique_ids M \<longleftrightarrow> (\<forall>a. count (image_mset mr_id M) a \<le> 1)"

lemma unique_ids_parts:
  assumes "unique_ids (M + N)" and "r \<in># M" and "s \<in># N"
  shows "mr_id r \<noteq> mr_id s"
proof
  assume eq: "mr_id r = mr_id s"
  have "mr_id r \<in># image_mset mr_id M" "mr_id r \<in># image_mset mr_id N" using assms(2,3) eq by (metis imageI set_image_mset)+
  then have "0 < count (image_mset mr_id M) (mr_id r)" "0 < count (image_mset mr_id N) (mr_id r)" by simp_all
  then have "2 \<le> count (image_mset mr_id (M + N)) (mr_id r)" unfolding image_mset_union count_union by linarith
  then show False using assms(1) unfolding unique_ids_def by (metis Suc_1 not_less_eq_eq)
qed

lemma unique_ids_inj:
  assumes "unique_ids M" and "r \<in># M" and "s \<in># M" and "mr_id r = mr_id s"
  shows "r = s"
proof (rule ccontr)
  assume "r \<noteq> s"
  obtain N where N: "M = {#r#} + N" using assms(2) by (metis add_mset_add_single add.commute mset_add)
  then have "s \<in># N" using assms(3) \<open>r \<noteq> s\<close> by simp
  then show False using unique_ids_parts [of "{#r#}" N r s] assms(1,4) N by simp
qed

lemma unique_ids_mono: "unique_ids (M + N) \<Longrightarrow> unique_ids M"
  unfolding unique_ids_def image_mset_union count_union by (meson add_leE)

lemma unique_ids_add:
  assumes "unique_ids M" and "\<forall>s \<in># M. mr_id s \<noteq> mr_id r"
  shows "unique_ids (M + {#r#})"
proof -
  have "count (image_mset mr_id M) (mr_id r) = 0" using assms(2) by (auto simp: count_eq_zero_iff)
  then show ?thesis using assms(1) by (simp add: unique_ids_def)
qed

lemma sum_list_swap:
  "i < length xs \<Longrightarrow> sum_list (map f (xs[i := x])) + f (xs ! i) = sum_list (map f xs) + (f x :: 'a multiset)"
proof (induction xs arbitrary: i)
  case (Cons y ys)
  then show ?case by (cases i) (auto simp: add.assoc add.commute add.left_commute)
qed simp

lemma versions_iff: "r \<in># versions c \<longleftrightarrow> (\<exists>i < length (mc_shards c). r \<in># held (sd_nodes (mc_shards c ! i)))"
  by (auto simp: versions_def set_mset_sum_list in_set_conv_nth) (metis nth_mem)

section \<open>The invariant\<close>

definition homed :: "('k \<Rightarrow> u64) \<Rightarrow> nat \<Rightarrow> nat \<Rightarrow> nat \<Rightarrow> ('k, 'v, 'p) mem_record \<Rightarrow> bool" where
  "homed hash n limit i r \<longleftrightarrow> mr_hash r = hash (mr_key r) \<and> unat (mr_hash r) mod n = i \<and> 0 < mr_weight r \<and> mr_id r < limit"

definition shards_ok ::
  "('t \<Rightarrow> (u64 \<times> nat) set) \<Rightarrow> ('s \<Rightarrow> nat set) \<Rightarrow> ('k \<Rightarrow> u64) \<Rightarrow> ('k, 'v, 'p, 't, 's) mem_cache \<Rightarrow> bool" where
  "shards_ok items keys hash c \<longleftrightarrow>
     (\<forall>i < length (mc_shards c). \<exists>qs. shard_ok items keys (homed hash (length (mc_shards c)) (mc_next c) i)
        (cl_references (mc_cells c)) (mc_shards c ! i) qs)"

definition policies_ok :: "('k, 'v, 'p, 't, 's) mem_cache \<Rightarrow> bool" where
  "policies_ok c \<longleftrightarrow> (\<exists>p. (\<forall>sh \<in> set (mc_shards c). st_policy (sd_state sh) = p) \<and> mc_release c = is_lru p \<and> mc_mutable_hits c = mutable_hits p)"

definition books_ok :: "('k, 'v, 'p, 't, 's) mem_cache \<Rightarrow> bool" where
  "books_ok c \<longleftrightarrow> mc_shards c \<noteq> [] \<and> length (cc_insertions (mc_counters c)) = length (mc_shards c)
     \<and> length (cc_rejections (mc_counters c)) = length (mc_shards c) \<and> unique_ids (versions c)
     \<and> (\<forall>a. cl_resident (mc_cells c) a \<longleftrightarrow> a \<in> mr_id ` set_mset (versions c))
     \<and> cc_entries (mc_counters c) = of_nat (size (versions c)) \<and> cc_resident (mc_counters c) = of_nat (wsum (versions c))"

definition within_budget :: "('k, 'v, 'p, 't, 's) mem_cache \<Rightarrow> bool" where
  "within_budget c \<longleftrightarrow> mc_release c \<or> (\<forall>sh \<in> set (mc_shards c). sd_weight sh \<le> sd_capacity sh)"

definition store_ok ::
  "('t \<Rightarrow> (u64 \<times> nat) set) \<Rightarrow> ('s \<Rightarrow> nat set) \<Rightarrow> ('k \<Rightarrow> u64) \<Rightarrow> ('k, 'v, 'p, 't, 's) mem_cache \<Rightarrow> bool" where
  "store_ok items keys hash c \<longleftrightarrow> shards_ok items keys hash c \<and> policies_ok c \<and> books_ok c \<and> within_budget c"

lemma store_okD:
  assumes "store_ok items keys hash c"
  shows "shards_ok items keys hash c" "policies_ok c" "books_ok c" "within_budget c"
  using assms by (auto simp: store_ok_def)

lemma shard_at:
  assumes "shards_ok items keys hash c" and "i < length (mc_shards c)"
  obtains qs where "shard_ok items keys (homed hash (length (mc_shards c)) (mc_next c) i) (cl_references (mc_cells c)) (mc_shards c ! i) qs"
  using assms by (auto simp: shards_ok_def)

lemma policy_at: "policies_ok c \<Longrightarrow> i < length (mc_shards c) \<Longrightarrow> is_lru (st_policy (sd_state (mc_shards c ! i))) = mc_release c
    \<and> mutable_hits (st_policy (sd_state (mc_shards c ! i))) = mc_mutable_hits c"
  by (auto simp: policies_ok_def)

lemma budget_at: "within_budget c \<Longrightarrow> i < length (mc_shards c) \<Longrightarrow> mc_release c \<or> sd_weight (mc_shards c ! i) \<le> sd_capacity (mc_shards c ! i)"
  by (auto simp: within_budget_def)

lemma homed_mono: "homed hash n limit i r \<Longrightarrow> limit \<le> limit' \<Longrightarrow> homed hash n limit' i r"
  by (auto simp: homed_def)

lemma shard_ok_mono:
  assumes "shard_ok items keys good refs sh qs" and "\<And>r. good r \<Longrightarrow> good' r"
    and "\<And>r. r \<in># held (sd_nodes sh) \<Longrightarrow> is_lru (st_policy (sd_state sh)) \<Longrightarrow> refs' (mr_id r) = 0 \<longleftrightarrow> refs (mr_id r) = 0"
  shows "shard_ok items keys good' refs' sh qs"
  using assms held_iff [OF shard_okD(3) [OF assms(1)]] unfolding shard_ok_def by (metis (no_types, lifting))

text \<open>Two versions of one key live in one shard, where keys are unique.\<close>

lemma one_version:
  assumes ok: "store_ok items keys hash c" and r: "r \<in># versions c" "s \<in># versions c" and key: "mr_key r = mr_key s"
  shows "r = s"
proof -
  let ?n = "length (mc_shards c)"
  obtain i j where i: "i < ?n" "r \<in># held (sd_nodes (mc_shards c ! i))" and j: "j < ?n" "s \<in># held (sd_nodes (mc_shards c ! j))"
    using r versions_iff by metis
  obtain qs qs' where oi: "shard_ok items keys (homed hash ?n (mc_next c) i) (cl_references (mc_cells c)) (mc_shards c ! i) qs"
    and oj: "shard_ok items keys (homed hash ?n (mc_next c) j) (cl_references (mc_cells c)) (mc_shards c ! j) qs'"
    using shard_at [OF store_okD(1) [OF ok]] i(1) j(1) by metis
  have "i = j" using shard_okD(9) [OF oi i(2)] shard_okD(9) [OF oj j(2)] key unfolding homed_def by metis
  then obtain x y where "recs (sd_nodes (mc_shards c ! i)) x = Some r" "recs (sd_nodes (mc_shards c ! i)) y = Some s"
    using held_iff [OF shard_okD(3) [OF oi]] i(2) j(2) by metis
  then show ?thesis using shard_okD(6) [OF oi] key unfolding unique_keys_def by (metis option.inject)
qed

lemma version_home:
  assumes "store_ok items keys hash c" and "r \<in># versions c"
  shows "mr_hash r = hash (mr_key r)" "r \<in># held (sd_nodes (mc_shards c ! mc_shard c (mr_hash r)))" "mr_id r < mc_next c"
proof -
  obtain i where i: "i < length (mc_shards c)" "r \<in># held (sd_nodes (mc_shards c ! i))" using assms(2) versions_iff by metis
  obtain qs where oi: "shard_ok items keys (homed hash (length (mc_shards c)) (mc_next c) i) (cl_references (mc_cells c)) (mc_shards c ! i) qs"
    using shard_at [OF store_okD(1) [OF assms(1)] i(1)] .
  have "homed hash (length (mc_shards c)) (mc_next c) i r" using shard_okD(9) [OF oi i(2)] .
  then show "mr_hash r = hash (mr_key r)" "r \<in># held (sd_nodes (mc_shards c ! mc_shard c (mr_hash r)))" "mr_id r < mc_next c"
    using i(2) by (auto simp: homed_def mc_shard_def)
qed

lemma home_in: "store_ok items keys hash c \<Longrightarrow> mc_shard c h < length (mc_shards c)"
  by (simp add: store_ok_def books_ok_def mc_shard_def)

section \<open>Working on one shard\<close>

definition flow ::
  "('k, 'v, 'p, 't, 's) work \<Rightarrow> ('k, 'v, 'p) mem_record list \<Rightarrow> ('k, 'v, 'p) mem_record list \<Rightarrow> ('k, 'v, 'p, 't, 's) work \<Rightarrow> bool" where
  "flow w R E w' \<longleftrightarrow> (case (w, w') of ((sh, cl, cc), (sh', cl', cc')) \<Rightarrow>
     held (sd_nodes sh) + mset R = held (sd_nodes sh') + mset E
     \<and> cl_resident cl' = (\<lambda>a. (cl_resident cl a \<or> a \<in> mr_id ` set R) \<and> a \<notin> mr_id ` set E)
     \<and> cc' = cc \<lparr> cc_resident := cc_resident cc + of_nat (wsum (mset R)) - of_nat (wsum (mset E)),
                  cc_entries := cc_entries cc + of_nat (length R) - of_nat (length E) \<rparr>
     \<and> st_policy (sd_state sh') = st_policy (sd_state sh))"

lemma moved_flow: "moved w R E w' \<Longrightarrow> flow w R E w'"
  by (cases w; cases w') (simp add: moved_def flow_def)

definition place :: "('k, 'v, 'p, 't, 's) mem_cache \<Rightarrow> nat \<Rightarrow> ('k, 'v, 'p, 't, 's) work \<Rightarrow> ('k, 'v, 'p, 't, 's) mem_cache" where
  "place c i w = c \<lparr> mc_shards := (mc_shards c)[i := fst w], mc_cells := fst (snd w), mc_counters := snd (snd w) \<rparr>"

lemma place_fields [simp]:
  "mc_shards (place c i w) = (mc_shards c)[i := fst w]" "mc_cells (place c i w) = fst (snd w)" "mc_counters (place c i w) = snd (snd w)"
  "mc_next (place c i w) = mc_next c" "mc_release (place c i w) = mc_release c" "mc_mutable_hits (place c i w) = mc_mutable_hits c"
  "mc_listener (place c i w) = mc_listener c" "mc_events (place c i w) = mc_events c" "mc_capacity (place c i w) = mc_capacity c"
  "mc_shard (place c i w) h = mc_shard c h"
  by (simp_all add: place_def mc_shard_def)

lemma on_shard_place:
  assumes "i < length (mc_shards c)" and "f (mc_shards c ! i, mc_cells c, mc_counters c) = Some (a, w')"
  shows "on_shard c i f = Some (a, place c i w')"
  using assms by (cases w') (simp add: on_shard_def nth_opt_def place_def)

lemma exchange:
  assumes "A + R = B + E" and "V' + A = V + (B :: 'a multiset)"
  shows "V + R = V' + E"
proof -
  have "(V + R) + B = (V + B) + R" by (simp add: ac_simps)
  also have "\<dots> = V' + (A + R)" unfolding assms(2) [symmetric] by (simp add: ac_simps)
  also have "\<dots> = (V' + E) + B" unfolding assms(1) by (simp add: ac_simps)
  finally show ?thesis by simp
qed

lemma place_versions:
  assumes "i < length (mc_shards c)" and "flow (mc_shards c ! i, mc_cells c, mc_counters c) R E w'"
  shows "versions c + mset R = versions (place c i w') + mset E"
proof -
  let ?f = "\<lambda>sh. held (sd_nodes sh)"
  have "?f (mc_shards c ! i) + mset R = ?f (fst w') + mset E" using assms(2) by (cases w') (simp add: flow_def)
  moreover have "versions (place c i w') + ?f (mc_shards c ! i) = versions c + ?f (fst w')"
    using sum_list_swap [OF assms(1), of ?f "fst w'"] by (simp add: versions_def)
  ultimately show ?thesis by (rule exchange)
qed

lemma books_place:
  assumes ok: "books_ok c" and i: "i < length (mc_shards c)" and fl: "flow (mc_shards c ! i, mc_cells c, mc_counters c) R E w'"
    and u: "unique_ids (versions c + mset R)"
  shows "books_ok (place c i w')"
proof -
  obtain sh' cl' cc' where w': "w' = (sh', cl', cc')" by (cases w')
  define V where "V = versions (place c i w')"
  have v: "versions c + mset R = V + mset E" using place_versions [OF i fl] by (simp add: V_def)
  have uE: "unique_ids (V + mset E)" using u v by simp
  have "size (versions c) + length R = size V + length E" "wsum (versions c) + wsum (mset R) = wsum V + wsum (mset E)"
    using arg_cong [OF v, of size] arg_cong [OF v, of wsum] by simp_all
  then have n: "of_nat (size (versions c)) + of_nat (length R) - of_nat (length E) = (of_nat (size V) :: u64)"
    "of_nat (wsum (versions c)) + of_nat (wsum (mset R)) - of_nat (wsum (mset E)) = (of_nat (wsum V) :: u64)"
    by (metis add_diff_cancel_right' of_nat_add)+
  have "a \<in> mr_id ` set_mset V \<longleftrightarrow> (a \<in> mr_id ` set_mset (versions c) \<or> a \<in> mr_id ` set R) \<and> a \<notin> mr_id ` set E" for a
  proof
    assume "a \<in> mr_id ` set_mset V"
    then obtain r where r: "r \<in># V" "a = mr_id r" by blast
    then have "r \<in># versions c + mset R" unfolding v by simp
    then show "(a \<in> mr_id ` set_mset (versions c) \<or> a \<in> mr_id ` set R) \<and> a \<notin> mr_id ` set E"
      using r unique_ids_parts [OF uE r(1)] by auto
  next
    assume a: "(a \<in> mr_id ` set_mset (versions c) \<or> a \<in> mr_id ` set R) \<and> a \<notin> mr_id ` set E"
    then obtain r where r: "r \<in># versions c + mset R" "a = mr_id r" by auto
    then show "a \<in> mr_id ` set_mset V" using a unfolding v by auto
  qed
  moreover have "cl_resident cl' = (\<lambda>a. (a \<in> mr_id ` set_mset (versions c) \<or> a \<in> mr_id ` set R) \<and> a \<notin> mr_id ` set E)"
    "cc_entries cc' = of_nat (size V)" "cc_resident cc' = of_nat (wsum V)"
    "cc_insertions cc' = cc_insertions (mc_counters c)" "cc_rejections cc' = cc_rejections (mc_counters c)"
    using ok fl n by (simp_all add: books_ok_def flow_def w')
  ultimately show ?thesis using ok unique_ids_mono [OF uE] unfolding books_ok_def V_def [symmetric] by (simp add: w')
qed

lemma place_ok:
  assumes ok: "store_ok items keys hash c" and i: "i < length (mc_shards c)"
    and fl: "flow (mc_shards c ! i, mc_cells c, mc_counters c) R E w'" and u: "unique_ids (versions c + mset R)"
    and sh: "shard_ok items keys (homed hash (length (mc_shards c)) (mc_next c) i) (cl_references (fst (snd w'))) (fst w') qs"
    and pins: "\<And>j r. j < length (mc_shards c) \<Longrightarrow> j \<noteq> i \<Longrightarrow> r \<in># held (sd_nodes (mc_shards c ! j)) \<Longrightarrow>
      cl_references (fst (snd w')) (mr_id r) = 0 \<longleftrightarrow> cl_references (mc_cells c) (mr_id r) = 0"
    and fit: "mc_release c \<or> sd_weight (fst w') \<le> sd_capacity (fst w')"
  shows "store_ok items keys hash (place c i w')"
proof -
  note d = store_okD [OF ok]
  have "\<exists>qs. shard_ok items keys (homed hash (length (mc_shards c)) (mc_next c) j) (cl_references (fst (snd w'))) ((mc_shards c)[i := fst w'] ! j) qs"
    if j: "j < length (mc_shards c)" for j
  proof (cases "j = i")
    case True
    then show ?thesis using sh i by auto
  next
    case False
    obtain qs where "shard_ok items keys (homed hash (length (mc_shards c)) (mc_next c) j) (cl_references (mc_cells c)) (mc_shards c ! j) qs"
      using shard_at [OF d(1) j] .
    then have "shard_ok items keys (homed hash (length (mc_shards c)) (mc_next c) j) (cl_references (fst (snd w'))) (mc_shards c ! j) qs"
      by (rule shard_ok_mono) (use pins j False in auto)
    then show ?thesis using False by auto
  qed
  then have "shards_ok items keys hash (place c i w')" by (simp add: shards_ok_def)
  moreover have "policies_ok (place c i w')"
  proof -
    obtain p where p: "\<forall>sh \<in> set (mc_shards c). st_policy (sd_state sh) = p" "mc_release c = is_lru p" "mc_mutable_hits c = mutable_hits p"
      using d(2) by (auto simp: policies_ok_def)
    have "st_policy (sd_state (fst w')) = p" using fl p(1) i by (cases w') (simp add: flow_def)
    then have "\<forall>sh \<in> set ((mc_shards c)[i := fst w']). st_policy (sd_state sh) = p"
      using p(1) set_update_subset_insert [of "mc_shards c" i "fst w'"] by auto
    then show ?thesis using p(2,3) by (auto simp: policies_ok_def)
  qed
  moreover have "within_budget (place c i w')"
    using d(4) fit set_update_subset_insert [of "mc_shards c" i "fst w'"] unfolding within_budget_def by auto
  ultimately show ?thesis using books_place [OF d(3) i fl u] by (simp add: store_ok_def)
qed

section \<open>Notifications and handles\<close>

text \<open>Changes that leave the shards and the residency of versions alone.\<close>

definition same_store :: "('k, 'v, 'p, 't, 's) mem_cache \<Rightarrow> ('k, 'v, 'p, 't, 's) mem_cache \<Rightarrow> bool" where
  "same_store c c' \<longleftrightarrow> mc_shards c' = mc_shards c \<and> mc_release c' = mc_release c \<and> mc_mutable_hits c' = mc_mutable_hits c
     \<and> mc_listener c' = mc_listener c \<and> cl_resident (mc_cells c') = cl_resident (mc_cells c)
     \<and> length (cc_insertions (mc_counters c')) = length (cc_insertions (mc_counters c))
     \<and> length (cc_rejections (mc_counters c')) = length (cc_rejections (mc_counters c))
     \<and> cc_entries (mc_counters c') = cc_entries (mc_counters c) \<and> cc_resident (mc_counters c') = cc_resident (mc_counters c)"

lemma same_versions: "same_store c c' \<Longrightarrow> versions c' = versions c"
  by (simp add: same_store_def versions_def)

lemma same_store_refl [simp]: "same_store c c"
  by (simp add: same_store_def)

lemma same_store_trans: "same_store c c1 \<Longrightarrow> same_store c1 c2 \<Longrightarrow> same_store c c2"
  by (simp add: same_store_def)

lemma same_store_ok:
  assumes ok: "store_ok items keys hash c" and same: "same_store c c'" and nxt: "mc_next c \<le> mc_next c'"
    and refs: "\<And>r. r \<in># versions c \<Longrightarrow> mc_release c \<Longrightarrow>
      cl_references (mc_cells c') (mr_id r) = 0 \<longleftrightarrow> cl_references (mc_cells c) (mr_id r) = 0"
  shows "store_ok items keys hash c'"
proof -
  note d = store_okD [OF ok] and e = same [unfolded same_store_def]
  have "\<exists>qs. shard_ok items keys (homed hash (length (mc_shards c)) (mc_next c') i) (cl_references (mc_cells c')) (mc_shards c ! i) qs"
    if i: "i < length (mc_shards c)" for i
  proof -
    obtain qs where "shard_ok items keys (homed hash (length (mc_shards c)) (mc_next c) i) (cl_references (mc_cells c)) (mc_shards c ! i) qs"
      using shard_at [OF d(1) i] .
    then have "shard_ok items keys (homed hash (length (mc_shards c)) (mc_next c') i) (cl_references (mc_cells c')) (mc_shards c ! i) qs"
      by (rule shard_ok_mono) (use homed_mono nxt refs versions_iff i policy_at [OF d(2) i] in blast)+
    then show ?thesis ..
  qed
  then have "shards_ok items keys hash c'" using e by (simp add: shards_ok_def)
  moreover have "policies_ok c'" "books_ok c'" "within_budget c'"
    using d(2,3,4) e same_versions [OF same] by (simp_all add: policies_ok_def books_ok_def within_budget_def)
  ultimately show ?thesis by (simp add: store_ok_def)
qed

definition notified :: "('k, 'v, 'p, 't, 's) mem_cache \<Rightarrow> ('k, 'v, 'p) removed \<Rightarrow> ('k, 'v, 'p, 't, 's) mem_cache \<Rightarrow> bool" where
  "notified c removed c' \<longleftrightarrow> same_store c c' \<and> mc_next c' = mc_next c \<and> mc_capacity c' = mc_capacity c
     \<and> mc_events c' = mc_events c @ (if mc_listener c then removed else [])
     \<and> cl_references (mc_cells c') = (\<lambda>a. cl_references (mc_cells c) a
          + (if mc_listener c then count (mset (map (\<lambda>x. mr_id (fst x)) removed)) a else 0))"

lemma dispatch_notified:
  assumes "mc_shards c \<noteq> []" and "length (cc_rejections (mc_counters c)) = length (mc_shards c)"
  shows "\<exists>c'. dispatch removed c = Some c' \<and> notified c removed c'"
  using assms
proof (induction removed arbitrary: c)
  case Nil
  then show ?case by (simp add: notified_def fun_eq_iff)
next
  case (Cons x rest)
  obtain r reason where x: "x = (r, reason)" by (cases x)
  let ?k = "mc_shard c (mr_hash r)"
  have k: "?k < length (cc_rejections (mc_counters c))" using Cons(2,3) by (simp add: mc_shard_def)
  obtain cc where cc: "(case reason of
        Evicted \<Rightarrow> Some (mc_counters c \<lparr> cc_evictions := cc_evictions (mc_counters c) + 1 \<rparr>)
      | Rejected \<Rightarrow>
          do { n \<leftarrow> nth_opt (cc_rejections (mc_counters c)) ?k;
               Some (mc_counters c \<lparr> cc_rejections := (cc_rejections (mc_counters c))[?k := n + 1] \<rparr>) }
      | _ \<Rightarrow> Some (mc_counters c)) = Some cc"
    "length (cc_insertions cc) = length (cc_insertions (mc_counters c))" "length (cc_rejections cc) = length (cc_rejections (mc_counters c))"
    "cc_entries cc = cc_entries (mc_counters c)" "cc_resident cc = cc_resident (mc_counters c)"
    using k by (cases reason) (auto simp: nth_opt_def)
  define c1 where "c1 = (if mc_listener c
    then c \<lparr> mc_counters := cc, mc_cells := snd (entry_acquire r False (mc_cells c)), mc_events := mc_events c @ [(r, reason)] \<rparr>
    else c \<lparr> mc_counters := cc \<rparr>)"
  have n1: "notified c [x] c1" using cc x by (auto simp: notified_def same_store_def entry_acquire_def c1_def)
  then have "mc_shards c1 \<noteq> []" "length (cc_rejections (mc_counters c1)) = length (mc_shards c1)"
    using Cons(2,3) by (simp_all add: notified_def same_store_def)
  then obtain c' where c': "dispatch rest c1 = Some c'" "notified c1 rest c'" using Cons(1) by blast
  have "dispatch (x # rest) c = Some c'" using c'(1) unfolding x dispatch.simps cc(1) c1_def by simp
  moreover have "notified c (x # rest) c'"
    using n1 c'(2) same_store_trans [of c c1 c'] by (auto simp: notified_def same_store_def intro!: ext)
  ultimately show ?case by blast
qed

lemma notified_ok:
  assumes ok: "store_ok items keys hash c" and n: "notified c removed c'"
    and gone: "\<And>x r. x \<in> set removed \<Longrightarrow> r \<in># versions c \<Longrightarrow> mr_id (fst x) \<noteq> mr_id r"
  shows "store_ok items keys hash c'" "versions c' = versions c"
proof -
  have "cl_references (mc_cells c') (mr_id r) = cl_references (mc_cells c) (mr_id r)" if r: "r \<in># versions c" for r
  proof -
    have "mr_id r \<notin> set (map (\<lambda>x. mr_id (fst x)) removed)" using gone [OF _ r] by (metis (mono_tags, lifting) imageE set_map)
    then have "count (mset (map (\<lambda>x. mr_id (fst x)) removed)) (mr_id r) = 0" by (simp add: count_eq_zero_iff)
    then show ?thesis using n by (simp add: notified_def)
  qed
  then show "store_ok items keys hash c'" using same_store_ok [OF ok, of c'] n by (simp add: notified_def)
  show "versions c' = versions c" using same_versions [of c c'] n by (simp add: notified_def)
qed

end
