(* ===== verification/Mem_Ops.thy ===== *)
theory Mem_Ops
  imports Mem_Store
begin

text \<open>
  Every operation of the memory cache returns from a state that satisfies the invariant, keeps it,
  and moves versions exactly as its contract says.
\<close>

section \<open>Operations on one shard\<close>

context cache_libraries
begin

lemma lookup_shard_ok:
  assumes ok: "shard_ok items keys good (cl_references cl) sh qs" and hash: "\<And>s. good s \<Longrightarrow> pb_equivalent q (mr_key s) \<Longrightarrow> mr_hash s = pb_hash q"
    and mut: "mutable = mutable_hits (st_policy (sd_state sh))"
  obtains (miss) sh' where "shard_lookup lib mutable release q (sh, cl, cc) = Some (None, sh', cl, cc)"
      "\<forall>r \<in># held (sd_nodes sh). \<not> pb_equivalent q (mr_key r)" "flow (sh, cl, cc) [] [] (sh', cl, cc)"
      "shard_ok items keys good (cl_references cl) sh' qs" "sd_weight sh' = sd_weight sh" "sd_capacity sh' = sd_capacity sh"
  | (hit) r sh' cl' qs' where
      "shard_lookup lib mutable release q (sh, cl, cc) = Some (Some \<lparr> en_record = r, en_release = (mutable \<and> release) \<rparr>, sh', cl', cc)"
      "r \<in># held (sd_nodes sh)" "pb_equivalent q (mr_key r)" "flow (sh, cl, cc) [] [] (sh', cl', cc)"
      "cl' = cl \<lparr> cl_references := (cl_references cl)(mr_id r := cl_references cl (mr_id r) + 1) \<rparr>"
      "shard_ok items keys good (cl_references cl') sh' qs'" "sd_weight sh' = sd_weight sh" "sd_capacity sh' = sd_capacity sh"
proof -
  note d = shard_okD [OF ok]
  have only: "mr_hash s = pb_hash q" if "s \<in># held (sd_nodes sh)" "pb_equivalent q (mr_key s)" for s
    using hash d(9) that by blast
  show ?thesis
  proof (rule search_ok [OF ok, where acc = "\<lambda>s. pb_equivalent q (mr_key s)" and h = "pb_hash q", OF only])
    assume f: "find_by (\<lambda>i. map_option (\<lambda>n. pb_equivalent q (mr_key (nd_record n))) (sd_nodes sh i)) (tb_probe lib (sd_index sh) (pb_hash q)) = Some None"
      "\<forall>s \<in># held (sd_nodes sh). \<not> pb_equivalent q (mr_key s)"
    have "shard_lookup lib mutable release q (sh, cl, cc) = Some (None, sh \<lparr> sd_misses := sd_misses sh + 1 \<rparr>, cl, cc)"
      using f(1) by (simp add: shard_lookup_def shard_find_def)
    then show ?thesis by (rule miss) (use f(2) ok in \<open>simp_all add: flow_def shard_ok_def\<close>)
  next
    fix x r
    assume f: "find_by (\<lambda>i. map_option (\<lambda>n. pb_equivalent q (mr_key (nd_record n))) (sd_nodes sh i)) (tb_probe lib (sd_index sh) (pb_hash q)) = Some (Some x)"
      "recs (sd_nodes sh) x = Some r" "pb_equivalent q (mr_key r)" "r \<in># held (sd_nodes sh)"
    obtain n where n: "sd_nodes sh x = Some n" "nd_record n = r" using f(2) by (auto simp: recs_def)
    let ?cl = "cl \<lparr> cl_references := (cl_references cl)(mr_id r := cl_references cl (mr_id r) + 1) \<rparr>"
    have "\<exists>st m qs'. (if mutable then state_access x (sd_state sh, sd_nodes sh) else access_shared x (sd_state sh, sd_nodes sh)) = Some (st, m)
      \<and> kept (sd_state sh) (sd_nodes sh) qs st m qs' \<and> (\<forall>c. st_policy (sd_state sh) = Lru c \<longrightarrow> set (qs' ! 2) = insert x (set (qs ! 2)))"
    proof (cases mutable)
      case True
      have "x \<in> set (concat qs)" using queued_node [OF ok] n(1) by auto
      then show ?thesis using state_access_ok [OF d(1), of x] True mut by metis
    next
      case False
      then have nl: "\<forall>c. st_policy (sd_state sh) \<noteq> Lru c" using mut by auto
      show ?thesis using access_shared_ok [OF d(1) _ n(1)] False mut nl by metis
    qed
    then obtain st m qs' where a: "(if mutable then state_access x (sd_state sh, sd_nodes sh) else access_shared x (sd_state sh, sd_nodes sh)) = Some (st, m)"
      "kept (sd_state sh) (sd_nodes sh) qs st m qs'" "\<forall>c. st_policy (sd_state sh) = Lru c \<longrightarrow> set (qs' ! 2) = insert x (set (qs ! 2))"
      by blast
    let ?sh = "sh \<lparr> sd_hits := sd_hits sh + 1, sd_state := st, sd_nodes := m \<rparr>"
    have pins: "\<forall>y s. recs (sd_nodes sh) y = Some s \<longrightarrow> (y \<in> set (qs' ! 2) \<longleftrightarrow> cl_references ?cl (mr_id s) \<noteq> 0)" if lru: "is_lru (st_policy (sd_state sh))"
    proof (intro allI impI)
      fix y s assume y: "recs (sd_nodes sh) y = Some s"
      have q': "set (qs' ! 2) = insert x (set (qs ! 2))" using a(3) lru by (auto simp: is_lru_iff)
      have "y \<noteq> x \<Longrightarrow> mr_id s \<noteq> mr_id r" using d(6) f(2) y unfolding unique_keys_def by metis
      then show "y \<in> set (qs' ! 2) \<longleftrightarrow> cl_references ?cl (mr_id s) \<noteq> 0" using q' d(10) [OF lru y] f(2) y by (cases "y = x") auto
    qed
    have "shard_ok items keys good (cl_references ?cl) (sh \<lparr> sd_state := st, sd_nodes := m \<rparr>) qs'"
      by (rule shard_ok_kept [OF ok a(2)]) (use pins in blast)
    then have ok': "shard_ok items keys good (cl_references ?cl) ?sh qs'" by (simp add: shard_ok_def)
    have run: "shard_lookup lib mutable release q (sh, cl, cc) = Some (Some \<lparr> en_record = r, en_release = (mutable \<and> release) \<rparr>, ?sh, ?cl, cc)"
      using f(1) n a(1) by (simp add: shard_lookup_def shard_find_def entry_acquire_def)
    have "flow (sh, cl, cc) [] [] (?sh, ?cl, cc)" using a(2) held_cong [of m "sd_nodes sh"] by (simp add: flow_def kept_def)
    then show ?thesis by (rule hit [OF run f(4,3) _ refl ok']) simp_all
  qed
qed

lemma release_shard_ok:
  assumes ok: "shard_ok items keys good refs sh qs" and x: "recs (sd_nodes sh) x = Some r"
    and refs: "refs' = refs(mr_id r := 0)"
  obtains st m qs' where "state_release x (sd_state sh, sd_nodes sh) = Some (st, m)" "kept (sd_state sh) (sd_nodes sh) qs st m qs'"
    "shard_ok items keys good refs' (sh \<lparr> sd_state := st, sd_nodes := m \<rparr>) qs'"
proof -
  note d = shard_okD [OF ok]
  have "x \<in> set (concat qs)" using queued_node [OF ok] x by (auto simp: recs_def)
  then obtain st m qs' where r: "state_release x (sd_state sh, sd_nodes sh) = Some (st, m)" "kept (sd_state sh) (sd_nodes sh) qs st m qs'"
    "\<forall>c. st_policy (sd_state sh) = Lru c \<longrightarrow> set (qs' ! 2) = set (qs ! 2) - {x}"
    using state_release_ok [OF d(1)] by metis
  have "\<forall>y s. recs (sd_nodes sh) y = Some s \<longrightarrow> (y \<in> set (qs' ! 2) \<longleftrightarrow> refs' (mr_id s) \<noteq> 0)" if lru: "is_lru (st_policy (sd_state sh))"
  proof (intro allI impI)
    fix y s assume y: "recs (sd_nodes sh) y = Some s"
    have q': "set (qs' ! 2) = set (qs ! 2) - {x}" using r(3) lru by (auto simp: is_lru_iff)
    have "y \<noteq> x \<Longrightarrow> mr_id s \<noteq> mr_id r" using d(6) x y unfolding unique_keys_def by metis
    then show "y \<in> set (qs' ! 2) \<longleftrightarrow> refs' (mr_id s) \<noteq> 0" using q' d(10) [OF lru y] x y refs by (cases "y = x") auto
  qed
  then have "shard_ok items keys good refs' (sh \<lparr> sd_state := st, sd_nodes := m \<rparr>) qs'" by (rule shard_ok_kept [OF ok r(2)])
  then show ?thesis using that r(1,2) by blast
qed

lemma detach_all_ok:
  assumes "shard_ok items keys good refs sh qs" and "distinct is" and "set is \<subseteq> dom (sd_nodes sh)"
  shows "\<exists>E sh' cl' cc' qs'. detach_all lib is removed (sh, cl, cc) = Some (removed @ map (\<lambda>r. (r, Cleared)) E, sh', cl', cc')
    \<and> shard_ok items keys good refs sh' qs' \<and> lost (sh, cl, cc) E (sh', cl', cc') \<and> dom (sd_nodes sh') = dom (sd_nodes sh) - set is"
  using assms
proof (induction "is" arbitrary: sh cl cc qs removed)
  case Nil
  have "detach_all lib [] removed (sh, cl, cc) = Some (removed @ map (\<lambda>r. (r, Cleared)) [], sh, cl, cc)" by simp
  then show ?case using Nil(1) lost_refl [of "(sh, cl, cc)"] by fastforce
next
  case (Cons x xs)
  obtain r where r: "recs (sd_nodes sh) x = Some r" using Cons(4) by (auto simp: recs_def)
  obtain sh1 cl1 cc1 qs1 where dt: "shard_detach lib x (sh, cl, cc) = Some (r, sh1, cl1, cc1)" "shard_ok items keys good refs sh1 qs1"
    "lost (sh, cl, cc) [r] (sh1, cl1, cc1)" "recs (sd_nodes sh1) = (recs (sd_nodes sh))(x := None)"
    by (rule detach_ok [OF Cons(2) r])
  have d1: "dom (sd_nodes sh1) = dom (sd_nodes sh) - {x}" unfolding dom_recs dt(4) by auto
  then have "distinct xs" "set xs \<subseteq> dom (sd_nodes sh1)" using Cons(3,4) by auto
  then obtain E sh' cl' cc' qs' where IH: "detach_all lib xs (removed @ [(r, Cleared)]) (sh1, cl1, cc1) = Some ((removed @ [(r, Cleared)]) @ map (\<lambda>r. (r, Cleared)) E, sh', cl', cc')"
    "shard_ok items keys good refs sh' qs'" "lost (sh1, cl1, cc1) E (sh', cl', cc')" "dom (sd_nodes sh') = dom (sd_nodes sh1) - set xs"
    using Cons(1) [OF dt(2)] by blast
  have "detach_all lib (x # xs) removed (sh, cl, cc) = Some (removed @ map (\<lambda>r. (r, Cleared)) (r # E), sh', cl', cc')" using dt(1) IH(1) by simp
  moreover have "lost (sh, cl, cc) (r # E) (sh', cl', cc')" using lost_trans [OF dt(3) IH(3)] by simp
  ultimately show ?case using IH(2,4) d1 by (intro exI [of _ "r # E"] exI [of _ sh'] exI [of _ cl'] exI [of _ cc'] exI [of _ qs']) auto
qed

lemma clear_shard_ok:
  assumes ok: "shard_ok items keys good refs sh qs"
  obtains E sh' cl' cc' qs' where "shard_clear lib (sh, cl, cc) = Some (map (\<lambda>r. (r, Cleared)) E, sh', cl', cc')"
    "shard_ok items keys good refs sh' qs'" "lost (sh, cl, cc) E (sh', cl', cc')" "held (sd_nodes sh') = {#}"
proof -
  have it: "distinct (sl_iter lib (sd_slab sh))" "set (sl_iter lib (sd_slab sh)) = dom (sd_nodes sh)"
    using keys_iter shard_okD(4) [OF ok] by auto
  obtain E sh1 cl' cc' qs1 where r: "detach_all lib (sl_iter lib (sd_slab sh)) [] (sh, cl, cc) = Some ([] @ map (\<lambda>r. (r, Cleared)) E, sh1, cl', cc')"
    "shard_ok items keys good refs sh1 qs1" "lost (sh, cl, cc) E (sh1, cl', cc')" "dom (sd_nodes sh1) = dom (sd_nodes sh) - dom (sd_nodes sh)"
    using detach_all_ok [OF ok it(1), of "[]" cl cc] it(2) by auto
  have k: "kept (sd_state sh1) (sd_nodes sh1) qs1 (clear_history (sd_state sh1)) (sd_nodes sh1) qs1"
    using clear_history_ok [OF shard_okD(1) [OF r(2)]] .
  let ?sh = "sh1 \<lparr> sd_state := clear_history (sd_state sh1), sd_nodes := sd_nodes sh1 \<rparr>"
  have "shard_ok items keys good refs ?sh qs1" by (rule shard_ok_kept [OF r(2) k]) (use shard_okD(10) [OF r(2)] in blast)
  moreover have "lost (sh, cl, cc) E (?sh, cl', cc')" using lost_trans [OF r(3) lost_kept [OF k]] by simp
  moreover have "held (sd_nodes ?sh) = {#}" using r(4) by (simp add: held_def)
  moreover have "shard_clear lib (sh, cl, cc) = Some (map (\<lambda>r. (r, Cleared)) E, ?sh, cl', cc')" using r(1) by (simp add: shard_clear_def)
  ultimately show ?thesis using that by blast
qed

lemma resize_shard_ok:
  assumes ok: "shard_ok items keys good refs sh qs"
  obtains E sh' cl' cc' qs' where "shard_resize lib capacity removed (sh, cl, cc) = Some (removed @ map (\<lambda>r. (r, Evicted)) E, sh', cl', cc')"
    "shard_ok items keys good refs sh' qs'" "flow (sh, cl, cc) [] E (sh', cl', cc')" "cl_references cl' = cl_references cl" "sd_capacity sh' = capacity"
    "sd_weight sh' \<le> capacity \<or> is_lru (st_policy (sd_state sh)) \<and> (\<forall>r \<in># held (sd_nodes sh'). refs (mr_id r) \<noteq> 0)"
    "is_lru (st_policy (sd_state sh)) \<longrightarrow> (\<forall>r \<in> set E. refs (mr_id r) = 0)"
proof -
  note d = shard_okD [OF ok]
  obtain st m qs1 where r: "state_resize capacity (sd_state sh, sd_nodes sh) = Some (st, m)" "state_ok st m qs1" "recs m = recs (sd_nodes sh)"
    "mset (concat qs1) = mset (concat qs)" "st_policy st = st_policy (sd_state sh)" "st_capacity st = capacity"
    "\<forall>c. st_policy (sd_state sh) = Lru c \<longrightarrow> qs1 ! 2 = qs ! 2"
    by (rule state_resize_ok [OF d(1)])
  let ?sh = "sh \<lparr> sd_capacity := capacity, sd_state := st, sd_nodes := m \<rparr>"
  have "shard_ok items keys good refs ?sh qs1"
    using ok r(2-7) recs_dom [OF r(3)] held_cong [OF r(3)] entries_cong [OF r(3)] unique_keys_cong [OF r(3)]
    by (auto simp: shard_ok_def is_lru_iff)
  then obtain E sh' cl' cc' qs' where t: "shard_trim lib (?sh, cl, cc) removed = Some (removed @ map (\<lambda>r. (r, Evicted)) E, sh', cl', cc')"
    "shard_ok items keys good refs sh' qs'" "trimmed refs (?sh, cl, cc) E (sh', cl', cc')"
    using trim_ok by blast
  have l: "lost (?sh, cl, cc) E (sh', cl', cc')" using trimmed_lost [OF t(3)] .
  then have c: "sd_capacity sh' = capacity" "st_policy (sd_state sh') = st_policy (sd_state sh)" "cl_references cl' = cl_references cl"
    using lostD [OF l] r(5) by simp_all
  have "flow (sh, cl, cc) [] E (sh', cl', cc')" using l held_cong [OF r(3)] r(5) by (simp add: lost_def flow_def)
  moreover have "shard_resize lib capacity removed (sh, cl, cc) = Some (removed @ map (\<lambda>r. (r, Evicted)) E, sh', cl', cc')"
    using r(1) t(1) by (simp add: shard_resize_def)
  ultimately show ?thesis using that t(2,3) c r(5) by (simp add: trimmed_def)
qed

end

section \<open>Lookups\<close>

definition lawful :: "('k \<Rightarrow> u64) \<Rightarrow> 'k probe \<Rightarrow> bool" where
  "lawful hash q \<longleftrightarrow> (\<forall>k. pb_equivalent q k \<longrightarrow> hash k = pb_hash q)"

definition probe_of :: "('k \<Rightarrow> u64) \<Rightarrow> 'k \<Rightarrow> 'k probe" where
  "probe_of hash key = \<lparr> pb_hash = hash key, pb_equivalent = \<lambda>k. key = k \<rparr>"

lemma lawful_probe_of [simp]: "lawful hash (probe_of hash key)"
  by (simp add: lawful_def probe_of_def)

text \<open>What a lookup returns, and its effect on the handles.\<close>

definition looked_up :: "'k probe \<Rightarrow> ('k, 'v, 'p, 't, 's) mem_cache \<Rightarrow> ('k, 'v, 'p) mem_entry option \<Rightarrow> ('k, 'v, 'p, 't, 's) mem_cache \<Rightarrow> bool" where
  "looked_up q c res c' \<longleftrightarrow> versions c' = versions c \<and> mc_next c' = mc_next c \<and> mc_release c' = mc_release c \<and> mc_capacity c' = mc_capacity c
     \<and> map sd_capacity (mc_shards c') = map sd_capacity (mc_shards c) \<and> mc_events c' = mc_events c \<and> mc_listener c' = mc_listener c
     \<and> (case res of
          None \<Rightarrow> (\<forall>r \<in># versions c. \<not> pb_equivalent q (mr_key r)) \<and> mc_cells c' = mc_cells c
        | Some e \<Rightarrow> en_record e \<in># versions c \<and> pb_equivalent q (mr_key (en_record e)) \<and> en_release e = mc_release c
            \<and> mc_cells c' = mc_cells c \<lparr> cl_references := (cl_references (mc_cells c))
                (mr_id (en_record e) := cl_references (mc_cells c) (mr_id (en_record e)) + 1) \<rparr>)"

lemma is_lru_mutable: "is_lru p \<Longrightarrow> mutable_hits p"
  by (auto simp: is_lru_iff)

lemma other_shard:
  assumes ok: "store_ok items keys hash c" and "i < length (mc_shards c)" "j < length (mc_shards c)" "j \<noteq> i"
    and "r \<in># held (sd_nodes (mc_shards c ! i))" "s \<in># held (sd_nodes (mc_shards c ! j))"
  shows "mr_id s \<noteq> mr_id r"
proof -
  let ?f = "\<lambda>sh. held (sd_nodes sh)"
  define N where "N = (\<Sum>sh \<leftarrow> take i (mc_shards c) @ drop (Suc i) (mc_shards c). ?f sh)"
  have v: "versions c = ?f (mc_shards c ! i) + N"
    unfolding versions_def N_def using assms(2) by (subst id_take_nth_drop [of i]) (auto simp: ac_simps)
  have "mc_shards c ! j \<in> set (take i (mc_shards c) @ drop (Suc i) (mc_shards c))"
  proof (cases "j < i")
    case True
    then have "take i (mc_shards c) ! j = mc_shards c ! j" "j < length (take i (mc_shards c))" using assms(2,3) by simp_all
    then show ?thesis by (metis Un_iff nth_mem set_append)
  next
    case False
    then have "drop (Suc i) (mc_shards c) ! (j - Suc i) = mc_shards c ! j" "j - Suc i < length (drop (Suc i) (mc_shards c))" using assms(2,3,4) by simp_all
    then show ?thesis by (metis Un_iff nth_mem set_append)
  qed
  then have s: "s \<in># N" unfolding N_def using assms(6) by (auto simp: set_mset_sum_list)
  have "unique_ids (?f (mc_shards c ! i) + N)" using store_okD(3) [OF ok] v by (metis books_ok_def)
  then show ?thesis using unique_ids_parts assms(5) s by metis
qed

lemma map_capacity_place: "i < length (mc_shards c) \<Longrightarrow> sd_capacity (fst w) = sd_capacity (mc_shards c ! i)
    \<Longrightarrow> map sd_capacity (mc_shards (place c i w)) = map sd_capacity (mc_shards c)"
  by (simp add: map_update)  (metis length_map list_update_id nth_map)

context cache_libraries
begin

lemma get_ok:
  assumes ok: "store_ok items keys hash c" and q: "lawful hash q"
  obtains res c' where "get_hashed lib q c = Some (res, c')" "store_ok items keys hash c'" "looked_up q c res c'"
proof -
  let ?i = "mc_shard c (pb_hash q)" and ?n = "length (mc_shards c)"
  let ?sh = "mc_shards c ! ?i" and ?cl = "mc_cells c" and ?cc = "mc_counters c"
  have i: "?i < ?n" using home_in [OF ok] .
  obtain qs where sh: "shard_ok items keys (homed hash ?n (mc_next c) ?i) (cl_references ?cl) ?sh qs" using shard_at [OF store_okD(1) [OF ok] i] .
  have law: "mr_hash s = pb_hash q" if "homed hash ?n (mc_next c) ?i s" "pb_equivalent q (mr_key s)" for s
    using that q by (simp add: homed_def lawful_def)
  have pol: "mc_mutable_hits c = mutable_hits (st_policy (sd_state ?sh))" "is_lru (st_policy (sd_state ?sh)) = mc_release c"
    using policy_at [OF store_okD(2) [OF ok] i] by simp_all
  have u: "unique_ids (versions c + mset [])" using store_okD(3) [OF ok] by (simp add: books_ok_def)
  have fit: "mc_release c \<or> sd_weight ?sh \<le> sd_capacity ?sh" using budget_at [OF store_okD(4) [OF ok] i] .
  show ?thesis
  proof (rule lookup_shard_ok [OF sh law pol(1), where release = "mc_release c" and cc = ?cc])
    fix sh'
    assume r: "shard_lookup lib (mc_mutable_hits c) (mc_release c) q (?sh, ?cl, ?cc) = Some (None, sh', ?cl, ?cc)"
      "\<forall>r \<in># held (sd_nodes ?sh). \<not> pb_equivalent q (mr_key r)" "flow (?sh, ?cl, ?cc) [] [] (sh', ?cl, ?cc)"
      "shard_ok items keys (homed hash ?n (mc_next c) ?i) (cl_references ?cl) sh' qs" "sd_weight sh' = sd_weight ?sh" "sd_capacity sh' = sd_capacity ?sh"
    have "get_hashed lib q c = Some (None, place c ?i (sh', ?cl, ?cc))" unfolding get_hashed_def by (rule on_shard_place, rule i, rule r(1))
    moreover have "store_ok items keys hash (place c ?i (sh', ?cl, ?cc))"
      by (rule place_ok [OF ok i r(3) u]) (use r(4,5,6) fit in auto)
    moreover have "\<not> pb_equivalent q (mr_key r)" if v: "r \<in># versions c" for r
      using r(2) version_home(1,2) [OF ok v] q by (auto simp: lawful_def)
    then have "looked_up q c None (place c ?i (sh', ?cl, ?cc))"
      using place_versions [OF i r(3)] map_capacity_place [OF i, of "(sh', ?cl, ?cc)"] r(6) by (simp add: looked_up_def)
    ultimately show ?thesis using that by blast
  next
    fix r sh' cl' qs'
    assume r: "shard_lookup lib (mc_mutable_hits c) (mc_release c) q (?sh, ?cl, ?cc) = Some (Some \<lparr> en_record = r, en_release = (mc_mutable_hits c \<and> mc_release c) \<rparr>, sh', cl', ?cc)"
      "r \<in># held (sd_nodes ?sh)" "pb_equivalent q (mr_key r)" "flow (?sh, ?cl, ?cc) [] [] (sh', cl', ?cc)"
      "cl' = ?cl \<lparr> cl_references := (cl_references ?cl)(mr_id r := cl_references ?cl (mr_id r) + 1) \<rparr>"
      "shard_ok items keys (homed hash ?n (mc_next c) ?i) (cl_references cl') sh' qs'" "sd_weight sh' = sd_weight ?sh" "sd_capacity sh' = sd_capacity ?sh"
    let ?e = "\<lparr> en_record = r, en_release = (mc_mutable_hits c \<and> mc_release c) \<rparr>"
    have "get_hashed lib q c = Some (Some ?e, place c ?i (sh', cl', ?cc))" unfolding get_hashed_def by (rule on_shard_place, rule i, rule r(1))
    moreover have "store_ok items keys hash (place c ?i (sh', cl', ?cc))"
      by (rule place_ok [OF ok i r(4) u]) (use r(5-8) fit other_shard [OF ok i _ _ r(2)] in auto)
    moreover have "r \<in># versions c" using r(2) i versions_iff by blast
    then have "looked_up q c (Some ?e) (place c ?i (sh', cl', ?cc))"
      using place_versions [OF i r(4)] map_capacity_place [OF i, of "(sh', cl', ?cc)"] r(3,5,8) pol is_lru_mutable by (auto simp: looked_up_def)
    ultimately show ?thesis using that by blast
  qed
qed

lemma contains_ok:
  assumes ok: "store_ok items keys hash c" and q: "lawful hash q"
  shows "cache_contains lib q c = Some (\<exists>r \<in># versions c. pb_equivalent q (mr_key r))"
proof -
  let ?i = "mc_shard c (pb_hash q)" and ?n = "length (mc_shards c)"
  let ?sh = "mc_shards c ! ?i"
  have i: "?i < ?n" using home_in [OF ok] .
  obtain qs where sh: "shard_ok items keys (homed hash ?n (mc_next c) ?i) (cl_references (mc_cells c)) ?sh qs" using shard_at [OF store_okD(1) [OF ok] i] .
  have law: "mr_hash s = pb_hash q" if "s \<in># held (sd_nodes ?sh)" "pb_equivalent q (mr_key s)" for s
    using shard_okD(9) [OF sh that(1)] that(2) q by (simp add: homed_def lawful_def)
  have home: "r \<in># held (sd_nodes ?sh)" if "r \<in># versions c" "pb_equivalent q (mr_key r)" for r
    using version_home(1,2) [OF ok that(1)] that(2) q by (auto simp: lawful_def)
  show ?thesis
  proof (rule search_ok [OF sh, where acc = "\<lambda>s. pb_equivalent q (mr_key s)" and h = "pb_hash q", OF law])
    assume "find_by (\<lambda>i. map_option (\<lambda>n. pb_equivalent q (mr_key (nd_record n))) (sd_nodes ?sh i)) (tb_probe lib (sd_index ?sh) (pb_hash q)) = Some None"
      "\<forall>s \<in># held (sd_nodes ?sh). \<not> pb_equivalent q (mr_key s)"
    then show ?thesis using i home by (auto simp: cache_contains_def shard_find_def nth_opt_def)
  next
    fix x r
    assume f: "find_by (\<lambda>i. map_option (\<lambda>n. pb_equivalent q (mr_key (nd_record n))) (sd_nodes ?sh i)) (tb_probe lib (sd_index ?sh) (pb_hash q)) = Some (Some x)"
      "recs (sd_nodes ?sh) x = Some r" "pb_equivalent q (mr_key r)" "r \<in># held (sd_nodes ?sh)"
    then have "r \<in># versions c" using i versions_iff by blast
    then show ?thesis using i f by (auto simp: cache_contains_def shard_find_def nth_opt_def)
  qed
qed

end

section \<open>Versions that come and go\<close>

definition exchanged ::
  "('k, 'v, 'p, 't, 's) mem_cache \<Rightarrow> ('k, 'v, 'p) mem_record list \<Rightarrow> ('k, 'v, 'p) mem_record list \<Rightarrow> ('k, 'v, 'p, 't, 's) mem_cache \<Rightarrow> bool" where
  "exchanged c R E c' \<longleftrightarrow> versions c + mset R = versions c' + mset E \<and> unique_ids (versions c' + mset E)
     \<and> mc_next c' = mc_next c \<and> mc_release c' = mc_release c \<and> mc_mutable_hits c' = mc_mutable_hits c \<and> mc_listener c' = mc_listener c
     \<and> mc_events c' = mc_events c \<and> mc_capacity c' = mc_capacity c \<and> cl_references (mc_cells c') = cl_references (mc_cells c)"

lemma exchanged_gone: "exchanged c R (map fst removed) c' \<Longrightarrow> x \<in> set removed \<Longrightarrow> r \<in># versions c' \<Longrightarrow> mr_id (fst x) \<noteq> mr_id r"
  using unique_ids_parts [of "versions c'" "mset (map fst removed)" r "fst x"] by (force simp: exchanged_def)

lemma settle:
  assumes ok: "store_ok items keys hash c" and i: "i < length (mc_shards c)"
    and fl: "flow (mc_shards c ! i, mc_cells c, mc_counters c) R E w'" and u: "unique_ids (versions c + mset R)"
    and sh: "shard_ok items keys (homed hash (length (mc_shards c)) (mc_next c) i) (cl_references (mc_cells c)) (fst w') qs"
    and refs: "cl_references (fst (snd w')) = cl_references (mc_cells c)" and fit: "mc_release c \<or> sd_weight (fst w') \<le> sd_capacity (fst w')"
  shows "store_ok items keys hash (place c i w')" "exchanged c R E (place c i w')"
proof -
  show "store_ok items keys hash (place c i w')" by (rule place_ok [OF ok i fl u _ _ fit]) (use sh refs in simp_all)
  show "exchanged c R E (place c i w')" using place_versions [OF i fl] u refs by (simp add: exchanged_def)
qed

lemma shard_facts:
  assumes "store_ok items keys hash c" and "i < length (mc_shards c)"
  shows "is_lru (st_policy (sd_state (mc_shards c ! i))) = mc_release c" "mc_release c \<or> sd_weight (mc_shards c ! i) \<le> sd_capacity (mc_shards c ! i)"
    "unique_ids (versions c)"
  using policy_at [OF store_okD(2) [OF assms(1)] assms(2)] budget_at [OF store_okD(4) [OF assms(1)] assms(2)] store_okD(3) [OF assms(1)]
  by (simp_all add: books_ok_def)

text \<open>The notifications of a change reach the listener, and its versions get one more handle each.\<close>

lemma notify_ok:
  assumes ok: "store_ok items keys hash c1" and ex: "exchanged c R (map fst removed) c1"
  obtains c' where "dispatch removed c1 = Some c'" "store_ok items keys hash c'" "notified c1 removed c'" "versions c' = versions c1"
proof -
  obtain c' where c': "dispatch removed c1 = Some c'" "notified c1 removed c'"
    using dispatch_notified [of c1 removed] store_okD(3) [OF ok] by (auto simp: books_ok_def)
  then show ?thesis using that notified_ok [OF ok c'(2) exchanged_gone [OF ex]] by blast
qed

context cache_libraries
begin

lemma commit_store_ok:
  assumes ok: "store_ok items keys hash c" and r: "homed hash (length (mc_shards c)) (mc_next c) (mc_shard c (mr_hash r)) r"
    and live: "cl_references (mc_cells c) (mr_id r) \<noteq> 0" and fresh: "\<forall>s \<in># versions c. mr_id s \<noteq> mr_id r"
  obtains removed c' where "on_shard c (mc_shard c (mr_hash r)) (shard_commit lib r admitted) = Some (removed, c')" "store_ok items keys hash c'"
    "exchanged c [r] (map fst removed) c'" "\<forall>x \<in> set removed. fair (cl_references (mc_cells c)) (mc_release c) r x"
    "\<forall>s \<in># versions c'. mr_key s = mr_key r \<longrightarrow> s = r" "map sd_capacity (mc_shards c') = map sd_capacity (mc_shards c)"
proof -
  let ?i = "mc_shard c (mr_hash r)" and ?n = "length (mc_shards c)"
  let ?sh = "mc_shards c ! ?i" and ?cl = "mc_cells c" and ?cc = "mc_counters c"
  have i: "?i < ?n" using home_in [OF ok] .
  note f = shard_facts [OF ok i]
  obtain qs where sh: "shard_ok items keys (homed hash ?n (mc_next c) ?i) (cl_references ?cl) ?sh qs" using shard_at [OF store_okD(1) [OF ok] i] .
  have hash: "mr_hash s = mr_hash r" if "homed hash ?n (mc_next c) ?i s" "mr_key s = mr_key r" for s using that r by (simp add: homed_def)
  have fresh_i: "\<forall>s \<in># held (sd_nodes ?sh). mr_id s \<noteq> mr_id r" using fresh i versions_iff by blast
  have nres: "\<not> cl_resident ?cl (mr_id r)" using store_okD(3) [OF ok] fresh by (auto simp: books_ok_def)
  obtain removed w' qs' where cm: "shard_commit lib r admitted (?sh, ?cl, ?cc) = Some (removed, w')"
    "shard_ok items keys (homed hash ?n (mc_next c) ?i) (cl_references ?cl) (fst w') qs'" "committed (cl_references ?cl) r (?sh, ?cl, ?cc) removed w'"
    by (rule commit_ok [OF sh hash r _ fresh_i nres]) (use live f in auto)
  have mv: "moved (?sh, ?cl, ?cc) [r] (map fst removed) w'" using cm(3) by (simp add: committed_def)
  have keep: "cl_references (fst (snd w')) = cl_references ?cl" "sd_capacity (fst w') = sd_capacity ?sh" using mv by (cases w', simp add: moved_def)+
  have u: "unique_ids (versions c + mset [r])" using unique_ids_add [OF f(3) fresh] by simp
  have fit: "mc_release c \<or> sd_weight (fst w') \<le> sd_capacity (fst w')" using cm(3) f(1) keep(2) by (auto simp: committed_def)
  note st = settle [OF ok i moved_flow [OF mv] u cm(2) keep(1) fit]
  have "s = r" if v: "s \<in># versions (place c ?i w')" and key: "mr_key s = mr_key r" for s
  proof -
    have "s \<in># held (sd_nodes (fst w'))" using version_home(1,2) [OF st(1) v] key r i by (simp add: homed_def)
    then show ?thesis using cm(3) key by (simp add: committed_def)
  qed
  moreover have "on_shard c ?i (shard_commit lib r admitted) = Some (removed, place c ?i w')" by (rule on_shard_place, rule i, rule cm(1))
  moreover have "\<forall>x \<in> set removed. fair (cl_references ?cl) (mc_release c) r x" using cm(3) f(1) by (simp add: committed_def)
  ultimately show ?thesis using that st map_capacity_place [OF i keep(2)] by blast
qed

end

text \<open>A prepared version: a fresh record with one handle, not yet resident.\<close>

definition new_record :: "('k, 'v, 'p) callbacks \<Rightarrow> 'k \<Rightarrow> 'v \<Rightarrow> 'p \<Rightarrow> priority \<Rightarrow> ('k, 'v, 'p, 't, 's) mem_cache \<Rightarrow> ('k, 'v, 'p) mem_record" where
  "new_record cb key val props prio c = \<lparr> mr_id = mc_next c, mr_key = key, mr_value = val, mr_properties = props,
     mr_hash = cb_hash cb key, mr_weight = max (cb_weigher cb key val props) 1, mr_priority = prio \<rparr>"

lemma prepare_ok:
  assumes ok: "store_ok items keys (cb_hash cb) c"
  obtains c' where "cache_prepare cb key val props prio c = Some (\<lparr> pr_entry = \<lparr> en_record = new_record cb key val props prio c, en_release = mc_release c \<rparr>,
      pr_admitted = cb_admission cb key val props \<rparr>, c')"
    "store_ok items keys (cb_hash cb) c'" "same_store c c'" "mc_next c' = mc_next c + 1" "mc_events c' = mc_events c" "mc_capacity c' = mc_capacity c"
    "cl_references (mc_cells c') = (cl_references (mc_cells c))(mc_next c := 1)"
proof -
  let ?i = "mc_shard c (cb_hash cb key)" and ?cc = "mc_counters c" and ?cl = "mc_cells c"
  have i: "?i < length (cc_insertions ?cc)" using home_in [OF ok] store_okD(3) [OF ok] by (simp add: books_ok_def)
  have old: "mr_id r \<noteq> mc_next c" if "r \<in># versions c" for r using version_home(3) [OF ok that] by simp
  then have "mc_next c \<notin> mr_id ` set_mset (versions c)" by (metis imageE)
  then have nres: "\<not> cl_resident ?cl (mc_next c)" using store_okD(3) [OF ok] by (simp add: books_ok_def)
  let ?c = "c \<lparr> mc_counters := ?cc \<lparr> cc_insertions := (cc_insertions ?cc)[?i := cc_insertions ?cc ! ?i + 1] \<rparr>,
    mc_cells := ?cl \<lparr> cl_resident := (cl_resident ?cl)(mc_next c := False), cl_references := (cl_references ?cl)(mc_next c := 1) \<rparr>,
    mc_next := mc_next c + 1 \<rparr>"
  have run: "cache_prepare cb key val props prio c = Some (\<lparr> pr_entry = \<lparr> en_record = new_record cb key val props prio c, en_release = mc_release c \<rparr>,
      pr_admitted = cb_admission cb key val props \<rparr>, ?c)"
    using i by (simp add: cache_prepare_def prepare_hashed_def nth_opt_def entry_acquire_def new_record_def Let_def)
  have "(cl_resident ?cl)(mc_next c := False) = cl_resident ?cl" using nres by (simp add: fun_upd_idem_iff)
  then have same: "same_store c ?c" by (simp add: same_store_def)
  have "store_ok items keys (cb_hash cb) ?c" by (rule same_store_ok [OF ok same]) (use old in auto)
  then show ?thesis using that [OF run _ same] by simp
qed

end
