(* ===== verification/Mem_Contract.thy ===== *)
theory Mem_Contract
  imports Mem_Ops
begin

text \<open>
  The operations of the memory cache from end to end: insertion, promotion, removal, clearing, resizing
  and the release of a handle, each with the versions it moves and the notifications it sends.
\<close>

section \<open>Insertion\<close>

text \<open>
  What an insertion leaves: the new version and the old ones are resident or reported, exactly once;
  no older version of the key is resident.
\<close>

definition inserted ::
  "('k, 'v, 'p, 't, 's) mem_cache \<Rightarrow> ('k, 'v, 'p) mem_record \<Rightarrow> ('k, 'v, 'p) removed \<Rightarrow> ('k, 'v, 'p, 't, 's) mem_cache \<Rightarrow> bool" where
  "inserted c r removed c' \<longleftrightarrow> versions c + {#r#} = versions c' + mset (map fst removed)
     \<and> (\<forall>x \<in> set removed. fair ((cl_references (mc_cells c))(mr_id r := 1)) (mc_release c) r x)
     \<and> (\<forall>s \<in># versions c'. mr_key s = mr_key r \<longrightarrow> s = r)
     \<and> mc_events c' = mc_events c @ (if mc_listener c then removed else [])
     \<and> cl_references (mc_cells c') = (\<lambda>a. ((cl_references (mc_cells c))(mr_id r := 1)) a
          + (if mc_listener c then count (mset (map (\<lambda>x. mr_id (fst x)) removed)) a else 0))
     \<and> mc_next c' = mc_next c + 1 \<and> mc_release c' = mc_release c \<and> mc_listener c' = mc_listener c \<and> mc_capacity c' = mc_capacity c
     \<and> map sd_capacity (mc_shards c') = map sd_capacity (mc_shards c)"

lemma new_record_fields [simp]:
  "mr_id (new_record cb key val props prio c) = mc_next c" "mr_key (new_record cb key val props prio c) = key"
  "mr_value (new_record cb key val props prio c) = val" "mr_hash (new_record cb key val props prio c) = cb_hash cb key"
  "0 < mr_weight (new_record cb key val props prio c)"
  by (simp_all add: new_record_def)

context cache_libraries
begin

lemma insert_ok:
  assumes ok: "store_ok items keys (cb_hash cb) c"
  obtains removed c' where "insert_with lib cb key val props prio c = Some (\<lparr> en_record = new_record cb key val props prio c, en_release = mc_release c \<rparr>, c')"
    "store_ok items keys (cb_hash cb) c'" "inserted c (new_record cb key val props prio c) removed c'"
proof -
  let ?r = "new_record cb key val props prio c"
  let ?e = "\<lparr> en_record = ?r, en_release = mc_release c \<rparr>"
  obtain c1 where p: "cache_prepare cb key val props prio c = Some (\<lparr> pr_entry = ?e, pr_admitted = cb_admission cb key val props \<rparr>, c1)"
    "store_ok items keys (cb_hash cb) c1" "same_store c c1" "mc_next c1 = mc_next c + 1" "mc_events c1 = mc_events c" "mc_capacity c1 = mc_capacity c"
    "cl_references (mc_cells c1) = (cl_references (mc_cells c))(mc_next c := 1)"
    by (rule prepare_ok [OF ok])
  have same: "versions c1 = versions c" "mc_shards c1 = mc_shards c" "mc_release c1 = mc_release c" "mc_listener c1 = mc_listener c"
    using same_versions [OF p(3)] p(3) by (simp_all add: same_store_def)
  have home: "homed (cb_hash cb) (length (mc_shards c1)) (mc_next c1) (mc_shard c1 (mr_hash ?r)) ?r" using p(4) by (simp add: homed_def mc_shard_def)
  have fresh: "\<forall>s \<in># versions c1. mr_id s \<noteq> mr_id ?r" using version_home(3) [OF ok] same(1) by fastforce
  obtain removed c2 where cm: "on_shard c1 (mc_shard c1 (mr_hash ?r)) (shard_commit lib ?r (cb_admission cb key val props)) = Some (removed, c2)"
    "store_ok items keys (cb_hash cb) c2" "exchanged c1 [?r] (map fst removed) c2"
    "\<forall>x \<in> set removed. fair (cl_references (mc_cells c1)) (mc_release c1) ?r x" "\<forall>s \<in># versions c2. mr_key s = mr_key ?r \<longrightarrow> s = ?r"
    "map sd_capacity (mc_shards c2) = map sd_capacity (mc_shards c1)"
    by (rule commit_store_ok [OF p(2) home _ fresh]) (use p(7) in simp)
  obtain c' where n: "dispatch removed c2 = Some c'" "store_ok items keys (cb_hash cb) c'" "notified c2 removed c'" "versions c' = versions c2"
    by (rule notify_ok [OF cm(2,3)])
  have "insert_with lib cb key val props prio c = Some (?e, c')"
    using p(1) cm(1) n(1) by (simp add: insert_with_def prepared_commit_def commit_entry_def change_finish_def change_notify_def)
  moreover have "inserted c ?r removed c'"
    using cm(3-6) n(3,4) p(4-7) same by (simp add: inserted_def exchanged_def notified_def same_store_def)
  ultimately show ?thesis using that n(2) by blast
qed

end

section \<open>Removal\<close>

definition taken ::
  "'k probe \<Rightarrow> ('k, 'v, 'p, 't, 's) mem_cache \<Rightarrow> ('k, 'v, 'p) mem_entry option \<Rightarrow> ('k, 'v, 'p, 't, 's) mem_cache \<Rightarrow> bool" where
  "taken q c res c' \<longleftrightarrow> mc_next c' = mc_next c \<and> mc_release c' = mc_release c \<and> mc_listener c' = mc_listener c \<and> mc_capacity c' = mc_capacity c
     \<and> map sd_capacity (mc_shards c') = map sd_capacity (mc_shards c)
     \<and> (\<forall>s \<in># versions c'. \<not> pb_equivalent q (mr_key s))
     \<and> (case res of
          None \<Rightarrow> versions c' = versions c \<and> mc_events c' = mc_events c \<and> cl_references (mc_cells c') = cl_references (mc_cells c)
        | Some e \<Rightarrow> versions c = add_mset (en_record e) (versions c') \<and> pb_equivalent q (mr_key (en_record e)) \<and> \<not> en_release e
            \<and> mc_events c' = mc_events c @ (if mc_listener c then [(en_record e, Removed)] else [])
            \<and> cl_references (mc_cells c') = (cl_references (mc_cells c))
                (mr_id (en_record e) := cl_references (mc_cells c) (mr_id (en_record e)) + 1 + (if mc_listener c then 1 else 0)))"

definition sharp :: "'k probe \<Rightarrow> bool" where
  "sharp q \<longleftrightarrow> (\<forall>k k'. pb_equivalent q k \<longrightarrow> pb_equivalent q k' \<longrightarrow> k = k')"

context cache_libraries
begin

lemma remove_shard_ok:
  assumes ok: "store_ok items keys hash c" and q: "lawful hash q" "sharp q"
  obtains (absent) "on_shard c (mc_shard c (pb_hash q)) (shard_take lib q) = Some (None, c)"
      "\<forall>r \<in># versions c. \<not> pb_equivalent q (mr_key r)"
  | (present) r c' where "on_shard c (mc_shard c (pb_hash q)) (shard_take lib q) = Some (Some r, c')"
      "store_ok items keys hash c'" "exchanged c [] [r] c'" "pb_equivalent q (mr_key r)" "\<forall>s \<in># versions c'. \<not> pb_equivalent q (mr_key s)"
      "map sd_capacity (mc_shards c') = map sd_capacity (mc_shards c)"
proof -
  let ?i = "mc_shard c (pb_hash q)" and ?n = "length (mc_shards c)"
  let ?sh = "mc_shards c ! ?i" and ?cl = "mc_cells c" and ?cc = "mc_counters c"
  have i: "?i < ?n" using home_in [OF ok] .
  note f = shard_facts [OF ok i]
  obtain qs where sh: "shard_ok items keys (homed hash ?n (mc_next c) ?i) (cl_references ?cl) ?sh qs" using shard_at [OF store_okD(1) [OF ok] i] .
  have law: "mr_hash s = pb_hash q" if "s \<in># held (sd_nodes ?sh)" "pb_equivalent q (mr_key s)" for s
    using shard_okD(9) [OF sh that(1)] that(2) q(1) by (simp add: homed_def lawful_def)
  have home: "r \<in># held (sd_nodes ?sh)" if "r \<in># versions c" "pb_equivalent q (mr_key r)" for r
    using version_home(1,2) [OF ok that(1)] that(2) q(1) by (auto simp: lawful_def)
  show ?thesis
  proof (rule search_ok [OF sh, where acc = "\<lambda>s. pb_equivalent q (mr_key s)" and h = "pb_hash q", OF law])
    assume a: "find_by (\<lambda>i. map_option (\<lambda>n. pb_equivalent q (mr_key (nd_record n))) (sd_nodes ?sh i)) (tb_probe lib (sd_index ?sh) (pb_hash q)) = Some None"
      "\<forall>s \<in># held (sd_nodes ?sh). \<not> pb_equivalent q (mr_key s)"
    have "shard_take lib q (?sh, ?cl, ?cc) = Some (None, ?sh, ?cl, ?cc)" using a(1) by (simp add: shard_take_def shard_find_def)
    then have "on_shard c ?i (shard_take lib q) = Some (None, place c ?i (?sh, ?cl, ?cc))" by (rule on_shard_place [where f = "shard_take lib q", OF i])
    moreover have "place c ?i (?sh, ?cl, ?cc) = c" by (simp add: place_def)
    ultimately have "on_shard c ?i (shard_take lib q) = Some (None, c)" by simp
    moreover have "\<forall>r \<in># versions c. \<not> pb_equivalent q (mr_key r)" using a(2) home by blast
    ultimately show ?thesis by (rule absent)
  next
    fix x r
    assume a: "find_by (\<lambda>i. map_option (\<lambda>n. pb_equivalent q (mr_key (nd_record n))) (sd_nodes ?sh i)) (tb_probe lib (sd_index ?sh) (pb_hash q)) = Some (Some x)"
      "recs (sd_nodes ?sh) x = Some r" "pb_equivalent q (mr_key r)" "r \<in># held (sd_nodes ?sh)"
    obtain sh' cl' cc' qs' where dt: "shard_detach lib x (?sh, ?cl, ?cc) = Some (r, sh', cl', cc')"
      "shard_ok items keys (homed hash ?n (mc_next c) ?i) (cl_references ?cl) sh' qs'" "lost (?sh, ?cl, ?cc) [r] (sh', cl', cc')"
      by (rule detach_ok [OF sh a(2)])
    have "shard_take lib q (?sh, ?cl, ?cc) = Some (Some r, sh', cl', cc')" using a(1) dt(1) by (simp add: shard_take_def shard_find_def)
    then have run: "on_shard c ?i (shard_take lib q) = Some (Some r, place c ?i (sh', cl', cc'))" by (rule on_shard_place [where f = "shard_take lib q", OF i])
    have w: "sd_weight sh' \<le> sd_weight ?sh" "sd_capacity sh' = sd_capacity ?sh"
      using lostD(1,2) [OF dt(3)] shard_okD(7) [OF sh] shard_okD(7) [OF dt(2)] by simp_all
    have st: "store_ok items keys hash (place c ?i (sh', cl', cc'))" "exchanged c [] [r] (place c ?i (sh', cl', cc'))"
      using settle [OF ok i moved_flow [OF moved_none [OF dt(3)]], of qs'] f dt(2) lostD(4) [OF dt(3)] w by auto
    have "\<not> pb_equivalent q (mr_key s)" if v: "s \<in># versions (place c ?i (sh', cl', cc'))" for s
    proof
      assume "pb_equivalent q (mr_key s)"
      then have key: "mr_key s = mr_key r" using q(2) a(3) by (auto simp: sharp_def)
      have vs: "versions c = versions (place c ?i (sh', cl', cc')) + {#r#}" using st(2) by (simp add: exchanged_def)
      then have "s = r" using one_version [OF ok _ _ key] v by simp
      then show False using unique_ids_parts [of "versions (place c ?i (sh', cl', cc'))" "{#r#}" s r] v st(2) by (simp add: exchanged_def)
    qed
    then show ?thesis using present [OF run st a(3)] map_capacity_place [OF i, of "(sh', cl', cc')"] w(2) by simp
  qed
qed

lemma remove_ok:
  assumes ok: "store_ok items keys hash c" and q: "lawful hash q" "sharp q"
  obtains res c' where "cache_remove lib q c = Some (res, c')" "store_ok items keys hash c'" "taken q c res c'"
proof (rule remove_shard_ok [OF ok q])
  assume a: "on_shard c (mc_shard c (pb_hash q)) (shard_take lib q) = Some (None, c)" "\<forall>r \<in># versions c. \<not> pb_equivalent q (mr_key r)"
  have "cache_remove lib q c = Some (None, c)" using a(1) by (simp add: cache_remove_def remove_deferred_def change_finish_def change_notify_def)
  then show thesis by (rule that [OF _ ok]) (use a(2) in \<open>simp add: taken_def\<close>)
next
  fix r c1
  assume p: "on_shard c (mc_shard c (pb_hash q)) (shard_take lib q) = Some (Some r, c1)" "store_ok items keys hash c1" "exchanged c [] [r] c1"
    "pb_equivalent q (mr_key r)" "\<forall>s \<in># versions c1. \<not> pb_equivalent q (mr_key s)" "map sd_capacity (mc_shards c1) = map sd_capacity (mc_shards c)"
  let ?e = "\<lparr> en_record = r, en_release = False \<rparr>"
  let ?c = "c1 \<lparr> mc_cells := mc_cells c1 \<lparr> cl_references := (cl_references (mc_cells c1))(mr_id r := cl_references (mc_cells c1) (mr_id r) + 1) \<rparr> \<rparr>"
  have same: "same_store c1 ?c" by (simp add: same_store_def)
  have gone: "mr_id s \<noteq> mr_id r" if "s \<in># versions c1" for s
    using unique_ids_parts [of "versions c1" "mset [r]" s r] p(3) that by (simp add: exchanged_def)
  have ok2: "store_ok items keys hash ?c" by (rule same_store_ok [OF p(2) same]) (use gone in auto)
  have v2: "versions ?c = versions c1" using same_versions [OF same] .
  obtain c' where n: "dispatch [(r, Removed)] ?c = Some c'" "notified ?c [(r, Removed)] c'"
    using dispatch_notified [of ?c "[(r, Removed)]"] store_okD(3) [OF ok2] unfolding books_ok_def by blast
  have apart: "mr_id (fst x) \<noteq> mr_id s" if "x \<in> set [(r, Removed)]" "s \<in># versions ?c" for x s using gone [of s] v2 that by force
  have ok': "store_ok items keys hash c'" "versions c' = versions ?c" using notified_ok [OF ok2 n(2) apart] by blast+
  have "cache_remove lib q c = Some (Some ?e, c')"
    using p(1) n(1) by (simp add: cache_remove_def remove_deferred_def change_finish_def change_notify_def entry_acquire_def del: dispatch.simps)
  moreover have "taken q c (Some ?e) c'"
    using p(3-6) n(2) ok'(2) v2 by (auto simp: taken_def exchanged_def notified_def same_store_def)
  ultimately show thesis using that ok'(1) by blast
qed

end

section \<open>Dropping a handle\<close>

definition dropped ::
  "('k, 'v, 'p) mem_entry \<Rightarrow> ('k, 'v, 'p, 't, 's) mem_cache \<Rightarrow> ('k, 'v, 'p) mem_record list \<Rightarrow> ('k, 'v, 'p, 't, 's) mem_cache \<Rightarrow> bool" where
  "dropped e c E c' \<longleftrightarrow> versions c = versions c' + mset E
     \<and> (mc_release c \<longrightarrow> (\<forall>r \<in> set E. ((cl_references (mc_cells c))(mr_id (en_record e) := cl_references (mc_cells c) (mr_id (en_record e)) - 1)) (mr_id r) = 0))
     \<and> mc_events c' = mc_events c @ (if mc_listener c then map (\<lambda>r. (r, Evicted)) E else [])
     \<and> cl_references (mc_cells c') = (\<lambda>a. ((cl_references (mc_cells c))(mr_id (en_record e) := cl_references (mc_cells c) (mr_id (en_record e)) - 1)) a
          + (if mc_listener c then count (mset (map mr_id E)) a else 0))
     \<and> mc_next c' = mc_next c \<and> mc_release c' = mc_release c \<and> mc_listener c' = mc_listener c \<and> mc_capacity c' = mc_capacity c
     \<and> map sd_capacity (mc_shards c') = map sd_capacity (mc_shards c)"

context cache_libraries
begin

lemma release_store_ok:
  assumes ok: "store_ok items keys hash c" and r: "r \<in># versions c" and old: "cl_references (mc_cells c) (mr_id r) = 1"
    and c1: "c1 = c \<lparr> mc_cells := mc_cells c \<lparr> cl_references := (cl_references (mc_cells c))(mr_id r := 0) \<rparr> \<rparr>"
  obtains E c2 where "on_shard c1 (mc_shard c (mr_hash r)) (shard_release lib r) = Some (map (\<lambda>s. (s, Evicted)) E, c2)" "store_ok items keys hash c2"
    "exchanged c1 [] E c2" "mc_release c \<longrightarrow> (\<forall>s \<in> set E. cl_references (mc_cells c1) (mr_id s) = 0)" "map sd_capacity (mc_shards c2) = map sd_capacity (mc_shards c)"
proof -
  let ?i = "mc_shard c (mr_hash r)" and ?n = "length (mc_shards c)"
  let ?sh = "mc_shards c ! ?i" and ?cc = "mc_counters c" and ?cl = "mc_cells c1" and ?good = "homed hash (length (mc_shards c)) (mc_next c) (mc_shard c (mr_hash r))"
  have i: "?i < ?n" using home_in [OF ok] .
  note f = shard_facts [OF ok i]
  obtain qs where sh: "shard_ok items keys ?good (cl_references (mc_cells c)) ?sh qs" using shard_at [OF store_okD(1) [OF ok] i] .
  have rh: "r \<in># held (sd_nodes ?sh)" using version_home(2) [OF ok r] .
  obtain x where x: "find_by (\<lambda>i. map_option (\<lambda>n. mr_id (nd_record n) = mr_id r) (sd_nodes ?sh i)) (tb_probe lib (sd_index ?sh) (mr_hash r)) = Some (Some x)"
    "recs (sd_nodes ?sh) x = Some r"
  proof -
    have one: "s = r" if "s \<in># held (sd_nodes ?sh)" "mr_id s = mr_id r" for s
      using that rh held_iff [OF shard_okD(3) [OF sh]] shard_okD(6) [OF sh] unfolding unique_keys_def by (metis option.inject)
    then have only: "mr_hash s = mr_hash r" if "s \<in># held (sd_nodes ?sh)" "mr_id s = mr_id r" for s using that by metis
    show ?thesis
      by (rule search_ok [OF sh, where acc = "\<lambda>s. mr_id s = mr_id r" and h = "mr_hash r", OF only]) (use that one rh in blast)+
  qed
  obtain st m qs1 where rel: "state_release x (sd_state ?sh, sd_nodes ?sh) = Some (st, m)" "kept (sd_state ?sh) (sd_nodes ?sh) qs st m qs1"
    "shard_ok items keys ?good (cl_references ?cl) (?sh \<lparr> sd_state := st, sd_nodes := m \<rparr>) qs1"
    by (rule release_shard_ok [OF sh x(2), where refs' = "cl_references ?cl"]) (use c1 in simp)
  obtain E sh' cl' cc' qs' where t: "shard_trim lib (?sh \<lparr> sd_state := st, sd_nodes := m \<rparr>, ?cl, ?cc) [] = Some ([] @ map (\<lambda>r. (r, Evicted)) E, sh', cl', cc')"
    "shard_ok items keys ?good (cl_references ?cl) sh' qs'" "trimmed (cl_references ?cl) (?sh \<lparr> sd_state := st, sd_nodes := m \<rparr>, ?cl, ?cc) E (sh', cl', cc')"
    using trim_ok [OF rel(3)] by blast
  have l: "lost (?sh, ?cl, ?cc) E (sh', cl', cc')" using lost_trans [OF lost_kept [OF rel(2)] trimmed_lost [OF t(3)]] by simp
  have keep: "cl_references cl' = cl_references ?cl" "sd_capacity sh' = sd_capacity ?sh" "st_policy (sd_state sh') = st_policy (sd_state ?sh)" using lostD [OF l] by simp_all
  have fl: "flow (?sh, mc_cells c, ?cc) [] E (sh', cl', cc')" using moved_flow [OF moved_none [OF l]] c1 by (simp add: flow_def)
  have fit: "mc_release c \<or> sd_weight sh' \<le> sd_capacity sh'" using t(3) keep f(1) by (auto simp: trimmed_def)
  have "store_ok items keys hash (place c ?i (sh', cl', cc'))"
    by (rule place_ok [OF ok i fl]) (use f(3) t(2) keep(1) fit c1 other_shard [OF ok i _ _ rh] in auto)
  moreover have pc: "place c ?i (sh', cl', cc') = place c1 ?i (sh', cl', cc')" by (simp add: place_def c1)
  moreover have "on_shard c1 ?i (shard_release lib r) = Some (map (\<lambda>s. (s, Evicted)) E, place c1 ?i (sh', cl', cc'))"
    by (rule on_shard_place) (use i c1 x(1) rel(1) t(1) in \<open>simp_all add: shard_release_def\<close>)
  moreover have "exchanged c1 [] E (place c1 ?i (sh', cl', cc'))"
    using place_versions [OF i fl] f(3) keep(1) pc unfolding exchanged_def by (simp add: c1 versions_def)
  moreover have "mc_release c \<longrightarrow> (\<forall>s \<in> set E. cl_references ?cl (mr_id s) = 0)" using t(3) f(1) rel(2) by (simp add: trimmed_def kept_def)
  ultimately show ?thesis using that map_capacity_place [OF i, of "(sh', cl', cc')"] keep(2) by auto
qed

lemma drop_ok:
  assumes ok: "store_ok items keys hash c" and held: "cl_references (mc_cells c) (mr_id (en_record e)) \<noteq> 0"
    and same: "\<forall>s \<in># versions c. mr_id s = mr_id (en_record e) \<longrightarrow> s = en_record e \<and> (mc_release c \<longrightarrow> en_release e)"
  obtains E c' where "entry_drop lib e c = Some c'" "store_ok items keys hash c'" "dropped e c E c'"
proof -
  let ?r = "en_record e"
  let ?a = "mr_id ?r" and ?refs = "cl_references (mc_cells c)"
  define c1 where "c1 = c \<lparr> mc_cells := mc_cells c \<lparr> cl_references := ?refs(?a := ?refs ?a - 1) \<rparr> \<rparr>"
  have s1: "same_store c c1" by (simp add: same_store_def c1_def)
  have f1: "cl_references (mc_cells c1) = ?refs(?a := ?refs ?a - 1)" "mc_events c1 = mc_events c" "mc_next c1 = mc_next c" "mc_capacity c1 = mc_capacity c"
    "mc_release c1 = mc_release c" "mc_listener c1 = mc_listener c" by (simp_all add: c1_def)
  have res: "cl_resident (mc_cells c) ?a \<longleftrightarrow> ?r \<in># versions c" using store_okD(3) [OF ok] same by (auto simp: books_ok_def)
  show ?thesis
  proof (cases "?refs ?a = 1 \<and> cl_resident (mc_cells c) ?a \<and> en_release e")
    case True
    have c1': "c1 = c \<lparr> mc_cells := mc_cells c \<lparr> cl_references := ?refs(?a := 0) \<rparr> \<rparr>" using True by (simp add: c1_def)
    obtain E c2 where r: "on_shard c1 (mc_shard c (mr_hash ?r)) (shard_release lib ?r) = Some (map (\<lambda>s. (s, Evicted)) E, c2)" "store_ok items keys hash c2"
      "exchanged c1 [] E c2" "mc_release c \<longrightarrow> (\<forall>s \<in> set E. cl_references (mc_cells c1) (mr_id s) = 0)" "map sd_capacity (mc_shards c2) = map sd_capacity (mc_shards c)"
      by (rule release_store_ok [OF ok _ _ c1']) (use True res in auto)
    have ex: "exchanged c1 [] (map fst (map (\<lambda>s. (s, Evicted)) E)) c2" using r(3) by (simp add: comp_def)
    obtain c' where n: "dispatch (map (\<lambda>s. (s, Evicted)) E) c2 = Some c'" "store_ok items keys hash c'" "notified c2 (map (\<lambda>s. (s, Evicted)) E) c'" "versions c' = versions c2"
      by (rule notify_ok [OF r(2) ex])
    have "mc_shard c1 (mr_hash ?r) = mc_shard c (mr_hash ?r)" by (simp add: c1_def mc_shard_def)
    then have "entry_drop lib e c = Some c'"
      using True r(1) n(1) by (simp add: entry_drop_def mc_release_record_def Let_def c1_def)
    moreover have "dropped e c E c'"
      using r(3-5) n(3,4) same_versions [OF s1] f1 unfolding dropped_def by (simp add: exchanged_def notified_def same_store_def comp_def cong: if_cong)
    ultimately show ?thesis using that n(2) by blast
  next
    case False
    have "store_ok items keys hash c1"
    proof (rule same_store_ok [OF ok s1])
      fix r assume r: "r \<in># versions c" "mc_release c"
      show "cl_references (mc_cells c1) (mr_id r) = 0 \<longleftrightarrow> ?refs (mr_id r) = 0"
        using same r held False res by (cases "mr_id r = ?a") (auto simp: c1_def)
    qed (simp add: c1_def)
    moreover have "entry_drop lib e c = Some c1" using False by (auto simp: entry_drop_def Let_def c1_def)
    moreover have "dropped e c [] c1" using same_versions [OF s1] f1 s1 unfolding dropped_def by (auto simp: same_store_def)
    ultimately show ?thesis using that by blast
  qed
qed

end

section \<open>Clearing and resizing\<close>

definition purged :: "('k, 'v, 'p, 't, 's) mem_cache \<Rightarrow> ('k, 'v, 'p) removed \<Rightarrow> ('k, 'v, 'p, 't, 's) mem_cache \<Rightarrow> bool" where
  "purged c removed c' \<longleftrightarrow> versions c = versions c' + mset (map fst removed)
     \<and> mc_events c' = mc_events c @ (if mc_listener c then removed else [])
     \<and> cl_references (mc_cells c') = (\<lambda>a. cl_references (mc_cells c) a
          + (if mc_listener c then count (mset (map (\<lambda>x. mr_id (fst x)) removed)) a else 0))
     \<and> mc_next c' = mc_next c \<and> mc_release c' = mc_release c \<and> mc_listener c' = mc_listener c"

definition resized :: "bool \<Rightarrow> (nat \<Rightarrow> nat) \<Rightarrow> nat \<Rightarrow> ('k, 'v, 'p, 't, 's) mem_shard \<Rightarrow> bool" where
  "resized lru refs capacity sh \<longleftrightarrow> sd_capacity sh = capacity \<and> (sd_weight sh \<le> capacity \<or> lru \<and> (\<forall>r \<in># held (sd_nodes sh). refs (mr_id r) \<noteq> 0))"

definition within_or_pinned :: "('k, 'v, 'p, 't, 's) mem_cache \<Rightarrow> (nat \<Rightarrow> nat) \<Rightarrow> bool" where
  "within_or_pinned c refs \<longleftrightarrow> (\<forall>sh \<in> set (mc_shards c). sd_weight sh \<le> sd_capacity sh
     \<or> mc_release c \<and> (\<forall>r \<in># held (sd_nodes sh). refs (mr_id r) \<noteq> 0))"

lemma exchanged_trans:
  assumes "exchanged c [] E c1" and "exchanged c1 [] F c2" and "unique_ids (versions c)"
  shows "exchanged c [] (E @ F) c2"
  using assms by (simp add: exchanged_def ac_simps)

lemma purged_refl: "purged c [] c"
  by (simp add: purged_def fun_eq_iff)

lemma purged_trans: "purged c A c1 \<Longrightarrow> purged c1 B c2 \<Longrightarrow> purged c (A @ B) c2"
  by (auto simp: purged_def intro!: ext)

lemma purged_notified:
  "exchanged c [] (map fst removed) c1 \<Longrightarrow> notified c1 removed c2 \<Longrightarrow> purged c removed c2"
  using same_versions [of c1 c2] by (simp add: purged_def exchanged_def notified_def same_store_def)

context cache_libraries
begin

lemma clear_shards_ok:
  assumes "store_ok items keys hash c" and "set is \<subseteq> {..<length (mc_shards c)}"
  shows "\<exists>E c'. clear_shards lib is c = Some c' \<and> store_ok items keys hash c' \<and> purged c (map (\<lambda>r. (r, Cleared)) E) c' \<and> mc_capacity c' = mc_capacity c
    \<and> map sd_capacity (mc_shards c') = map sd_capacity (mc_shards c)
    \<and> (\<forall>j < length (mc_shards c). (j \<in> set is \<or> held (sd_nodes (mc_shards c ! j)) = {#}) \<longrightarrow> held (sd_nodes (mc_shards c' ! j)) = {#})"
  using assms
proof (induction "is" arbitrary: c)
  case Nil
  then show ?case using purged_refl by (intro exI [of _ "[]"] exI [of _ c]) simp
next
  case (Cons i xs)
  let ?sh = "mc_shards c ! i" and ?cl = "mc_cells c" and ?cc = "mc_counters c"
  have i: "i < length (mc_shards c)" using Cons(3) by simp
  note f = shard_facts [OF Cons(2) i]
  obtain qs where sh: "shard_ok items keys (homed hash (length (mc_shards c)) (mc_next c) i) (cl_references ?cl) ?sh qs"
    using shard_at [OF store_okD(1) [OF Cons(2)] i] .
  obtain E sh' cl' cc' qs' where cl: "shard_clear lib (?sh, ?cl, ?cc) = Some (map (\<lambda>r. (r, Cleared)) E, sh', cl', cc')"
    "shard_ok items keys (homed hash (length (mc_shards c)) (mc_next c) i) (cl_references ?cl) sh' qs'" "lost (?sh, ?cl, ?cc) E (sh', cl', cc')" "held (sd_nodes sh') = {#}"
    by (rule clear_shard_ok [OF sh])
  let ?c = "place c i (sh', cl', cc')"
  have w: "sd_weight sh' = 0" "sd_capacity sh' = sd_capacity ?sh" using shard_okD(7) [OF cl(2)] cl(4) lostD(2) [OF cl(3)] by simp_all
  have st: "store_ok items keys hash ?c" "exchanged c [] (map fst (map (\<lambda>r. (r, Cleared)) E)) ?c"
    using settle [OF Cons(2) i moved_flow [OF moved_none [OF cl(3)]], of qs'] f cl(2) lostD(4) [OF cl(3)] w by (auto simp: comp_def)
  obtain c2 where n: "dispatch (map (\<lambda>r. (r, Cleared)) E) ?c = Some c2" "store_ok items keys hash c2" "notified ?c (map (\<lambda>r. (r, Cleared)) E) c2"
    by (rule notify_ok [OF st])
  have p1: "purged c (map (\<lambda>r. (r, Cleared)) E) c2" using purged_notified [OF st(2) n(3)] .
  have s2: "mc_shards c2 = (mc_shards c)[i := sh']" "mc_capacity c2 = mc_capacity c" using n(3) by (simp_all add: notified_def same_store_def)
  then have "set xs \<subseteq> {..<length (mc_shards c2)}" using Cons(3) by simp
  then obtain F c' where IH: "clear_shards lib xs c2 = Some c'" "store_ok items keys hash c'" "purged c2 (map (\<lambda>r. (r, Cleared)) F) c'" "mc_capacity c' = mc_capacity c2"
    "map sd_capacity (mc_shards c') = map sd_capacity (mc_shards c2)"
    "\<forall>j < length (mc_shards c2). (j \<in> set xs \<or> held (sd_nodes (mc_shards c2 ! j)) = {#}) \<longrightarrow> held (sd_nodes (mc_shards c' ! j)) = {#}"
    using Cons(1) [OF n(2)] by blast
  have "on_shard c i (shard_clear lib) = Some (map (\<lambda>r. (r, Cleared)) E, ?c)" by (rule on_shard_place, rule i, rule cl(1))
  then have "clear_shards lib (i # xs) c = Some c'" using n(1) IH(1) by simp
  moreover have "purged c (map (\<lambda>r. (r, Cleared)) (E @ F)) c'" using purged_trans [OF p1 IH(3)] by simp
  moreover have "map sd_capacity (mc_shards c') = map sd_capacity (mc_shards c)"
    using IH(5) map_capacity_place [OF i, of "(sh', cl', cc')"] w(2) s2(1) by simp
  moreover have "\<forall>j < length (mc_shards c). (j \<in> set (i # xs) \<or> held (sd_nodes (mc_shards c ! j)) = {#}) \<longrightarrow> held (sd_nodes (mc_shards c' ! j)) = {#}"
    using IH(6) s2(1) cl(4) i by (auto simp: nth_list_update)
  ultimately show ?case using IH(2,4) s2(2) by (intro exI [of _ "E @ F"] exI [of _ c']) simp
qed

lemma clear_ok:
  assumes ok: "store_ok items keys hash c"
  obtains E c' where "cache_clear lib c = Some c'" "store_ok items keys hash c'" "purged c (map (\<lambda>r. (r, Cleared)) E) c'" "versions c' = {#}"
    "mc_capacity c' = mc_capacity c" "map sd_capacity (mc_shards c') = map sd_capacity (mc_shards c)"
proof -
  let ?is = "[0..<length (mc_shards c)]"
  obtain E c' where r: "clear_shards lib ?is c = Some c'" "store_ok items keys hash c'" "purged c (map (\<lambda>r. (r, Cleared)) E) c'" "mc_capacity c' = mc_capacity c"
    "map sd_capacity (mc_shards c') = map sd_capacity (mc_shards c)"
    "\<forall>j < length (mc_shards c). (j \<in> set ?is \<or> held (sd_nodes (mc_shards c ! j)) = {#}) \<longrightarrow> held (sd_nodes (mc_shards c' ! j)) = {#}"
    using clear_shards_ok [OF ok, of ?is] atLeast0LessThan [of "length (mc_shards c)"] by (metis order_refl set_upt)
  have len: "length (mc_shards c') = length (mc_shards c)" using r(5) by (metis length_map)
  have "r \<notin># versions c'" for r using r(6) len unfolding versions_iff by auto
  then have "versions c' = {#}" by (metis multiset_nonemptyE)
  then show ?thesis using that r by (simp add: cache_clear_def)
qed

lemma resize_shards_ok:
  assumes "store_ok items keys hash c" and "set is \<subseteq> {..<length (mc_shards c)}" and "distinct is"
  shows "\<exists>E c'. resize_shards lib capacity is removed c = Some (removed @ map (\<lambda>r. (r, Evicted)) E, c') \<and> store_ok items keys hash c'
    \<and> exchanged c [] E c' \<and> length (mc_shards c') = length (mc_shards c)
    \<and> (mc_release c \<longrightarrow> (\<forall>r \<in> set E. cl_references (mc_cells c) (mr_id r) = 0))
    \<and> ((\<forall>j \<in> set is. resized (mc_release c) (cl_references (mc_cells c)) (partition_capacity capacity (length (mc_shards c)) j) (mc_shards c' ! j)) \<and> (\<forall>j < length (mc_shards c). j \<notin> set is \<longrightarrow> mc_shards c' ! j = mc_shards c ! j))"
  using assms
proof (induction "is" arbitrary: c removed)
  case Nil
  then have "exchanged c [] [] c" using shard_facts(3) [OF Nil(1)] store_okD(3) [OF Nil(1)] by (simp add: exchanged_def books_ok_def)
  then show ?case using Nil by (intro exI [of _ "[]"] exI [of _ c]) simp
next
  case (Cons i xs)
  let ?n = "length (mc_shards c)" and ?sh = "mc_shards c ! i" and ?cl = "mc_cells c" and ?cc = "mc_counters c"
  have i: "i < ?n" using Cons(3) by simp
  note f = shard_facts [OF Cons(2) i]
  obtain qs where sh: "shard_ok items keys (homed hash ?n (mc_next c) i) (cl_references ?cl) ?sh qs"
    using shard_at [OF store_okD(1) [OF Cons(2)] i] .
  obtain E sh' cl' cc' qs' where r: "shard_resize lib (partition_capacity capacity ?n i) removed (?sh, ?cl, ?cc) = Some (removed @ map (\<lambda>r. (r, Evicted)) E, sh', cl', cc')"
    "shard_ok items keys (homed hash ?n (mc_next c) i) (cl_references ?cl) sh' qs'" "flow (?sh, ?cl, ?cc) [] E (sh', cl', cc')"
    "cl_references cl' = cl_references ?cl" "sd_capacity sh' = partition_capacity capacity ?n i"
    "sd_weight sh' \<le> partition_capacity capacity ?n i \<or> is_lru (st_policy (sd_state ?sh)) \<and> (\<forall>r \<in># held (sd_nodes sh'). cl_references ?cl (mr_id r) \<noteq> 0)"
    "is_lru (st_policy (sd_state ?sh)) \<longrightarrow> (\<forall>r \<in> set E. cl_references ?cl (mr_id r) = 0)"
    by (rule resize_shard_ok [OF sh])
  let ?c = "place c i (sh', cl', cc')"
  have st: "store_ok items keys hash ?c" "exchanged c [] E ?c" using settle [OF Cons(2) i r(3), of qs'] f r(2,4,5,6) by auto
  have "set xs \<subseteq> {..<length (mc_shards ?c)}" "distinct xs" using Cons(3,4) by simp_all
  then obtain F c' where IH: "resize_shards lib capacity xs (removed @ map (\<lambda>r. (r, Evicted)) E) ?c = Some ((removed @ map (\<lambda>r. (r, Evicted)) E) @ map (\<lambda>r. (r, Evicted)) F, c')"
    "store_ok items keys hash c'" "exchanged ?c [] F c'" "length (mc_shards c') = length (mc_shards ?c)"
    "mc_release ?c \<longrightarrow> (\<forall>r \<in> set F. cl_references (mc_cells ?c) (mr_id r) = 0)"
    "(\<forall>j \<in> set xs. resized (mc_release ?c) (cl_references (mc_cells ?c)) (partition_capacity capacity (length (mc_shards ?c)) j) (mc_shards c' ! j)) \<and> (\<forall>j < length (mc_shards ?c). j \<notin> set xs \<longrightarrow> mc_shards c' ! j = mc_shards ?c ! j)"
    using Cons(1) [OF st(1)] by blast
  have "on_shard c i (shard_resize lib (partition_capacity capacity ?n i) removed) = Some (removed @ map (\<lambda>r. (r, Evicted)) E, ?c)"
    by (rule on_shard_place, rule i, rule r(1))
  then have "resize_shards lib capacity (i # xs) removed c = Some (removed @ map (\<lambda>r. (r, Evicted)) (E @ F), c')" using IH(1) by simp
  moreover have "exchanged c [] (E @ F) c'" using exchanged_trans [OF st(2) IH(3)] f(3) by simp
  moreover have "mc_release c \<longrightarrow> (\<forall>r \<in> set (E @ F). cl_references ?cl (mr_id r) = 0)" using r(4,7) f(1) IH(5) by auto
  moreover have "resized (mc_release c) (cl_references ?cl) (partition_capacity capacity ?n j) (mc_shards c' ! j)" if j: "j \<in> set (i # xs)" for j
  proof (cases "j = i")
    case True
    then have "mc_shards c' ! j = sh'" using IH(6) Cons(4) i by simp
    then show ?thesis using True r(5,6) f(1) by (simp add: resized_def)
  next
    case False
    then show ?thesis using IH(6) r(4) j by simp
  qed
  moreover have "mc_shards c' ! j = mc_shards c ! j" if "j < ?n" "j \<notin> set (i # xs)" for j using IH(6) that by simp
  ultimately show ?case using IH(2,4) by (intro exI [of _ "E @ F"] exI [of _ c']) auto
qed

lemma resize_ok:
  assumes ok: "store_ok items keys hash c"
  obtains E c' where "cache_resize lib capacity c = Some c'" "store_ok items keys hash c'" "purged c (map (\<lambda>r. (r, Evicted)) E) c'"
    "mc_capacity c' = capacity" "map sd_capacity (mc_shards c') = map (partition_capacity capacity (length (mc_shards c))) [0..<length (mc_shards c)]"
    "mc_release c \<longrightarrow> (\<forall>r \<in> set E. cl_references (mc_cells c) (mr_id r) = 0)" "within_or_pinned c' (cl_references (mc_cells c))"
proof -
  let ?is = "[0..<length (mc_shards c)]" and ?n = "length (mc_shards c)"
  have "set ?is \<subseteq> {..<?n}" "distinct ?is" by auto
  then obtain E c1 where r: "resize_shards lib capacity ?is [] c = Some ([] @ map (\<lambda>r. (r, Evicted)) E, c1)" "store_ok items keys hash c1"
    "exchanged c [] E c1" "length (mc_shards c1) = ?n" "mc_release c \<longrightarrow> (\<forall>r \<in> set E. cl_references (mc_cells c) (mr_id r) = 0)"
    "(\<forall>j \<in> set ?is. resized (mc_release c) (cl_references (mc_cells c)) (partition_capacity capacity (length (mc_shards c)) j) (mc_shards c1 ! j)) \<and> (\<forall>j < length (mc_shards c). j \<notin> set ?is \<longrightarrow> mc_shards c1 ! j = mc_shards c ! j)"
    using resize_shards_ok [OF ok] by blast
  let ?c = "c1 \<lparr> mc_capacity := capacity \<rparr>"
  have s: "same_store c1 ?c" by (simp add: same_store_def)
  have ok2: "store_ok items keys hash ?c" by (rule same_store_ok [OF r(2) s]) simp_all
  have ex: "exchanged (c \<lparr> mc_capacity := capacity \<rparr>) [] (map fst (map (\<lambda>r. (r, Evicted)) E)) ?c"
    using r(3) same_versions [OF s] by (simp add: exchanged_def versions_def comp_def)
  obtain c' where n: "dispatch (map (\<lambda>r. (r, Evicted)) E) ?c = Some c'" "store_ok items keys hash c'" "notified ?c (map (\<lambda>r. (r, Evicted)) E) c'"
    by (rule notify_ok [OF ok2 ex])
  have sh: "mc_shards c' = mc_shards c1" "mc_capacity c' = capacity" "mc_release c' = mc_release c"
    using n(3) r(3) by (simp_all add: notified_def same_store_def exchanged_def)
  have "purged c (map (\<lambda>r. (r, Evicted)) E) c'" using purged_notified [OF ex n(3)] by (simp add: purged_def versions_def)
  moreover have "map sd_capacity (mc_shards c') = map (partition_capacity capacity ?n) ?is"
    using r(4,6) sh(1) by (intro nth_equalityI) (simp_all add: resized_def)
  moreover have "within_or_pinned c' (cl_references (mc_cells c))" unfolding within_or_pinned_def sh
  proof
    fix t assume "t \<in> set (mc_shards c1)"
    then obtain j where "j < ?n" "t = mc_shards c1 ! j" using r(4) by (metis in_set_conv_nth)
    then show "sd_weight t \<le> sd_capacity t \<or> mc_release c \<and> (\<forall>r \<in># held (sd_nodes t). cl_references (mc_cells c) (mr_id r) \<noteq> 0)"
      using r(6) by (simp add: resized_def)
  qed
  moreover have "cache_resize lib capacity c = Some c'" using r(1) n(1) by (simp add: cache_resize_def)
  ultimately show ?thesis using that n(2) sh(2) r(5) by blast
qed

end

end
