(* ===== verification/Mem_Runs.thy ===== *)
theory Mem_Runs
  imports Mem_Contract
begin

text \<open>
  Runs of the memory cache: any sequence of insertions, lookups, removals, resizes, clears and
  releases of handles, next to the abstract map of the versions inserted last. The states a run
  reaches satisfy the invariant, and the cache holds a part of the abstract map.
\<close>

section \<open>A new cache\<close>

definition split_exactly :: "('k, 'v, 'p, 't, 's) mem_cache \<Rightarrow> bool" where
  "split_exactly c \<longleftrightarrow> map sd_capacity (mc_shards c) = map (partition_capacity (mc_capacity c) (length (mc_shards c))) [0..<length (mc_shards c)]"

lemma partition_bounds: "i < n \<Longrightarrow> capacity div n \<le> partition_capacity capacity n i \<and> partition_capacity capacity n i \<le> capacity div n + 1"
  by (simp add: partition_capacity_def)

lemma partition_total:
  assumes "0 < n"
  shows "(\<Sum>i \<leftarrow> [0..<n]. partition_capacity capacity n i) = capacity"
proof -
  have extra: "(\<Sum>i \<leftarrow> [0..<k]. if i < m then 1 else 0 :: nat) = min k m" for k m by (induction k) auto
  have "(\<Sum>i \<leftarrow> [0..<n]. partition_capacity capacity n i) = n * (capacity div n) + (\<Sum>i \<leftarrow> [0..<n]. if i < capacity mod n then 1 else 0)"
    by (simp add: partition_capacity_def sum_list_addf sum_list_triv)
  also have "\<dots> = n * (capacity div n) + capacity mod n" using extra assms by (simp add: min_absorb2 less_imp_le)
  finally show ?thesis by simp
qed

lemma held_empty [simp]: "held Map.empty = {#}"
  by (simp add: held_def)

lemma recs_empty [simp]: "recs Map.empty x = None"
  by (simp add: recs_def)

context cache_libraries
begin

lemma shard_new_ok:
  assumes "validate policy = Ok ()"
  shows "shard_ok items keys good refs (shard_new lib policy capacity :: ('k, 'v, 'p, 't, 's) mem_shard) [[], [], []]"
proof -
  have "state_ok (state_new policy capacity) (Map.empty :: ('k, 'v, 'p) nodes) [[], [], []]" by (rule state_new_ok [OF assms])
  then show ?thesis using items_new keys_new by (simp add: shard_ok_def shard_new_def entries_def unique_keys_def state_new_def)
qed

lemma build_ok:
  assumes "cache_build lib b = Ok c"
  shows "store_ok items keys hash c" "versions c = {#}" "split_exactly c" "cl_references (mc_cells c) = (\<lambda>_. 0)"
proof -
  let ?n = "bd_shards b" and ?p = "bd_policy b"
  have v: "validate ?p = Ok ()" "?n \<noteq> 0" using assms by (cases "validate ?p"; auto simp: cache_build_def split: if_splits)+
  let ?shs = "map (\<lambda>i. shard_new lib ?p (partition_capacity (bd_capacity b) ?n i)) [0..<?n]"
  have c: "mc_shards c = ?shs" "mc_cells c = \<lparr> cl_resident = \<lambda>_. False, cl_references = \<lambda>_. 0 \<rparr>" "mc_counters c = counters_new ?n"
    "mc_capacity c = bd_capacity b" "mc_mutable_hits c = mutable_hits ?p" "mc_release c = is_lru ?p"
    using assms v by (auto simp: cache_build_def is_lru_def split: policy.splits)
  show vs: "versions c = {#}" by (simp add: versions_def c(1) shard_new_def comp_def)
  show "split_exactly c" by (simp add: split_exactly_def c shard_new_def comp_def)
  show "cl_references (mc_cells c) = (\<lambda>_. 0)" by (simp add: c)
  have "shards_ok items keys hash c" using shard_new_ok [OF v(1)] by (auto simp: shards_ok_def c)
  moreover have "policies_ok c" by (auto simp: policies_ok_def c shard_new_def state_new_def)
  moreover have "books_ok c" using vs v(2) by (simp add: books_ok_def c counters_new_def unique_ids_def)
  moreover have "within_budget c" by (simp add: within_budget_def c shard_new_def)
  ultimately show "store_ok items keys hash c" by (simp add: store_ok_def)
qed

end

section \<open>Runs\<close>

text \<open>
  A state of a run: the cache, the outstanding handles, and the abstract map. A dispatched
  notification gives the listener a handle.
\<close>

definition told :: "('k, 'v, 'p, 't, 's) mem_cache \<Rightarrow> ('k, 'v, 'p, 't, 's) mem_cache \<Rightarrow> ('k, 'v, 'p) mem_entry multiset" where
  "told c c' = image_mset (\<lambda>x. \<lparr> en_record = fst x, en_release = False \<rparr>) (mset (drop (length (mc_events c)) (mc_events c')))"

type_synonym ('k, 'v, 'p) latest = "'k \<rightharpoonup> ('k, 'v, 'p) mem_record"

inductive mem_step ::
  "('t, 's) cache_lib \<Rightarrow> ('k, 'v, 'p) callbacks \<Rightarrow> ('k, 'v, 'p, 't, 's) mem_cache \<Rightarrow> ('k, 'v, 'p) mem_entry multiset \<Rightarrow> ('k, 'v, 'p) latest
     \<Rightarrow> ('k, 'v, 'p, 't, 's) mem_cache \<Rightarrow> ('k, 'v, 'p) mem_entry multiset \<Rightarrow> ('k, 'v, 'p) latest \<Rightarrow> bool"
  for lib cb where
  step_insert: "insert_with lib cb key val props prio c = Some (e, c') \<Longrightarrow>
     mem_step lib cb c H m c' (H + {#e#} + told c c') (m(key \<mapsto> en_record e))"
| step_get: "lawful (cb_hash cb) q \<Longrightarrow> get_hashed lib q c = Some (res, c') \<Longrightarrow>
     mem_step lib cb c H m c' (H + mset_set (set_option res)) m"
| step_remove: "lawful (cb_hash cb) q \<Longrightarrow> sharp q \<Longrightarrow> cache_remove lib q c = Some (res, c') \<Longrightarrow>
     mem_step lib cb c H m c' (H + mset_set (set_option res) + told c c') (m |` {k. \<not> pb_equivalent q k})"
| step_clear: "cache_clear lib c = Some c' \<Longrightarrow> mem_step lib cb c H m c' (H + told c c') Map.empty"
| step_resize: "cache_resize lib capacity c = Some c' \<Longrightarrow> mem_step lib cb c H m c' (H + told c c') m"
| step_drop: "e \<in># H \<Longrightarrow> entry_drop lib e c = Some c' \<Longrightarrow> mem_step lib cb c H m c' (H - {#e#} + told c c') m"
| step_clone: "e \<in># H \<Longrightarrow> entry_clone e (mc_cells c) = (e', cl) \<Longrightarrow> mem_step lib cb c H m (c \<lparr> mc_cells := cl \<rparr>) (H + {#e'#}) m"

inductive mem_reach ::
  "('t, 's) cache_lib \<Rightarrow> ('k, 'v, 'p) callbacks \<Rightarrow> builder \<Rightarrow> ('k, 'v, 'p, 't, 's) mem_cache \<Rightarrow> ('k, 'v, 'p) mem_entry multiset \<Rightarrow> ('k, 'v, 'p) latest \<Rightarrow> bool"
  for lib cb b where
  reach_build: "cache_build lib b = Ok c \<Longrightarrow> mem_reach lib cb b c {#} Map.empty"
| reach_step: "mem_reach lib cb b c H m \<Longrightarrow> mem_step lib cb c H m c' H' m' \<Longrightarrow> mem_reach lib cb b c' H' m'"

inductive_cases mem_step_cases: "mem_step lib cb c H m c' H' m'"

definition handles :: "('k, 'v, 'p) mem_entry multiset \<Rightarrow> nat \<Rightarrow> nat" where
  "handles H a = count (image_mset (\<lambda>e. mr_id (en_record e)) H) a"

definition handle_ok :: "('k, 'v, 'p, 't, 's) mem_cache \<Rightarrow> ('k, 'v, 'p) mem_entry \<Rightarrow> bool" where
  "handle_ok c e \<longleftrightarrow> mr_id (en_record e) < mc_next c
     \<and> (\<forall>s \<in># versions c. mr_id s = mr_id (en_record e) \<longrightarrow> s = en_record e \<and> (mc_release c \<longrightarrow> en_release e))"

definition handles_ok :: "('k, 'v, 'p, 't, 's) mem_cache \<Rightarrow> ('k, 'v, 'p) mem_entry multiset \<Rightarrow> bool" where
  "handles_ok c H \<longleftrightarrow> (\<forall>a. cl_references (mc_cells c) a = handles H a) \<and> (\<forall>e \<in># H. handle_ok c e)"

definition run_ok ::
  "('t \<Rightarrow> (u64 \<times> nat) set) \<Rightarrow> ('s \<Rightarrow> nat set) \<Rightarrow> ('k \<Rightarrow> u64) \<Rightarrow> ('k, 'v, 'p, 't, 's) mem_cache \<Rightarrow> ('k, 'v, 'p) mem_entry multiset \<Rightarrow> ('k, 'v, 'p) latest \<Rightarrow> bool" where
  "run_ok items keys hash c H m \<longleftrightarrow> store_ok items keys hash c \<and> handles_ok c H \<and> split_exactly c
     \<and> (\<forall>r \<in># versions c. m (mr_key r) = Some r)"

lemma handles_simps [simp]: "handles {#} a = 0" "handles (H + G) a = handles H a + handles G a" "handles (add_mset e H) a = (if mr_id (en_record e) = a then 1 else 0) + handles H a"
  by (simp_all add: handles_def)

lemma handles_told: "mc_events c' = mc_events c @ (if mc_listener c then removed else []) \<Longrightarrow>
    handles (told c c') a = (if mc_listener c then count (mset (map (\<lambda>x. mr_id (fst x)) removed)) a else 0)"
  by (simp add: handles_def told_def image_mset.compositionality comp_def)

lemma told_iff: "mc_events c' = mc_events c @ (if mc_listener c then removed else []) \<Longrightarrow> e \<in># told c c' \<Longrightarrow>
    \<exists>x \<in> set removed. en_record e = fst x"
  by (force simp: told_def split: if_splits)

section \<open>Runs keep the invariant\<close>

lemma old_handle:
  assumes "handle_ok c e" and "\<And>s. s \<in># versions c' \<Longrightarrow> s \<in># versions c \<or> mc_next c \<le> mr_id s" and "mc_next c \<le> mc_next c'" and "mc_release c' = mc_release c"
  shows "handle_ok c' e"
  unfolding handle_ok_def
proof (intro conjI ballI impI)
  show "mr_id (en_record e) < mc_next c'" using assms(1,3) by (simp add: handle_ok_def)
  fix s assume s: "s \<in># versions c'" "mr_id s = mr_id (en_record e)"
  then have "s \<in># versions c" using assms(1,2) by (fastforce simp: handle_ok_def)
  then show "s = en_record e" "mc_release c' \<Longrightarrow> en_release e" using assms(1,4) s(2) by (auto simp: handle_ok_def)
qed

lemma told_handle:
  assumes ev: "mc_events c' = mc_events c @ (if mc_listener c then removed else [])" and u: "unique_ids (versions c' + mset (map fst removed))"
    and ids: "\<forall>x \<in> set removed. mr_id (fst x) < mc_next c'" and e: "e \<in># told c c'"
  shows "handle_ok c' e"
proof -
  obtain x where x: "x \<in> set removed" "en_record e = fst x" using told_iff [OF ev e] by blast
  then have "mr_id s \<noteq> mr_id (en_record e)" if "s \<in># versions c'" for s using unique_ids_parts [OF u that, of "fst x"] by simp
  then show ?thesis using ids x by (auto simp: handle_ok_def)
qed

lemma purge_handles:
  assumes ok: "store_ok items keys hash c" and H: "handles_ok c H" and p: "purged c removed c'"
  shows "handles_ok c' (H + told c c')"
proof -
  note d = p [unfolded purged_def]
  have u: "unique_ids (versions c' + mset (map fst removed))" using store_okD(3) [OF ok] d by (simp add: books_ok_def)
  have ids: "\<forall>x \<in> set removed. mr_id (fst x) < mc_next c'"
  proof
    fix x assume "x \<in> set removed"
    then have "fst x \<in># versions c" using d by auto
    then show "mr_id (fst x) < mc_next c'" using version_home(3) [OF ok] d by simp
  qed
  have "cl_references (mc_cells c') a = handles (H + told c c') a" for a
    using H d handles_told [of c' c removed a] by (simp add: handles_ok_def)
  moreover have "handle_ok c' e" if "e \<in># H" for e
    by (rule old_handle [of c]) (use H that d in \<open>auto simp: handles_ok_def\<close>)
  moreover have "handle_ok c' e" if "e \<in># told c c'" for e using told_handle [OF _ u ids that] d by simp
  ultimately show ?thesis by (auto simp: handles_ok_def)
qed

lemma latest_part:
  assumes "\<forall>r \<in># versions c. m (mr_key r) = Some r" and "versions c = versions c' + M"
  shows "\<forall>r \<in># versions c'. m (mr_key r) = Some r"
  using assms by simp

lemma split_same: "split_exactly c \<Longrightarrow> map sd_capacity (mc_shards c') = map sd_capacity (mc_shards c) \<Longrightarrow> mc_capacity c' = mc_capacity c \<Longrightarrow> split_exactly c'"
  unfolding split_exactly_def by (metis length_map)

context cache_libraries
begin

lemma insert_run:
  assumes run: "run_ok items keys (cb_hash cb) c H m" and ins: "insert_with lib cb key val props prio c = Some (e, c')"
  shows "run_ok items keys (cb_hash cb) c' (H + {#e#} + told c c') (m(key \<mapsto> en_record e))"
proof -
  have ok: "store_ok items keys (cb_hash cb) c" and H: "handles_ok c H" and m: "\<forall>r \<in># versions c. m (mr_key r) = Some r" and sp: "split_exactly c"
    using run by (auto simp: run_ok_def)
  let ?r = "new_record cb key val props prio c"
  obtain removed where i: "e = \<lparr> en_record = ?r, en_release = mc_release c \<rparr>" "store_ok items keys (cb_hash cb) c'" "inserted c ?r removed c'"
    using insert_ok [OF ok, of key val props prio] ins by (metis option.inject prod.inject)
  note d = i(3) [unfolded inserted_def]
  have v: "versions c + {#?r#} = versions c' + mset (map fst removed)" using d by simp
  have old: "s \<in># versions c \<or> s = ?r" if "s \<in># versions c' + mset (map fst removed)" for s using that unfolding v [symmetric] by auto
  have fresh: "\<forall>s \<in># versions c. mr_id s \<noteq> mr_id ?r" using version_home(3) [OF ok] by fastforce
  have u: "unique_ids (versions c' + mset (map fst removed))"
    using unique_ids_add [OF _ fresh] store_okD(3) [OF ok] v by (simp add: books_ok_def)
  have nxt: "mr_id s < mc_next c'" if "s \<in># versions c' + mset (map fst removed)" for s
    using old [OF that] version_home(3) [OF ok, of s] d by auto
  have "handles H (mc_next c) = 0"
    using H by (auto simp: handles_ok_def handle_ok_def handles_def count_eq_zero_iff)
  then have "cl_references (mc_cells c') a = handles (H + {#e#} + told c c') a" for a
    using H d handles_told [of c' c removed a] i(1) by (auto simp: handles_ok_def)
  moreover have "handle_ok c' g" if "g \<in># H" for g
  proof (rule old_handle [of c])
    show "handle_ok c g" using H that by (simp add: handles_ok_def)
    show "s \<in># versions c \<or> mc_next c \<le> mr_id s" if "s \<in># versions c'" for s using old [of s] that by auto
  qed (use d in simp_all)
  moreover have "handle_ok c' g" if "g \<in># told c c'" for g
    by (rule told_handle [OF _ u _ that]) (use d nxt in auto)
  moreover have "handle_ok c' e"
    unfolding handle_ok_def
  proof (intro conjI ballI impI)
    show "mr_id (en_record e) < mc_next c'" using i(1) d by simp
    fix s assume s: "s \<in># versions c'" "mr_id s = mr_id (en_record e)"
    then show "s = en_record e" using old [of s] fresh i(1) by auto
    show "mc_release c' \<Longrightarrow> en_release e" using i(1) d by simp
  qed
  ultimately have "handles_ok c' (H + {#e#} + told c c')" by (auto simp: handles_ok_def)
  moreover have "(m(key \<mapsto> en_record e)) (mr_key s) = Some s" if s: "s \<in># versions c'" for s
    using d old [of s] m i(1) s by (cases "mr_key s = key") auto
  ultimately show ?thesis using i(2) split_same [OF sp, of c'] d by (simp add: run_ok_def)
qed

lemma get_run:
  assumes run: "run_ok items keys hash c H m" and q: "lawful hash q" and get: "get_hashed lib q c = Some (res, c')"
  shows "run_ok items keys hash c' (H + mset_set (set_option res)) m"
proof -
  have ok: "store_ok items keys hash c" and H: "handles_ok c H" and m: "\<forall>r \<in># versions c. m (mr_key r) = Some r" and sp: "split_exactly c"
    using run by (auto simp: run_ok_def)
  have g: "store_ok items keys hash c'" "looked_up q c res c'" using get_ok [OF ok q] get by (metis option.inject prod.inject)+
  have f: "versions c' = versions c" "mc_next c' = mc_next c" "mc_release c' = mc_release c" using g(2) by (simp_all add: looked_up_def)
  have old: "handle_ok c' e" if "e \<in># H" for e by (rule old_handle [of c]) (use H that f in \<open>auto simp: handles_ok_def\<close>)
  have "handles_ok c' (H + mset_set (set_option res))"
  proof (cases res)
    case None
    then show ?thesis using old H g(2) by (simp add: handles_ok_def looked_up_def)
  next
    case (Some e)
    have e: "en_record e \<in># versions c" "en_release e = mc_release c" using g(2) Some by (simp_all add: looked_up_def)
    have "s = en_record e" if "s \<in># versions c" "mr_id s = mr_id (en_record e)" for s
      using unique_ids_inj [OF _ that(1) e(1) that(2)] store_okD(3) [OF ok] by (simp add: books_ok_def)
    then have "handle_ok c' e" using e f version_home(3) [OF ok e(1)] by (simp add: handle_ok_def)
    moreover have "cl_references (mc_cells c') a = handles (H + {#e#}) a" for a using H g(2) Some by (simp add: handles_ok_def looked_up_def)
    ultimately show ?thesis using old Some by (auto simp: handles_ok_def)
  qed
  then show ?thesis using g f m split_same [OF sp, of c'] by (simp add: run_ok_def looked_up_def)
qed

lemma remove_run:
  assumes run: "run_ok items keys hash c H m" and q: "lawful hash q" "sharp q" and rem: "cache_remove lib q c = Some (res, c')"
  shows "run_ok items keys hash c' (H + mset_set (set_option res) + told c c') (m |` {k. \<not> pb_equivalent q k})"
proof -
  have ok: "store_ok items keys hash c" and H: "handles_ok c H" and m: "\<forall>r \<in># versions c. m (mr_key r) = Some r" and sp: "split_exactly c"
    using run by (auto simp: run_ok_def)
  have g: "store_ok items keys hash c'" "taken q c res c'" using remove_ok [OF ok q] rem by (metis option.inject prod.inject)+
  have f: "mc_next c' = mc_next c" "mc_release c' = mc_release c" "\<forall>s \<in># versions c'. \<not> pb_equivalent q (mr_key s)" using g(2) by (simp_all add: taken_def)
  have sub: "s \<in># versions c" if "s \<in># versions c'" for s using g(2) that by (cases res) (simp_all add: taken_def)
  have old: "handle_ok c' e" if "e \<in># H" for e by (rule old_handle [of c]) (use H that f sub in \<open>auto simp: handles_ok_def\<close>)
  have "handles_ok c' (H + mset_set (set_option res) + told c c')"
  proof (cases res)
    case None
    then have "told c c' = {#}" using g(2) by (simp add: taken_def told_def)
    then show ?thesis using None old H g(2) by (simp add: handles_ok_def taken_def)
  next
    case (Some e)
    let ?r = "en_record e"
    have e: "versions c = versions c' + {#?r#}" "mc_events c' = mc_events c @ (if mc_listener c then [(?r, Removed)] else [])" using g(2) Some by (simp_all add: taken_def)
    have u: "unique_ids (versions c' + mset (map fst [(?r, Removed)]))" using store_okD(3) [OF ok] e(1) by (simp add: books_ok_def)
    have nxt: "mr_id ?r < mc_next c'" using version_home(3) [OF ok, of ?r] e(1) f(1) by simp
    have "handle_ok c' e" using nxt unique_ids_parts [OF u, of _ ?r] by (auto simp: handle_ok_def)
    moreover have "handle_ok c' g" if "g \<in># told c c'" for g by (rule told_handle [OF e(2) u _ that]) (use nxt in simp)
    moreover have "cl_references (mc_cells c') a = handles (H + {#e#} + told c c') a" for a
      using H g(2) Some handles_told [OF e(2), of a] by (simp add: handles_ok_def taken_def)
    ultimately show ?thesis using old Some by (auto simp: handles_ok_def)
  qed
  moreover have "\<forall>s \<in># versions c'. (m |` {k. \<not> pb_equivalent q k}) (mr_key s) = Some s" using m sub f(3) by (simp add: restrict_map_def)
  moreover have "split_exactly c'" using split_same [OF sp, of c'] g(2) by (simp add: taken_def)
  ultimately show ?thesis using g(1) by (simp add: run_ok_def)
qed

lemma drop_run:
  assumes run: "run_ok items keys hash c H m" and e: "e \<in># H" and drop: "entry_drop lib e c = Some c'"
  shows "run_ok items keys hash c' (H - {#e#} + told c c') m"
proof -
  have ok: "store_ok items keys hash c" and H: "handles_ok c H" and m: "\<forall>r \<in># versions c. m (mr_key r) = Some r" and sp: "split_exactly c"
    using run by (auto simp: run_ok_def)
  obtain G where G: "H = add_mset e G" using e by (metis mset_add)
  have live: "cl_references (mc_cells c) (mr_id (en_record e)) \<noteq> 0" using H G by (simp add: handles_ok_def)
  have he: "\<forall>s \<in># versions c. mr_id s = mr_id (en_record e) \<longrightarrow> s = en_record e \<and> (mc_release c \<longrightarrow> en_release e)" using H e by (auto simp: handles_ok_def handle_ok_def)
  obtain E where g: "store_ok items keys hash c'" "dropped e c E c'" using drop_ok [OF ok live he] drop by (metis option.inject)
  let ?removed = "map (\<lambda>r. (r, Evicted)) E"
  note d = g(2) [unfolded dropped_def]
  have ev: "mc_events c' = mc_events c @ (if mc_listener c then ?removed else [])" using d by simp
  have v: "versions c = versions c' + mset (map fst ?removed)" using d by (simp add: comp_def)
  have u: "unique_ids (versions c' + mset (map fst ?removed))" using store_okD(3) [OF ok] v by (simp add: books_ok_def)
  have ids: "\<forall>x \<in> set ?removed. mr_id (fst x) < mc_next c'" using version_home(3) [OF ok] v d by auto
  have "cl_references (mc_cells c') a = handles (G + told c c') a" for a
    using H G d handles_told [OF ev, of a] by (auto simp: handles_ok_def comp_def)
  moreover have "handle_ok c' g" if "g \<in># G" for g by (rule old_handle [of c]) (use H G that d in \<open>auto simp: handles_ok_def\<close>)
  moreover have "handle_ok c' g" if "g \<in># told c c'" for g using told_handle [OF ev u ids that] .
  ultimately have "handles_ok c' (G + told c c')" by (auto simp: handles_ok_def)
  then show ?thesis using G g(1) split_same [OF sp, of c'] latest_part [OF m v] d by (simp add: run_ok_def)
qed

lemma clone_run:
  assumes run: "run_ok items keys hash c H m" and e: "e \<in># H" and cl: "entry_clone e (mc_cells c) = (e', cl)"
  shows "run_ok items keys hash (c \<lparr> mc_cells := cl \<rparr>) (H + {#e'#}) m"
proof -
  have ok: "store_ok items keys hash c" and H: "handles_ok c H" and m: "\<forall>r \<in># versions c. m (mr_key r) = Some r" and sp: "split_exactly c"
    using run by (auto simp: run_ok_def)
  let ?c = "c \<lparr> mc_cells := cl \<rparr>" and ?a = "mr_id (en_record e)"
  have c: "e' = e" "cl = mc_cells c \<lparr> cl_references := (cl_references (mc_cells c))(?a := cl_references (mc_cells c) ?a + 1) \<rparr>"
    using cl by (auto simp: entry_clone_def entry_acquire_def)
  have live: "cl_references (mc_cells c) ?a \<noteq> 0" using H e by (auto simp: handles_ok_def handles_def count_eq_zero_iff)
  have s: "same_store c ?c" by (simp add: same_store_def c)
  have "store_ok items keys hash ?c" by (rule same_store_ok [OF ok s]) (use live c in auto)
  moreover have v: "versions ?c = versions c" using same_versions [OF s] .
  moreover have "handle_ok ?c g" if "g \<in># H + {#e'#}" for g
    by (rule old_handle [of c]) (use H that v c e in \<open>auto simp: handles_ok_def\<close>)
  then have "handles_ok ?c (H + {#e'#})" using H c by (auto simp: handles_ok_def)
  ultimately show ?thesis using m split_same [OF sp, of ?c] by (simp add: run_ok_def)
qed

lemma step_run:
  assumes "run_ok items keys (cb_hash cb) c H m" and "mem_step lib cb c H m c' H' m'"
  shows "run_ok items keys (cb_hash cb) c' H' m'"
  using assms(2,1)
proof cases
  case (step_clear)
  have ok: "store_ok items keys (cb_hash cb) c" using assms(1) by (simp add: run_ok_def)
  obtain E where r: "store_ok items keys (cb_hash cb) c'" "purged c (map (\<lambda>r. (r, Cleared)) E) c'" "versions c' = {#}"
    "mc_capacity c' = mc_capacity c" "map sd_capacity (mc_shards c') = map sd_capacity (mc_shards c)"
    using clear_ok [OF ok] step_clear by (metis option.inject)
  then show ?thesis using assms(1) purge_handles [OF ok _ r(2)] step_clear split_same [of c c'] by (simp add: run_ok_def)
next
  case (step_resize capacity)
  have ok: "store_ok items keys (cb_hash cb) c" using assms(1) by (simp add: run_ok_def)
  obtain E where r: "store_ok items keys (cb_hash cb) c'" "purged c (map (\<lambda>r. (r, Evicted)) E) c'" "mc_capacity c' = capacity"
    "map sd_capacity (mc_shards c') = map (partition_capacity capacity (length (mc_shards c))) [0..<length (mc_shards c)]"
    using resize_ok [OF ok, of capacity] step_resize by (metis option.inject)
  have "length (mc_shards c') = length (mc_shards c)" using r(4) by (metis length_map length_upt diff_zero)
  then have "split_exactly c'" using r(3,4) by (simp add: split_exactly_def)
  moreover have "\<forall>s \<in># versions c'. m (mr_key s) = Some s" using assms(1) r(2) by (auto simp: run_ok_def purged_def)
  ultimately show ?thesis using assms(1) purge_handles [OF ok _ r(2)] step_resize r(1) by (simp add: run_ok_def)
next
  case (step_insert key val props prio e)
  then show ?thesis using insert_run [OF assms(1)] by simp
next
  case (step_get q res)
  then show ?thesis using get_run [OF assms(1)] by simp
next
  case (step_remove q res)
  then show ?thesis using remove_run [OF assms(1)] by simp
next
  case (step_drop e)
  then show ?thesis using drop_run [OF assms(1)] by simp
next
  case (step_clone e e' cl)
  then show ?thesis using clone_run [OF assms(1)] by simp
qed

lemma reach_run: "mem_reach lib cb b c H m \<Longrightarrow> run_ok items keys (cb_hash cb) c H m"
proof (induction rule: mem_reach.induct)
  case (reach_build c)
  then show ?case using build_ok [OF reach_build] by (simp add: run_ok_def handles_ok_def)
next
  case (reach_step c H m c' H' m')
  then show ?case using step_run by blast
qed

end

end
