(* ===== verification/Mem_Props.thy ===== *)
theory Mem_Props
  imports Mem_Runs
begin

text \<open>
  The properties of the memory cache: over every library that keeps the contract of the table and
  slab crates, in every state a run reaches. The contract has an instance on association lists.
\<close>

section \<open>An instance of the libraries\<close>

definition fresh_key :: "nat list \<Rightarrow> nat" where
  "fresh_key ks = foldr (\<lambda>k n. max (Suc k) n) ks 0"

definition list_lib :: "((u64 \<times> nat) list, nat list) cache_lib" where
  "list_lib = \<lparr> tb_new = [], tb_probe = \<lambda>t h. map snd (filter (\<lambda>e. fst e = h) t), tb_insert = \<lambda>t h x hasher. (h, x) # t,
     tb_remove = \<lambda>t h x. filter (\<lambda>e. e \<noteq> (h, x)) t, sl_new = [], sl_insert = \<lambda>s. (fresh_key s, fresh_key s # s),
     sl_remove = \<lambda>s x. filter (\<lambda>y. y \<noteq> x) s, sl_iter = remdups \<rparr>"

lemma fresh_key_above: "k \<in> set ks \<Longrightarrow> k < fresh_key ks"
  by (induction ks) (auto simp: fresh_key_def)

interpretation tables: cache_libraries list_lib set set
  by unfold_locales (use fresh_key_above in \<open>force simp: list_lib_def\<close>)+

section \<open>Operations return\<close>

text \<open>The victim of every policy: choosing one always ends without a panic; the chosen node is
  linked, LRU never chooses a pinned one, and none is chosen only when there is nothing to evict.\<close>

theorem victim_returns:
  assumes "state_ok st m qs"
  shows "\<exists>v st' m' qs'. state_victim (st, m) = Some (v, st', m') \<and> state_ok st' m' qs' \<and> recs m' = recs m
    \<and> mset (concat qs') = mset (concat qs) \<and> victim_ok (st_policy st) qs' v"
  using state_victim_ok [OF assms] unfolding kept_def by metis

theorem victim_returns_witness:
  "\<exists>v st' m' qs'. state_victim (state_new Sieve 4, Map.empty :: (nat, nat, unit) nodes) = Some (v, st', m') \<and> state_ok st' m' qs' \<and> recs m' = recs Map.empty
    \<and> mset (concat qs') = mset (concat [[], [], []]) \<and> victim_ok (st_policy (state_new Sieve 4)) qs' v"
  by (rule victim_returns, rule state_new_ok, simp)


section \<open>Versions\<close>

text \<open>C3: the cache refines a lossy map: in every reachable state a lookup returns, and what it returns is the
  version inserted last under the key and not removed since; it misses only when no version of the key is resident.\<close>

theorem cache_refines_lossy_map:
  assumes lib: "cache_libraries lib items keys" and reach: "mem_reach lib cb b c H m"
  shows "\<exists>res c'. get_hashed lib (probe_of (cb_hash cb) key) c = Some (res, c') \<and> versions c' = versions c
    \<and> (case res of None \<Rightarrow> \<forall>r \<in># versions c. mr_key r \<noteq> key | Some e \<Rightarrow> en_record e \<in># versions c \<and> m key = Some (en_record e))"
proof -
  have run: "run_ok items keys (cb_hash cb) c H m" using cache_libraries.reach_run [OF lib reach] .
  then have ok: "store_ok items keys (cb_hash cb) c" and m: "\<forall>r \<in># versions c. m (mr_key r) = Some r" by (simp_all add: run_ok_def)
  obtain res c' where g: "get_hashed lib (probe_of (cb_hash cb) key) c = Some (res, c')" "looked_up (probe_of (cb_hash cb) key) c res c'"
    using cache_libraries.get_ok [OF lib ok lawful_probe_of] by metis
  have "case res of None \<Rightarrow> \<forall>r \<in># versions c. mr_key r \<noteq> key | Some e \<Rightarrow> en_record e \<in># versions c \<and> m key = Some (en_record e)"
    using g(2) m by (cases res) (auto simp: looked_up_def probe_of_def)
  then show ?thesis using g by (auto simp: looked_up_def)
qed


section \<open>Pins, budgets and counters\<close>

lemma still_held:
  assumes "versions c + {#r#} = versions c' + mset E" and "s \<in># versions c" and "s \<notin> set E"
  shows "s \<in># versions c'"
  using assms by (metis in_multiset_in_set union_iff)

lemma kept_version:
  assumes "versions c = versions c' + mset E" and "s \<in># versions c" and "s \<notin> set E"
  shows "s \<in># versions c'"
  using assms by simp

lemma wsum_sum_list: "wsum (\<Sum>x \<leftarrow> xs. f x) = (\<Sum>x \<leftarrow> xs. wsum (f x))"
  by (induction xs) simp_all

text \<open>C14: pins: under LRU a resident version with an outstanding handle stays resident through every step of a run,
  whatever is inserted, looked up, resized or released, as long as its key is not replaced, removed or cleared
  and the handle is not dropped.\<close>

theorem pinned_version_stays:
  assumes lib: "cache_libraries lib items keys" and reach: "mem_reach lib cb b c H m" and lru: "mc_release c"
    and e: "e \<in># H" "en_record e \<in># versions c" and step: "mem_step lib cb c H m c' H' m'"
    and key: "m' (mr_key (en_record e)) = m (mr_key (en_record e))" and kept: "e \<in># H'"
  shows "en_record e \<in># versions c'"
proof -
  have run: "run_ok items keys (cb_hash cb) c H m" using cache_libraries.reach_run [OF lib reach] .
  then have ok: "store_ok items keys (cb_hash cb) c" and H: "handles_ok c H" and m: "\<forall>r \<in># versions c. m (mr_key r) = Some r" by (simp_all add: run_ok_def)
  let ?s = "en_record e"
  have live: "cl_references (mc_cells c) (mr_id ?s) \<noteq> 0" using H e(1) by (auto simp: handles_ok_def handles_def count_eq_zero_iff)
  have ms: "m (mr_key ?s) = Some ?s" using m e(2) by blast
  show ?thesis using step
  proof cases
    case (step_insert k val props prio e')
    let ?r = "new_record cb k val props prio c"
    obtain removed where i: "e' = \<lparr> en_record = ?r, en_release = mc_release c \<rparr>" "inserted c ?r removed c'"
      using cache_libraries.insert_ok [OF lib ok, of k val props prio] step_insert by (metis option.inject prod.inject)
    note d = i(2) [unfolded inserted_def]
    have old: "mr_id ?s \<noteq> mc_next c" using version_home(3) [OF ok e(2)] by simp
    then have "?r \<noteq> ?s" by (metis new_record_fields(1))
    then have "mr_key ?s \<noteq> k" using key ms step_insert(2) i(1) by auto
    then have "\<not> fair ((cl_references (mc_cells c))(mr_id ?r := 1)) (mc_release c) ?r (?s, reason)" for reason
      using live old lru by (cases reason) auto
    then have "?s \<notin> set (map fst removed)" using d by force
    then show ?thesis using still_held [of c ?r c' "map fst removed"] d e(2) by blast
  next
    case (step_get q res)
    then show ?thesis using cache_libraries.get_ok [OF lib ok step_get(3)] e(2) unfolding looked_up_def by (metis option.inject prod.inject)
  next
    case (step_remove q res)
    have t: "taken q c res c'" using cache_libraries.remove_ok [OF lib ok step_remove(3,4)] step_remove(5) by (metis option.inject prod.inject)
    have "\<not> pb_equivalent q (mr_key ?s)" using key ms step_remove(2) by (auto simp: restrict_map_def split: if_splits)
    then show ?thesis using t e(2) by (cases res) (auto simp: taken_def)
  next
    case step_clear
    then show ?thesis using key ms by simp
  next
    case (step_resize capacity)
    obtain E where E: "purged c (map (\<lambda>r. (r, Evicted)) E) c'" "\<forall>r \<in> set E. cl_references (mc_cells c) (mr_id r) = 0"
      using cache_libraries.resize_ok [OF lib ok, of capacity] step_resize lru by (metis option.inject)
    then show ?thesis using kept_version [of c c' E] e(2) live by (auto simp: purged_def comp_def)
  next
    case (step_drop e')
    have he: "handle_ok c e" "handle_ok c e'" using H e(1) step_drop by (auto simp: handles_ok_def)
    obtain G where G: "H = add_mset e' G" using step_drop(3) by (metis mset_add)
    have pre: "cl_references (mc_cells c) (mr_id (en_record e')) \<noteq> 0" using H G by (simp add: handles_ok_def)
    obtain E where d: "dropped e' c E c'"
      using cache_libraries.drop_ok [OF lib ok pre] he(2) step_drop(4) unfolding handle_ok_def by (metis option.inject)
    have "e \<notin># told c c'" using he(1) e(2) lru by (auto simp: handle_ok_def told_def)
    then have "e \<in># G" using kept step_drop(1) G by auto
    then have "handles G (mr_id ?s) \<noteq> 0" by (auto simp: handles_def count_eq_zero_iff)
    then have "((cl_references (mc_cells c))(mr_id (en_record e') := cl_references (mc_cells c) (mr_id (en_record e')) - 1)) (mr_id ?s) \<noteq> 0"
      using H G by (auto simp: handles_ok_def)
    then have "?s \<notin> set E" using d lru by (auto simp: dropped_def)
    then show ?thesis using kept_version [of c c' E] d e(2) by (simp add: dropped_def)
  next
    case (step_clone e' e'' cl)
    then show ?thesis using e(2) by (simp add: versions_def)
  qed
qed

text \<open>C18: budgets: for every policy but LRU, whose handles may pin more, the resident weight never exceeds the configured
  capacity, whatever the number of shards and through every resize.\<close>

theorem resident_weight_within_capacity:
  assumes lib: "cache_libraries lib items keys" and reach: "mem_reach lib cb b c H m" and lru: "\<not> mc_release c"
  shows "wsum (versions c) \<le> mc_capacity c"
proof -
  have run: "run_ok items keys (cb_hash cb) c H m" using cache_libraries.reach_run [OF lib reach] .
  then have ok: "store_ok items keys (cb_hash cb) c" and sp: "split_exactly c" by (simp_all add: run_ok_def)
  let ?shs = "mc_shards c"
  have le: "wsum (held (sd_nodes sh)) \<le> sd_capacity sh" if sh: "sh \<in> set ?shs" for sh
  proof -
    obtain i where i: "i < length ?shs" "sh = ?shs ! i" using sh by (metis in_set_conv_nth)
    obtain qs where "shard_ok items keys (homed (cb_hash cb) (length ?shs) (mc_next c) i) (cl_references (mc_cells c)) sh qs"
      using shard_at [OF store_okD(1) [OF ok] i(1)] i(2) by blast
    then show ?thesis using shard_okD(7) store_okD(4) [OF ok] lru sh by (metis within_budget_def)
  qed
  have "wsum (versions c) = (\<Sum>sh \<leftarrow> ?shs. wsum (held (sd_nodes sh)))" by (simp add: versions_def wsum_sum_list)
  also have "\<dots> \<le> (\<Sum>sh \<leftarrow> ?shs. sd_capacity sh)" by (rule sum_list_mono) (rule le)
  also have "\<dots> = mc_capacity c"
    using partition_total [of "length ?shs" "mc_capacity c"] sp store_okD(3) [OF ok] by (simp add: split_exactly_def books_ok_def)
  finally show ?thesis .
qed

text \<open>C26: well-formedness: in every reachable state two resident versions never share a key, the residency flag of a record
  is set exactly for the resident ones, and the statistics count the resident versions and their weight modulo 2 to the 64.\<close>

theorem cache_books_balance:
  assumes lib: "cache_libraries lib items keys" and reach: "mem_reach lib cb b c H m"
  shows "(\<forall>r \<in># versions c. \<forall>s \<in># versions c. mr_key r = mr_key s \<longrightarrow> r = s)
    \<and> (\<forall>a. cl_resident (mc_cells c) a \<longleftrightarrow> a \<in> mr_id ` set_mset (versions c))
    \<and> ss_entries (cache_statistics c) = of_nat (size (versions c)) \<and> ss_resident_weight (cache_statistics c) = of_nat (wsum (versions c))"
proof -
  have run: "run_ok items keys (cb_hash cb) c H m" using cache_libraries.reach_run [OF lib reach] .
  then have ok: "store_ok items keys (cb_hash cb) c" by (simp add: run_ok_def)
  show ?thesis using one_version [OF ok] store_okD(3) [OF ok]
    by (auto simp: books_ok_def cache_statistics_def Let_def split: prod.splits)
qed

section \<open>A run\<close>

definition run_callbacks :: "(nat, nat, unit) callbacks" where
  "run_callbacks = \<lparr> cb_hash = of_nat, cb_weigher = \<lambda>_ _ _. 1, cb_admission = \<lambda>_ _ _. True \<rparr>"

definition run_builder :: "policy \<Rightarrow> builder" where
  "run_builder p = \<lparr> bd_capacity = 1, bd_shards = 1, bd_policy = p, bd_listener = True \<rparr>"

definition run_cache :: "policy \<Rightarrow> (nat, nat, unit, (u64 \<times> nat) list, nat list) mem_cache" where
  "run_cache p = \<lparr> mc_shards = [\<lparr> sd_index = [], sd_slab = [], sd_nodes = Map.empty, sd_state = state_new p 1,
     sd_weight = 0, sd_capacity = 1, sd_hits = 0, sd_misses = 0 \<rparr>], mc_cells = \<lparr> cl_resident = \<lambda>_. False, cl_references = \<lambda>_. 0 \<rparr>,
     mc_counters = counters_new 1, mc_capacity = 1, mc_mutable_hits = mutable_hits p, mc_release = is_lru p, mc_listener = True, mc_events = [], mc_next = 0 \<rparr>"

definition run_record :: "(nat, nat, unit) mem_record" where
  "run_record = \<lparr> mr_id = 0, mr_key = 7, mr_value = 70, mr_properties = (), mr_hash = 7, mr_weight = 1, mr_priority = Normal \<rparr>"

definition run_entry :: "(nat, nat, unit) mem_entry" where
  "run_entry = \<lparr> en_record = run_record, en_release = True \<rparr>"

definition run_full :: "(nat, nat, unit, (u64 \<times> nat) list, nat list) mem_cache" where
  "run_full = \<lparr> mc_shards = [\<lparr> sd_index = [(7, 0)], sd_slab = [0],
       sd_nodes = [0 \<mapsto> \<lparr> nd_record = run_record, nd_prev = None, nd_next = None, nd_queue = Some 2, nd_frequency = 0 \<rparr>],
       sd_state = state_new (Lru lru_default) 1 \<lparr> st_lists := [empty_list, empty_list, \<lparr> ls_head = Some 0, ls_tail = Some 0, ls_weight = 1 \<rparr>] \<rparr>,
       sd_weight = 1, sd_capacity = 1, sd_hits = 0, sd_misses = 0 \<rparr>],
     mc_cells = \<lparr> cl_resident = (\<lambda>_. False)(0 := True), cl_references = (\<lambda>_. 0)(0 := 1) \<rparr>,
     mc_counters = \<lparr> cc_insertions = [1], cc_rejections = [0], cc_evictions = 0, cc_entries = 1, cc_resident = 1 \<rparr>,
     mc_capacity = 1, mc_mutable_hits = True, mc_release = True, mc_listener = True, mc_events = [], mc_next = 1 \<rparr>"

lemma trim_idle: "sd_weight (fst w) \<le> sd_capacity (fst w) \<Longrightarrow> shard_trim lib w removed = Some (removed, w)"
  by (subst shard_trim.simps) simp

lemma run_built: "validate p = Ok () \<Longrightarrow> cache_build list_lib (run_builder p) = Ok (run_cache p)"
  by (cases p) (simp_all add: cache_build_def run_builder_def run_cache_def list_lib_def shard_new_def partition_capacity_def is_lru_def)

lemma run_inserted: "insert_with list_lib run_callbacks 7 70 () Normal (run_cache (Lru lru_default)) = Some (run_entry, run_full)"
  by (simp add: insert_with_def cache_prepare_def prepare_hashed_def run_cache_def run_callbacks_def counters_new_def nth_opt_def mc_shard_def entry_acquire_def
    prepared_commit_def commit_entry_def on_shard_def shard_commit_def shard_replace_def shard_find_def list_lib_def shard_admit_def fresh_key_def state_insert_def
    state_new_def state_push_def empty_list_def update_node_def change_finish_def change_notify_def Let_def trim_idle run_entry_def run_record_def run_full_def
    is_lru_def numeral_3_eq_3)

lemma run_reach: "mem_reach list_lib run_callbacks (run_builder (Lru lru_default)) run_full {#run_entry#} [7 \<mapsto> run_record]"
proof -
  have "mem_reach list_lib run_callbacks (run_builder (Lru lru_default)) (run_cache (Lru lru_default)) {#} Map.empty"
    by (rule reach_build, rule run_built) (simp add: lru_default_def)
  from reach_step [OF this step_insert [OF run_inserted]] show ?thesis
    by (simp add: told_def run_cache_def run_full_def run_entry_def)
qed

lemma run_versions: "versions run_full = {#run_record#}"
  by (simp add: versions_def run_full_def held_def recs_def)

lemma run_release: "mc_release run_full"
  by (simp add: run_full_def)


theorem cache_refines_lossy_map_witness:
  "\<exists>e c'. get_hashed list_lib (probe_of (cb_hash run_callbacks) 7) run_full = Some (Some e, c') \<and> en_record e = run_record \<and> versions c' = {#run_record#}"
  using cache_refines_lossy_map [OF tables.cache_libraries_axioms run_reach, of 7]
  by (auto simp: run_versions run_record_def split: option.splits)


theorem pinned_version_stays_witness: "\<exists>c'. cache_resize list_lib 0 run_full = Some c' \<and> run_record \<in># versions c'"
proof -
  have "store_ok set set (cb_hash run_callbacks) run_full" using tables.reach_run [OF run_reach] by (simp add: run_ok_def)
  then obtain c' where c': "cache_resize list_lib 0 run_full = Some c'" using tables.resize_ok by metis
  have "en_record run_entry \<in># versions c'"
    by (rule pinned_version_stays [OF tables.cache_libraries_axioms run_reach _ _ _ step_resize [OF c']])
      (simp_all add: run_versions run_release run_entry_def)
  then show ?thesis using c' by (simp add: run_entry_def)
qed

theorem resident_weight_within_capacity_witness: "\<exists>e c'. insert_with list_lib run_callbacks 7 70 () Normal (run_cache Sieve) = Some (e, c') \<and> wsum (versions c') \<le> mc_capacity c'"
proof -
  have r: "mem_reach list_lib run_callbacks (run_builder Sieve) (run_cache Sieve) {#} Map.empty" by (rule reach_build, rule run_built) simp
  then have "store_ok set set (cb_hash run_callbacks) (run_cache Sieve)" using tables.reach_run by (metis run_ok_def)
  then obtain e c' removed where i: "insert_with list_lib run_callbacks 7 70 () Normal (run_cache Sieve) = Some (e, c')" "inserted (run_cache Sieve) (en_record e) removed c'"
    using tables.insert_ok by (metis mem_entry.select_convs(1))
  have "\<not> mc_release c'" using i(2) by (simp add: inserted_def run_cache_def is_lru_def)
  then have "wsum (versions c') \<le> mc_capacity c'" by (rule resident_weight_within_capacity [OF tables.cache_libraries_axioms reach_step [OF r step_insert [OF i(1)]]])
  then show ?thesis using i(1) by blast
qed

theorem cache_books_balance_witness:
  "cl_resident (mc_cells run_full) 0 \<and> \<not> cl_resident (mc_cells run_full) 1
    \<and> ss_entries (cache_statistics run_full) = 1 \<and> ss_resident_weight (cache_statistics run_full) = 1"
  using cache_books_balance [OF tables.cache_libraries_axioms run_reach] by (simp add: run_versions run_record_def)

end
