(* ===== verification/Store_Budget.thy ===== *)
theory Store_Budget
  imports Prelude "HOL-Library.Multiset"
begin

text \<open>
  Admission budgets of the chunk store (\<^verbatim>\<open>moat-cache-store/src/budget.rs\<close>).

  Every limit is one atomic counter and every operation a sequence of atomic updates of several counters, so
  operations of different threads interleave between the updates. An operation is therefore a \<open>script\<close>: the
  tree of its atomic updates, branching on the answer of each \<open>reserve\<close>. \<open>script_step\<close> performs one update,
  \<open>script_run\<close> a whole operation without interference, and \<open>budget_step\<close> interleaves the scripts of any number
  of threads over permits and retentions they own.

  \<open>in_flight\<close> is the credit a script still owes when every further reservation fails. The main theorem says
  that at every moment every counter is exactly the credit of the outstanding permits, retentions and scripts,
  within its limit, and that no update underflows or fails its assertion.
\<close>

section \<open>Counters\<close>

text \<open>\<open>limit - used\<close> is an unsigned subtraction: a counter above its limit would underflow.\<close>

definition used_reserve :: "nat \<Rightarrow> nat \<Rightarrow> nat \<Rightarrow> ('e, bool \<times> nat) res" where
  "used_reserve used amount limit =
     (if amount = 0 then Ok (True, used)
      else if used > limit then Panic
      else if amount \<le> limit - used then Ok (True, used + amount) else Ok (False, used))"

definition used_release :: "nat \<Rightarrow> nat \<Rightarrow> ('e, nat) res" where
  "used_release used amount =
     (if amount \<noteq> 0 then (if used \<ge> amount then Ok (used - amount) else Panic) else Ok used)"

record budget_shared =
  bs_used_requests :: nat
  bs_used_bytes :: nat
  bs_used_reads :: "nat list"
  bs_requests :: nat
  bs_bytes :: nat
  bs_read_bytes :: nat
  bs_retained_bytes :: nat
  bs_retained_reads :: "nat list"
  bs_retention_bytes :: nat
  bs_retention_read_bytes :: nat

definition budget_new :: "nat \<Rightarrow> nat \<Rightarrow> nat \<Rightarrow> nat \<Rightarrow> nat \<Rightarrow> budget_shared" where
  "budget_new requests bytes read_bytes disks read_class =
     \<lparr> bs_used_requests = 0, bs_used_bytes = 0, bs_used_reads = replicate disks 0,
       bs_requests = requests, bs_bytes = bytes, bs_read_bytes = read_bytes,
       bs_retained_bytes = 0, bs_retained_reads = replicate disks 0,
       bs_retention_bytes = bytes - read_class, bs_retention_read_bytes = read_bytes - read_class \<rparr>"

text \<open>The counters by name; \<open>None\<close> is an index past the disks.\<close>

datatype counter = Requests | Payload | Reads nat | Retained | RetainedReads nat

fun used_of :: "budget_shared \<Rightarrow> counter \<Rightarrow> nat option" where
  "used_of s Requests = Some (bs_used_requests s)"
| "used_of s Payload = Some (bs_used_bytes s)"
| "used_of s (Reads d) = (if d < length (bs_used_reads s) then Some (bs_used_reads s ! d) else None)"
| "used_of s Retained = Some (bs_retained_bytes s)"
| "used_of s (RetainedReads d) = (if d < length (bs_retained_reads s) then Some (bs_retained_reads s ! d) else None)"

fun with_used :: "budget_shared \<Rightarrow> counter \<Rightarrow> nat \<Rightarrow> budget_shared" where
  "with_used s Requests n = s \<lparr> bs_used_requests := n \<rparr>"
| "with_used s Payload n = s \<lparr> bs_used_bytes := n \<rparr>"
| "with_used s (Reads d) n = s \<lparr> bs_used_reads := (bs_used_reads s)[d := n] \<rparr>"
| "with_used s Retained n = s \<lparr> bs_retained_bytes := n \<rparr>"
| "with_used s (RetainedReads d) n = s \<lparr> bs_retained_reads := (bs_retained_reads s)[d := n] \<rparr>"

fun limit_of :: "budget_shared \<Rightarrow> counter \<Rightarrow> nat" where
  "limit_of s Requests = bs_requests s"
| "limit_of s Payload = bs_bytes s"
| "limit_of s (Reads d) = bs_read_bytes s"
| "limit_of s Retained = bs_retention_bytes s"
| "limit_of s (RetainedReads d) = bs_retention_read_bytes s"

record budget_state =
  st_requests :: nat
  st_bytes :: nat
  st_reads :: "nat list"

definition budget_snapshot :: "budget_shared \<Rightarrow> budget_state" where
  "budget_snapshot s = \<lparr> st_requests = bs_used_requests s, st_bytes = bs_used_bytes s, st_reads = bs_used_reads s \<rparr>"

section \<open>Scripts\<close>

datatype 'a script = Return 'a | Reserve counter nat "bool \<Rightarrow> 'a script" | Release counter nat "'a script" | Abort

fun script_step :: "'a script \<Rightarrow> budget_shared \<Rightarrow> ('e, 'a script \<times> budget_shared) res" where
  "script_step (Return a) s = Ok (Return a, s)"
| "script_step (Reserve c n k) s =
     rbind (expect (used_of s c)) (\<lambda>used.
     rbind (used_reserve used n (limit_of s c)) (\<lambda>(ok, used). Ok (k ok, with_used s c used)))"
| "script_step (Release c n k) s =
     rbind (expect (used_of s c)) (\<lambda>used.
     rbind (used_release used n) (\<lambda>used. Ok (k, with_used s c used)))"
| "script_step Abort s = Panic"

primrec script_run :: "'a script \<Rightarrow> budget_shared \<Rightarrow> ('e, 'a \<times> budget_shared) res" where
  "script_run (Return a) = (\<lambda>s. Ok (a, s))"
| "script_run (Reserve c n k) = (\<lambda>s.
     rbind (expect (used_of s c)) (\<lambda>used.
     rbind (used_reserve used n (limit_of s c)) (\<lambda>(ok, used). script_run (k ok) (with_used s c used))))"
| "script_run (Release c n k) = (\<lambda>s.
     rbind (expect (used_of s c)) (\<lambda>used.
     rbind (used_release used n) (\<lambda>used. script_run k (with_used s c used))))"
| "script_run Abort = (\<lambda>s. Panic)"

section \<open>Operations\<close>

record permit =
  pm_bytes :: nat
  pm_disk :: "nat option"
  pm_request :: bool

record retention =
  rt_bytes :: nat
  rt_disk :: nat

text \<open>\<open>None\<close> is \<open>Error::Busy\<close>; \<open>owners\<close> is the number of per-disk owners, which the permit indexes.\<close>

definition budget_reserve :: "nat \<Rightarrow> nat \<Rightarrow> nat option \<Rightarrow> permit option script" where
  "budget_reserve owners bytes disk =
     Reserve Requests 1 (\<lambda>ok. if \<not> ok then Return None else
     Reserve Payload bytes (\<lambda>ok. if \<not> ok then Release Requests 1 (Return None) else
     let issue = (if (case disk of None \<Rightarrow> 0 | Some d \<Rightarrow> d) < owners
                  then Return (Some \<lparr> pm_bytes = bytes, pm_disk = disk, pm_request = True \<rparr>) else Abort) in
     case disk of
       None \<Rightarrow> issue
     | Some d \<Rightarrow> Reserve (Reads d) bytes (\<lambda>ok. if \<not> ok then Release Payload bytes (Release Requests 1 (Return None)) else issue)))"

definition permit_retain :: "permit \<Rightarrow> retention option script" where
  "permit_retain p =
     (case pm_disk p of
        None \<Rightarrow> Return None
      | Some disk \<Rightarrow>
          Reserve Retained (pm_bytes p) (\<lambda>ok. if \<not> ok then Return None else
          Reserve (RetainedReads disk) (pm_bytes p) (\<lambda>ok.
            if \<not> ok then Release Retained (pm_bytes p) (Return None)
            else Return (Some \<lparr> rt_bytes = pm_bytes p, rt_disk = disk \<rparr>))))"

definition permit_grow :: "permit \<Rightarrow> nat \<Rightarrow> (bool \<times> permit) script" where
  "permit_grow p bytes =
     (if bytes \<le> pm_bytes p then Return (True, p) else
      let delta = bytes - pm_bytes p; grown = Return (True, p \<lparr> pm_bytes := bytes \<rparr>) in
      Reserve Payload delta (\<lambda>ok. if \<not> ok then Return (False, p) else
      case pm_disk p of
        None \<Rightarrow> grown
      | Some disk \<Rightarrow> Reserve (Reads disk) delta (\<lambda>ok. if \<not> ok then Release Payload delta (Return (False, p)) else grown)))"

definition permit_resize :: "permit \<Rightarrow> nat \<Rightarrow> (permit \<Rightarrow> 'a script) \<Rightarrow> 'a script" where
  "permit_resize p bytes k =
     (if \<not> bytes \<le> pm_bytes p then Abort else
      let delta = pm_bytes p - bytes; rest = Release Payload delta (k (p \<lparr> pm_bytes := bytes \<rparr>)) in
      case pm_disk p of None \<Rightarrow> rest | Some disk \<Rightarrow> Release (Reads disk) delta rest)"

definition finish_request :: "permit \<Rightarrow> (permit \<Rightarrow> 'a script) \<Rightarrow> 'a script" where
  "finish_request p k = (if pm_request p then Release Requests 1 (k (p \<lparr> pm_request := False \<rparr>)) else k p)"

definition permit_drop :: "permit \<Rightarrow> unit script" where
  "permit_drop p = permit_resize p 0 (\<lambda>p. finish_request p (\<lambda>_. Return ()))"

definition retention_drop :: "retention \<Rightarrow> unit script" where
  "retention_drop r = Release (RetainedReads (rt_disk r)) (rt_bytes r) (Release Retained (rt_bytes r) (Return ()))"

section \<open>Interleaved runs\<close>

datatype credit = Permit permit | Retention retention

type_synonym budget_run = "budget_shared \<times> credit multiset \<times> credit list script multiset"

inductive budget_step :: "budget_run \<Rightarrow> budget_run \<Rightarrow> bool" where
  step_reserve: "(case disk of None \<Rightarrow> 0 | Some d \<Rightarrow> d) < length (bs_used_reads s) \<Longrightarrow>
     budget_step (s, H, T) (s, H, add_mset (map_script (\<lambda>r. map Permit (case r of None \<Rightarrow> [] | Some p \<Rightarrow> [p]))
       (budget_reserve (length (bs_used_reads s)) bytes disk)) T)"
| step_retain: "Permit p \<in># H \<Longrightarrow>
     budget_step (s, H, T) (s, H, add_mset (map_script (\<lambda>r. map Retention (case r of None \<Rightarrow> [] | Some r \<Rightarrow> [r])) (permit_retain p)) T)"
| step_grow: "budget_step (s, add_mset (Permit p) H, T) (s, H, add_mset (map_script (\<lambda>(_, p). [Permit p]) (permit_grow p bytes)) T)"
| step_resize: "bytes \<le> pm_bytes p \<Longrightarrow>
     budget_step (s, add_mset (Permit p) H, T) (s, H, add_mset (permit_resize p bytes (\<lambda>p. Return [Permit p])) T)"
| step_finish_request: "budget_step (s, add_mset (Permit p) H, T) (s, H, add_mset (finish_request p (\<lambda>p. Return [Permit p])) T)"
| step_drop: "budget_step (s, add_mset (Permit p) H, T) (s, H, add_mset (map_script (\<lambda>_. []) (permit_drop p)) T)"
| step_drop_retention: "budget_step (s, add_mset (Retention r) H, T) (s, H, add_mset (map_script (\<lambda>_. []) (retention_drop r)) T)"
| step_update: "script_step t s = (Ok (t', s') :: (unit, _) res) \<Longrightarrow> budget_step (s, H, add_mset t T) (s', H, add_mset t' T)"
| step_return: "budget_step (s, H, add_mset (Return out) T) (s, H + mset out, T)"

inductive budget_reach :: "budget_shared \<Rightarrow> budget_run \<Rightarrow> bool" for s where
  budget_opened: "budget_reach s (s, {#}, {#})"
| budget_moved: "budget_reach s r \<Longrightarrow> budget_step r r' \<Longrightarrow> budget_reach s r'"

section \<open>Credit\<close>

fun credit_of :: "credit \<Rightarrow> counter \<Rightarrow> nat" where
  "credit_of (Permit p) c =
     (case c of Requests \<Rightarrow> if pm_request p then 1 else 0 | Payload \<Rightarrow> pm_bytes p
      | Reads d \<Rightarrow> if pm_disk p = Some d then pm_bytes p else 0 | _ \<Rightarrow> 0)"
| "credit_of (Retention r) c =
     (case c of Retained \<Rightarrow> rt_bytes r | RetainedReads d \<Rightarrow> if rt_disk r = d then rt_bytes r else 0 | _ \<Rightarrow> 0)"

fun credit_disk :: "credit \<Rightarrow> nat option" where
  "credit_disk (Permit p) = pm_disk p"
| "credit_disk (Retention r) = Some (rt_disk r)"

primrec in_flight :: "credit list script \<Rightarrow> counter \<Rightarrow> nat" where
  "in_flight (Return out) = (\<lambda>c. \<Sum>x \<leftarrow> out. credit_of x c)"
| "in_flight (Reserve a n k) = in_flight (k False)"
| "in_flight (Release a n k) = (\<lambda>c. in_flight k c + (if c = a then n else 0))"
| "in_flight Abort = (\<lambda>c. 0)"

text \<open>Both answers of a reservation lead to scripts whose credit differs by exactly the reserved amount; every
  counter and every credit belongs to one of the disks; no assertion fails.\<close>

primrec balanced :: "nat \<Rightarrow> credit list script \<Rightarrow> bool" where
  "balanced disks (Return out) \<longleftrightarrow> (\<forall>x \<in> set out. \<forall>d. credit_disk x = Some d \<longrightarrow> d < disks)"
| "balanced disks (Reserve a n k) \<longleftrightarrow> balanced disks (k True) \<and> balanced disks (k False)
     \<and> (\<forall>d. a = Reads d \<or> a = RetainedReads d \<longrightarrow> d < disks)
     \<and> (\<forall>c. in_flight (k True) c = in_flight (k False) c + (if c = a then n else 0))"
| "balanced disks (Release a n k) \<longleftrightarrow> balanced disks k \<and> (\<forall>d. a = Reads d \<or> a = RetainedReads d \<longrightarrow> d < disks)"
| "balanced disks Abort \<longleftrightarrow> False"

definition outstanding :: "credit multiset \<Rightarrow> credit list script multiset \<Rightarrow> counter \<Rightarrow> nat" where
  "outstanding H T c = (\<Sum>x \<in># H. credit_of x c) + (\<Sum>t \<in># T. in_flight t c)"

definition budget_ok :: "budget_shared \<Rightarrow> budget_run \<Rightarrow> bool" where
  "budget_ok s0 = (\<lambda>(s, H, T).
     length (bs_used_reads s) = length (bs_used_reads s0) \<and> length (bs_retained_reads s) = length (bs_used_reads s0)
     \<and> (\<forall>c. limit_of s c = limit_of s0 c)
     \<and> (\<forall>c n. used_of s c = Some n \<longrightarrow> n = outstanding H T c \<and> n \<le> limit_of s c)
     \<and> (\<forall>x \<in># H. \<forall>d. credit_disk x = Some d \<longrightarrow> d < length (bs_used_reads s0))
     \<and> (\<forall>t \<in># T. balanced (length (bs_used_reads s0)) t))"

lemma balanced_reserve:
  assumes "(case disk of None \<Rightarrow> 0 | Some d \<Rightarrow> d) < disks"
  shows "balanced disks (map_script (\<lambda>r. map Permit (case r of None \<Rightarrow> [] | Some p \<Rightarrow> [p])) (budget_reserve disks bytes disk))
    \<and> in_flight (map_script (\<lambda>r. map Permit (case r of None \<Rightarrow> [] | Some p \<Rightarrow> [p])) (budget_reserve disks bytes disk)) = (\<lambda>c. 0)"
  using assms by (cases disk) (auto simp: budget_reserve_def Let_def fun_eq_iff split: counter.splits)

lemma balanced_retain:
  assumes "\<And>d. pm_disk p = Some d \<Longrightarrow> d < disks"
  shows "balanced disks (map_script (\<lambda>r. map Retention (case r of None \<Rightarrow> [] | Some r \<Rightarrow> [r])) (permit_retain p))
    \<and> in_flight (map_script (\<lambda>r. map Retention (case r of None \<Rightarrow> [] | Some r \<Rightarrow> [r])) (permit_retain p)) = (\<lambda>c. 0)"
  using assms by (cases "pm_disk p") (auto simp: permit_retain_def fun_eq_iff split: counter.splits)

lemma balanced_grow:
  assumes "\<And>d. pm_disk p = Some d \<Longrightarrow> d < disks"
  shows "balanced disks (map_script (\<lambda>(_, p). [Permit p]) (permit_grow p bytes))
    \<and> in_flight (map_script (\<lambda>(_, p). [Permit p]) (permit_grow p bytes)) = credit_of (Permit p)"
  using assms by (cases "pm_disk p") (auto simp: permit_grow_def Let_def fun_eq_iff split: counter.splits)

lemma balanced_resize:
  assumes "\<And>d. pm_disk p = Some d \<Longrightarrow> d < disks" and "bytes \<le> pm_bytes p" and "balanced disks (k (p \<lparr> pm_bytes := bytes \<rparr>))"
  shows "balanced disks (permit_resize p bytes k)"
    and "in_flight (k (p \<lparr> pm_bytes := bytes \<rparr>)) = credit_of (Permit (p \<lparr> pm_bytes := bytes \<rparr>)) \<Longrightarrow> in_flight (permit_resize p bytes k) = credit_of (Permit p)"
  using assms by (cases "pm_disk p"; auto simp: permit_resize_def Let_def fun_eq_iff split: counter.splits)+

lemma balanced_finish:
  assumes "balanced disks (k (p \<lparr> pm_request := False \<rparr>))"
    and "in_flight (k (p \<lparr> pm_request := False \<rparr>)) = credit_of (Permit (p \<lparr> pm_request := False \<rparr>))"
  shows "balanced disks (finish_request p k)" and "in_flight (finish_request p k) = credit_of (Permit p)"
  using assms by (cases p; auto simp: finish_request_def fun_eq_iff split: counter.splits)+

lemma balanced_drop:
  assumes "\<And>d. pm_disk p = Some d \<Longrightarrow> d < disks"
  shows "balanced disks (map_script (\<lambda>_. []) (permit_drop p))" and "in_flight (map_script (\<lambda>_. []) (permit_drop p)) = credit_of (Permit p)"
  using assms by (cases "pm_disk p"; auto simp: permit_drop_def permit_resize_def finish_request_def Let_def fun_eq_iff split: counter.splits)+

lemma balanced_drop_retention:
  assumes "rt_disk r < disks"
  shows "balanced disks (map_script (\<lambda>_. []) (retention_drop r))" and "in_flight (map_script (\<lambda>_. []) (retention_drop r)) = credit_of (Retention r)"
  using assms by (auto simp: retention_drop_def fun_eq_iff split: counter.splits)

section \<open>Updates\<close>

lemma used_of_with_used:
  "used_of s c = Some u \<Longrightarrow> used_of (with_used s c n) c' = (if c' = c then Some n else used_of s c')"
  by (cases c; cases c') (auto split: if_splits)

lemma with_used_fixed [simp]:
  "limit_of (with_used s c n) c' = limit_of s c'" "length (bs_used_reads (with_used s c n)) = length (bs_used_reads s)"
  "length (bs_retained_reads (with_used s c n)) = length (bs_retained_reads s)"
  by (cases c; cases c'; simp)+

lemma used_of_in_range:
  assumes "length (bs_used_reads s) = disks" "length (bs_retained_reads s) = disks" "\<And>d. c = Reads d \<or> c = RetainedReads d \<Longrightarrow> d < disks"
  shows "\<exists>n. used_of s c = Some n"
  using assms by (cases c) auto

lemma outstanding_add [simp]:
  "outstanding (add_mset x H) T c = credit_of x c + outstanding H T c" "outstanding H (add_mset t T) c = in_flight t c + outstanding H T c"
  "outstanding (H + H') T c = (\<Sum>x \<in># H'. credit_of x c) + outstanding H T c"
  by (simp_all add: outstanding_def)

lemma update_ok:
  assumes ok: "budget_ok s0 (s, H, add_mset t T)"
  shows "\<exists>t' s'. script_step t s = Ok (t', s') \<and> budget_ok s0 (s', H, add_mset t' T)"
proof (cases t)
  case (Return a)
  then show ?thesis using ok by simp
next
  case (Reserve c n k)
  have "\<exists>u. used_of s c = Some u"
    by (rule used_of_in_range [of s "length (bs_used_reads s0)"]) (use ok Reserve in \<open>auto simp: budget_ok_def\<close>)
  then obtain u where u: "used_of s c = Some u" by blast
  have inv: "u = in_flight (k False) c + outstanding H T c" "u \<le> limit_of s c"
    using ok u Reserve by (auto simp: budget_ok_def)
  have rest: "in_flight (k True) c' = in_flight (k False) c' + (if c' = c then n else 0)" for c' using ok Reserve by (simp add: budget_ok_def)
  show ?thesis
  proof (cases "n = 0 \<or> n \<le> limit_of s c - u")
    case True
    have "budget_ok s0 (with_used s c (u + n), H, add_mset (k True) T)"
      using ok inv True Reserve rest u by (auto simp: budget_ok_def used_of_with_used split: if_splits)
    then show ?thesis using Reserve u True inv(2) by (auto simp: used_reserve_def)
  next
    case False
    have "budget_ok s0 (with_used s c u, H, add_mset (k False) T)"
      using ok inv Reserve u by (auto simp: budget_ok_def used_of_with_used split: if_splits)
    then show ?thesis using Reserve u False inv(2) by (auto simp: used_reserve_def)
  qed
next
  case (Release c n k)
  have "\<exists>u. used_of s c = Some u"
    by (rule used_of_in_range [of s "length (bs_used_reads s0)"]) (use ok Release in \<open>auto simp: budget_ok_def\<close>)
  then obtain u where u: "used_of s c = Some u" by blast
  have "u = outstanding H (add_mset t T) c \<and> u \<le> limit_of s c" using ok u by (auto simp only: budget_ok_def prod.case)
  then have inv: "u = in_flight k c + n + outstanding H T c" "u \<le> limit_of s c" using Release by simp_all
  have "budget_ok s0 (with_used s c (u - n), H, add_mset k T)"
    using ok inv Release u by (auto simp: budget_ok_def used_of_with_used split: if_splits)
  then show ?thesis using Release u inv(1) by (auto simp: used_release_def)
next
  case Abort
  then show ?thesis using ok by (simp add: budget_ok_def)
qed

text \<open>Without interference a reservation succeeds exactly when all three limits admit it, and a refused one leaves
  the counters as they were.\<close>

lemma reserve_alone:
  assumes "bs_used_requests s \<le> bs_requests s" and "bs_used_bytes s \<le> bs_bytes s"
    and "d < length (bs_used_reads s)" and "bs_used_reads s ! d \<le> bs_read_bytes s"
  shows "script_run (budget_reserve (length (bs_used_reads s)) bytes (Some d)) s =
    Ok (if bs_used_requests s < bs_requests s \<and> bytes \<le> bs_bytes s - bs_used_bytes s \<and> bytes \<le> bs_read_bytes s - bs_used_reads s ! d
        then (Some \<lparr> pm_bytes = bytes, pm_disk = Some d, pm_request = True \<rparr>,
              s \<lparr> bs_used_requests := bs_used_requests s + 1, bs_used_bytes := bs_used_bytes s + bytes,
                  bs_used_reads := (bs_used_reads s)[d := bs_used_reads s ! d + bytes] \<rparr>)
        else (None, s))"
  using assms by (cases s) (auto simp: budget_reserve_def Let_def used_reserve_def used_release_def)

lemma launch_ok:
  assumes "budget_ok s0 (s, H, T)" and "balanced (length (bs_used_reads s0)) t" and "in_flight t = (\<lambda>c. 0)"
  shows "budget_ok s0 (s, H, add_mset t T)"
  using assms by (auto simp: budget_ok_def)

lemma spend_ok:
  assumes "budget_ok s0 (s, add_mset x H, T)" and "balanced (length (bs_used_reads s0)) t" and "in_flight t = credit_of x"
  shows "budget_ok s0 (s, H, add_mset t T)"
  using assms by (auto simp: budget_ok_def)

lemma return_ok: "budget_ok s0 (s, H, add_mset (Return out) T) \<Longrightarrow> budget_ok s0 (s, H + mset out, T)"
  by (auto simp: budget_ok_def sum_mset_sum_list simp flip: mset_map)

lemma budget_step_ok:
  assumes "budget_step r r'" and "budget_ok s0 r"
  shows "budget_ok s0 r'"
  using assms
proof cases
  case (step_reserve disk s H T bytes)
  then have "length (bs_used_reads s) = length (bs_used_reads s0)" using assms(2) by (simp add: budget_ok_def)
  then show ?thesis using assms(2) step_reserve balanced_reserve [OF step_reserve(3), of bytes] by (auto intro: launch_ok)
next
  case (step_retain p H s T)
  then have "\<And>d. pm_disk p = Some d \<Longrightarrow> d < length (bs_used_reads s0)" using assms(2) by (fastforce simp: budget_ok_def)
  from balanced_retain [OF this] show ?thesis using assms(2) step_retain by (auto intro: launch_ok)
next
  case (step_grow s p H T bytes)
  then have "\<And>d. pm_disk p = Some d \<Longrightarrow> d < length (bs_used_reads s0)" using assms(2) by (simp add: budget_ok_def)
  from balanced_grow [OF this] show ?thesis using assms(2) step_grow by (auto intro: spend_ok)
next
  case (step_resize bytes p s H T)
  then have d: "\<And>d. pm_disk p = Some d \<Longrightarrow> d < length (bs_used_reads s0)" using assms(2) by (simp add: budget_ok_def)
  show ?thesis unfolding step_resize(2)
    by (rule spend_ok [OF assms(2) [unfolded step_resize(1)]]; rule balanced_resize) (use d step_resize(3) in auto)
next
  case (step_finish_request s p H T)
  then have d: "\<And>d. pm_disk p = Some d \<Longrightarrow> d < length (bs_used_reads s0)" using assms(2) by (simp add: budget_ok_def)
  show ?thesis unfolding step_finish_request(2)
    by (rule spend_ok [OF assms(2) [unfolded step_finish_request(1)]]; rule balanced_finish) (use d in auto)
next
  case (step_drop s p H T)
  then have "\<And>d. pm_disk p = Some d \<Longrightarrow> d < length (bs_used_reads s0)" using assms(2) by (simp add: budget_ok_def)
  then show ?thesis unfolding step_drop(2) by (intro spend_ok [OF assms(2) [unfolded step_drop(1)]] balanced_drop)
next
  case (step_drop_retention s r H T)
  then have "rt_disk r < length (bs_used_reads s0)" using assms(2) by (simp add: budget_ok_def)
  then show ?thesis unfolding step_drop_retention(2)
    by (intro spend_ok [OF assms(2) [unfolded step_drop_retention(1)]] balanced_drop_retention)
next
  case (step_update t s t' s' H T)
  obtain u v where "script_step t s = (Ok (u, v) :: (unit, _) res)" "budget_ok s0 (v, H, add_mset u T)"
    using update_ok [OF assms(2) [unfolded step_update(1)]] by blast
  then show ?thesis using step_update by simp
next
  case (step_return s H out T)
  then show ?thesis using return_ok assms(2) by blast
qed

lemma budget_new_ok: "budget_ok (budget_new requests bytes read_bytes disks read_class) (budget_new requests bytes read_bytes disks read_class, {#}, {#})"
  by (auto simp: budget_ok_def budget_new_def outstanding_def elim!: used_of.elims split: if_splits)

lemma budget_reach_ok: "budget_reach (budget_new requests bytes read_bytes disks read_class) r \<Longrightarrow> budget_ok (budget_new requests bytes read_bytes disks read_class) r"
  by (induction rule: budget_reach.induct) (auto intro: budget_new_ok budget_step_ok)

lemma shared_eqI:
  assumes "\<And>c. used_of s c = used_of s' c" and "\<And>c. limit_of s c = limit_of s' c"
    and "length (bs_used_reads s) = length (bs_used_reads s')" "length (bs_retained_reads s) = length (bs_retained_reads s')"
  shows "s = (s' :: budget_shared)"
proof -
  have "bs_used_reads s ! i = bs_used_reads s' ! i" if "i < length (bs_used_reads s)" for i using assms(1) [of "Reads i"] assms(3) that by simp
  moreover have "bs_retained_reads s ! i = bs_retained_reads s' ! i" if "i < length (bs_retained_reads s)" for i
    using assms(1) [of "RetainedReads i"] assms(4) that by simp
  ultimately have "bs_used_reads s = bs_used_reads s'" "bs_retained_reads s = bs_retained_reads s'"
    using assms(3,4) by (simp_all add: nth_equalityI)
  then show ?thesis
    using assms(1) [of Requests] assms(1) [of Payload] assms(1) [of Retained] assms(2) [of Requests] assms(2) [of Payload]
      assms(2) [of "Reads 0"] assms(2) [of Retained] assms(2) [of "RetainedReads 0"]
    by simp
qed

text \<open>C9: admission budgets: however the atomic updates of reservations, growths, shrinks, retentions and drops of any number of
  threads interleave, every counter is exactly the credit of the outstanding permits, retentions and unfinished
  operations and within its limit; no update underflows, indexes past the disks or fails its assertion; and once
  everything is returned the counters are those of a new budget.\<close>

theorem budget_credits:
  assumes reach: "budget_reach (budget_new requests bytes read_bytes disks read_class) (s, H, T)"
  shows "(\<forall>c n. used_of s c = Some n \<longrightarrow> n = outstanding H T c \<and> n \<le> limit_of s c)
    \<and> (\<forall>t \<in># T. script_step t s \<noteq> (Panic :: (unit, _) res))
    \<and> (H = {#} \<and> T = {#} \<longrightarrow> s = budget_new requests bytes read_bytes disks read_class)"
proof (intro conjI)
  let ?s0 = "budget_new requests bytes read_bytes disks read_class"
  have ok: "budget_ok ?s0 (s, H, T)" by (rule budget_reach_ok [OF reach])
  show used: "\<forall>c n. used_of s c = Some n \<longrightarrow> n = outstanding H T c \<and> n \<le> limit_of s c" using ok unfolding budget_ok_def prod.case by blast
  show "\<forall>t \<in># T. script_step t s \<noteq> (Panic :: (unit, _) res)"
  proof
    fix t assume "t \<in># T"
    then obtain T' where "T = add_mset t T'" by (metis mset_add)
    then obtain t' s' where "script_step t s = (Ok (t', s') :: (unit, _) res)" using update_ok [of ?s0 s H t T'] ok by blast
    then show "script_step t s \<noteq> (Panic :: (unit, _) res)" by simp
  qed
  show "H = {#} \<and> T = {#} \<longrightarrow> s = ?s0"
  proof (intro impI shared_eqI)
    fix c assume empty: "H = {#} \<and> T = {#}"
    have zero: "used_of x c = Some 0" if "budget_ok ?s0 (x, {#}, {#})" "used_of x c \<noteq> None" for x
      using that by (auto simp: budget_ok_def outstanding_def)
    show "used_of s c = used_of ?s0 c"
    proof (cases "used_of ?s0 c = None")
      case True
      then show ?thesis using ok by (cases c) (auto simp: budget_ok_def budget_new_def split: if_splits)
    next
      case False
      then have "used_of s c \<noteq> None" using ok by (cases c) (auto simp: budget_ok_def budget_new_def split: if_splits)
      then show ?thesis using zero [OF budget_new_ok False] zero ok empty by simp
    qed
  qed (use ok in \<open>auto simp: budget_ok_def budget_new_def\<close>)
qed

text \<open>Two threads reserve the last read bytes of a disk; the second finds the disk full, with the request and
  the bytes it took first still to be given back.\<close>

fun script_drive :: "nat \<Rightarrow> 'a script \<Rightarrow> budget_shared \<Rightarrow> (unit, 'a script \<times> budget_shared) res" where
  "script_drive 0 t s = Ok (t, s)"
| "script_drive (Suc n) t s = rbind (script_step t s) (\<lambda>(t, s). script_drive n t s)"

lemma budget_driven:
  "budget_reach s0 (s, H, add_mset t T) \<Longrightarrow> script_drive n t s = Ok (t', s') \<Longrightarrow> budget_reach s0 (s', H, add_mset t' T)"
proof (induction n arbitrary: t s)
  case (Suc n)
  then obtain u v where "script_step t s = (Ok (u, v) :: (unit, _) res)" "script_drive n u v = Ok (t', s')" by (auto simp: rbind_Ok_iff)
  then show ?case using Suc.IH [OF budget_moved [OF Suc.prems(1) step_update]] by blast
qed simp

theorem budget_credits_witness:
  "\<exists>s H T. budget_reach (budget_new 4 64 16 2 16) (s, H, T) \<and> H = {#Permit \<lparr> pm_bytes = 16, pm_disk = Some 0, pm_request = True \<rparr>#}
    \<and> T = {#Release Payload 8 (Release Requests 1 (Return []))#} \<and> used_of s Requests = Some 2 \<and> used_of s Payload = Some (outstanding H T Payload)"
proof -
  let ?s0 = "budget_new 4 64 16 2 16" and ?issued = "\<lambda>r. map Permit (case r of None \<Rightarrow> [] | Some p \<Rightarrow> [p])"
  let ?p = "Permit \<lparr> pm_bytes = 16, pm_disk = Some 0, pm_request = True \<rparr>" and ?t = "Release Payload 8 (Release Requests 1 (Return []))"
  let ?s1 = "?s0 \<lparr> bs_used_requests := 1, bs_used_bytes := 16, bs_used_reads := [16, 0] \<rparr>"
  let ?s2 = "?s1 \<lparr> bs_used_requests := 2, bs_used_bytes := 24 \<rparr>"
  have "budget_reach ?s0 (?s0, {#}, {#map_script ?issued (budget_reserve 2 16 (Some 0))#})"
    using budget_moved [OF budget_opened step_reserve [of "Some 0" ?s0 "{#}" "{#}" 16]] by (simp add: budget_new_def)
  moreover have "script_drive 3 (map_script ?issued (budget_reserve 2 16 (Some 0))) ?s0 = Ok (Return [?p], ?s1)"
    by (simp add: budget_reserve_def budget_new_def used_reserve_def numeral_3_eq_3 numeral_2_eq_2)
  ultimately have "budget_reach ?s0 (?s1, {#}, {#Return [?p]#})" by (rule budget_driven)
  then have "budget_reach ?s0 (?s1, {#?p#}, {#})" using budget_moved [OF _ step_return [of ?s1 "{#}" "[?p]" "{#}"]] by simp
  then have "budget_reach ?s0 (?s1, {#?p#}, {#map_script ?issued (budget_reserve 2 8 (Some 0))#})"
    using budget_moved [OF _ step_reserve [of "Some 0" ?s1 "{#?p#}" "{#}" 8]] by (simp add: numeral_2_eq_2)
  moreover have "script_drive 3 (map_script ?issued (budget_reserve 2 8 (Some 0))) ?s1 = Ok (?t, ?s2)"
    by (simp add: budget_reserve_def budget_new_def used_reserve_def numeral_3_eq_3 numeral_2_eq_2)
  ultimately have r: "budget_reach ?s0 (?s2, {#?p#}, {#?t#})" by (rule budget_driven)
  have u: "used_of ?s2 Payload = Some 24" by simp
  have "24 = outstanding {#?p#} {#?t#} Payload" by (rule budget_credits [OF r, THEN conjunct1, rule_format, OF u, THEN conjunct1])
  then have "used_of ?s2 Payload = Some (outstanding {#?p#} {#?t#} Payload)" using u by argo
  then show ?thesis using r by (intro exI [of _ ?s2] exI [of _ "{#?p#}"] exI [of _ "{#?t#}"]) simp
qed

end
