(* ===== verification/Cache_Envelope.thy ===== *)
theory Cache_Envelope
  imports Codec Mem_Policy
begin

text \<open>
  Shared byte views and the record envelope of the hybrid cache (\<^verbatim>\<open>moat-cache/src/bytes.rs\<close>,
  \<^verbatim>\<open>moat-cache/src/envelope.rs\<close>, \<^verbatim>\<open>moat-cache/src/error.rs\<close>).

  A view is a range of a backing allocation; the allocation is its bytes with an identity, which is what
  \<open>Arc::ptr_eq\<close> compares. \<open>envelope_encode\<close> and \<open>envelope_decode\<close> are the source's functions with every
  slice access, its panic and every overflow check. \<open>envelope_image\<close> is the layout as a specification: the
  decoder accepts exactly the images of records, and what it returns shares the buffer it was given.
\<close>

section \<open>Errors\<close>

text \<open>\<open>'s\<close> is the error type of the chunk store.\<close>

datatype 's cache_error = CE_Store 's | CE_Memory string | CE_Invalid string | CE_Corrupt string
  | CE_TooLarge nat nat | CE_Busy | CE_Closed | CE_NoSpace

section \<open>Byte views\<close>

datatype backing = Heap nat "byte list" | Disk nat "byte list"

fun backing_bytes :: "backing \<Rightarrow> byte list" where
  "backing_bytes (Heap _ bytes) = bytes"
| "backing_bytes (Disk _ chunk) = chunk"

record bytes_view =
  bv_backing :: backing
  bv_start :: nat
  bv_end :: nat

definition bytes_len :: "bytes_view \<Rightarrow> nat" where
  "bytes_len b = bv_end b - bv_start b"

definition bytes_deref :: "bytes_view \<Rightarrow> ('e, byte list) res" where
  "bytes_deref b = slice (backing_bytes (bv_backing b)) (bv_start b) (bv_end b)"

definition bytes_from_heap :: "nat \<Rightarrow> byte list \<Rightarrow> bytes_view" where
  "bytes_from_heap a bytes = \<lparr> bv_backing = Heap a bytes, bv_start = 0, bv_end = length bytes \<rparr>"

definition bytes_from_chunk :: "nat \<Rightarrow> byte list \<Rightarrow> bytes_view" where
  "bytes_from_chunk a chunk = \<lparr> bv_backing = Disk a chunk, bv_start = 0, bv_end = length chunk \<rparr>"

text \<open>\<open>len\<close> is the length of the dereferenced slice, hence the leading dereference.\<close>

definition bytes_slice :: "bytes_view \<Rightarrow> nat \<Rightarrow> nat \<Rightarrow> ('s cache_error, bytes_view) res" where
  "bytes_slice b lo hi =
     (if lo > hi then Err (CE_Invalid ''byte range out of bounds'') else
      rbind (bytes_deref b) (\<lambda>bytes.
      if hi > length bytes then Err (CE_Invalid ''byte range out of bounds'') else
      Ok \<lparr> bv_backing = bv_backing b, bv_start = bv_start b + lo, bv_end = bv_start b + hi \<rparr>))"

fun shares_backing :: "bytes_view \<Rightarrow> bytes_view \<Rightarrow> bool" where
  "shares_backing a b =
     (case (bv_backing a, bv_backing b) of
        (Heap x _, Heap y _) \<Rightarrow> x = y
      | (Disk x _, Disk y _) \<Rightarrow> x = y
      | _ \<Rightarrow> False)"

section \<open>The envelope\<close>

definition ENVELOPE_HEADER_LEN :: nat where "ENVELOPE_HEADER_LEN = 56"

text \<open>The bytes of \<open>MOATCAC2\<close>.\<close>

definition ENVELOPE_MAGIC :: "byte list" where
  "ENVELOPE_MAGIC = [0x4d, 0x4f, 0x41, 0x54, 0x43, 0x41, 0x43, 0x32]"

definition ENVELOPE_FORMAT :: u16 where "ENVELOPE_FORMAT = 2"

record envelope =
  ev_key :: bytes_view
  ev_properties :: bytes_view
  ev_value :: bytes_view
  ev_generation :: u64
  ev_priority :: priority

record envelope_format =
  ef_namespace :: "byte list"
  ef_identity_version :: u32

record envelope_record =
  er_key :: "byte list"
  er_value :: "byte list"
  er_properties :: "byte list"
  er_generation :: u64
  er_priority :: priority

definition set_generation :: "byte list \<Rightarrow> u64 \<Rightarrow> ('e, byte list) res" where
  "set_generation bytes generation = put bytes 32 40 (le_split 8 generation)"

definition checked_add :: "nat \<Rightarrow> nat \<Rightarrow> nat option" where
  "checked_add a b = (if a + b < 2 ^ 64 then Some (a + b) else None)"

definition usize_max :: nat where "usize_max = 2 ^ 64 - 1"

definition envelope_encode :: "envelope_format \<Rightarrow> envelope_record \<Rightarrow> nat \<Rightarrow> ('s cache_error, byte list) res" where
  "envelope_encode f r limit =
     rbind (of_option (CE_TooLarge usize_max limit)
       (Option.bind (checked_add ENVELOPE_HEADER_LEN (length (er_key r))) (\<lambda>n.
        Option.bind (checked_add n (length (er_properties r))) (\<lambda>n.
        checked_add n (length (er_value r)))))) (\<lambda>len.
     if len > limit then Err (CE_TooLarge len limit) else
     if length (er_key r) \<ge> 2 ^ 32 then Err (CE_TooLarge len limit) else
     if length (er_properties r) \<ge> 2 ^ 32 then Err (CE_TooLarge len limit) else
     let key_len = of_nat (length (er_key r)) :: u32;
         properties_len = of_nat (length (er_properties r)) :: u32;
         value_len = of_nat (length (er_value r)) :: u64;
         output = replicate ENVELOPE_HEADER_LEN 0 @ er_key r @ er_properties r @ er_value r in
     rbind (put output 0 8 ENVELOPE_MAGIC) (\<lambda>output.
     rbind (put output 8 10 (le_split 2 ENVELOPE_FORMAT)) (\<lambda>output.
     rbind (put output 10 12 (le_split 2 (if er_priority r = High then 1 else 0 :: u16))) (\<lambda>output.
     rbind (put output 12 16 (le_split 4 (ef_identity_version f))) (\<lambda>output.
     rbind (put output 16 32 (ef_namespace f)) (\<lambda>output.
     rbind (put output 32 40 (le_split 8 (er_generation r))) (\<lambda>output.
     rbind (put output 40 44 (le_split 4 key_len)) (\<lambda>output.
     rbind (put output 44 48 (le_split 4 properties_len)) (\<lambda>output.
     put output 48 56 (le_split 8 value_len))))))))))"

definition envelope_decode :: "envelope_format \<Rightarrow> bytes_view \<Rightarrow> ('s cache_error, envelope) res" where
  "envelope_decode f view =
     rbind (bytes_deref view) (\<lambda>bytes.
     if length bytes < ENVELOPE_HEADER_LEN \<or> take 8 bytes \<noteq> ENVELOPE_MAGIC
     then Err (CE_Corrupt ''invalid envelope header'') else
     rbind (slice bytes 8 10) (\<lambda>version.
     if le_join version \<noteq> ENVELOPE_FORMAT then Err (CE_Corrupt ''unsupported envelope version'') else
     rbind (u32_at bytes 12) (\<lambda>identity.
     rbind (slice bytes 16 32) (\<lambda>namespace.
     if identity \<noteq> ef_identity_version f \<or> namespace \<noteq> ef_namespace f
     then Err (CE_Corrupt ''cache namespace or identity version mismatch'') else
     rbind (slice bytes 10 12) (\<lambda>flags.
     rbind (if (le_join flags :: u16) = 0 then Ok Normal else if (le_join flags :: u16) = 1 then Ok High
            else Err (CE_Corrupt ''unknown envelope flags'')) (\<lambda>priority.
     rbind (u64_at bytes 32) (\<lambda>generation.
     rbind (u32_at bytes 40) (\<lambda>key_len.
     rbind (u32_at bytes 44) (\<lambda>properties_len.
     rbind (u64_at bytes 48) (\<lambda>value_len.
     rbind (of_option (CE_Corrupt ''key length overflow'') (checked_add ENVELOPE_HEADER_LEN (unat key_len))) (\<lambda>key_end.
     rbind (of_option (CE_Corrupt ''properties length overflow'') (checked_add key_end (unat properties_len))) (\<lambda>properties_end.
     rbind (of_option (CE_Corrupt ''entry length overflow'') (checked_add properties_end (unat value_len))) (\<lambda>value_end.
     if value_end \<noteq> length bytes then Err (CE_Corrupt ''envelope length mismatch'') else
     rbind (bytes_slice view ENVELOPE_HEADER_LEN key_end) (\<lambda>key.
     rbind (bytes_slice view key_end properties_end) (\<lambda>properties.
     rbind (bytes_slice view properties_end value_end) (\<lambda>payload.
       Ok \<lparr> ev_key = key, ev_properties = properties, ev_value = payload, ev_generation = generation,
            ev_priority = priority \<rparr>))))))))))))))))"

section \<open>The decoder accepts exactly the images\<close>

definition envelope_image :: "envelope_format \<Rightarrow> envelope_record \<Rightarrow> byte list" where
  "envelope_image f r = ENVELOPE_MAGIC @ le_split 2 ENVELOPE_FORMAT @ le_split 2 (if er_priority r = High then 1 else 0 :: u16)
     @ le_split 4 (ef_identity_version f) @ ef_namespace f @ le_split 8 (er_generation r)
     @ le_split 4 (of_nat (length (er_key r)) :: u32) @ le_split 4 (of_nat (length (er_properties r)) :: u32)
     @ le_split 8 (of_nat (length (er_value r)) :: u64) @ er_key r @ er_properties r @ er_value r"

definition envelope_len :: "envelope_record \<Rightarrow> nat" where
  "envelope_len r = ENVELOPE_HEADER_LEN + length (er_key r) + length (er_properties r) + length (er_value r)"

definition record_fits :: "envelope_record \<Rightarrow> bool" where
  "record_fits r \<longleftrightarrow> length (er_key r) < 2 ^ 32 \<and> length (er_properties r) < 2 ^ 32 \<and> envelope_len r < 2 ^ 64"

lemma envelope_encode_image:
  assumes ns: "length (ef_namespace f) = 16"
  shows "envelope_encode f r limit =
     (if envelope_len r \<ge> 2 ^ 64 then Err (CE_TooLarge usize_max limit)
      else if envelope_len r > limit \<or> \<not> record_fits r then Err (CE_TooLarge (envelope_len r) limit)
      else Ok (envelope_image f r))"
proof -
  have checked: "Option.bind (checked_add ENVELOPE_HEADER_LEN (length (er_key r))) (\<lambda>n.
        Option.bind (checked_add n (length (er_properties r))) (\<lambda>n. checked_add n (length (er_value r))))
      = (if envelope_len r < 2 ^ 64 then Some (envelope_len r) else None)"
    by (simp add: checked_add_def envelope_len_def)
  show ?thesis
    unfolding envelope_encode_def checked
    by (simp add: Let_def record_fits_def ENVELOPE_HEADER_LEN_def ENVELOPE_MAGIC_def patch_def ns envelope_image_def)
qed

subsection \<open>Views\<close>

definition view_ok :: "bytes_view \<Rightarrow> bool" where
  "view_ok b \<longleftrightarrow> bv_start b \<le> bv_end b \<and> bv_end b \<le> length (backing_bytes (bv_backing b))"

definition contents :: "bytes_view \<Rightarrow> byte list" where
  "contents b = sub (backing_bytes (bv_backing b)) (bv_start b) (bv_end b - bv_start b)"

definition part :: "bytes_view \<Rightarrow> nat \<Rightarrow> nat \<Rightarrow> bytes_view" where
  "part b lo hi = \<lparr> bv_backing = bv_backing b, bv_start = bv_start b + lo, bv_end = bv_start b + hi \<rparr>"

lemma bytes_deref_Ok [simp]: "view_ok b \<Longrightarrow> bytes_deref b = Ok (contents b)"
  by (simp add: bytes_deref_def view_ok_def contents_def)

lemma bytes_slice_Ok [simp]:
  "view_ok b \<Longrightarrow> lo \<le> hi \<Longrightarrow> hi \<le> length (contents b) \<Longrightarrow> bytes_slice b lo hi = Ok (part b lo hi)"
  by (simp add: bytes_slice_def part_def)

lemma part_ok: "view_ok b \<Longrightarrow> lo \<le> hi \<Longrightarrow> hi \<le> length (contents b) \<Longrightarrow> view_ok (part b lo hi)"
  by (auto simp: view_ok_def part_def contents_def)

lemma contents_part:
  "view_ok b \<Longrightarrow> lo \<le> hi \<Longrightarrow> hi \<le> length (contents b) \<Longrightarrow> contents (part b lo hi) = sub (contents b) lo (hi - lo)"
  by (auto simp: view_ok_def part_def contents_def sub_sub)

lemma shares_part [simp]: "shares_backing (part b lo hi) b"
  by (simp add: part_def split: backing.split)

lemma contents_from [simp]:
  "contents (bytes_from_heap a bytes) = bytes" "contents (bytes_from_chunk a bytes) = bytes"
  "view_ok (bytes_from_heap a bytes)" "view_ok (bytes_from_chunk a bytes)"
  by (simp_all add: contents_def view_ok_def bytes_from_heap_def bytes_from_chunk_def)

subsection \<open>Fields\<close>

definition opened :: "envelope \<Rightarrow> envelope_record" where
  "opened e = \<lparr> er_key = contents (ev_key e), er_value = contents (ev_value e), er_properties = contents (ev_properties e),
     er_generation = ev_generation e, er_priority = ev_priority e \<rparr>"

definition header_matches :: "envelope_format \<Rightarrow> byte list \<Rightarrow> bool" where
  "header_matches f bytes \<longleftrightarrow> 56 \<le> length bytes \<and> take 8 bytes = ENVELOPE_MAGIC \<and> sub bytes 8 2 = le_split 2 ENVELOPE_FORMAT
     \<and> sub bytes 12 4 = le_split 4 (ef_identity_version f) \<and> sub bytes 16 16 = ef_namespace f"

abbreviation key_end :: "byte list \<Rightarrow> nat" where
  "key_end bytes \<equiv> 56 + unat (le_join (sub bytes 40 4) :: u32)"

abbreviation properties_end :: "byte list \<Rightarrow> nat" where
  "properties_end bytes \<equiv> key_end bytes + unat (le_join (sub bytes 44 4) :: u32)"

abbreviation value_end :: "byte list \<Rightarrow> nat" where
  "value_end bytes \<equiv> properties_end bytes + unat (le_join (sub bytes 48 8) :: u64)"

lemma u16_field_iff: "length bs = 2 \<Longrightarrow> le_join bs = (w :: u16) \<longleftrightarrow> bs = le_split 2 w"
  using le_join_eq_iff [of bs w] by simp

lemma envelope_decode_fields:
  assumes "view_ok b" and "length (contents b) < 2 ^ 64"
  shows "envelope_decode f b = Ok e \<longleftrightarrow> header_matches f (contents b) \<and> value_end (contents b) = length (contents b)
    \<and> sub (contents b) 10 2 = le_split 2 (if ev_priority e = High then 1 else 0 :: u16)
    \<and> ev_key e = part b 56 (key_end (contents b)) \<and> ev_properties e = part b (key_end (contents b)) (properties_end (contents b))
    \<and> ev_value e = part b (properties_end (contents b)) (value_end (contents b)) \<and> ev_generation e = le_join (sub (contents b) 32 8)"
proof (cases "header_matches f (contents b)")
  case True
  then have len: "56 \<le> length (contents b)" by (simp add: header_matches_def)
  have flags: "(le_join (sub (contents b) 10 2) :: u16) = w \<longleftrightarrow> sub (contents b) 10 2 = le_split 2 w" for w
    using len by (simp add: u16_field_iff)
  have "le_split 2 (1 :: u16) \<noteq> le_split 2 (0 :: u16)" by (simp add: numeral_2_eq_2)
  then show ?thesis
    using True assms len u32_less [of "le_join (sub (contents b) 40 4)"] u32_less [of "le_join (sub (contents b) 44 4)"]
    by (cases "ev_priority e") (auto simp: envelope_decode_def header_matches_def ENVELOPE_HEADER_LEN_def u16_field_iff u32_field_iff checked_add_def flags)
next
  case False
  then show ?thesis
    using assms by (auto simp: envelope_decode_def header_matches_def ENVELOPE_HEADER_LEN_def u16_field_iff u32_field_iff)
qed

lemma envelope_decode_no_panic: "view_ok b \<Longrightarrow> length (contents b) < 2 ^ 64 \<Longrightarrow> envelope_decode f b \<noteq> Panic"
  by (auto simp: envelope_decode_def ENVELOPE_HEADER_LEN_def checked_add_def rbind_Panic_iff split: if_splits)

lemma image_fields:
  assumes ns: "length (ef_namespace f) = 16" and fits: "record_fits r"
  shows "bytes = envelope_image f r \<longleftrightarrow> header_matches f bytes \<and> value_end bytes = length bytes
    \<and> sub bytes 10 2 = le_split 2 (if er_priority r = High then 1 else 0 :: u16)
    \<and> er_key r = sub bytes 56 (key_end bytes - 56) \<and> er_properties r = sub bytes (key_end bytes) (properties_end bytes - key_end bytes)
    \<and> er_value r = sub bytes (properties_end bytes) (value_end bytes - properties_end bytes) \<and> er_generation r = le_join (sub bytes 32 8)"
    (is "_ \<longleftrightarrow> ?fields")
proof
  assume b: "bytes = envelope_image f r"
  have "le_join (sub bytes 40 4) = (of_nat (length (er_key r)) :: u32)" "le_join (sub bytes 44 4) = (of_nat (length (er_properties r)) :: u32)"
    "le_join (sub bytes 48 8) = (of_nat (length (er_value r)) :: u64)"
    unfolding b envelope_image_def sub_def by (simp_all add: ENVELOPE_MAGIC_def ns)
  then have ends: "unat (le_join (sub bytes 40 4) :: u32) = length (er_key r)" "unat (le_join (sub bytes 44 4) :: u32) = length (er_properties r)"
    "unat (le_join (sub bytes 48 8) :: u64) = length (er_value r)"
    using fits by (simp_all add: record_fits_def envelope_len_def unat_of_nat)
  obtain h where h: "bytes = h @ er_key r @ er_properties r @ er_value r" "length h = 56"
    by (rule that [of "take 56 (envelope_image f r)"]) (simp_all add: b envelope_image_def ENVELOPE_MAGIC_def ns)
  have "header_matches f bytes" "sub bytes 10 2 = le_split 2 (if er_priority r = High then 1 else 0 :: u16)" "er_generation r = le_join (sub bytes 32 8)"
    unfolding b envelope_image_def sub_def header_matches_def by (simp_all add: ENVELOPE_MAGIC_def ns)
  moreover have "er_key r = sub bytes 56 (length (er_key r))" "er_properties r = sub bytes (56 + length (er_key r)) (length (er_properties r))"
    "er_value r = sub bytes (56 + length (er_key r) + length (er_properties r)) (length (er_value r))"
    unfolding h(1) sub_def by (simp_all add: h(2))
  moreover have "length bytes = 56 + length (er_key r) + length (er_properties r) + length (er_value r)" using h by simp
  ultimately show ?fields unfolding ends by simp
next
  assume fields: ?fields
  then have len: "56 \<le> length bytes" by (simp add: header_matches_def)
  have total: "value_end bytes = length bytes" using fields by simp
  then have lens: "length (er_key r) = unat (le_join (sub bytes 40 4) :: u32)" "length (er_properties r) = unat (le_join (sub bytes 44 4) :: u32)"
    "length (er_value r) = unat (le_join (sub bytes 48 8) :: u64)"
    using fields by (auto simp: min_def)
  have joined: "le_split 8 (le_join (sub bytes 32 8) :: u64) = sub bytes 32 8" "le_split 4 (le_join (sub bytes 40 4) :: u32) = sub bytes 40 4"
    "le_split 4 (le_join (sub bytes 44 4) :: u32) = sub bytes 44 4" "le_split 8 (le_join (sub bytes 48 8) :: u64) = sub bytes 48 8"
    "length bytes - properties_end bytes = unat (le_join (sub bytes 48 8) :: u64)"
    using len total by simp_all
  have "bytes = take 8 bytes @ sub bytes 8 2 @ sub bytes 10 2 @ sub bytes 12 4 @ sub bytes 16 16 @ sub bytes 32 8 @ sub bytes 40 4 @ sub bytes 44 4
      @ sub bytes 48 8 @ sub bytes 56 (key_end bytes - 56) @ sub bytes (key_end bytes) (properties_end bytes - key_end bytes)
      @ sub bytes (properties_end bytes) (value_end bytes - properties_end bytes)"
    using total by (simp add: sub_join take_join)
  also have "\<dots> = envelope_image f r"
    unfolding envelope_image_def lens using fields by (simp add: header_matches_def joined)
  finally show "bytes = envelope_image f r" .
qed

lemma length_envelope_image: "length (ef_namespace f) = 16 \<Longrightarrow> length (envelope_image f r) = envelope_len r"
  by (simp add: envelope_image_def envelope_len_def ENVELOPE_MAGIC_def ENVELOPE_HEADER_LEN_def)

lemma fields_fit:
  assumes "value_end bytes = length bytes" and "length bytes < 2 ^ 64" and "er_key r = sub bytes 56 (key_end bytes - 56)"
    and "er_properties r = sub bytes (key_end bytes) (properties_end bytes - key_end bytes)"
    and "er_value r = sub bytes (properties_end bytes) (value_end bytes - properties_end bytes)"
  shows "record_fits r"
  using assms u32_less [of "le_join (sub bytes 40 4)"] u32_less [of "le_join (sub bytes 44 4)"]
  by (auto simp: record_fits_def envelope_len_def ENVELOPE_HEADER_LEN_def min_def)

text \<open>C10: envelopes: for a view of fewer than 2 to the 64 bytes the decoder never panics; it returns a given record exactly when
  the encoder writes the viewed bytes for that record; the fields it returns are views of the same allocation; and
  rewriting the generation of an encoded record is encoding the record with that generation.\<close>

theorem envelope_exact:
  assumes ns: "length (ef_namespace f) = 16" and b: "view_ok b" "length (contents b) < 2 ^ 64"
  shows "(envelope_decode f b :: ('s cache_error, envelope) res) \<noteq> Panic
    \<and> ((\<exists>e. (envelope_decode f b :: ('s cache_error, envelope) res) = Ok e \<and> opened e = r \<and> shares_backing (ev_key e) b \<and> shares_backing (ev_properties e) b
          \<and> shares_backing (ev_value e) b) \<longleftrightarrow> (envelope_encode f r (length (contents b)) :: ('s cache_error, byte list) res) = Ok (contents b))
    \<and> rbind (envelope_encode f r limit) (\<lambda>bytes. set_generation bytes g) = (envelope_encode f (r \<lparr> er_generation := g \<rparr>) limit :: ('s cache_error, byte list) res)"
proof (intro conjI)
  let ?c = "contents b"
  define e where "e = \<lparr> ev_key = part b 56 (key_end ?c), ev_properties = part b (key_end ?c) (properties_end ?c),
    ev_value = part b (properties_end ?c) (value_end ?c), ev_generation = le_join (sub ?c 32 8), ev_priority = er_priority r \<rparr>"
  let ?dec = "envelope_decode f b :: ('s cache_error, envelope) res"
  have parts: "opened e = r \<longleftrightarrow> er_key r = sub ?c 56 (key_end ?c - 56) \<and> er_properties r = sub ?c (key_end ?c) (properties_end ?c - key_end ?c)
      \<and> er_value r = sub ?c (properties_end ?c) (value_end ?c - properties_end ?c) \<and> er_generation r = le_join (sub ?c 32 8)"
    if "value_end ?c = length ?c"
    using that b(1) by (cases r) (auto simp: opened_def contents_part e_def)
  have dec: "?dec = Ok e \<longleftrightarrow> header_matches f ?c \<and> value_end ?c = length ?c \<and> sub ?c 10 2 = le_split 2 (if er_priority r = High then 1 else 0 :: u16)"
    unfolding envelope_decode_fields [OF b] by (simp add: e_def)
  have "(\<exists>e. ?dec = Ok e \<and> opened e = r \<and> shares_backing (ev_key e) b \<and> shares_backing (ev_properties e) b \<and> shares_backing (ev_value e) b)
      \<longleftrightarrow> ?dec = Ok e \<and> opened e = r"
  proof
    assume "\<exists>e. ?dec = Ok e \<and> opened e = r \<and> shares_backing (ev_key e) b \<and> shares_backing (ev_properties e) b \<and> shares_backing (ev_value e) b"
    then obtain e' where e': "?dec = Ok e'" "opened e' = r" by blast
    have "ev_priority e' = er_priority r" using e'(2) by (auto simp: opened_def)
    then have "e' = e" using e'(1) unfolding envelope_decode_fields [OF b] by (simp add: e_def)
    then show "?dec = Ok e \<and> opened e = r" using e' by blast
  qed (intro exI [of _ e], simp add: e_def del: shares_backing.simps)
  also have "\<dots> \<longleftrightarrow> record_fits r \<and> ?c = envelope_image f r"
    using parts image_fields [OF ns, of r ?c] fields_fit [OF _ b(2), of r] dec by blast
  also have "\<dots> \<longleftrightarrow> envelope_encode f r (length ?c) = (Ok ?c :: ('s cache_error, byte list) res)"
    using length_envelope_image [OF ns, of r] by (auto simp: envelope_encode_image [OF ns] record_fits_def)
  finally show "(\<exists>e. ?dec = Ok e \<and> opened e = r \<and> shares_backing (ev_key e) b \<and> shares_backing (ev_properties e) b
          \<and> shares_backing (ev_value e) b) \<longleftrightarrow> envelope_encode f r (length ?c) = (Ok ?c :: ('s cache_error, byte list) res)" .
  show "rbind (envelope_encode f r limit) (\<lambda>bytes. set_generation bytes g) = (envelope_encode f (r \<lparr> er_generation := g \<rparr>) limit :: ('s cache_error, byte list) res)"
    by (simp add: envelope_encode_image [OF ns] set_generation_def record_fits_def envelope_len_def envelope_image_def ns ENVELOPE_MAGIC_def patch_def)
qed (rule envelope_decode_no_panic [OF b])

definition sample_format :: envelope_format where
  "sample_format = \<lparr> ef_namespace = replicate 16 3, ef_identity_version = 2 \<rparr>"

definition sample_envelope :: envelope_record where
  "sample_envelope = \<lparr> er_key = [0x6b, 0x65, 0x79], er_value = replicate 8 9, er_properties = le_split 8 (7 :: u64),
     er_generation = 1, er_priority = High \<rparr>"

theorem envelope_exact_witness:
  "\<exists>e. envelope_decode sample_format (bytes_from_chunk 5 (envelope_image sample_format sample_envelope)) = (Ok e :: (unit cache_error, envelope) res)
    \<and> opened e = sample_envelope"
proof -
  have fits: "length (ef_namespace sample_format) = 16" "record_fits sample_envelope" "envelope_len sample_envelope = 75"
    by (simp_all add: sample_format_def sample_envelope_def record_fits_def envelope_len_def ENVELOPE_HEADER_LEN_def)
  let ?b = "bytes_from_chunk 5 (envelope_image sample_format sample_envelope)"
  have len: "length (contents ?b) = 75" by (simp add: length_envelope_image [OF fits(1)] fits(3))
  then have "envelope_encode sample_format sample_envelope (length (contents ?b)) = (Ok (contents ?b) :: (unit cache_error, byte list) res)"
    by (simp add: envelope_encode_image [OF fits(1)] fits)
  then show ?thesis using envelope_exact [OF fits(1), of ?b sample_envelope] len by auto
qed

end
