(* ===== verification/Disk_Catalog.thy ===== *)
theory Disk_Catalog
  imports Cache_Envelope Chunk_Id "HOL-Library.AList"
begin

text \<open>
  The disk directory of the hybrid cache and its capacity controller (\<^verbatim>\<open>moat-cache/src/catalog.rs\<close>).

  One \<open>disk_state\<close> per disk: the live slots, their insertion order, the sweep hand, and the reservations of
  writes in flight. Hash maps are association lists with distinct keys, since only their lookups and lengths
  are used; the \<open>BTreeMap\<close> is the list of its pairs in key order. Unsigned subtractions and \<open>expect\<close> panic as
  in the code. The chunk store is behind the catalog: its answers (usage, write cost, the result of a deletion,
  the sequence number of a write) are arguments.

  \<open>disk_step\<close> lets the operations of one disk follow each other in any order that the code allows: admission
  decisions and deletions happen under the disk's control lock, completions of admitted writes at any time.
\<close>

section \<open>Options and state\<close>

datatype disk_policy = DiskFifo | DiskSieve

record disk_options =
  dp_capacity :: "nat option"
  dp_entries :: "nat option"
  dp_policy :: disk_policy
  dp_reserve_segments :: nat

definition disk_options_default :: disk_options where
  "disk_options_default = \<lparr> dp_capacity = None, dp_entries = None, dp_policy = DiskSieve, dp_reserve_segments = 4 \<rparr>"

record slot =
  sl_lsn :: u64
  sl_len :: u32
  sl_position :: nat
  sl_visited :: bool

record active_write =
  aw_extra :: nat
  aw_new :: bool
  aw_allocation :: nat

record disk_state =
  ds_slots :: "(chunk_id \<times> slot) list"
  ds_order :: "(nat \<times> chunk_id) list"
  ds_clock :: nat
  ds_hand :: nat
  ds_bytes :: nat
  ds_active :: "(chunk_id \<times> active_write) list"
  ds_extra :: nat
  ds_new :: nat
  ds_allocation :: nat
  ds_waiters :: "nat list"

text \<open>The operations of \<open>BTreeMap\<close> on the sorted list of its pairs.\<close>

fun bt_insert :: "nat \<Rightarrow> 'v \<Rightarrow> (nat \<times> 'v) list \<Rightarrow> (nat \<times> 'v) list" where
  "bt_insert k v [] = [(k, v)]"
| "bt_insert k v ((k', v') # xs) =
     (if k < k' then (k, v) # (k', v') # xs else if k = k' then (k, v) # xs else (k', v') # bt_insert k v xs)"

definition bt_remove :: "nat \<Rightarrow> (nat \<times> 'v) list \<Rightarrow> (nat \<times> 'v) list" where
  "bt_remove k xs = filter (\<lambda>(k', _). k' \<noteq> k) xs"

definition bt_first_after :: "nat \<Rightarrow> (nat \<times> 'v) list \<Rightarrow> (nat \<times> 'v) option" where
  "bt_first_after k xs = find (\<lambda>(k', _). k < k') xs"

definition bt_first :: "(nat \<times> 'v) list \<Rightarrow> (nat \<times> 'v) option" where
  "bt_first xs = (case xs of [] \<Rightarrow> None | x # _ \<Rightarrow> Some x)"

section \<open>Slots\<close>

definition checked_sub :: "nat \<Rightarrow> nat \<Rightarrow> ('e, nat) res" where
  "checked_sub a b = (if b \<le> a then Ok (a - b) else Panic)"

definition disk_remove :: "chunk_id \<Rightarrow> disk_state \<Rightarrow> ('e, disk_state) res" where
  "disk_remove i st =
     (case map_of (ds_slots st) i of
        None \<Rightarrow> Ok st
      | Some old \<Rightarrow>
          rbind (checked_sub (ds_bytes st) (unat (sl_len old))) (\<lambda>bytes.
          Ok (st \<lparr> ds_slots := AList.delete i (ds_slots st), ds_order := bt_remove (sl_position old) (ds_order st),
                   ds_bytes := bytes \<rparr>)))"

definition disk_insert :: "chunk_id \<Rightarrow> u64 \<Rightarrow> u32 \<Rightarrow> disk_state \<Rightarrow> ('e, disk_state) res" where
  "disk_insert i lsn len st =
     rbind (disk_remove i st) (\<lambda>st.
     rbind (expect (checked_add (ds_clock st) 1)) (\<lambda>clock.
     Ok (st \<lparr> ds_clock := clock,
              ds_slots := AList.update i \<lparr> sl_lsn = lsn, sl_len = len, sl_position = clock, sl_visited = False \<rparr> (ds_slots st),
              ds_order := bt_insert clock i (ds_order st),
              ds_bytes := ds_bytes st + unat len \<rparr>)))"

definition excluded :: "chunk_id option \<Rightarrow> disk_state \<Rightarrow> chunk_id \<Rightarrow> bool" where
  "excluded ex st i \<longleftrightarrow> Some i = ex \<or> map_of (ds_active st) i \<noteq> None"

fun disk_sweep :: "nat \<Rightarrow> chunk_id option \<Rightarrow> disk_state \<Rightarrow> ('e, (chunk_id \<times> u64) option \<times> disk_state) res" where
  "disk_sweep 0 ex st = Ok (None, st)"
| "disk_sweep (Suc n) ex st =
     (case (case bt_first_after (ds_hand st) (ds_order st) of None \<Rightarrow> bt_first (ds_order st) | Some x \<Rightarrow> Some x) of
        None \<Rightarrow> Ok (None, st)
      | Some (position, i) \<Rightarrow>
          (let st = st \<lparr> ds_hand := position \<rparr> in
           if excluded ex st i then disk_sweep n ex st else
           rbind (expect (map_of (ds_slots st) i)) (\<lambda>slot.
           if sl_visited slot
           then disk_sweep n ex (st \<lparr> ds_slots := AList.update i (slot \<lparr> sl_visited := False \<rparr>) (ds_slots st) \<rparr>)
           else Ok (Some (i, sl_lsn slot), st))))"

definition disk_victim :: "disk_policy \<Rightarrow> chunk_id option \<Rightarrow> disk_state \<Rightarrow> ('e, (chunk_id \<times> u64) option \<times> disk_state) res" where
  "disk_victim policy ex st =
     (if policy = DiskFifo then
        (case find (\<lambda>(_, i). \<not> excluded ex st i) (ds_order st) of
           None \<Rightarrow> Ok (None, st)
         | Some (_, i) \<Rightarrow> rbind (expect (map_of (ds_slots st) i)) (\<lambda>slot. Ok (Some (i, sl_lsn slot), st)))
      else disk_sweep (min (2 * length (ds_slots st)) usize_max) ex st)"

text \<open>A waiter is the sender of a one-shot channel, by number; \<open>canceled\<close> says which receivers are gone.\<close>

definition disk_wait :: "(nat \<Rightarrow> bool) \<Rightarrow> nat \<Rightarrow> disk_state \<Rightarrow> disk_state" where
  "disk_wait canceled sender st = st \<lparr> ds_waiters := filter (\<lambda>w. \<not> canceled w) (ds_waiters st) @ [sender] \<rparr>"

definition disk_finish :: "chunk_id \<Rightarrow> disk_state \<Rightarrow> ('e, nat list \<times> disk_state) res" where
  "disk_finish i st =
     rbind (expect (map_of (ds_active st) i)) (\<lambda>active.
     rbind (checked_sub (ds_extra st) (aw_extra active)) (\<lambda>extra.
     rbind (checked_sub (ds_new st) (of_bool (aw_new active))) (\<lambda>new.
     rbind (checked_sub (ds_allocation st) (aw_allocation active)) (\<lambda>allocation.
     Ok (ds_waiters st,
         st \<lparr> ds_active := AList.delete i (ds_active st), ds_extra := extra, ds_new := new, ds_allocation := allocation,
              ds_waiters := [] \<rparr>)))))"

section \<open>Opening\<close>

record disk =
  dk_capacity :: nat
  dk_entries :: nat
  dk_reserve :: nat
  dk_segment_size :: nat
  dk_policy :: disk_policy

text \<open>What the store reports of a disk.\<close>

record disk_info =
  di_segment_size :: nat
  di_index_entries :: nat

record disk_usage =
  us_segments :: nat
  us_free_segments :: nat

record inventory_entry =
  ie_disk :: nat
  ie_id :: chunk_id
  ie_lsn :: u64
  ie_len :: u32

definition disk_state_new :: disk_state where
  "disk_state_new = \<lparr> ds_slots = [], ds_order = [], ds_clock = 0, ds_hand = 0, ds_bytes = 0, ds_active = [],
     ds_extra = 0, ds_new = 0, ds_allocation = 0, ds_waiters = [] \<rparr>"

definition disk_open :: "disk_options \<Rightarrow> disk_info \<Rightarrow> disk_usage \<Rightarrow> ('s cache_error, disk \<times> disk_state) res" where
  "disk_open options info usage =
     (if us_segments usage \<le> dp_reserve_segments options + 2
      then Err (CE_Invalid ''disk has too few segments for append headroom'') else
      if us_free_segments usage < 2 then Err CE_NoSpace else
      let usable = (us_segments usage - dp_reserve_segments options) * di_segment_size info;
          capacity = (case dp_capacity options of None \<Rightarrow> usable div 4 | Some c \<Rightarrow> c) in
      if capacity = 0 \<or> capacity > usable div 2
      then Err (CE_Invalid ''disk cache capacity must be positive and at most half of non-reserved space'') else
      let entries = (case dp_entries options of None \<Rightarrow> di_index_entries info | Some n \<Rightarrow> n) in
      if entries = 0 \<or> entries > di_index_entries info
      then Err (CE_Invalid ''disk entry limit exceeds the configured adapter limit'') else
      Ok (\<lparr> dk_capacity = capacity, dk_entries = entries,
            dk_reserve = dp_reserve_segments options * di_segment_size info, dk_segment_size = di_segment_size info,
            dk_policy = dp_policy options \<rparr>, disk_state_new))"

fun catalog_load :: "(chunk_id \<Rightarrow> nat) \<Rightarrow> inventory_entry list \<Rightarrow> disk_state list \<Rightarrow> ('s cache_error, disk_state list) res" where
  "catalog_load disk_of [] states = Ok states"
| "catalog_load disk_of (entry # rest) states =
     (if ie_disk entry \<ge> length states \<or> disk_of (ie_id entry) \<noteq> ie_disk entry
      then Err (CE_Invalid ''inventory does not match this disk placement; migration or rebuild is required'') else
      let state = states ! ie_disk entry in
      if map_of (ds_slots state) (ie_id entry) \<noteq> None then Err (CE_Invalid ''duplicate live inventory identity'') else
      rbind (disk_insert (ie_id entry) (ie_lsn entry) (ie_len entry) state) (\<lambda>state.
      catalog_load disk_of rest (states[ie_disk entry := state])))"

text \<open>Two stable sorts give the order by disk, then sequence number.\<close>

definition catalog_new ::
  "(chunk_id \<Rightarrow> nat) \<Rightarrow> (disk_info \<times> disk_usage) list \<Rightarrow> inventory_entry list \<Rightarrow> disk_options
     \<Rightarrow> ('s cache_error, disk list \<times> disk_state list) res" where
  "catalog_new disk_of stores inventory options =
     (if dp_reserve_segments options < 4 then Err (CE_Invalid ''at least four reserve segments are required'') else
      rbind (traverse (\<lambda>(info, usage). disk_open options info usage) stores) (\<lambda>disks.
      rbind (catalog_load disk_of (sort_key ie_disk (sort_key ie_lsn inventory)) (map snd disks)) (\<lambda>states.
      Ok (map fst disks, states))))"

section \<open>Operations on one disk\<close>

definition version_on :: "chunk_id \<Rightarrow> disk_state \<Rightarrow> u64 option" where
  "version_on i st = (if map_of (ds_active st) i \<noteq> None then None else map_option sl_lsn (map_of (ds_slots st) i))"

definition validate_hit :: "chunk_id \<Rightarrow> u64 \<Rightarrow> disk_state \<Rightarrow> bool \<times> disk_state" where
  "validate_hit i lsn st =
     (if map_of (ds_active st) i \<noteq> None then (False, st) else
      case map_of (ds_slots st) i of
        None \<Rightarrow> (False, st)
      | Some slot \<Rightarrow>
          if sl_lsn slot = lsn
          then (True, st \<lparr> ds_slots := AList.update i (slot \<lparr> sl_visited := True \<rparr>) (ds_slots st) \<rparr>)
          else (False, st))"

definition catalog_remove :: "chunk_id \<Rightarrow> u64 \<Rightarrow> disk_state \<Rightarrow> ('e, disk_state) res" where
  "catalog_remove i expected st =
     (if (case map_of (ds_slots st) i of None \<Rightarrow> False | Some slot \<Rightarrow> sl_lsn slot = expected)
      then disk_remove i st else Ok st)"

definition catalog_snapshot :: "disk_state list \<Rightarrow> nat \<times> nat" where
  "catalog_snapshot states = fold (\<lambda>st (entries, bytes). (entries + length (ds_slots st), bytes + ds_bytes st)) states (0, 0)"

datatype delete_result = Deleted u64 | Missing | Changed

text \<open>The part of \<open>evict\<close> after the deletion has answered.\<close>

definition catalog_evict :: "delete_result \<Rightarrow> chunk_id \<Rightarrow> disk_state \<Rightarrow> ('s cache_error, disk_state) res" where
  "catalog_evict result i st =
     (case result of
        Changed \<Rightarrow> Err (CE_Corrupt ''catalog version changed outside cache ownership'')
      | _ \<Rightarrow> disk_remove i st)"

record reservation =
  rv_id :: chunk_id
  rv_len :: u32

datatype write_action = Reserved reservation | Evict chunk_id u64 | Wait nat

definition sat_add :: "nat \<Rightarrow> nat \<Rightarrow> nat" where
  "sat_add a b = min (a + b) usize_max"

text \<open>One decision of the admission loop of \<open>write\<close>, for a value of \<open>len\<close> bytes.\<close>

definition write_decide ::
  "disk \<Rightarrow> disk_usage \<Rightarrow> (nat \<Rightarrow> bool) \<Rightarrow> nat \<Rightarrow> nat \<Rightarrow> chunk_id \<Rightarrow> nat \<Rightarrow> disk_state
     \<Rightarrow> ('s cache_error, write_action \<times> disk_state) res" where
  "write_decide disk usage canceled sender allocation i len st =
     (if map_of (ds_active st) i \<noteq> None then Err CE_Busy else
      let old_len = (case map_of (ds_slots st) i of None \<Rightarrow> 0 | Some slot \<Rightarrow> unat (sl_len slot));
          extra = len - old_len;
          new = (map_of (ds_slots st) i = None);
          fits = ds_bytes st + ds_extra st + extra \<le> dk_capacity disk
            \<and> length (ds_slots st) + ds_new st + of_bool new \<le> dk_entries disk;
          headroom = us_free_segments usage * dk_segment_size disk
            \<ge> sat_add (sat_add (dk_reserve disk) (ds_allocation st)) allocation in
      if fits \<and> headroom then
        Ok (Reserved \<lparr> rv_id = i, rv_len = of_nat len \<rparr>,
            st \<lparr> ds_active := AList.update i \<lparr> aw_extra = extra, aw_new = new, aw_allocation = allocation \<rparr> (ds_active st),
                 ds_extra := ds_extra st + extra, ds_new := ds_new st + of_bool new,
                 ds_allocation := ds_allocation st + allocation \<rparr>)
      else if \<not> headroom then
        (if ds_active st \<noteq> [] then Ok (Wait sender, disk_wait canceled sender st) else Err CE_NoSpace)
      else
        rbind (disk_victim (dk_policy disk) (Some i) st) (\<lambda>(victim, st).
        case victim of
          Some (v, lsn) \<Rightarrow> Ok (Evict v lsn, st)
        | None \<Rightarrow> if ds_active st \<noteq> [] then Ok (Wait sender, disk_wait canceled sender st) else Err CE_NoSpace))"

definition reservation_commit :: "reservation \<Rightarrow> u64 \<Rightarrow> disk_state \<Rightarrow> ('e, nat list \<times> disk_state) res" where
  "reservation_commit r lsn st = rbind (disk_insert (rv_id r) lsn (rv_len r) st) (\<lambda>st. disk_finish (rv_id r) st)"

definition reservation_drop :: "reservation \<Rightarrow> disk_state \<Rightarrow> ('e, nat list \<times> disk_state) res" where
  "reservation_drop r st = disk_finish (rv_id r) st"

text \<open>The loops around these steps when nothing else runs on the disk. \<open>delete\<close> is the store's conditional
  deletion, \<open>usage\<close> what the store reports in a state of the disk. \<open>None\<close> is a loop that does not end; a
  \<open>Wait\<close> that no other operation can answer ends the admission loop here.\<close>

partial_function (option) catalog_trim ::
  "(chunk_id \<Rightarrow> u64 \<Rightarrow> ('s cache_error, delete_result) res) \<Rightarrow> disk \<Rightarrow> disk_state \<Rightarrow> ('s cache_error, disk_state) res option" where
  "catalog_trim delete disk st =
     (if ds_bytes st \<le> dk_capacity disk \<and> length (ds_slots st) \<le> dk_entries disk then Some (Ok st) else
      case disk_victim (dk_policy disk) None st of
        Ok (Some (v, lsn), st) \<Rightarrow>
          (case rbind (delete v lsn) (\<lambda>result. catalog_evict result v st) of
             Ok st \<Rightarrow> catalog_trim delete disk st
           | Err e \<Rightarrow> Some (Err e)
           | Panic \<Rightarrow> Some Panic)
      | Ok (None, st) \<Rightarrow> Some (Err CE_NoSpace)
      | Err e \<Rightarrow> Some (Err e)
      | Panic \<Rightarrow> Some Panic)"

partial_function (option) write_admit ::
  "(chunk_id \<Rightarrow> u64 \<Rightarrow> ('s cache_error, delete_result) res) \<Rightarrow> (disk_state \<Rightarrow> disk_usage) \<Rightarrow> disk \<Rightarrow> nat \<Rightarrow> chunk_id \<Rightarrow> nat
     \<Rightarrow> disk_state \<Rightarrow> ('s cache_error, write_action \<times> disk_state) res option" where
  "write_admit delete usage disk allocation i len st =
     (case write_decide disk (usage st) (\<lambda>_. False) 0 allocation i len st of
        Ok (Evict v lsn, st) \<Rightarrow>
          (case rbind (delete v lsn) (\<lambda>result. catalog_evict result v st) of
             Ok st \<Rightarrow> write_admit delete usage disk allocation i len st
           | Err e \<Rightarrow> Some (Err e)
           | Panic \<Rightarrow> Some Panic)
      | Ok (Reserved r, st) \<Rightarrow> Some (Ok (Reserved r, st))
      | Ok (Wait w, st) \<Rightarrow> Some (Ok (Wait w, st))
      | Err e \<Rightarrow> Some (Err e)
      | Panic \<Rightarrow> Some Panic)"

text \<open>\<open>write\<close> refuses a value larger than the disk's capacity before it takes the control lock.\<close>

definition write_begin ::
  "(chunk_id \<Rightarrow> u64 \<Rightarrow> ('s cache_error, delete_result) res) \<Rightarrow> (disk_state \<Rightarrow> disk_usage) \<Rightarrow> disk \<Rightarrow> nat \<Rightarrow> chunk_id \<Rightarrow> nat
     \<Rightarrow> disk_state \<Rightarrow> ('s cache_error, write_action \<times> disk_state) res option" where
  "write_begin delete usage disk allocation i len st =
     (if len > dk_capacity disk then Some (Err CE_NoSpace) else write_admit delete usage disk allocation i len st)"

text \<open>\<open>trim\<close> visits the disks in turn and stops at the first error.\<close>

fun trim_disks ::
  "(chunk_id \<Rightarrow> u64 \<Rightarrow> ('s cache_error, delete_result) res) \<Rightarrow> (disk \<times> disk_state) list \<Rightarrow> ('s cache_error, disk_state list) res option" where
  "trim_disks delete [] = Some (Ok [])"
| "trim_disks delete ((disk, st) # rest) =
     Option.bind (catalog_trim delete disk st) (\<lambda>trimmed.
     (case trimmed of
        Ok st \<Rightarrow> map_option (\<lambda>r. rbind r (\<lambda>sts. Ok (st # sts))) (trim_disks delete rest)
      | Err e \<Rightarrow> Some (Err e)
      | Panic \<Rightarrow> Some Panic))"

section \<open>Runs of one disk\<close>

text \<open>A run pairs the state with the outstanding reservations. Values fit the 32-bit length of a chunk. A slot is
  removed only while its identifier is not being written: victims exclude active identifiers, and the
  removals of an invalidation hold the control lock after \<open>version\<close> has found the identifier idle.\<close>

type_synonym disk_run = "disk_state \<times> reservation list"

inductive disk_step :: "disk \<Rightarrow> disk_run \<Rightarrow> disk_run \<Rightarrow> bool" for disk where
  step_decide: "len < 2 ^ 32 \<Longrightarrow> len \<le> dk_capacity disk \<Longrightarrow>
     write_decide disk usage canceled sender allocation i len st = (Ok (action, st') :: (unit cache_error, _) res) \<Longrightarrow>
     disk_step disk (st, R) (st', case action of Reserved r \<Rightarrow> r # R | _ \<Rightarrow> R)"
| step_removed: "map_of (ds_active st) i = None \<Longrightarrow> disk_remove i st = (Ok st' :: (unit, _) res) \<Longrightarrow> disk_step disk (st, R) (st', R)"
| step_commit: "r \<in> set R \<Longrightarrow> reservation_commit r lsn st = (Ok (woken, st') :: (unit, _) res) \<Longrightarrow> disk_step disk (st, R) (st', remove1 r R)"
| step_abort: "r \<in> set R \<Longrightarrow> reservation_drop r st = (Ok (woken, st') :: (unit, _) res) \<Longrightarrow> disk_step disk (st, R) (st', remove1 r R)"
| step_hit: "validate_hit i lsn st = (hit, st') \<Longrightarrow> disk_step disk (st, R) (st', R)"

inductive disk_reach :: "disk \<Rightarrow> disk_run \<Rightarrow> bool" for disk where
  disk_loaded: "catalog_load disk_of entries (replicate disks disk_state_new) = (Ok states :: (unit cache_error, _) res) \<Longrightarrow> st \<in> set states \<Longrightarrow>
     catalog_trim delete disk st = (Some (Ok st') :: (unit cache_error, _) res option) \<Longrightarrow> disk_reach disk (st', [])"
| disk_moved: "disk_reach disk run \<Longrightarrow> disk_step disk run run' \<Longrightarrow> disk_reach disk run'"

end
