(* ===== verification/Catalog_Props.thy ===== *)
theory Catalog_Props
  imports Disk_Catalog
begin

text \<open>
  Correctness of the disk directory: the directory is well formed and its byte and entry counts are exact,
  through every order of operations the live and reserved entries stay within the disk's limits, a victim is
  found exactly when an eligible slot exists, and the trim and admission loops end.
\<close>

section \<open>Association lists and ordered maps\<close>

abbreviation total :: "('v \<Rightarrow> nat) \<Rightarrow> ('k \<times> 'v) list \<Rightarrow> nat" where
  "total f xs \<equiv> (\<Sum>(_, x) \<leftarrow> xs. f x)"

lemma total_delete:
  assumes "distinct (map fst xs)" and "map_of xs k = Some v"
  shows "total f xs = f v + total f (AList.delete k xs)"
  using assms
proof (induction xs)
  case (Cons a xs)
  then show ?case by (cases a) auto
qed simp

lemma length_delete:
  assumes "distinct (map fst xs)" and "map_of xs k = Some v"
  shows "length xs = Suc (length (AList.delete k xs))"
  using assms
proof (induction xs)
  case (Cons a xs)
  then show ?case by (cases a) auto
qed simp

lemma delete_absent: "map_of xs k = None \<Longrightarrow> AList.delete k xs = xs"
  by (simp add: map_of_eq_None_iff)

lemma update_absent: "map_of xs k = None \<Longrightarrow> AList.update k v xs = xs @ [(k, v)]"
  by (induction xs) (auto split: if_splits)

lemma total_update:
  assumes "map_of xs k = Some old" and "distinct (map fst xs)"
  shows "total f (AList.update k v xs) + f old = total f xs + f v" "length (AList.update k v xs) = length xs"
proof -
  show "length (AList.update k v xs) = length xs" using assms by (induction xs) (auto split: if_splits)
  show "total f (AList.update k v xs) + f old = total f xs + f v"
    using assms by (induction xs) (auto split: if_splits)
qed

lemma bt_insert_last: "(\<And>p i. (p, i) \<in> set xs \<Longrightarrow> p < k) \<Longrightarrow> bt_insert k v xs = xs @ [(k, v)]"
  by (induction xs) (auto, fastforce+)

lemma set_bt_remove: "set (bt_remove k xs) = {(p, i) \<in> set xs. p \<noteq> k}"
  by (auto simp: bt_remove_def)

lemma sorted_bt_remove: "sorted_wrt (<) (map fst xs) \<Longrightarrow> sorted_wrt (<) (map fst (bt_remove k xs))"
  by (induction xs) (auto simp: bt_remove_def)

section \<open>Well-formed directories\<close>

definition placed :: "disk_state \<Rightarrow> bool" where
  "placed st \<longleftrightarrow> sorted_wrt (<) (map fst (ds_order st)) \<and> distinct (map fst (ds_slots st))
     \<and> (\<forall>p i. (p, i) \<in> set (ds_order st) \<longleftrightarrow> (\<exists>s. map_of (ds_slots st) i = Some s \<and> sl_position s = p))
     \<and> (\<forall>p i. (p, i) \<in> set (ds_order st) \<longrightarrow> p \<le> ds_clock st)"

definition counted :: "disk_state \<Rightarrow> bool" where
  "counted st \<longleftrightarrow> ds_bytes st = total (\<lambda>s. unat (sl_len s)) (ds_slots st) \<and> distinct (map fst (ds_active st))
     \<and> ds_extra st = total aw_extra (ds_active st) \<and> ds_new st = total (\<lambda>a. of_bool (aw_new a)) (ds_active st)
     \<and> ds_allocation st = total aw_allocation (ds_active st)"

definition directory_ok :: "disk_state \<Rightarrow> bool" where
  "directory_ok st \<longleftrightarrow> placed st \<and> counted st"

definition dropped :: "chunk_id \<Rightarrow> disk_state \<Rightarrow> disk_state" where
  "dropped i st =
     (case map_of (ds_slots st) i of
        None \<Rightarrow> st
      | Some old \<Rightarrow> st \<lparr> ds_slots := AList.delete i (ds_slots st), ds_order := bt_remove (sl_position old) (ds_order st),
                         ds_bytes := ds_bytes st - unat (sl_len old) \<rparr>)"

lemma disk_remove_Ok: "counted st \<Longrightarrow> placed st \<Longrightarrow> disk_remove i st = Ok (dropped i st)"
  using total_delete [of "ds_slots st" i _ "\<lambda>s. unat (sl_len s)"]
  by (auto simp: disk_remove_def dropped_def checked_sub_def counted_def placed_def split: option.split)

lemma dropped_fixed [simp]:
  "ds_active (dropped i st) = ds_active st" "ds_clock (dropped i st) = ds_clock st" "ds_hand (dropped i st) = ds_hand st"
  "ds_extra (dropped i st) = ds_extra st" "ds_new (dropped i st) = ds_new st" "ds_allocation (dropped i st) = ds_allocation st"
  "ds_waiters (dropped i st) = ds_waiters st" "ds_slots (dropped i st) = AList.delete i (ds_slots st)"
  by (auto simp: dropped_def delete_absent split: option.split)

lemma dropped_bytes:
  "directory_ok st \<Longrightarrow> map_of (ds_slots st) i = Some old \<Longrightarrow> ds_bytes st = ds_bytes (dropped i st) + unat (sl_len old)"
  using total_delete [of "ds_slots st" i old "\<lambda>s. unat (sl_len s)"] by (simp add: dropped_def directory_ok_def counted_def placed_def)

lemma dropped_ok:
  assumes ok: "directory_ok st"
  shows "directory_ok (dropped i st)"
proof (cases "map_of (ds_slots st) i")
  case None
  then show ?thesis using ok by (simp add: dropped_def)
next
  case (Some old)
  have one: "j = i" if "(sl_position old, j) \<in> set (ds_order st)" for j
  proof -
    have "(sl_position old, i) \<in> set (ds_order st)" using ok Some by (auto simp: directory_ok_def placed_def)
    moreover have "distinct (map fst (ds_order st))" using ok by (auto simp: directory_ok_def placed_def strict_sorted_iff)
    ultimately show ?thesis using that by (metis eq_key_imp_eq_value)
  qed
  have "placed (dropped i st)"
    using ok Some one by (auto simp: directory_ok_def placed_def dropped_def sorted_bt_remove set_bt_remove delete_conv' distinct_delete simp del: map_of_eq_Some_iff)
  moreover have "counted (dropped i st)"
    using ok dropped_bytes [OF ok Some] total_delete [OF _ Some, of "\<lambda>s. unat (sl_len s)"] by (simp add: directory_ok_def counted_def placed_def)
  ultimately show ?thesis by (simp add: directory_ok_def)
qed

section \<open>Insertions and completions\<close>

definition filed :: "chunk_id \<Rightarrow> u64 \<Rightarrow> u32 \<Rightarrow> disk_state \<Rightarrow> disk_state" where
  "filed i lsn len st = (dropped i st)
     \<lparr> ds_clock := ds_clock st + 1,
       ds_slots := AList.delete i (ds_slots st) @ [(i, \<lparr> sl_lsn = lsn, sl_len = len, sl_position = ds_clock st + 1, sl_visited = False \<rparr>)],
       ds_order := ds_order (dropped i st) @ [(ds_clock st + 1, i)], ds_bytes := ds_bytes (dropped i st) + unat len \<rparr>"

lemma disk_insert_Ok:
  assumes ok: "directory_ok st" and clock: "ds_clock st + 1 < 2 ^ 64"
  shows "disk_insert i lsn len st = Ok (filed i lsn len st)"
proof -
  have "placed (dropped i st)" using dropped_ok [OF ok, of i] by (simp add: directory_ok_def)
  then have "bt_insert (ds_clock st + 1) i (ds_order (dropped i st)) = ds_order (dropped i st) @ [(ds_clock st + 1, i)]"
    by (intro bt_insert_last) (auto simp: placed_def less_Suc_eq_le simp del: map_of_eq_Some_iff)
  then show ?thesis
    using ok clock by (simp add: disk_insert_def filed_def directory_ok_def disk_remove_Ok checked_add_def update_absent delete_conv')
qed

lemma filed_ok:
  assumes ok: "directory_ok st"
  shows "directory_ok (filed i lsn len st)"
proof -
  have d: "placed (dropped i st)" "counted (dropped i st)" using dropped_ok [OF ok, of i] by (simp_all add: directory_ok_def)
  have "sl_position s \<le> Suc (ds_clock st)" if "j \<noteq> i" "map_of (ds_slots st) j = Some s" for j s
    using ok that unfolding directory_ok_def placed_def by (metis le_SucI)
  then have "placed (filed i lsn len st)"
    using d(1) unfolding placed_def filed_def
    by (auto simp: sorted_wrt_append map_add_Some_iff delete_conv' less_Suc_eq_le delete_keys split: if_splits simp del: map_of_eq_Some_iff)
  moreover have "counted (filed i lsn len st)" using d(2) by (auto simp: counted_def filed_def)
  ultimately show ?thesis by (simp add: directory_ok_def)
qed

definition finished :: "chunk_id \<Rightarrow> active_write \<Rightarrow> disk_state \<Rightarrow> disk_state" where
  "finished i a st = st \<lparr> ds_active := AList.delete i (ds_active st), ds_extra := ds_extra st - aw_extra a,
     ds_new := ds_new st - of_bool (aw_new a), ds_allocation := ds_allocation st - aw_allocation a, ds_waiters := [] \<rparr>"

lemma disk_finish_Ok:
  assumes "directory_ok st" and a: "map_of (ds_active st) i = Some a"
  shows "disk_finish i st = Ok (ds_waiters st, finished i a st)" and "directory_ok (finished i a st)"
    and "ds_extra st = ds_extra (finished i a st) + aw_extra a" and "ds_new st = ds_new (finished i a st) + of_bool (aw_new a)"
proof -
  have d: "distinct (map fst (ds_active st))" using assms by (simp add: directory_ok_def counted_def)
  note sums = total_delete [OF d a, of aw_extra] total_delete [OF d a, of "\<lambda>a. of_bool (aw_new a)"] total_delete [OF d a, of aw_allocation]
  show "disk_finish i st = Ok (ds_waiters st, finished i a st)" "ds_extra st = ds_extra (finished i a st) + aw_extra a"
    "ds_new st = ds_new (finished i a st) + of_bool (aw_new a)"
    using assms sums by (simp_all add: disk_finish_def finished_def checked_sub_def directory_ok_def counted_def)
  show "directory_ok (finished i a st)"
    using assms sums by (simp add: finished_def directory_ok_def counted_def placed_def distinct_delete)
qed

section \<open>Victims\<close>

definition eligible :: "chunk_id option \<Rightarrow> disk_state \<Rightarrow> chunk_id \<Rightarrow> bool" where
  "eligible ex st i \<longleftrightarrow> \<not> excluded ex st i \<and> map_of (ds_slots st) i \<noteq> None"

text \<open>The order seen from the hand: the positions after it, then those up to it.\<close>

definition ring :: "disk_state \<Rightarrow> (nat \<times> chunk_id) list" where
  "ring st = filter (\<lambda>(p, _). ds_hand st < p) (ds_order st) @ filter (\<lambda>(p, _). p \<le> ds_hand st) (ds_order st)"

lemma set_ring [simp]: "set (ring st) = set (ds_order st)"
  by (auto simp: ring_def)

lemma length_ring [simp]: "length (ring st) = length (ds_order st)"
  using sum_length_filter_compl [of "\<lambda>(p, _). ds_hand st < p" "ds_order st"] by (simp add: ring_def not_less split_def)

lemma sorted_split:
  assumes "sorted_wrt (<) (map fst xs)"
  shows "xs = filter (\<lambda>(p, _). p \<le> h) xs @ filter (\<lambda>(p, _). (h :: nat) < p) xs"
  using assms
proof (induction xs)
  case (Cons x xs)
  show ?case
  proof (cases "fst x \<le> h")
    case False
    then have "filter (\<lambda>(p, _). p \<le> h) xs = []" using Cons.prems by (fastforce simp: filter_empty_conv)
    then show ?thesis using Cons False by (auto simp: split_def)
  qed (use Cons in \<open>auto simp: split_def\<close>)
qed simp

lemma find_filter: "find P xs = (case filter P xs of [] \<Rightarrow> None | x # _ \<Rightarrow> Some x)"
  by (induction xs) auto

lemma sorted_filter_at:
  assumes "sorted_wrt (<) (map fst (as @ (p, i) # bs))"
  shows "filter (\<lambda>(q, _). (p :: nat) < q) (as @ (p, i) # bs) = bs" and "filter (\<lambda>(q, _). q \<le> p) (as @ (p, i) # bs) = as @ [(p, i)]"
proof -
  have "\<forall>(q, _) \<in> set as. q < p" "\<forall>(q, _) \<in> set bs. p < q" using assms by (auto simp: sorted_wrt_append)
  then have "filter (\<lambda>(q, _). p < q) as = []" "filter (\<lambda>(q, _). p < q) bs = bs" "filter (\<lambda>(q, _). q \<le> p) as = as" "filter (\<lambda>(q, _). q \<le> p) bs = []"
    by (auto simp: filter_empty_conv filter_id_conv)
  then show "filter (\<lambda>(q, _). p < q) (as @ (p, i) # bs) = bs" "filter (\<lambda>(q, _). q \<le> p) (as @ (p, i) # bs) = as @ [(p, i)]" by simp_all
qed

lemma ring_next:
  assumes sorted: "sorted_wrt (<) (map fst (ds_order st))" and ring: "ring st = (p, i) # rest"
  shows "(case bt_first_after (ds_hand st) (ds_order st) of None \<Rightarrow> bt_first (ds_order st) | Some x \<Rightarrow> Some x) = Some (p, i)"
    and "ring (st \<lparr> ds_hand := p \<rparr>) = rest @ [(p, i)]"
proof -
  let ?lo = "filter (\<lambda>(q, _). q \<le> ds_hand st) (ds_order st)" and ?hi = "filter (\<lambda>(q, _). ds_hand st < q) (ds_order st)"
  have split: "ds_order st = ?lo @ ?hi" by (rule sorted_split [OF sorted])
  obtain as bs where at: "ds_order st = as @ (p, i) # bs" "rest = bs @ as" and
      first: "?hi = [] \<and> as = [] \<or> (\<exists>hi. ?hi = (p, i) # hi)"
  proof (cases ?hi)
    case Nil
    then show ?thesis using that [of "[]" rest] split ring by (simp add: ring_def)
  next
    case (Cons x hi)
    then show ?thesis using that [of ?lo hi] split ring by (simp add: ring_def)
  qed
  show "(case bt_first_after (ds_hand st) (ds_order st) of None \<Rightarrow> bt_first (ds_order st) | Some x \<Rightarrow> Some x) = Some (p, i)"
    using first at(1) by (auto simp: bt_first_after_def bt_first_def find_filter)
  show "ring (st \<lparr> ds_hand := p \<rparr>) = rest @ [(p, i)]"
    using sorted_filter_at [of as p i bs] sorted at by (simp add: ring_def)
qed

text \<open>What a sweep may change: the hand and the visited flags.\<close>

definition unmarked :: "slot \<Rightarrow> slot" where
  "unmarked s = s \<lparr> sl_visited := False \<rparr>"

definition swept :: "disk_state \<Rightarrow> disk_state \<Rightarrow> bool" where
  "swept st st' \<longleftrightarrow> st' \<lparr> ds_hand := ds_hand st, ds_slots := ds_slots st \<rparr> = st \<and> map fst (ds_slots st') = map fst (ds_slots st)
     \<and> map (unmarked \<circ> snd) (ds_slots st') = map (unmarked \<circ> snd) (ds_slots st)"

lemma swept_refl: "swept st st"
  by (simp add: swept_def)

lemma swept_trans: "swept st st' \<Longrightarrow> swept st' st'' \<Longrightarrow> swept st st''"
  by (cases st; cases st'; cases st'') (simp add: swept_def)

lemma swept_turn: "swept st (st \<lparr> ds_hand := p \<rparr>)"
  by (simp add: swept_def)

lemma swept_mark:
  assumes "map_of (ds_slots st) i = Some s"
  shows "swept st (st \<lparr> ds_slots := AList.update i (s \<lparr> sl_visited := b \<rparr>) (ds_slots st) \<rparr>)"
proof -
  have "map fst (AList.update i (s \<lparr> sl_visited := b \<rparr>) xs) = map fst xs
      \<and> map (unmarked \<circ> snd) (AList.update i (s \<lparr> sl_visited := b \<rparr>) xs) = map (unmarked \<circ> snd) xs" if "map_of xs i = Some s" for xs
    using that by (induction xs) (auto simp: unmarked_def split: if_splits)
  then show ?thesis using assms by (simp add: swept_def)
qed

lemma map_of_unmarked:
  fixes xs ys :: "(chunk_id \<times> slot) list"
  assumes "map fst xs = map fst ys" and "map (unmarked \<circ> snd) xs = map (unmarked \<circ> snd) ys"
  shows "map_option unmarked (map_of xs i) = map_option unmarked (map_of ys i)"
  using assms
proof (induction xs arbitrary: ys)
  case (Cons x xs)
  then obtain y ys' where ys: "ys = y # ys'" by (cases ys) auto
  show ?case using Cons.IH [of ys'] Cons.prems by (cases x; cases y; simp add: ys)
qed simp

lemma swept_map_of:
  "swept st st' \<Longrightarrow> map_option unmarked (map_of (ds_slots st') i) = map_option unmarked (map_of (ds_slots st) i)"
  by (rule map_of_unmarked) (simp_all add: swept_def)

lemma swept_fixed:
  assumes "swept st st'"
  shows "ds_order st' = ds_order st" "ds_active st' = ds_active st" "ds_bytes st' = ds_bytes st" "ds_clock st' = ds_clock st"
    "ds_extra st' = ds_extra st" "ds_new st' = ds_new st" "ds_allocation st' = ds_allocation st" "ds_waiters st' = ds_waiters st"
    "length (ds_slots st') = length (ds_slots st)" "map fst (ds_slots st') = map fst (ds_slots st)"
    "excluded ex st' i = excluded ex st i"
  using assms by (cases st; cases st'; simp add: swept_def excluded_def; metis length_map)+

lemma unmarked_eq: "unmarked s = unmarked t \<longleftrightarrow> sl_lsn s = sl_lsn t \<and> sl_len s = sl_len t \<and> sl_position s = sl_position t"
  by (cases s; cases t) (auto simp: unmarked_def)

lemma swept_slot:
  assumes "swept st st'"
  shows "map_of (ds_slots st') i = None \<longleftrightarrow> map_of (ds_slots st) i = None"
    and "map_of (ds_slots st') i = Some s' \<Longrightarrow> \<exists>s. map_of (ds_slots st) i = Some s \<and> unmarked s = unmarked s'"
proof -
  note eq = swept_map_of [OF assms, of i]
  show "map_of (ds_slots st') i = None \<longleftrightarrow> map_of (ds_slots st) i = None"
    using eq by (cases "map_of (ds_slots st') i"; cases "map_of (ds_slots st) i"; simp)
  show "\<exists>s. map_of (ds_slots st) i = Some s \<and> unmarked s = unmarked s'" if "map_of (ds_slots st') i = Some s'"
    using eq that by (cases "map_of (ds_slots st) i"; simp)
qed

lemma swept_lsn:
  assumes "swept st st'"
  shows "map_option sl_lsn (map_of (ds_slots st') i) = map_option sl_lsn (map_of (ds_slots st) i)"
  using swept_map_of [OF assms, of i] by (cases "map_of (ds_slots st) i"; cases "map_of (ds_slots st') i"; simp add: unmarked_eq)

lemma swept_directory:
  assumes "swept st st'" and "directory_ok st"
  shows "directory_ok st'"
proof -
  note fixed = swept_fixed [OF assms(1)]
  have pos: "(\<exists>s. map_of (ds_slots st') i = Some s \<and> sl_position s = p) \<longleftrightarrow> (\<exists>s. map_of (ds_slots st) i = Some s \<and> sl_position s = p)" for i p
    using swept_map_of [OF assms(1), of i] by (cases "map_of (ds_slots st) i"; cases "map_of (ds_slots st') i"; simp add: unmarked_eq)
  have "map (unat \<circ> sl_len \<circ> unmarked \<circ> snd) (ds_slots st') = map (unat \<circ> sl_len \<circ> unmarked \<circ> snd) (ds_slots st)"
    using assms(1) unfolding swept_def by (metis comp_assoc map_map)
  then have "total (\<lambda>s. unat (sl_len s)) (ds_slots st') = total (\<lambda>s. unat (sl_len s)) (ds_slots st)"
    by (simp add: unmarked_def comp_def split_def)
  then show ?thesis using assms(2) pos fixed by (simp add: directory_ok_def placed_def counted_def del: map_of_eq_Some_iff)
qed

lemma swept_eligible: "swept st st' \<Longrightarrow> eligible ex st' i \<longleftrightarrow> eligible ex st i"
  by (simp add: eligible_def swept_fixed swept_slot(1))

text \<open>One turn of the sweep.\<close>

lemma sweep_turn:
  assumes ok: "directory_ok st" and ring: "ring st = (p, i) # rest"
  shows "disk_sweep (Suc n) ex st =
    (let st = st \<lparr> ds_hand := p \<rparr> in
     if excluded ex st i then disk_sweep n ex st
     else let slot = the (map_of (ds_slots st) i) in
       if sl_visited slot then disk_sweep n ex (st \<lparr> ds_slots := AList.update i (slot \<lparr> sl_visited := False \<rparr>) (ds_slots st) \<rparr>)
       else Ok (Some (i, sl_lsn slot), st))"
proof -
  have "sorted_wrt (<) (map fst (ds_order st))" using ok by (simp add: directory_ok_def placed_def)
  note head = ring_next(1) [OF this ring]
  have "(p, i) \<in> set (ds_order st)" using ring set_ring [of st] by (metis list.set_intros(1))
  then obtain s where "map_of (ds_slots st) i = Some s" using ok unfolding directory_ok_def placed_def by blast
  then show ?thesis unfolding disk_sweep.simps head by (simp add: Let_def)
qed

text \<open>A turn either returns or continues in a state with the ring rotated by one.\<close>

lemma sweep_cases:
  assumes ok: "directory_ok st" and ring: "ring st = (p, i) # rest"
  obtains (stop) s where "map_of (ds_slots st) i = Some s" "eligible ex st i" "\<not> sl_visited s"
      "disk_sweep (Suc n) ex st = (Ok (Some (i, sl_lsn s), st \<lparr> ds_hand := p \<rparr>) :: ('e, _) res)"
  | (go) st' where "disk_sweep (Suc n) ex st = (disk_sweep n ex st' :: ('e, _) res)" "swept st st'" "ring st' = rest @ [(p, i)]"
      "eligible ex st i \<longrightarrow> map_option sl_visited (map_of (ds_slots st') i) = Some False"
      "\<And>j. j \<noteq> i \<Longrightarrow> map_of (ds_slots st') j = map_of (ds_slots st) j"
proof -
  have sorted: "sorted_wrt (<) (map fst (ds_order st))" using ok by (simp add: directory_ok_def placed_def)
  note rot = ring_next(2) [OF sorted ring]
  have "(p, i) \<in> set (ds_order st)" using ring set_ring [of st] by (metis list.set_intros(1))
  then obtain s where s: "map_of (ds_slots st) i = Some s" using ok unfolding directory_ok_def placed_def by blast
  let ?t = "st \<lparr> ds_hand := p \<rparr>" let ?u = "?t \<lparr> ds_slots := AList.update i (s \<lparr> sl_visited := False \<rparr>) (ds_slots st) \<rparr>"
  have ex: "excluded ex ?t i = excluded ex st i" by (simp add: excluded_def)
  show thesis
  proof (cases "excluded ex st i")
    case True
    then show thesis using go [of ?t] sweep_turn [OF ok ring, of n ex] rot ex swept_turn by (simp add: eligible_def)
  next
    case free: False
    show thesis
    proof (cases "sl_visited s")
      case True
      have "ring ?u = rest @ [(p, i)]" using rot by (simp add: ring_def)
      moreover have "swept st ?u" using swept_trans [OF swept_turn [of st p] swept_mark [of ?t i s False]] s by simp
      ultimately show thesis using go [of ?u] sweep_turn [OF ok ring, of n ex] ex free True s by (simp add: update_conv' Let_def)
    next
      case False
      then show thesis using stop [of s] sweep_turn [OF ok ring, of n ex] ex free s by (simp add: eligible_def Let_def)
    qed
  qed
qed

lemma sweep_returns:
  assumes "directory_ok st"
  shows "\<exists>v st'. disk_sweep n ex st = (Ok (v, st') :: ('e, _) res) \<and> swept st st'
    \<and> (\<forall>i lsn. v = Some (i, lsn) \<longrightarrow> eligible ex st i \<and> map_option sl_lsn (map_of (ds_slots st) i) = Some lsn)"
  using assms
proof (induction n arbitrary: st)
  case 0
  then show ?case by (simp add: swept_refl)
next
  case (Suc n)
  show ?case
  proof (cases "ring st")
    case Nil
    then have "ds_order st = []" by (metis length_0_conv length_ring)
    then show ?thesis by (simp add: bt_first_after_def bt_first_def swept_refl)
  next
    case (Cons x rest)
    obtain p i where x: "x = (p, i)" by (cases x)
    show ?thesis
    proof (cases rule: sweep_cases [OF Suc.prems Cons [unfolded x], of ex n, where 'e = 'e, case_names stop go])
      case (stop s)
      then show ?thesis by (simp add: swept_turn)
    next
      case (go st')
      obtain v st'' where r: "disk_sweep n ex st' = (Ok (v, st'') :: ('e, _) res)" "swept st' st''"
          "\<forall>i lsn. v = Some (i, lsn) \<longrightarrow> eligible ex st' i \<and> map_option sl_lsn (map_of (ds_slots st') i) = Some lsn"
        using Suc.IH [OF swept_directory [OF go(2) Suc.prems]] by blast
      have "eligible ex st i \<and> map_option sl_lsn (map_of (ds_slots st) i) = Some lsn" if "v = Some (i, lsn)" for i lsn
        using r(3) [rule_format, OF that] swept_eligible [OF go(2)] swept_lsn [OF go(2), of i] by (simp only:)
      then show ?thesis using go(1) r(1) swept_trans [OF go(2) r(2)] by simp
    qed
  qed
qed

lemma sweep_finds_unvisited:
  assumes "directory_ok st" and "k < length (ring st)" "k < n" and "eligible ex st (snd (ring st ! k))"
    and "map_option sl_visited (map_of (ds_slots st) (snd (ring st ! k))) = Some False"
  shows "\<exists>x st'. disk_sweep n ex st = (Ok (Some x, st') :: ('e, _) res)"
  using assms
proof (induction k arbitrary: st n)
  case 0
  then obtain p i rest n' where r: "ring st = (p, i) # rest" and n: "n = Suc n'" by (cases "ring st"; cases n) auto
  show ?case unfolding n sweep_turn [OF 0(1) r] using 0(4,5) r by (auto simp: Let_def eligible_def excluded_def)
next
  case (Suc k)
  then obtain p i rest n' where r: "ring st = (p, i) # rest" and n: "n = Suc n'" by (cases "ring st"; cases n) auto
  show ?case
  proof (cases rule: sweep_cases [OF Suc.prems(1) r, of ex n', where 'e = 'e, case_names stop go])
    case (stop s)
    then show ?thesis using n by simp
  next
    case (go st')
    have at: "ring st' ! k = ring st ! Suc k" "k < length (ring st')" using go(3) r Suc.prems(2) by (simp_all add: nth_append)
    have "map_option sl_visited (map_of (ds_slots st') (snd (ring st' ! k))) = Some False"
      using go(4,5) Suc.prems(4,5) at(1) by (cases "snd (ring st ! Suc k) = i") auto
    then show ?thesis
      using Suc.IH [of st' n'] swept_directory [OF go(2) Suc.prems(1)] swept_eligible [OF go(2)] at Suc.prems n go(1) by auto
  qed
qed

lemma sweep_finds:
  assumes "directory_ok st" and "k < length (ring st)" "k + length (ring st) < n" and "eligible ex st (snd (ring st ! k))"
  shows "\<exists>x st'. disk_sweep n ex st = (Ok (Some x, st') :: ('e, _) res)"
  using assms
proof (induction k arbitrary: st n)
  case 0
  then obtain p i rest n' where r: "ring st = (p, i) # rest" and n: "n = Suc n'" by (cases "ring st"; cases n) auto
  show ?case
  proof (cases rule: sweep_cases [OF 0(1) r, of ex n', where 'e = 'e, case_names stop go])
    case (stop s)
    then show ?thesis using n by simp
  next
    case (go st')
    have "\<exists>x st''. disk_sweep n' ex st' = (Ok (Some x, st'') :: ('e, _) res)"
      by (rule sweep_finds_unvisited [of _ "length rest"])
        (use go r n 0 swept_directory [OF go(2) 0(1)] swept_eligible [OF go(2)] in \<open>auto simp: nth_append\<close>)
    then show ?thesis using go(1) n by simp
  qed
next
  case (Suc k)
  then obtain p i rest n' where r: "ring st = (p, i) # rest" and n: "n = Suc n'" by (cases "ring st"; cases n) auto
  show ?case
  proof (cases rule: sweep_cases [OF Suc.prems(1) r, of ex n', where 'e = 'e, case_names stop go])
    case (stop s)
    then show ?thesis using n by simp
  next
    case (go st')
    have at: "ring st' ! k = ring st ! Suc k" "k < length (ring st')" "length (ring st') = length (ring st)"
      using go(3) r Suc.prems(2) by (simp_all add: nth_append del: length_ring)
    then show ?thesis
      using Suc.IH [of st' n'] swept_directory [OF go(2) Suc.prems(1)] swept_eligible [OF go(2)] Suc.prems n go(1) by (simp del: length_ring)
  qed
qed

lemma order_length:
  assumes "placed st"
  shows "length (ds_order st) = length (ds_slots st)"
proof -
  have d: "distinct (ds_order st)" "distinct (ds_slots st)" "distinct (map fst (ds_slots st))"
    using assms by (auto simp: placed_def strict_sorted_iff distinct_map)
  have "set (ds_order st) = (\<lambda>(i, s). (sl_position s, i)) ` set (ds_slots st)"
    using assms d(3) by (auto simp: placed_def image_iff) force+
  moreover have "inj_on (\<lambda>(i, s). (sl_position s, i)) (set (ds_slots st))" using d(3) by (auto simp: inj_on_def dest: eq_key_imp_eq_value)
  ultimately have "card (set (ds_order st)) = card (set (ds_slots st))" by (simp add: card_image)
  then show ?thesis using d by (simp add: distinct_card)
qed

lemma eligible_in_order: "placed st \<Longrightarrow> eligible ex st i \<Longrightarrow> \<exists>p. (p, i) \<in> set (ds_order st)"
  by (auto simp: placed_def eligible_def)

definition oldest :: "chunk_id option \<Rightarrow> disk_state \<Rightarrow> chunk_id \<Rightarrow> bool" where
  "oldest ex st i \<longleftrightarrow> (\<forall>j p q. eligible ex st j \<longrightarrow> (p, i) \<in> set (ds_order st) \<longrightarrow> (q, j) \<in> set (ds_order st) \<longrightarrow> p \<le> q)"

definition victim_right :: "disk_policy \<Rightarrow> chunk_id option \<Rightarrow> disk_state \<Rightarrow> (chunk_id \<times> u64) option \<Rightarrow> bool" where
  "victim_right policy ex st v \<longleftrightarrow>
     (case v of
        None \<Rightarrow> (\<forall>i. \<not> eligible ex st i)
      | Some (i, lsn) \<Rightarrow> eligible ex st i \<and> map_option sl_lsn (map_of (ds_slots st) i) = Some lsn
          \<and> (policy = DiskFifo \<longrightarrow> oldest ex st i))"

lemma fifo_victim:
  assumes ok: "directory_ok st"
  shows "\<exists>v. disk_victim DiskFifo ex st = Ok (v, st) \<and> victim_right DiskFifo ex st v"
proof (cases "find (\<lambda>(_, i). \<not> excluded ex st i) (ds_order st)")
  case None
  then have "\<not> eligible ex st i" for i
    using eligible_in_order [of st ex i] ok by (auto simp: find_None_iff directory_ok_def eligible_def)
  then show ?thesis using None by (simp add: disk_victim_def victim_right_def)
next
  case (Some x)
  obtain p i where x: "x = (p, i)" by (cases x)
  obtain n where f: "n < length (ds_order st)" "\<not> excluded ex st (snd (ds_order st ! n))" "x = ds_order st ! n"
      "\<forall>m < n. excluded ex st (snd (ds_order st ! m))"
    using Some unfolding find_Some_iff by (auto simp: split_def)
  have n: "n < length (ds_order st)" "ds_order st ! n = (p, i)" "\<not> excluded ex st i" "\<And>m. m < n \<Longrightarrow> excluded ex st (snd (ds_order st ! m))"
    using f x by (metis snd_conv)+
  have at: "(p, i) \<in> set (ds_order st)" using n(1,2) by (metis nth_mem)
  then obtain s where s: "map_of (ds_slots st) i = Some s" using ok unfolding directory_ok_def placed_def by blast
  have "oldest ex st i"
  proof -
    have "p' \<le> q" if j: "eligible ex st j" "(p', i) \<in> set (ds_order st)" "(q, j) \<in> set (ds_order st)" for j p' q
    proof -
      have "p' = p" using ok at j(2) unfolding directory_ok_def placed_def by (metis option.inject)
      obtain m where m: "m < length (ds_order st)" "ds_order st ! m = (q, j)" using j(3) by (metis in_set_conv_nth)
      have "n \<le> m" using n(4) [of m] m(2) j(1) by (auto simp: eligible_def not_less [symmetric])
      then have "map fst (ds_order st) ! n \<le> map fst (ds_order st) ! m"
        using ok m(1) by (intro sorted_nth_mono) (auto simp: directory_ok_def placed_def strict_sorted_iff)
      then show ?thesis using n(1,2) m \<open>p' = p\<close> by simp
    qed
    then show ?thesis by (auto simp: oldest_def)
  qed
  then show ?thesis using Some x s n(3) by (simp add: disk_victim_def victim_right_def eligible_def)
qed

lemma disk_victim_found:
  assumes ok: "directory_ok st" and size: "2 * length (ds_slots st) \<le> usize_max"
  shows "\<exists>v st'. disk_victim policy ex st = (Ok (v, st') :: ('e, _) res) \<and> swept st st' \<and> directory_ok st' \<and> victim_right policy ex st v"
proof (cases policy)
  case DiskFifo
  then show ?thesis using fifo_victim [OF ok, of ex] ok swept_refl by metis
next
  case DiskSieve
  let ?n = "2 * length (ds_slots st)"
  have sweep: "disk_victim policy ex st = (disk_sweep ?n ex st :: ('e, _) res)" using DiskSieve size by (simp add: disk_victim_def min_def)
  obtain v st' where r: "disk_sweep ?n ex st = (Ok (v, st') :: ('e, _) res)" "swept st st'"
      "\<forall>i lsn. v = Some (i, lsn) \<longrightarrow> eligible ex st i \<and> map_option sl_lsn (map_of (ds_slots st) i) = Some lsn"
    using sweep_returns [OF ok] by blast
  have "\<not> eligible ex st i" if "v = None" for i
  proof
    assume e: "eligible ex st i"
    then obtain k where k: "k < length (ring st)" "snd (ring st ! k) = i"
      using eligible_in_order [of st ex i] ok by (metis directory_ok_def in_set_conv_nth set_ring snd_conv)
    then have "\<exists>x st'. disk_sweep ?n ex st = (Ok (Some x, st') :: ('e, _) res)"
      using sweep_finds [OF ok k(1), of ?n ex] e order_length [of st] ok by (simp add: directory_ok_def)
    then show False using r(1) that by simp
  qed
  then show ?thesis using r sweep swept_directory [OF r(2) ok] DiskSieve by (auto simp: victim_right_def split: option.split)
qed

text \<open>C20: replacement: choosing a victim always returns and changes at most the hand and visited flags; the victim is a live slot
  that is neither excluded nor being written, the oldest such under FIFO; and none is returned only when no slot is
  eligible, so twice the number of slots is enough turns for SIEVE.\<close>

theorem disk_victim_exact:
  assumes "directory_ok st" and "2 * length (ds_slots st) \<le> usize_max"
  shows "\<exists>v st'. disk_victim policy ex st = (Ok (v, st') :: ('e, _) res) \<and> swept st st' \<and> directory_ok st' \<and> victim_right policy ex st v"
  by (rule disk_victim_found [OF assms])

section \<open>Limits\<close>

definition within :: "disk \<Rightarrow> disk_state \<Rightarrow> bool" where
  "within disk st \<longleftrightarrow> ds_bytes st + ds_extra st \<le> dk_capacity disk \<and> length (ds_slots st) + ds_new st \<le> dk_entries disk"

text \<open>A reservation holds exactly what its commit will add to the slot it replaces.\<close>

definition covered :: "disk_state \<Rightarrow> reservation \<Rightarrow> bool" where
  "covered st r \<longleftrightarrow>
     (\<exists>a. map_of (ds_active st) (rv_id r) = Some a
        \<and> (case map_of (ds_slots st) (rv_id r) of
             None \<Rightarrow> aw_new a \<and> aw_extra a = unat (rv_len r)
           | Some s \<Rightarrow> \<not> aw_new a \<and> aw_extra a = unat (rv_len r) - unat (sl_len s)))"

definition disk_run_ok :: "disk \<Rightarrow> disk_run \<Rightarrow> bool" where
  "disk_run_ok disk = (\<lambda>(st, R). directory_ok st \<and> within disk st \<and> distinct (map rv_id R) \<and> (\<forall>r \<in> set R. covered st r)
     \<and> fst ` set (ds_active st) = rv_id ` set R)"

lemma swept_within: "swept st st' \<Longrightarrow> within disk st' \<longleftrightarrow> within disk st"
  by (simp add: within_def swept_fixed)

lemma swept_covered: "swept st st' \<Longrightarrow> covered st' r \<longleftrightarrow> covered st r"
  using swept_map_of [of st st' "rv_id r"]
  by (cases "map_of (ds_slots st) (rv_id r)"; cases "map_of (ds_slots st') (rv_id r)") (auto simp: covered_def swept_fixed unmarked_eq)

lemma swept_run: "swept st st' \<Longrightarrow> disk_run_ok disk (st, R) \<Longrightarrow> disk_run_ok disk (st', R)"
  by (simp add: disk_run_ok_def swept_directory swept_within swept_covered swept_fixed)

lemma wait_run: "disk_run_ok disk (st, R) \<Longrightarrow> disk_run_ok disk (disk_wait canceled sender st, R)"
  by (simp add: disk_run_ok_def disk_wait_def directory_ok_def placed_def counted_def within_def covered_def del: map_of_eq_Some_iff)

lemma removed_run:
  assumes ok: "disk_run_ok disk (st, R)" and idle: "map_of (ds_active st) i = None"
  shows "disk_run_ok disk (dropped i st, R)"
proof -
  have d: "directory_ok st" using ok by (simp add: disk_run_ok_def)
  have "within disk (dropped i st)"
    using ok dropped_bytes [OF d, of i] length_delete_le [of i "ds_slots st"]
    by (cases "map_of (ds_slots st) i") (simp_all add: disk_run_ok_def within_def, simp add: dropped_def)
  moreover have "covered (dropped i st) r" if "r \<in> set R" for r
  proof -
    have "covered st r" using ok that by (simp add: disk_run_ok_def)
    then have "rv_id r \<noteq> i" using idle by (auto simp: covered_def simp del: map_of_eq_Some_iff)
    then show ?thesis using ok that by (simp add: disk_run_ok_def covered_def)
  qed
  ultimately show ?thesis using ok dropped_ok [OF d] by (simp add: disk_run_ok_def)
qed

lemma victim_swept:
  assumes "directory_ok st" and "disk_victim policy ex st = (Ok (v, st') :: ('e, _) res)"
  shows "swept st st'"
proof (cases policy)
  case DiskFifo
  then obtain w where "disk_victim policy ex st = (Ok (w, st) :: ('e, _) res)" using fifo_victim [OF assms(1), of ex] by blast
  then show ?thesis using assms(2) swept_refl by simp
next
  case DiskSieve
  obtain w u where "disk_sweep (min (2 * length (ds_slots st)) usize_max) ex st = (Ok (w, u) :: ('e, _) res)" "swept st u"
    using sweep_returns [OF assms(1)] by blast
  then show ?thesis using assms(2) DiskSieve by (simp add: disk_victim_def)
qed

lemma admitted_run:
  assumes ok: "disk_run_ok disk (st, R)" and idle: "map_of (ds_active st) i = None" and len: "len < 2 ^ 32"
    and extra: "extra = len - (case map_of (ds_slots st) i of None \<Rightarrow> 0 | Some s \<Rightarrow> unat (sl_len s))"
    and fits: "ds_bytes st + ds_extra st + extra \<le> dk_capacity disk" "length (ds_slots st) + ds_new st + of_bool (map_of (ds_slots st) i = None) \<le> dk_entries disk"
  shows "disk_run_ok disk
    (st \<lparr> ds_active := AList.update i \<lparr> aw_extra = extra, aw_new = (map_of (ds_slots st) i = None), aw_allocation = allocation \<rparr> (ds_active st),
          ds_extra := ds_extra st + extra, ds_new := ds_new st + of_bool (map_of (ds_slots st) i = None),
          ds_allocation := ds_allocation st + allocation \<rparr>, \<lparr> rv_id = i, rv_len = of_nat len \<rparr> # R)" (is "disk_run_ok disk (?st, ?r # R)")
proof -
  have fresh: "i \<notin> rv_id ` set R" "i \<notin> fst ` set (ds_active st)" using ok idle by (auto simp: disk_run_ok_def map_of_eq_None_iff)
  have "directory_ok ?st"
    using ok idle fresh by (simp add: disk_run_ok_def directory_ok_def placed_def counted_def update_absent del: map_of_eq_Some_iff)
  moreover have "within disk ?st" using fits by (simp add: within_def)
  moreover have "covered ?st ?r"
    using extra len by (simp add: covered_def update_conv' unat_of_nat split: option.split del: map_of_eq_Some_iff)
  moreover have "covered ?st r" if "r \<in> set R" for r
  proof -
    have "rv_id r \<noteq> i" using fresh(1) that by auto
    then show ?thesis using ok that by (simp add: disk_run_ok_def covered_def update_conv' del: map_of_eq_Some_iff)
  qed
  ultimately show ?thesis using ok fresh by (auto simp: disk_run_ok_def update_absent [OF idle])
qed

abbreviation old_len :: "disk_state \<Rightarrow> chunk_id \<Rightarrow> nat" where
  "old_len st i \<equiv> (case map_of (ds_slots st) i of None \<Rightarrow> 0 | Some s \<Rightarrow> unat (sl_len s))"

lemma decide_reserved:
  assumes run: "write_decide disk usage canceled sender allocation i len st = (Ok (Reserved r, st') :: ('s cache_error, _) res)"
  shows "map_of (ds_active st) i = None" "r = \<lparr> rv_id = i, rv_len = of_nat len \<rparr>"
    "ds_bytes st + ds_extra st + (len - old_len st i) \<le> dk_capacity disk"
    "length (ds_slots st) + ds_new st + of_bool (map_of (ds_slots st) i = None) \<le> dk_entries disk"
    "st' = st \<lparr> ds_active := AList.update i \<lparr> aw_extra = len - old_len st i, aw_new = (map_of (ds_slots st) i = None), aw_allocation = allocation \<rparr> (ds_active st),
          ds_extra := ds_extra st + (len - old_len st i), ds_new := ds_new st + of_bool (map_of (ds_slots st) i = None),
          ds_allocation := ds_allocation st + allocation \<rparr>"
proof -
  have no: "rbind (disk_victim p ex st) (\<lambda>(victim, st).
        case victim of
          Some (v, lsn) \<Rightarrow> Ok (Evict v lsn, st)
        | None \<Rightarrow> if ds_active st \<noteq> [] then Ok (Wait sender, disk_wait canceled sender st) else Err CE_NoSpace) \<noteq> (Ok (Reserved r, st') :: ('s cache_error, _) res)" for p ex
    by (auto simp: rbind_Ok_iff split: option.splits)
  note unfolded = run [unfolded write_decide_def Let_def]
  show "map_of (ds_active st) i = None" "r = \<lparr> rv_id = i, rv_len = of_nat len \<rparr>"
    "ds_bytes st + ds_extra st + (len - old_len st i) \<le> dk_capacity disk"
    "length (ds_slots st) + ds_new st + of_bool (map_of (ds_slots st) i = None) \<le> dk_entries disk"
    "st' = st \<lparr> ds_active := AList.update i \<lparr> aw_extra = len - old_len st i, aw_new = (map_of (ds_slots st) i = None), aw_allocation = allocation \<rparr> (ds_active st),
          ds_extra := ds_extra st + (len - old_len st i), ds_new := ds_new st + of_bool (map_of (ds_slots st) i = None),
          ds_allocation := ds_allocation st + allocation \<rparr>"
    using unfolded no by (simp_all split: if_split_asm split del: split_of_bool split_of_bool_asm del: map_of_eq_Some_iff)
qed

lemma decide_other:
  assumes run: "write_decide disk usage canceled sender allocation i len st = (Ok (action, st') :: ('s cache_error, _) res)"
    and "\<And>r. action \<noteq> Reserved r"
  shows "(\<exists>w. action = Wait w \<and> st' = disk_wait canceled sender st)
    \<or> (\<exists>v u. disk_victim (dk_policy disk) (Some i) st = (Ok (v, u) :: ('s cache_error, _) res)
        \<and> (case v of None \<Rightarrow> action = Wait sender \<and> st' = disk_wait canceled sender u | Some (j, lsn) \<Rightarrow> action = Evict j lsn \<and> st' = u))"
  using run [unfolded write_decide_def Let_def] assms(2) [of "\<lparr> rv_id = i, rv_len = of_nat len \<rparr>"]
  by (simp split: if_split_asm) (auto simp: rbind_Ok_iff split: if_split_asm option.split_asm)

lemma decided_run:
  assumes ok: "disk_run_ok disk (st, R)" and len: "len < 2 ^ 32"
    and run: "write_decide disk usage canceled sender allocation i len st = (Ok (action, st') :: ('s cache_error, _) res)"
  shows "disk_run_ok disk (st', case action of Reserved r \<Rightarrow> r # R | _ \<Rightarrow> R)"
proof (cases "\<exists>r. action = Reserved r")
  case True
  then obtain r where r: "action = Reserved r" by blast
  note d = decide_reserved [OF run [unfolded r]]
  have "disk_run_ok disk (st', r # R)" unfolding d(2,5) by (rule admitted_run [OF ok d(1) len refl d(3,4)])
  then show ?thesis using r by simp
next
  case False
  then have keep: "(case action of Reserved r \<Rightarrow> r # R | _ \<Rightarrow> R) = R" by (cases action) auto
  have dir: "directory_ok st" using ok by (simp add: disk_run_ok_def)
  from False have no: "\<And>r. action \<noteq> Reserved r" by blast
  from decide_other [OF run no] have "disk_run_ok disk (st', R)"
  proof (elim disjE exE conjE)
    fix v u assume u: "disk_victim (dk_policy disk) (Some i) st = (Ok (v, u) :: ('s cache_error, _) res)"
      and "case v of None \<Rightarrow> action = Wait sender \<and> st' = disk_wait canceled sender u | Some (j, lsn) \<Rightarrow> action = Evict j lsn \<and> st' = u"
    moreover have "disk_run_ok disk (u, R)" using swept_run [OF victim_swept [OF dir u] ok] .
    ultimately show ?thesis using wait_run by (auto split: option.splits)
  qed (use wait_run [OF ok] in auto)
  then show ?thesis using keep by simp
qed

lemma disk_insert_inv:
  assumes "directory_ok st" and "disk_insert i lsn len st = (Ok st' :: ('e, _) res)"
  shows "st' = filed i lsn len st"
proof -
  have "ds_clock st + 1 < 2 ^ 64"
    using assms by (auto simp: disk_insert_def disk_remove_Ok directory_ok_def checked_add_def split: if_splits)
  then show ?thesis using disk_insert_Ok [OF assms(1), of i lsn len, where 'a = 'e] assms(2) by simp
qed

text \<open>Completing the reservation \<open>r\<close> in a state whose slots changed at most at its identifier.\<close>

lemma finished_run:
  assumes ok: "disk_run_ok disk (st, R)" and r: "r \<in> set R" and a: "map_of (ds_active st) (rv_id r) = Some a"
    and st': "directory_ok st'" "ds_active st' = ds_active st" "\<And>j. j \<noteq> rv_id r \<Longrightarrow> map_of (ds_slots st') j = map_of (ds_slots st) j"
    and limits: "ds_bytes st' + (ds_extra st' - aw_extra a) \<le> dk_capacity disk" "length (ds_slots st') + (ds_new st' - of_bool (aw_new a)) \<le> dk_entries disk"
  shows "disk_run_ok disk (finished (rv_id r) a st', remove1 r R)"
proof -
  have a': "map_of (ds_active st') (rv_id r) = Some a" using a st'(2) by simp
  have R: "distinct (map rv_id R)" "distinct R" using ok by (auto simp: disk_run_ok_def distinct_map)
  have other: "rv_id q \<noteq> rv_id r" if "q \<in> set (remove1 r R)" for q
    using R that r by (auto simp: distinct_map inj_on_def)
  have "covered (finished (rv_id r) a st') q" if q: "q \<in> set (remove1 r R)" for q
  proof -
    have "covered st q" using ok q R(2) by (simp add: disk_run_ok_def)
    then show ?thesis using other [OF q] st'(2,3) by (simp add: covered_def finished_def del: map_of_eq_Some_iff)
  qed
  moreover have "rv_id ` (set R - {r}) = rv_id ` set R - {rv_id r}" using R(1) r by (auto simp: distinct_map inj_on_def)
  then have "fst ` set (ds_active (finished (rv_id r) a st')) = rv_id ` set (remove1 r R)"
    using ok R(2) st'(2) delete_keys [of "rv_id r" "ds_active st"] by (simp add: disk_run_ok_def finished_def flip: set_map)
  moreover have "distinct (map rv_id (remove1 r R))" using R by (simp add: distinct_map inj_on_def)
  moreover have "within disk (finished (rv_id r) a st')" using limits by (simp add: within_def finished_def)
  ultimately show ?thesis using disk_finish_Ok(2) [OF st'(1) a'] by (simp add: disk_run_ok_def)
qed

lemma aborted_run:
  assumes ok: "disk_run_ok disk (st, R)" and r: "r \<in> set R"
  shows "\<exists>woken st'. reservation_drop r st = (Ok (woken, st') :: ('e, _) res) \<and> disk_run_ok disk (st', remove1 r R)"
proof -
  have dir: "directory_ok st" and w: "within disk st" and "covered st r" using ok r by (simp_all add: disk_run_ok_def)
  then obtain a where a: "map_of (ds_active st) (rv_id r) = Some a" unfolding covered_def by blast
  note f = disk_finish_Ok [OF dir a]
  have "disk_run_ok disk (finished (rv_id r) a st, remove1 r R)"
    by (rule finished_run [OF ok r a dir refl refl]) (use w f(3,4) in \<open>simp_all add: within_def\<close>)
  then show ?thesis using disk_finish_Ok(1) [OF dir a, where 'a = 'e] by (simp add: reservation_drop_def)
qed

lemma filed_fixed [simp]:
  "ds_active (filed i lsn len st) = ds_active st" "ds_extra (filed i lsn len st) = ds_extra st" "ds_new (filed i lsn len st) = ds_new st"
  by (simp_all add: filed_def)

lemma filed_slots:
  "map_of (ds_slots (filed i lsn len st)) j =
     (if j = i then Some \<lparr> sl_lsn = lsn, sl_len = len, sl_position = ds_clock st + 1, sl_visited = False \<rparr> else map_of (ds_slots st) j)"
  by (simp add: filed_def map_add_def delete_conv' split: option.split del: map_of_eq_Some_iff)

lemma committed_run:
  assumes ok: "disk_run_ok disk (st, R)" and r: "r \<in> set R" and clock: "ds_clock st + 1 < 2 ^ 64"
  shows "\<exists>woken st'. reservation_commit r lsn st = (Ok (woken, st') :: ('e, _) res) \<and> disk_run_ok disk (st', remove1 r R)"
proof -
  let ?i = "rv_id r" let ?f = "filed ?i lsn (rv_len r) st"
  have dir: "directory_ok st" and w: "within disk st" and cov: "covered st r" using ok r by (simp_all add: disk_run_ok_def)
  then obtain a where a: "map_of (ds_active st) ?i = Some a" unfolding covered_def by blast
  have sum: "ds_extra st \<ge> aw_extra a" "ds_new st \<ge> of_bool (aw_new a)" using disk_finish_Ok(3,4) [OF dir a] by simp_all
  have "ds_bytes ?f + (ds_extra st - aw_extra a) \<le> dk_capacity disk \<and> length (ds_slots ?f) + (ds_new st - of_bool (aw_new a)) \<le> dk_entries disk"
  proof (cases "map_of (ds_slots st) ?i")
    case None
    then have "ds_bytes ?f = ds_bytes st + unat (rv_len r)" "length (ds_slots ?f) = Suc (length (ds_slots st))"
      by (simp_all add: filed_def dropped_def delete_absent)
    then show ?thesis using w cov a None sum by (simp add: within_def covered_def)
  next
    case (Some s)
    have "length (ds_slots ?f) = length (ds_slots st)"
      using length_delete [OF _ Some] dir by (simp add: filed_def directory_ok_def placed_def)
    moreover have "ds_bytes ?f + unat (sl_len s) = ds_bytes st + unat (rv_len r)"
      using dropped_bytes [OF dir Some] by (simp add: filed_def)
    moreover have "\<not> aw_new a" "aw_extra a = unat (rv_len r) - unat (sl_len s)" using cov a Some by (simp_all add: covered_def)
    ultimately show ?thesis using w sum unfolding within_def by (simp, linarith)
  qed
  then have "disk_run_ok disk (finished ?i a ?f, remove1 r R)"
    by (intro finished_run [OF ok r a filed_ok [OF dir]]) (simp_all add: filed_slots del: map_of_eq_Some_iff)
  then show ?thesis
    using disk_insert_Ok [OF dir clock, where 'a = 'e] disk_finish_Ok(1) [OF filed_ok [OF dir], of ?i, where 'a = 'e] a by (simp add: reservation_commit_def)
qed

lemma hit_run: "disk_run_ok disk (st, R) \<Longrightarrow> validate_hit i lsn st = (hit, st') \<Longrightarrow> disk_run_ok disk (st', R)"
  by (auto simp: validate_hit_def split: if_splits option.splits intro: swept_run [OF swept_mark])

lemma disk_step_ok:
  assumes "disk_step disk run run'" and "disk_run_ok disk run"
  shows "disk_run_ok disk run'"
  using assms
proof cases
  case (step_decide len usage canceled sender allocation i st action st' R)
  then show ?thesis using decided_run assms(2) by blast
next
  case (step_removed st i st' R)
  then have "st' = dropped i st" using assms(2) by (simp add: disk_remove_Ok disk_run_ok_def directory_ok_def)
  then show ?thesis using removed_run assms(2) step_removed by simp
next
  case (step_commit r R lsn st woken st')
  have dir: "directory_ok st" using assms(2) step_commit(1) by (simp add: disk_run_ok_def)
  have "ds_clock st + 1 < 2 ^ 64"
    using step_commit(4) dir by (auto simp: reservation_commit_def disk_insert_def disk_remove_Ok directory_ok_def checked_add_def split: if_splits)
  then show ?thesis using committed_run [of disk st R r lsn, where 'e = unit] assms(2) step_commit by auto
next
  case (step_abort r R st woken st')
  then show ?thesis using aborted_run [of disk st R r, where 'e = unit] assms(2) by auto
next
  case (step_hit i lsn st hit st' R)
  then show ?thesis using hit_run assms(2) by simp
qed

section \<open>Opening and trimming\<close>

definition idle_ok :: "disk_state \<Rightarrow> bool" where
  "idle_ok st \<longleftrightarrow> directory_ok st \<and> ds_active st = []"

lemma idle_new: "idle_ok disk_state_new"
  by (simp add: idle_ok_def disk_state_new_def directory_ok_def placed_def counted_def)

lemma idle_counts: "idle_ok st \<Longrightarrow> ds_extra st = 0 \<and> ds_new st = 0 \<and> ds_allocation st = 0"
  by (simp add: idle_ok_def directory_ok_def counted_def)

lemma catalog_load_ok:
  assumes "catalog_load disk_of entries states = (Ok states' :: ('s cache_error, _) res)" and "\<forall>st \<in> set states. idle_ok st"
  shows "\<forall>st \<in> set states'. idle_ok st"
  using assms
proof (induction entries arbitrary: states)
  case (Cons entry rest)
  let ?st = "states ! ie_disk entry"
  from Cons.prems(1) obtain st where st: "disk_insert (ie_id entry) (ie_lsn entry) (ie_len entry) ?st = (Ok st :: ('s cache_error, _) res)"
      and rest: "catalog_load disk_of rest (states[ie_disk entry := st]) = (Ok states' :: ('s cache_error, _) res)"
      and i: "ie_disk entry < length states"
    by (auto simp: Let_def rbind_Ok_iff split: if_splits)
  have "idle_ok ?st" using Cons.prems(2) i by simp
  then have "idle_ok st" using disk_insert_inv [OF _ st] filed_ok by (simp add: idle_ok_def)
  then have "\<forall>st \<in> set (states[ie_disk entry := st]). idle_ok st" using Cons.prems(2) set_update_subset_insert by fastforce
  then show ?case using Cons.IH [OF rest] by blast
qed simp

lemma removed_idle: "idle_ok st \<Longrightarrow> idle_ok (dropped i st)"
  by (simp add: idle_ok_def dropped_ok)

lemma swept_idle: "swept st st' \<Longrightarrow> idle_ok st \<Longrightarrow> idle_ok st'"
  by (simp add: idle_ok_def swept_directory swept_fixed)

lemma evict_idle:
  assumes "idle_ok st" and "catalog_evict result i st = (Ok st' :: ('s cache_error, _) res)"
  shows "st' = dropped i st" and "idle_ok st'"
proof -
  show "st' = dropped i st" using assms by (auto simp: catalog_evict_def disk_remove_Ok idle_ok_def directory_ok_def split: delete_result.splits)
  then show "idle_ok st'" using assms(1) by (simp add: removed_idle)
qed

lemma catalog_trim_ok:
  "catalog_trim delete disk st = Some (r :: ('s cache_error, _) res) \<Longrightarrow> idle_ok st \<Longrightarrow> r = Ok st' \<Longrightarrow>
   idle_ok st' \<and> ds_bytes st' \<le> dk_capacity disk \<and> length (ds_slots st') \<le> dk_entries disk"
proof (induction delete disk st r rule: catalog_trim.raw_induct [rotated 1, consumes 1, case_names 1])
  case (1 f delete disk st r)
  show ?case
  proof (cases "ds_bytes st \<le> dk_capacity disk \<and> length (ds_slots st) \<le> dk_entries disk")
    case True
    then show ?thesis using 1 by auto
  next
    case False
    then obtain v lsn u w where v: "disk_victim (dk_policy disk) None st = (Ok (Some (v, lsn), u) :: ('s cache_error, _) res)"
        and w: "rbind (delete v lsn) (\<lambda>result. catalog_evict result v u) = Ok w" and f: "f delete disk w = Some r"
      using 1(2,4) by (auto split: if_splits res.splits option.splits prod.splits)
    have "idle_ok u" using swept_idle victim_swept [OF _ v] 1(3) by (simp add: idle_ok_def)
    then have "idle_ok w" using w evict_idle(2) by (auto simp: rbind_Ok_iff)
    then show ?thesis using 1(1) [OF f] 1(4) by blast
  qed
qed

lemma idle_run: "idle_ok st \<Longrightarrow> ds_bytes st \<le> dk_capacity disk \<Longrightarrow> length (ds_slots st) \<le> dk_entries disk \<Longrightarrow> disk_run_ok disk (st, [])"
  using idle_counts by (simp add: disk_run_ok_def idle_ok_def within_def)

lemma disk_reach_ok: "disk_reach disk run \<Longrightarrow> disk_run_ok disk run"
proof (induction rule: disk_reach.induct)
  case (disk_loaded disk_of entries disks states st delete st')
  have "idle_ok st" using catalog_load_ok [OF disk_loaded(1)] idle_new disk_loaded(2) by simp
  then show ?case using catalog_trim_ok [OF disk_loaded(3)] idle_run by blast
next
  case (disk_moved run run')
  then show ?case using disk_step_ok by blast
qed

text \<open>C8: disk limits: through every order of admissions, evictions, completions, failures and hits, the directory counts its live
  bytes exactly, live and reserved bytes stay within the capacity and live and reserved entries within the entry
  limit, and every outstanding reservation can be completed or dropped without a panic.\<close>

theorem catalog_within_limits:
  assumes reach: "disk_reach disk (st, R)"
  shows "ds_bytes st = (\<Sum>(_, s) \<leftarrow> ds_slots st. unat (sl_len s)) \<and> ds_bytes st + ds_extra st \<le> dk_capacity disk
    \<and> length (ds_slots st) + ds_new st \<le> dk_entries disk
    \<and> (\<forall>r \<in> set R. (\<exists>x. reservation_drop r st = (Ok x :: (unit, _) res))
        \<and> (ds_clock st + 1 < 2 ^ 64 \<longrightarrow> (\<exists>x. reservation_commit r lsn st = (Ok x :: (unit, _) res))))"
proof (intro conjI ballI impI)
  have ok: "disk_run_ok disk (st, R)" by (rule disk_reach_ok [OF reach])
  show "ds_bytes st = (\<Sum>(_, s) \<leftarrow> ds_slots st. unat (sl_len s))" using ok by (simp add: disk_run_ok_def directory_ok_def counted_def)
  show "ds_bytes st + ds_extra st \<le> dk_capacity disk" "length (ds_slots st) + ds_new st \<le> dk_entries disk"
    using ok by (simp_all add: disk_run_ok_def within_def)
  fix r assume r: "r \<in> set R"
  show "\<exists>x. reservation_drop r st = (Ok x :: (unit, _) res)" using aborted_run [OF ok r, where 'e = unit] by blast
  assume "ds_clock st + 1 < 2 ^ 64"
  then show "\<exists>x. reservation_commit r lsn st = (Ok x :: (unit, _) res)" using committed_run [OF ok r, of lsn, where 'e = unit] by blast
qed

section \<open>The loops end\<close>

definition deletes :: "(chunk_id \<Rightarrow> u64 \<Rightarrow> ('s cache_error, delete_result) res) \<Rightarrow> bool" where
  "deletes delete \<longleftrightarrow> (\<forall>i lsn. delete i lsn = Ok Missing \<or> (\<exists>n. delete i lsn = Ok (Deleted n)))"

lemma deletes_evict:
  assumes "deletes delete" and "idle_ok st"
  shows "rbind (delete v lsn) (\<lambda>result. catalog_evict result v st) = Ok (dropped v st)"
  using assms(1) [unfolded deletes_def, rule_format, of v lsn] assms(2)
  by (auto simp: catalog_evict_def disk_remove_Ok idle_ok_def directory_ok_def)

lemma eligible_smaller:
  assumes "idle_ok st" and "eligible ex st v"
  shows "length (ds_slots (dropped v st)) < length (ds_slots st)"
  using assms length_delete [of "ds_slots st" v] by (auto simp: idle_ok_def directory_ok_def placed_def eligible_def simp del: map_of_eq_Some_iff)

lemma eligible_idle: "idle_ok st \<Longrightarrow> eligible ex st i \<longleftrightarrow> Some i \<noteq> ex \<and> map_of (ds_slots st) i \<noteq> None"
  by (simp add: eligible_def excluded_def idle_ok_def)

lemma trim_returns:
  assumes "deletes delete" and "idle_ok st" and "2 * length (ds_slots st) \<le> usize_max"
  shows "\<exists>st'. catalog_trim delete disk st = (Some (Ok st') :: ('s cache_error, _) res option)"
  using assms(2,3)
proof (induction "length (ds_slots st)" arbitrary: st rule: less_induct)
  case less
  show ?case
  proof (cases "ds_bytes st \<le> dk_capacity disk \<and> length (ds_slots st) \<le> dk_entries disk")
    case True
    then show ?thesis by (subst catalog_trim.simps) simp
  next
    case False
    have dir: "directory_ok st" using less.prems(1) by (simp add: idle_ok_def)
    obtain v u where v: "disk_victim (dk_policy disk) None st = (Ok (v, u) :: ('s cache_error, _) res)" "swept st u" "victim_right (dk_policy disk) None st v"
      using disk_victim_found [OF dir less.prems(2)] by blast
    have u: "idle_ok u" using swept_idle [OF v(2) less.prems(1)] .
    show ?thesis
    proof (cases v)
      case None
      then have "fst x \<notin> fst ` set (ds_slots st)" for x :: "chunk_id \<times> slot"
        using v(3) eligible_idle [OF less.prems(1), of None "fst x"] by (simp add: victim_right_def map_of_eq_None_iff)
      then have "ds_slots st = []" by (metis image_eqI list.set_sel(1))
      then show ?thesis using False dir by (simp add: directory_ok_def counted_def)
    next
      case (Some x)
      obtain w lsn where x: "x = (w, lsn)" by (cases x)
      have "eligible None u w" using v(3) Some x swept_eligible [OF v(2)] by (simp add: victim_right_def)
      then have less': "length (ds_slots (dropped w u)) < length (ds_slots st)" using eligible_smaller [OF u] swept_fixed(9) [OF v(2)] by metis
      then obtain st' where "catalog_trim delete disk (dropped w u) = (Some (Ok st') :: ('s cache_error, _) res option)"
        using less.hyps [OF less' removed_idle [OF u]] less.prems(2) by auto
      then show ?thesis using False v(1) Some x deletes_evict [OF assms(1) u] by (subst catalog_trim.simps) auto
    qed
  qed
qed

lemma only_fits:
  assumes ok: "disk_run_ok disk (st, [])" and idle: "idle_ok st" and none: "\<And>j. \<not> eligible (Some i) st j"
    and len: "len \<le> dk_capacity disk" and entries: "0 < dk_entries disk"
  shows "ds_bytes st + (len - old_len st i) \<le> dk_capacity disk \<and> length (ds_slots st) + of_bool (map_of (ds_slots st) i = None) \<le> dk_entries disk"
proof -
  have all: "fst x = i" if "x \<in> set (ds_slots st)" for x
    using none [of "fst x"] that eligible_idle [OF idle, of "Some i" "fst x"] by (auto simp: map_of_eq_None_iff)
  have d: "distinct (map fst (ds_slots st))" using ok by (simp add: disk_run_ok_def directory_ok_def placed_def)
  have bytes: "ds_bytes st = total (\<lambda>s. unat (sl_len s)) (ds_slots st)" using ok by (simp add: disk_run_ok_def directory_ok_def counted_def)
  show ?thesis
  proof (cases "ds_slots st")
    case Nil
    then show ?thesis using bytes len entries by simp
  next
    case (Cons x xs)
    then have "xs = []" using all d by (cases xs) auto
    then obtain s where "ds_slots st = [(i, s)]" using Cons all by (cases x) auto
    then show ?thesis using bytes len entries ok unfolding disk_run_ok_def within_def by (simp, linarith)
  qed
qed

lemma admit_returns:
  assumes del: "deletes delete" and len: "len \<le> dk_capacity disk" and entries: "0 < dk_entries disk"
    and room: "\<And>st. us_free_segments (usage st) * dk_segment_size disk \<ge> sat_add (sat_add (dk_reserve disk) 0) allocation"
    and ok: "disk_run_ok disk (st, [])" and size: "2 * length (ds_slots st) \<le> usize_max"
  shows "\<exists>st'. write_admit delete usage disk allocation i len st =
    (Some (Ok (Reserved \<lparr> rv_id = i, rv_len = of_nat len \<rparr>, st')) :: ('s cache_error, _) res option)"
  using ok size
proof (induction "length (ds_slots st)" arbitrary: st rule: less_induct)
  case less
  have idle: "idle_ok st" using less.prems(1) by (simp add: disk_run_ok_def idle_ok_def)
  note counts = idle_counts [OF idle]
  have active: "ds_active st = []" using idle by (simp add: idle_ok_def)
  show ?case
  proof (cases "ds_bytes st + (len - old_len st i) \<le> dk_capacity disk \<and> length (ds_slots st) + of_bool (map_of (ds_slots st) i = None) \<le> dk_entries disk")
    case True
    then show ?thesis using counts active room by (subst write_admit.simps) (simp add: write_decide_def Let_def)
  next
    case False
    have dir: "directory_ok st" using idle by (simp add: idle_ok_def)
    obtain v u where v: "disk_victim (dk_policy disk) (Some i) st = (Ok (v, u) :: ('s cache_error, _) res)" "swept st u"
        "victim_right (dk_policy disk) (Some i) st v"
      using disk_victim_found [OF dir less.prems(2)] by blast
    have u: "idle_ok u" using swept_idle [OF v(2) idle] .
    obtain w lsn where w: "v = Some (w, lsn)" "eligible (Some i) u w"
      using v(3) only_fits [OF less.prems(1) idle _ len entries] False swept_eligible [OF v(2)]
      by (cases v) (auto simp: victim_right_def)
    have smaller: "length (ds_slots (dropped w u)) < length (ds_slots st)" using eligible_smaller [OF u w(2)] swept_fixed(9) [OF v(2)] by simp
    have "disk_run_ok disk (dropped w u, [])" using removed_run [OF swept_run [OF v(2) less.prems(1)]] u by (simp add: idle_ok_def)
    then obtain st' where "write_admit delete usage disk allocation i len (dropped w u) =
        (Some (Ok (Reserved \<lparr> rv_id = i, rv_len = of_nat len \<rparr>, st')) :: ('s cache_error, _) res option)"
      using less.hyps [OF smaller] less.prems(2) smaller by auto
    moreover have "write_decide disk (usage st) (\<lambda>_. False) 0 allocation i len st = (Ok (Evict w lsn, u) :: ('s cache_error, _) res)"
      using False counts active room v(1) w(1) by (auto simp: write_decide_def Let_def)
    ultimately show ?thesis using deletes_evict [OF del u] by (subst write_admit.simps) simp
  qed
qed


section \<open>A run\<close>

definition run_disk :: disk where
  "run_disk = \<lparr> dk_capacity = 100, dk_entries = 2, dk_reserve = 4096, dk_segment_size = 1024, dk_policy = DiskSieve \<rparr>"

definition run_id :: chunk_id where
  "run_id = ChunkId (replicate 16 1)"

definition run_writing :: disk_state where
  "run_writing = disk_state_new \<lparr> ds_active := [(run_id, \<lparr> aw_extra = 60, aw_new = True, aw_allocation = 64 \<rparr>)], ds_extra := 60, ds_new := 1, ds_allocation := 64 \<rparr>"

definition run_written :: disk_state where
  "run_written = disk_state_new \<lparr> ds_slots := [(run_id, \<lparr> sl_lsn = 5, sl_len = 60, sl_position = 1, sl_visited = False \<rparr>)],
     ds_order := [(1, run_id)], ds_clock := 1, ds_bytes := 60 \<rparr>"

lemma run_opened: "disk_reach run_disk (disk_state_new, [])"
proof (rule disk_loaded [of "\<lambda>_. 0" "[]" 1 "[disk_state_new]" disk_state_new])
  show "catalog_trim (\<lambda>_ _. Ok Missing) run_disk disk_state_new = Some (Ok disk_state_new)"
    by (subst catalog_trim.simps) (simp add: run_disk_def disk_state_new_def)
qed simp_all

lemma run_admitted: "disk_reach run_disk (run_writing, [\<lparr> rv_id = run_id, rv_len = 60 \<rparr>])"
proof -
  have "write_decide run_disk \<lparr> us_segments = 16, us_free_segments = 16 \<rparr> (\<lambda>_. False) 0 64 run_id 60 disk_state_new
      = (Ok (Reserved \<lparr> rv_id = run_id, rv_len = 60 \<rparr>, run_writing) :: (unit cache_error, _) res)"
    by (simp add: write_decide_def run_disk_def run_writing_def disk_state_new_def sat_add_def usize_max_def)
  from disk_moved [OF run_opened step_decide [OF _ _ this]] show ?thesis by (simp add: run_disk_def)
qed

lemma run_committed: "disk_reach run_disk (run_written, [])"
proof -
  have "reservation_commit \<lparr> rv_id = run_id, rv_len = 60 \<rparr> 5 run_writing = (Ok ([], run_written) :: (unit, _) res)"
    by (simp add: reservation_commit_def disk_insert_def disk_remove_def disk_finish_def checked_add_def checked_sub_def run_writing_def run_written_def disk_state_new_def)
  from disk_moved [OF run_admitted step_commit [OF _ this]] show ?thesis by simp
qed

theorem catalog_within_limits_witness:
  "\<exists>x. reservation_commit \<lparr> rv_id = run_id, rv_len = 60 \<rparr> 5 run_writing = (Ok x :: (unit, _) res) \<and> ds_bytes run_writing + ds_extra run_writing \<le> dk_capacity run_disk"
  using catalog_within_limits [OF run_admitted, of 5] by (simp add: run_writing_def disk_state_new_def)

theorem disk_victim_exact_witness:
  "\<exists>v st'. disk_victim DiskSieve None run_written = (Ok (v, st') :: (unit, _) res) \<and> v = Some (run_id, 5)"
proof -
  have ok: "directory_ok run_written" using disk_reach_ok [OF run_committed] by (simp add: disk_run_ok_def)
  have "map_of (ds_slots run_written) i = (if i = run_id then Some \<lparr> sl_lsn = 5, sl_len = 60, sl_position = 1, sl_visited = False \<rparr> else None)" for i
    by (simp add: run_written_def disk_state_new_def)
  moreover have "ds_active run_written = []" "length (ds_slots run_written) = 1" by (simp_all add: run_written_def disk_state_new_def)
  ultimately show ?thesis
    using disk_victim_exact [OF ok, of DiskSieve None, where 'e = unit]
    by (auto simp: victim_right_def eligible_def excluded_def usize_max_def split: option.splits if_splits)
qed


end
