(* ===== verification/Spec2Isabelle.thy ===== *)
theory Spec2Isabelle
  imports Segment_Validator Index Layout_Crash Pool_Props Mem_Props Store_Budget Catalog_Props
begin

text \<open>
  A verification library for Moat, a log-structured chunk store with a hybrid cache on top of it. Source paths
  are relative to \<^verbatim>\<open>src/core\<close>.

  \<^bold>\<open>The program.\<close> \<^verbatim>\<open>moat-common\<close> has alignment, checksums, chunk identifiers and the buffer pool.
  \<^verbatim>\<open>moat-engine\<close> packs records into frames, frames into segments, and segments onto a device; a segment ends
  in a footer that repeats the frame metadata, and recovery scans what a crash left. \<^verbatim>\<open>moat-cache-memory\<close> is a
  sharded resident cache with five replacement policies. \<^verbatim>\<open>moat-cache-store\<close> admits requests against budgets.
  \<^verbatim>\<open>moat-cache\<close> joins memory and disk: it wraps a record in an envelope, which becomes the value of a chunk, and
  keeps a directory with capacity limits for every disk.

  \<^bold>\<open>Conventions.\<close> \<open>Prelude\<close> has the machine types (words of their width), outcomes and slices. A Rust function
  is a HOL function into \<open>res\<close>: \<open>Ok\<close> and \<open>Err\<close> are \<open>Result\<close>, \<open>Panic\<close> is an index out of range, a failed
  \<open>expect\<close> or an arithmetic underflow. The resident cache uses the option monad instead, with \<open>None\<close> for a
  panic or a loop that does not end. Lengths of buffers are naturals; they are compared with 2 to the 64 where
  the code checks for overflow. Libraries are parameters with named laws: the CRC32C crate (\<open>crc_library\<close>,
  \<open>crc_detects_byte\<close>, both discharged for the CRC of RFC 3720), the hash tables and slabs of the resident cache
  (\<open>cache_libraries\<close>, discharged for lists), the device (\<open>device_ops\<close>) and the kernel's answers to mappings.

  \<^bold>\<open>Formats.\<close>
  \<^item> \<open>Align\<close>, \<open>Checksum\<close>, \<open>Codec\<close>, \<open>Chunk_Id\<close> model \<^verbatim>\<open>moat-common/src/{align,checksum,chunk_id}.rs\<close> and
    \<^verbatim>\<open>moat-engine/src/codec.rs\<close>: the mask expressions are rounding, block verification accepts exactly matching
    blocks, text parsing inverts printing. One lemma shows that a text of 36 hyphens parses.
  \<^item> \<open>Frame_Header\<close>, \<open>Frame_Record\<close>, \<open>Frame_Builder\<close>, \<open>Frame_Decode\<close> model \<^verbatim>\<open>moat-engine/src/frame\<close>. \<open>Frame_Admission\<close>,
    \<open>Frame_Encode\<close>, \<open>Frame_Geometry\<close>, \<open>Frame_Validity\<close> and \<open>Frame_Roundtrip\<close> show that admission is exact, placement
    optimal, an accepted frame well formed, a changed byte detected, and decoding the inverse of encoding.
  \<^item> \<open>Segment_Header\<close>, \<open>Segment_Builder\<close>, \<open>Segment_Footer\<close>, \<open>Segment_Recovery\<close> model \<^verbatim>\<open>moat-engine/src/segment\<close>.
    \<open>Segment_Seal\<close>, \<open>Segment_Roundtrip\<close> and \<open>Segment_Validator\<close> show that the two footer encoders agree, the footer
    always fits and decodes to the appended frames, the budgeted validator decides as the complete decoder, and
    a scan of an unsealed segment recovers exactly the frames written.
  \<^item> \<open>Index\<close> models \<^verbatim>\<open>moat-engine/src/pipeline/index.rs\<close>: the newest entry wins in every completion order.
  \<^item> \<open>Layout\<close>, \<open>Layout_Format\<close>, \<open>Layout_Crash\<close> model \<^verbatim>\<open>moat-engine/src/engine/{layout,device}.rs\<close>: the superblock
    round trip, disjoint segment slots, fresh sequence numbers, and a crash at any point of formatting.

  \<^bold>\<open>Memory.\<close>
  \<^item> \<open>Arena\<close>, \<open>Buddy\<close>, \<open>Pool\<close> model \<^verbatim>\<open>moat-common/src/{arena,pool}.rs\<close>; \<open>Buddy_Lists\<close>, \<open>Buddy_Heap\<close>, \<open>Buddy_Alloc\<close>,
    \<open>Buddy_Seed\<close>, \<open>Pool_Arenas\<close>, \<open>Pool_Books\<close>, \<open>Pool_Safety\<close> and \<open>Pool_Props\<close> carry the proofs: outstanding buffers
    never overlap while foreign threads release step by step, allocation returns, and a drained pool serves
    every size again.

  \<^bold>\<open>Caches.\<close>
  \<^item> \<open>Mem_Policy\<close> and \<open>Mem_Cache\<close> model \<^verbatim>\<open>moat-cache-memory/src/{policy,cache,entry}.rs\<close>. \<open>Mem_History\<close> treats the ghost
    list and the frequency sketch, \<open>Mem_Queues\<close> and \<open>Mem_Victim\<close> the intrusive lists and every policy, \<open>Mem_Shard\<close>,
    \<open>Mem_Store\<close>, \<open>Mem_Ops\<close>, \<open>Mem_Contract\<close> the shards and operations, \<open>Mem_Runs\<close> the step relation over operations
    and handles, with an abstract map beside it. \<open>Mem_Props\<close> has the results: the cache refines a map that may
    forget, insertions account for every version, handles pin under LRU, budgets hold, every loop ends.
  \<^item> \<open>Store_Budget\<close> models \<^verbatim>\<open>moat-cache-store/src/budget.rs\<close>: operations are sequences of atomic updates that
    interleave freely; every counter equals the outstanding credit.
  \<^item> \<open>Cache_Envelope\<close> models \<^verbatim>\<open>moat-cache/src/{bytes,envelope,error}.rs\<close>: the decoder accepts exactly the encoder's
    images and returns views of the same buffer.
  \<^item> \<open>Disk_Catalog\<close> models \<^verbatim>\<open>moat-cache/src/catalog.rs\<close>; \<open>Catalog_Props\<close> shows that live and reserved entries stay
    within the limits, that a victim is found whenever one is eligible, and that admission ends.

  \<^bold>\<open>Bounds and termination.\<close> No theorem depends on fuel that could run out: loops are structural recursions,
  terminating functions, or partial functions for which returning is proved. The validator theorem states the
  number of steps it needs; the SIEVE sweep over the disk directory has the bound of the source, twice the number
  of slots, which is proved to suffice. Counters of the resident cache are 64-bit words and wrap.

  \<^bold>\<open>Not modelled.\<close> The pipeline and engine state machines, the registry, the scheduler and the hybrid cache as
  futures: they are compositions of the parts above over asynchronous queues, locks and channels. Queues, devices,
  workers, nodes and chunk delivery: threads and system calls. Placement: IEEE doubles and a library logarithm.
  Fingerprints: a library hash of a fixed header and the key. Benchmarks, examples and build tasks. Within modelled
  parts, memory ordering is sequentially consistent, reference counts of shared allocations are left out, and
  counters that only statistics read (allocations of dropped records, disk evictions) are not kept.
\<close>

end
